(* ===== verification/Unp_Prelude.thy ===== *)
theory Unp_Prelude
  imports Main "HOL-Library.Monad_Syntax"
begin

text \<open>
  Shared vocabulary of the development: C++ machine integers on \<open>nat\<close> and \<open>int\<close> with
  the wrap-around written out, memory blocks as lists with checked reads and writes, and the
  generic list facts the component theories use.

  A C++ operation whose execution can leave defined behaviour (a write past a block, a
  dereferenced dangling or null pointer, a failing \<open>assert\<close>, an uncaught exception) is
  a function into \<open>option\<close>, with \<open>None\<close> for that outcome; error codes that the source
  returns are ordinary values.
\<close>

named_theorems uint_simps \<open>wrap-around removed when the operands are in range\<close>
named_theorems mem_simps \<open>checked block reads and writes, evaluated inside the block\<close>

subsection \<open>Machine integers\<close>

type_synonym addr = nat
type_synonym bytes = "char list"

definition u32 :: "nat \<Rightarrow> nat" where
  "u32 n = n mod 2 ^ 32"

definition u32_sub :: "nat \<Rightarrow> nat \<Rightarrow> nat" where
  "u32_sub a b = (a + 2 ^ 32 - b mod 2 ^ 32) mod 2 ^ 32"

definition u64 :: "nat \<Rightarrow> nat" where
  "u64 n = n mod 2 ^ 64"

definition u64_sub :: "nat \<Rightarrow> nat \<Rightarrow> nat" where
  "u64_sub a b = (a + 2 ^ 64 - b mod 2 ^ 64) mod 2 ^ 64"

definition i32 :: "int \<Rightarrow> int" where
  "i32 x = (x + 2 ^ 31) mod 2 ^ 32 - 2 ^ 31"

definition i64 :: "int \<Rightarrow> int" where
  "i64 x = (x + 2 ^ 63) mod 2 ^ 64 - 2 ^ 63"

lemma wrap_sub_id:
  fixes a b m :: nat
  assumes "b \<le> a" and "a < m"
  shows "(a + m - b mod m) mod m = a - b"
proof -
  have eq: "a + m - b mod m = (a - b) + m" using assms by simp
  show ?thesis unfolding eq using assms by (simp only: mod_add_self2 mod_less less_imp_diff_less)
qed

lemma u32_less [simp]: "u32 n < 4294967296"
  by (simp add: u32_def)

lemma u32_id [uint_simps]: "n < 4294967296 \<Longrightarrow> u32 n = n"
  by (simp add: u32_def)

lemma u32_sub_less [simp]: "u32_sub a b < 4294967296"
  by (simp add: u32_sub_def)

lemma u32_sub_id [uint_simps]:
  "b \<le> a \<Longrightarrow> a < 4294967296 \<Longrightarrow> u32_sub a b = a - b"
  using wrap_sub_id [of b a "2 ^ 32"] by (simp add: u32_sub_def)

lemma u64_id [uint_simps]: "n < 18446744073709551616 \<Longrightarrow> u64 n = n"
  by (simp add: u64_def)

lemma u64_sub_id [uint_simps]:
  "b \<le> a \<Longrightarrow> a < 18446744073709551616 \<Longrightarrow> u64_sub a b = a - b"
  using wrap_sub_id [of b a "2 ^ 64"] by (simp add: u64_sub_def)

lemma i32_id [uint_simps]: "- 2147483648 \<le> x \<Longrightarrow> x < 2147483648 \<Longrightarrow> i32 x = x"
  by (simp add: i32_def)

lemma i64_id [uint_simps]:
  "- 9223372036854775808 \<le> x \<Longrightarrow> x < 9223372036854775808 \<Longrightarrow> i64 x = x"
  by (simp add: i64_def)

subsection \<open>Memory blocks\<close>

abbreviation NUL :: char where
  "NUL \<equiv> CHR 0x00"

definition calloc :: "nat \<Rightarrow> bytes" where
  "calloc n = replicate n NUL"

text \<open>A write of the bytes \<open>d\<close> at position \<open>pos\<close>, and a read of \<open>n\<close> bytes there.\<close>

definition memcpy :: "'a list \<Rightarrow> nat \<Rightarrow> 'a list \<Rightarrow> 'a list option" where
  "memcpy dst pos d =
     (if pos + length d \<le> length dst then Some (take pos dst @ d @ drop (pos + length d) dst)
      else None)"

definition memread :: "'a list \<Rightarrow> nat \<Rightarrow> nat \<Rightarrow> 'a list option" where
  "memread src pos n = (if pos + n \<le> length src then Some (take n (drop pos src)) else None)"

text \<open>Array and vector indexing with a C++ \<open>int\<close>: out of range is undefined behaviour.\<close>

definition at :: "'a list \<Rightarrow> int \<Rightarrow> 'a option" where
  "at xs i = (if 0 \<le> i \<and> i < int (length xs) then Some (xs ! nat i) else None)"

definition strlen :: "bytes \<Rightarrow> nat" where
  "strlen s = length (takeWhile (\<lambda>c. c \<noteq> NUL) s)"

lemma length_calloc [simp]: "length (calloc n) = n"
  by (simp add: calloc_def)

lemma memcpy_in [mem_simps]:
  "pos + length d \<le> length dst \<Longrightarrow>
     memcpy dst pos d = Some (take pos dst @ d @ drop (pos + length d) dst)"
  by (simp add: memcpy_def)

lemma memread_in [mem_simps]:
  "pos + n \<le> length src \<Longrightarrow> memread src pos n = Some (take n (drop pos src))"
  by (simp add: memread_def)

lemma memcpy_length: "memcpy dst pos d = Some r \<Longrightarrow> length r = length dst"
  by (auto simp: memcpy_def split: if_splits)

lemma at_in [mem_simps]: "0 \<le> i \<Longrightarrow> i < int (length xs) \<Longrightarrow> at xs i = Some (xs ! nat i)"
  by (simp add: at_def)

lemma at_nat [mem_simps]: "i < length xs \<Longrightarrow> at xs (int i) = Some (xs ! i)"
  by (simp add: at_def)

lemma at_SomeD: "at xs i = Some x \<Longrightarrow> 0 \<le> i \<and> i < int (length xs) \<and> x = xs ! nat i"
  by (auto simp: at_def split: if_splits)

subsection \<open>Lists\<close>

lemma take_append_slice:
  assumes "m \<le> pos" and "pos \<le> length xs"
  shows "take (pos + length d - m) (drop m (take pos xs @ d @ ys)) = take (pos - m) (drop m xs) @ d"
proof -
  have "drop m (take pos xs @ d @ ys) = take (pos - m) (drop m xs) @ d @ ys"
    using assms by (simp add: drop_take)
  moreover have "pos + length d - m = length (take (pos - m) (drop m xs) @ d)"
    using assms by simp
  ultimately show ?thesis by (metis append.assoc append_eq_conv_conj)
qed

lemma sum_list_map_length: "sum_list (map length xss) = length (concat xss)"
  by (induction xss) auto

lemma butlast_snoc_last: "xs \<noteq> [] \<Longrightarrow> butlast xs @ [last xs] = xs"
  by (rule append_butlast_last_id)

subsection \<open>Results that satisfy a predicate\<close>

text \<open>What holds of every defined result of an operation, and how it passes through a sequence.\<close>

definition ok_opt :: "('a \<Rightarrow> bool) \<Rightarrow> 'a option \<Rightarrow> bool" where
  "ok_opt P m \<longleftrightarrow> (\<forall>x. m = Some x \<longrightarrow> P x)"

lemma ok_opt_simps [simp]: "ok_opt P None" "ok_opt P (Some x) \<longleftrightarrow> P x"
  by (simp_all add: ok_opt_def)

lemma ok_opt_True: "ok_opt (\<lambda>_. True) m"
  by (simp add: ok_opt_def)

lemma ok_optD: "ok_opt P m \<Longrightarrow> m = Some x \<Longrightarrow> P x"
  by (simp add: ok_opt_def)

lemma ok_bindI:
  assumes "ok_opt Q m" and "\<And>x. Q x \<Longrightarrow> ok_opt P (f x)"
  shows "ok_opt P (Option.bind m f)"
  using assms by (cases m) auto

end
