(* ===== verification/Kmp.thy ===== *)
theory Kmp
  imports Unp_Prelude "HOL-Library.Sublist"
begin

text \<open>
  \<open>src/util/substring_search/KMP.cpp\<close>: the substring search that
  \<open>Range::find\<close> of \<open>string_piece.h\<close> calls (and through it the URL and cookie
  parsers). The failure table is built in one pass that never follows a shorter border after a
  mismatch, so its entries are borders but not always the longest ones: the search is sound for
  every pattern, and complete for the patterns whose table is exact.
\<close>

subsection \<open>The search table\<close>

text \<open>
  One iteration of the loop of \<open>build_search_table\<close> appends entry \<open>i\<close>: the last
  entry plus one when the previous comparison succeeded, zero otherwise.
\<close>

function build_loop :: "bytes \<Rightarrow> nat \<Rightarrow> nat \<Rightarrow> int list \<Rightarrow> bool \<Rightarrow> int list option" where
  "build_loop pattern len i search_table isLastEqual =
     (if i < len then
        do {
          let search_table' =
            search_table @ [if isLastEqual then last search_table + 1 else 0];
          k \<leftarrow> at search_table' (int i);
          p_i \<leftarrow> at pattern (int i);
          p_k \<leftarrow> at pattern k;
          build_loop pattern len (Suc i) search_table' (p_i = p_k)
        }
      else Some search_table)"
  by pat_completeness auto
termination
  by (relation "measure (\<lambda>(pattern, len, i, search_table, isLastEqual). len - i)") auto

declare build_loop.simps [simp del]

definition build_search_table :: "bytes \<Rightarrow> nat \<Rightarrow> int list option" where
  "build_search_table pattern len = build_loop pattern len 1 [- 1] True"

subsection \<open>The search\<close>

text \<open>The inner \<open>while\<close> that moves \<open>j\<close> back along the table.\<close>

partial_function (option) fall_back :: "bytes \<Rightarrow> int list \<Rightarrow> char \<Rightarrow> int \<Rightarrow> int option" where
  "fall_back pattern search_table t j =
     (if j = - 1 then Some j
      else do {
        p \<leftarrow> at pattern j;
        if t \<noteq> p
        then do { j' \<leftarrow> at search_table j; fall_back pattern search_table t j' }
        else Some j
      })"

declare fall_back.simps [code]

text \<open>
  The outer loop over the remaining text, with the index \<open>i\<close> of its first byte. The result
  is computed in \<open>size_t\<close> and returned as \<open>int\<close>.
\<close>

fun kmp_loop :: "bytes \<Rightarrow> int list \<Rightarrow> bytes \<Rightarrow> nat \<Rightarrow> int \<Rightarrow> int option" where
  "kmp_loop pattern search_table [] i j = Some (- 1)"
| "kmp_loop pattern search_table (t # text) i j =
     do {
       p \<leftarrow> at pattern j;
       if t = p then
         if j = i32 (int (length pattern)) - 1
         then Some (i32 (int i - i32 (int (length pattern)) + 1))
         else kmp_loop pattern search_table text (Suc i) (j + 1)
       else do {
         j' \<leftarrow> fall_back pattern search_table t j;
         kmp_loop pattern search_table text (Suc i) (if j' = - 1 then 0 else j' + 1)
       }
     }"

text \<open>
  The overload with explicit lengths; a null pointer is \<open>None\<close>, a pointer with its length is
  the block it denotes.
\<close>

definition kmp_search_len :: "bytes option \<Rightarrow> bytes option \<Rightarrow> int option" where
  "kmp_search_len text pattern =
     (case (text, pattern) of
        (Some t, Some p) \<Rightarrow>
          if length t = 0 \<or> length p = 0 then Some (- 1)
          else do {
            search_table \<leftarrow> build_search_table p (length p);
            kmp_loop p search_table t 0 0
          }
      | _ \<Rightarrow> Some (- 1))"

text \<open>The overload on C strings: the lengths are those up to the terminating NUL.\<close>

definition kmp_search :: "bytes option \<Rightarrow> bytes option \<Rightarrow> int option" where
  "kmp_search text pattern =
     (case (text, pattern) of
        (Some t, Some p) \<Rightarrow>
          if strlen t = 0 \<or> strlen p = 0 then Some (- 1)
          else do {
            search_table \<leftarrow> build_search_table (take (strlen p) p) (strlen p);
            kmp_loop (take (strlen p) p) search_table (take (strlen t) t) 0 0
          }
      | _ \<Rightarrow> Some (- 1))"

subsection \<open>What a table promises\<close>

text \<open>Entry \<open>k\<close> is the length of a proper border of the first \<open>k\<close> bytes.\<close>

definition border_at :: "bytes \<Rightarrow> int list \<Rightarrow> nat \<Rightarrow> bool" where
  "border_at pattern tab k \<longleftrightarrow>
     0 \<le> tab ! k \<and> tab ! k < int k \<and> suffix (take (nat (tab ! k)) pattern) (take k pattern)"

definition border_table :: "bytes \<Rightarrow> int list \<Rightarrow> bool" where
  "border_table pattern tab \<longleftrightarrow>
     length tab = length pattern \<and> tab ! 0 = - 1 \<and>
     (\<forall>k. 0 < k \<longrightarrow> k < length pattern \<longrightarrow> border_at pattern tab k)"

text \<open>An exact table holds the longest proper border of every prefix.\<close>

definition exact_table :: "bytes \<Rightarrow> int list \<Rightarrow> bool" where
  "exact_table pattern tab \<longleftrightarrow>
     border_table pattern tab \<and>
     (\<forall>k m. k < length pattern \<longrightarrow> m < k \<longrightarrow> suffix (take m pattern) (take k pattern) \<longrightarrow>
        int m \<le> tab ! k)"

definition occurs_at :: "bytes \<Rightarrow> bytes \<Rightarrow> nat \<Rightarrow> bool" where
  "occurs_at pattern text q \<longleftrightarrow>
     q + length pattern \<le> length text \<and> take (length pattern) (drop q text) = pattern"

subsection \<open>Borders\<close>

lemma suffix_take_snoc:
  assumes "suffix (take m p) xs" and "m < length p" and "p ! m = t"
  shows "suffix (take (Suc m) p) (xs @ [t])"
  using assms by (simp add: take_Suc_conv_app_nth)

lemma suffix_take_snocD:
  assumes "suffix (take m p) (xs @ [t])" and "0 < m" and "m \<le> length p"
  shows "suffix (take (m - 1) p) xs" and "p ! (m - 1) = t"
proof -
  obtain n where m: "m = Suc n" using assms(2) by (cases m) auto
  then have "take m p = take n p @ [p ! n]" using assms(3) by (simp add: take_Suc_conv_app_nth)
  then show "suffix (take (m - 1) p) xs" and "p ! (m - 1) = t" using assms(1) m by simp_all
qed

declare suffix_snoc [simp del]

lemma occurs_at_suffix:
  "occurs_at p (xs @ ys) (length xs - length p) \<longleftrightarrow> suffix p xs"
  if "length p \<le> length xs" for xs ys
proof -
  have "take (length p) (drop (length xs - length p) (xs @ ys)) = drop (length xs - length p) xs"
    using that by simp
  then show ?thesis
    using that by (auto simp: occurs_at_def suffix_def intro: append_take_drop_id [symmetric])
      (metis append_take_drop_id)
qed

lemma at_table_border:
  assumes "border_table p tab" and "0 \<le> j" and "j < int (length p)"
  shows "at tab j = Some (tab ! nat j)" and "- 1 \<le> tab ! nat j" and "tab ! nat j < j"
    and "tab ! nat j \<noteq> - 1 \<Longrightarrow> suffix (take (nat (tab ! nat j)) p) (take (nat j) p)"
  using assms by (auto simp: border_table_def border_at_def at_def nat_less_iff
      dest: spec [where x = "nat j"])

subsection \<open>The table that the code builds\<close>

text \<open>What holds before iteration \<open>i\<close>; \<open>e\<close> is the entry the iteration appends.\<close>

definition build_inv :: "bytes \<Rightarrow> nat \<Rightarrow> int list \<Rightarrow> bool \<Rightarrow> bool" where
  "build_inv p i tab eq \<longleftrightarrow>
     length tab = i \<and> 0 < i \<and> i \<le> length p \<and> tab ! 0 = - 1 \<and>
     (\<forall>k. 0 < k \<longrightarrow> k < i \<longrightarrow> border_at p tab k) \<and>
     (let e = if eq then last tab + 1 else 0
      in 0 \<le> e \<and> e < int i \<and> suffix (take (nat e) p) (take i p))"

lemma border_at_snoc: "k < length tab \<Longrightarrow> border_at p (tab @ [e]) k = border_at p tab k"
  by (simp add: border_at_def nth_append)

lemma build_inv_step:
  assumes inv: "build_inv p i tab eq" and "i < length p"
  defines "e \<equiv> if eq then last tab + 1 else 0"
  shows "0 \<le> e" and "e < int i" and "build_inv p (Suc i) (tab @ [e]) (p ! i = p ! nat e)"
proof -
  have e: "0 \<le> e" "e < int i" "suffix (take (nat e) p) (take i p)"
    using inv by (simp_all add: build_inv_def e_def Let_def)
  then show "0 \<le> e" and "e < int i" by simp_all
  have len: "length tab = i" using inv by (simp add: build_inv_def)
  have new: "border_at p (tab @ [e]) i" using e len by (auto simp: border_at_def nth_append)
  have ext: "suffix (take (nat (e + 1)) p) (take (Suc i) p)" if "p ! i = p ! nat e"
  proof -
    have "suffix (take (Suc (nat e)) p) (take i p @ [p ! i])"
      using e that assms(2) by (intro suffix_take_snoc) auto
    then show ?thesis using e assms(2) by (simp add: take_Suc_conv_app_nth nat_add_distrib)
  qed
  have old: "border_at p (tab @ [e]) k" if "0 < k" "k < Suc i" for k
    using that inv new len by (cases "k = i") (auto simp: build_inv_def border_at_snoc)
  show "build_inv p (Suc i) (tab @ [e]) (p ! i = p ! nat e)"
    using inv assms(2) e ext old len
    by (auto simp: build_inv_def Let_def nth_append)
qed

lemma build_loop_table:
  "build_inv p i tab eq \<Longrightarrow>
     \<exists>tab'. build_loop p (length p) i tab eq = Some tab' \<and> border_table p tab'"
proof (induction "length p - i" arbitrary: i tab eq)
  case 0
  then show ?case
    by (subst build_loop.simps) (auto simp: build_inv_def border_table_def)
next
  case (Suc n)
  let ?e = "if eq then last tab + 1 else 0"
  have i: "i < length p" and len: "length tab = i"
    using Suc.hyps(2) Suc.prems by (auto simp: build_inv_def)
  note step = build_inv_step [OF Suc.prems i]
  have "\<exists>tab'. build_loop p (length p) (Suc i) (tab @ [?e]) (p ! i = p ! nat ?e) = Some tab' \<and>
      border_table p tab'"
    using Suc.hyps(2) by (intro Suc.hyps(1) step(3)) simp
  moreover have "build_loop p (length p) i tab eq =
      build_loop p (length p) (Suc i) (tab @ [?e]) (p ! i = p ! nat ?e)"
    using i len step(1,2) by (subst build_loop.simps) (auto simp: Let_def at_def nth_append)
  ultimately show ?case by simp
qed

lemma build_search_table_border:
  assumes "p \<noteq> []"
  shows "\<exists>tab. build_search_table p (length p) = Some tab \<and> border_table p tab"
proof -
  have "build_inv p 1 [- 1] True"
    using assms by (simp add: build_inv_def Let_def Suc_le_eq)
  then show ?thesis unfolding build_search_table_def by (rule build_loop_table)
qed

subsection \<open>The fall-back loop returns the next candidate\<close>

lemma fall_back_returns:
  assumes "border_table p tab" and "- 1 \<le> j" and "j < int (length p)"
  shows "\<exists>j'. fall_back p tab t j = Some j' \<and> - 1 \<le> j' \<and> j' \<le> j \<and>
    (j' \<noteq> - 1 \<longrightarrow> p ! nat j' = t \<and> suffix (take (nat j') p) (take (nat j) p))"
  using assms(2,3)
proof (induction "nat (j + 1)" arbitrary: j rule: less_induct)
  case less
  show ?case
  proof (cases "j = - 1 \<or> t = p ! nat j")
    case True
    then show ?thesis using less.prems by (subst fall_back.simps) (auto simp: at_def)
  next
    case False
    let ?k = "tab ! nat j"
    have j: "0 \<le> j" using False less.prems by simp
    note tab = at_table_border [OF assms(1) j less.prems(2)]
    have "\<exists>j'. fall_back p tab t ?k = Some j' \<and> - 1 \<le> j' \<and> j' \<le> ?k \<and>
      (j' \<noteq> - 1 \<longrightarrow> p ! nat j' = t \<and> suffix (take (nat j') p) (take (nat ?k) p))"
      using tab j less.prems by (intro less.hyps) auto
    moreover have "fall_back p tab t j = fall_back p tab t ?k"
      using False j less.prems tab(1) by (subst fall_back.simps) (simp add: at_def)
    ultimately show ?thesis using tab by (fastforce intro: suffix_order.trans)
  qed
qed

lemma fall_back_longest:
  assumes ex: "exact_table p tab" and "- 1 \<le> j" and "j < int (length p)"
    and "fall_back p tab t j = Some j'" and "int m \<le> j" and "suffix (take m p) (take (nat j) p)"
    and "p ! m = t"
  shows "int m \<le> j'"
  using assms(2-)
proof (induction "nat (j + 1)" arbitrary: j rule: less_induct)
  case less
  have bt: "border_table p tab" using ex by (simp add: exact_table_def)
  show ?case
  proof (cases "t = p ! nat j")
    case True
    then show ?thesis using less.prems by (subst (asm) fall_back.simps) (auto simp: at_def)
  next
    case False
    let ?k = "tab ! nat j"
    have j: "0 \<le> j" using less.prems by simp
    note tab = at_table_border [OF bt j less.prems(2)]
    have "m \<noteq> nat j" using False less.prems by auto
    then have "m < nat j" using less.prems(4) by simp
    then have mk: "int m \<le> ?k"
      using ex less.prems j unfolding exact_table_def by (simp add: nat_less_iff)
    have "suffix (take (nat ?k) p) (take (nat j) p)" using tab(4) mk by simp
    from suffix_length_suffix [OF less.prems(5) this]
    have "suffix (take m p) (take (nat ?k) p)"
      using mk tab(3) less.prems(2) by simp
    moreover have "fall_back p tab t j = fall_back p tab t ?k"
      using False j less.prems(2) tab(1) by (subst fall_back.simps) (simp add: at_def)
    ultimately show ?thesis
      using less.prems tab mk j by (intro less.hyps [of ?k]) auto
  qed
qed

subsection \<open>The search loop\<close>

text \<open>
  The loop has read \<open>pre\<close>, and \<open>j\<close> bytes of the pattern match its end. One mismatch
  moves \<open>j\<close> to a shorter such prefix extended by the byte just read.
\<close>

lemma mismatch_step:
  assumes "border_table p tab" and "0 \<le> j" and "j < int (length p)"
    and "suffix (take (nat j) p) pre" and "t \<noteq> p ! nat j"
  obtains j' where "fall_back p tab t j = Some j'" and "- 1 \<le> j'" and "j' < j"
    and "suffix (take (nat (if j' = - 1 then 0 else j' + 1)) p) (pre @ [t])"
proof -
  obtain j' where j': "fall_back p tab t j = Some j'" "- 1 \<le> j'" "j' \<le> j"
    "j' \<noteq> - 1 \<longrightarrow> p ! nat j' = t \<and> suffix (take (nat j') p) (take (nat j) p)"
    using fall_back_returns [OF assms(1), of j t] assms by auto
  have "j' \<noteq> j" using j' assms by auto
  moreover have "suffix (take (nat (if j' = - 1 then 0 else j' + 1)) p) (pre @ [t])"
  proof (cases "j' = - 1")
    case False
    then have "suffix (take (nat j') p) pre" using j' assms(4) by (blast intro: suffix_order.trans)
    then have "suffix (take (Suc (nat j')) p) (pre @ [t])"
      using False j' assms by (intro suffix_take_snoc) auto
    then show ?thesis using False j' by (simp add: nat_add_distrib)
  qed simp
  ultimately show ?thesis using that j' by auto
qed

lemma match_step:
  assumes "0 \<le> j" and "j < int (length p)" and "suffix (take (nat j) p) pre"
  shows "suffix (take (nat (j + 1)) p) (pre @ [p ! nat j])"
  using suffix_take_snoc [OF assms(3)] assms by (simp add: nat_add_distrib)

lemma found_occurs:
  assumes "0 < length p" and "suffix (take (length p - 1) p) pre" and "p ! (length p - 1) = t"
  shows "length p \<le> Suc (length pre)" and "occurs_at p (pre @ t # ts) (Suc (length pre) - length p)"
proof -
  have suf: "suffix p (pre @ [t])"
    using suffix_take_snoc [OF assms(2), of t] assms(1,3) by simp
  from suffix_length_le [OF this] show le: "length p \<le> Suc (length pre)" by simp
  show "occurs_at p (pre @ t # ts) (Suc (length pre) - length p)"
    using occurs_at_suffix [of p "pre @ [t]" ts] suf le by simp
qed

lemma kmp_loop_sound:
  assumes "border_table p tab" and "0 < length p" and "length p < 2147483648"
  shows "0 \<le> j \<Longrightarrow> j < int (length p) \<Longrightarrow> suffix (take (nat j) p) pre \<Longrightarrow>
    length (pre @ ts) < 2147483648 \<Longrightarrow>
    \<exists>r. kmp_loop p tab ts (length pre) j = Some r \<and>
      (r = - 1 \<or> 0 \<le> r \<and> occurs_at p (pre @ ts) (nat r))"
proof (induction ts arbitrary: pre j)
  case Nil
  then show ?case by simp
next
  case (Cons t ts)
  note IH = Cons.IH [of _ "pre @ [t]", simplified]
  show ?case
  proof (cases "t = p ! nat j")
    case True
    show ?thesis
    proof (cases "j = int (length p) - 1")
      case last: True
      have "nat j = length p - 1" using last assms(2) by simp
      then have "length p \<le> Suc (length pre)"
        and "occurs_at p (pre @ t # ts) (Suc (length pre) - length p)"
        using found_occurs(1) [of p pre t] found_occurs(2) [of p pre t ts] Cons.prems(3) True assms(2) by auto
      moreover from this(1) have "nat (int (length pre) - int (length p) + 1) = Suc (length pre) - length p"
        by simp
      ultimately show ?thesis
        using True last Cons.prems assms by (simp add: at_def i32_id)
    next
      case False
      then show ?thesis
        using IH [of "j + 1"] match_step [OF Cons.prems(1-3)] True Cons.prems assms
        by (simp add: at_def i32_id)
    qed
  next
    case False
    obtain j' where "fall_back p tab t j = Some j'" "- 1 \<le> j'" "j' < j"
      "suffix (take (nat (if j' = - 1 then 0 else j' + 1)) p) (pre @ [t])"
      using mismatch_step [OF assms(1) Cons.prems(1-3) False] by blast
    then show ?thesis
      using IH [of "if j' = - 1 then 0 else j' + 1"] False Cons.prems assms(2)
      by (simp add: at_def split del: if_split) (simp split: if_splits)
  qed
qed

subsection \<open>Completeness for exact tables\<close>

definition search_inv :: "bytes \<Rightarrow> bytes \<Rightarrow> int \<Rightarrow> bool" where
  "search_inv p pre j \<longleftrightarrow>
     0 \<le> j \<and> j < int (length p) \<and> suffix (take (nat j) p) pre \<and>
     (\<forall>m. j < int m \<longrightarrow> m < length p \<longrightarrow> \<not> suffix (take m p) pre) \<and>
     (\<forall>q. \<not> occurs_at p pre q)"

lemma search_invI:
  assumes "0 \<le> j" and "j < int (length p)" and "suffix (take (nat j) p) pre"
    and "\<And>m. j < int m \<Longrightarrow> m < length p \<Longrightarrow> \<not> suffix (take m p) pre"
    and "\<And>q. \<not> occurs_at p pre q"
  shows "search_inv p pre j"
  using assms by (simp add: search_inv_def)

lemma occurs_at_prefix:
  "q + length p \<le> length xs \<Longrightarrow> occurs_at p (xs @ ys) q = occurs_at p xs q"
  by (simp add: occurs_at_def)

lemma occurs_at_snocD:
  assumes "occurs_at p (xs @ [t]) q"
  shows "occurs_at p xs q \<or> suffix p (xs @ [t])"
proof (cases "q + length p \<le> length xs")
  case True
  then show ?thesis using assms by (simp add: occurs_at_prefix)
next
  case False
  then have "q = length (xs @ [t]) - length p" and "length p \<le> length (xs @ [t])"
    using assms by (auto simp: occurs_at_def)
  then show ?thesis using assms occurs_at_suffix [of p "xs @ [t]" "[]"] by simp
qed

lemma search_inv_no_occurrence:
  assumes inv: "search_inv p pre j" and neq: "t \<noteq> p ! nat j \<or> j \<noteq> int (length p) - 1"
  shows "\<not> occurs_at p (pre @ [t]) q"
proof
  assume "occurs_at p (pre @ [t]) q"
  then have suf: "suffix p (pre @ [t])"
    using occurs_at_snocD inv unfolding search_inv_def by blast
  obtain n where n: "length p = Suc n"
    using inv by (cases "length p") (auto simp: search_inv_def)
  have "suffix (take n p) pre" and t: "p ! n = t"
    using suffix_take_snocD [of "length p" p pre t] suf n by auto
  then have "\<not> j < int n" using inv n by (auto simp: search_inv_def)
  then have "j = int n" using inv n by (auto simp: search_inv_def)
  then show False using neq t n by auto
qed

lemma search_inv_match:
  assumes inv: "search_inv p pre j" and "j \<noteq> int (length p) - 1"
  shows "search_inv p (pre @ [p ! nat j]) (j + 1)"
proof -
  have "\<not> suffix (take m p) (pre @ [p ! nat j])" if m: "j + 1 < int m" "m < length p" for m
  proof
    assume "suffix (take m p) (pre @ [p ! nat j])"
    from suffix_take_snocD(1) [OF this] have "suffix (take (m - 1) p) pre"
      using m inv by (simp add: search_inv_def)
    then show False using inv m by (auto simp: search_inv_def dest!: spec [where x = "m - 1"])
  qed
  moreover have "0 \<le> j" "j < int (length p)" "suffix (take (nat j) p) pre"
    using inv by (simp_all add: search_inv_def)
  ultimately show ?thesis
    using assms(2) match_step search_inv_no_occurrence [OF inv, of "p ! nat j"]
    by (intro search_invI) auto
qed

lemma search_inv_mismatch:
  assumes ex: "exact_table p tab" and inv: "search_inv p pre j" and neq: "t \<noteq> p ! nat j"
    and fb: "fall_back p tab t j = Some j'"
  shows "search_inv p (pre @ [t]) (if j' = - 1 then 0 else j' + 1)"
proof -
  have j: "0 \<le> j" "j < int (length p)" "suffix (take (nat j) p) pre"
    using inv by (auto simp: search_inv_def)
  have bt: "border_table p tab" using ex by (simp add: exact_table_def)
  have j'': "- 1 \<le> j'" "j' < j" "suffix (take (nat (if j' = - 1 then 0 else j' + 1)) p) (pre @ [t])"
    by (rule mismatch_step [OF bt j neq], use fb in simp)+
  have "\<not> suffix (take m p) (pre @ [t])"
    if m: "(if j' = - 1 then 0 else j' + 1) < int m" "m < length p" for m
  proof
    assume "suffix (take m p) (pre @ [t])"
    note snoc = suffix_take_snocD [OF this]
    have "0 < m" using m j'' by (simp split: if_splits)
    then have suf: "suffix (take (m - 1) p) pre" and t: "p ! (m - 1) = t"
      using snoc m(2) by simp_all
    have "\<not> j < int (m - 1)" using inv suf m by (auto simp: search_inv_def)
    then have le: "int (m - 1) \<le> j" by simp
    have "suffix (take (m - 1) p) (take (nat j) p)"
      using suffix_length_suffix [OF suf j(3)] le m j by simp
    then have "int (m - 1) \<le> j'"
      using fall_back_longest [OF ex _ j(2) fb le _ t] j by simp
    then show False using m j'' by (auto split: if_splits)
  qed
  then show ?thesis
    using j j'' search_inv_no_occurrence [OF inv, of t] neq
    by (intro search_invI) auto
qed

definition first_occurrence :: "bytes \<Rightarrow> bytes \<Rightarrow> int \<Rightarrow> bool" where
  "first_occurrence p text r \<longleftrightarrow>
     (if r = - 1 then \<forall>q. \<not> occurs_at p text q
      else 0 \<le> r \<and> occurs_at p text (nat r) \<and> (\<forall>q < nat r. \<not> occurs_at p text q))"

lemma kmp_loop_exact:
  assumes ex: "exact_table p tab" and "length p < 2147483648"
  shows "search_inv p pre j \<Longrightarrow> length (pre @ ts) < 2147483648 \<Longrightarrow>
    \<exists>r. kmp_loop p tab ts (length pre) j = Some r \<and> first_occurrence p (pre @ ts) r"
proof (induction ts arbitrary: pre j)
  case Nil
  then show ?case by (simp add: first_occurrence_def search_inv_def)
next
  case (Cons t ts)
  note IH = Cons.IH [of "pre @ [t]", simplified]
  have j: "0 \<le> j" "j < int (length p)" "suffix (take (nat j) p) pre"
    using Cons.prems by (auto simp: search_inv_def)
  have bt: "border_table p tab" using ex by (simp add: exact_table_def)
  consider (found) "t = p ! nat j" "j = int (length p) - 1"
    | (match) "t = p ! nat j" "j \<noteq> int (length p) - 1" | (mismatch) "t \<noteq> p ! nat j" by blast
  then show ?case
  proof cases
    case found
    have "nat j = length p - 1" "0 < length p" using found j by auto
    then have le: "length p \<le> Suc (length pre)"
      and occ: "occurs_at p (pre @ t # ts) (Suc (length pre) - length p)"
      using found_occurs(1) [of p pre t] found_occurs(2) [of p pre t ts] j(3) found by auto
    have r: "nat (int (length pre) - int (length p) + 1) = Suc (length pre) - length p" using le by simp
    have "\<not> occurs_at p (pre @ t # ts) q" if "q < Suc (length pre) - length p" for q
      using Cons.prems(1) that by (auto simp: occurs_at_prefix search_inv_def)
    then show ?thesis
      using found j le occ r Cons.prems(2) assms(2)
      by (simp add: at_def i32_id first_occurrence_def)
  next
    case match
    then show ?thesis
      using IH [of "j + 1"] search_inv_match [OF Cons.prems(1)] Cons.prems(2) j assms(2)
      by (simp add: at_def i32_id)
  next
    case mismatch
    obtain j' where fb: "fall_back p tab t j = Some j'"
      using mismatch_step [OF bt j mismatch] by blast
    show ?thesis
      using IH [OF search_inv_mismatch [OF ex Cons.prems(1) mismatch fb]] Cons.prems(2) j fb mismatch
      by (simp add: at_def)
  qed
qed

subsection \<open>The interface between the table and the search\<close>

text \<open>
  The search needs of a table builder only that it returns borders; when the entries are the
  longest borders the search finds the first occurrence.
\<close>

locale search_table_builder =
  fixes build :: "bytes \<Rightarrow> nat \<Rightarrow> int list option"
  assumes build_border:
    "p \<noteq> [] \<Longrightarrow> \<exists>tab. build p (length p) = Some tab \<and> border_table p tab"
begin

lemma search_returns_occurrence:
  assumes "p \<noteq> []" and "length p < 2147483648" and "length t < 2147483648"
  shows "\<exists>r. Option.bind (build p (length p)) (\<lambda>tab. kmp_loop p tab t 0 0) = Some r \<and>
    (r = - 1 \<or> 0 \<le> r \<and> occurs_at p t (nat r))"
proof -
  obtain tab where tab: "build p (length p) = Some tab" "border_table p tab"
    using build_border [OF assms(1)] by blast
  show ?thesis
    using kmp_loop_sound [OF tab(2), of 0 "[]" t] assms tab(1) by simp
qed

lemma search_finds_first:
  assumes "p \<noteq> []" and "length p < 2147483648" and "length t < 2147483648"
    and "build p (length p) = Some tab" and "exact_table p tab"
  shows "\<exists>r. Option.bind (build p (length p)) (\<lambda>tab. kmp_loop p tab t 0 0) = Some r \<and>
    first_occurrence p t r"
proof -
  have "search_inv p [] 0"
  proof (rule search_invI)
    fix m assume "0 < int m" and "m < length p"
    then show "\<not> suffix (take m p) []" using assms(1) by simp
  qed (use assms(1) in \<open>auto simp: occurs_at_def\<close>)
  then show ?thesis
    using kmp_loop_exact [OF assms(5,2), of "[]" 0 t] assms(3,4) by simp
qed

end

interpretation kmp_table: search_table_builder build_search_table
  by unfold_locales (rule build_search_table_border)

lemma kmp_search_len_bind:
  "t \<noteq> [] \<Longrightarrow> p \<noteq> [] \<Longrightarrow> kmp_search_len (Some t) (Some p) =
     Option.bind (build_search_table p (length p)) (\<lambda>tab. kmp_loop p tab t 0 0)"
  by (simp add: kmp_search_len_def)

lemma kmp_search_via_len:
  "kmp_search (Some t) (Some p) =
     kmp_search_len (Some (take (strlen t) t)) (Some (take (strlen p) p))"
proof -
  have "length (take (strlen s) s) = strlen s" for s
    by (simp add: strlen_def min_absorb2 length_takeWhile_le)
  then show ?thesis by (simp add: kmp_search_def kmp_search_len_def)
qed

lemma exact_table_scheme_separator: "exact_table ''://'' [- 1, 0, 0]"
  by (auto simp: exact_table_def border_table_def border_at_def less_Suc_eq numeral_3_eq_3
      suffix_def Cons_eq_append_conv)

lemma exact_table_cookie_separator: "exact_table ''; '' [- 1, 0]"
  by (auto simp: exact_table_def border_table_def border_at_def less_Suc_eq numeral_2_eq_2)

text \<open>
  The search is total and sound: on every text and pattern shorter than \<open>2\<^sup>31\<close> bytes
  it returns, without reading outside the pattern or the table, and a non-negative result is the
  position of an occurrence of the pattern.
\<close>

theorem kmp_search_sound:
  assumes "length text < 2147483648" and "length pattern < 2147483648"
  shows "\<exists>r. kmp_search_len (Some text) (Some pattern) = Some r \<and>
    (r = - 1 \<or> 0 \<le> r \<and> pattern \<noteq> [] \<and> occurs_at pattern text (nat r))"
proof (cases "text = [] \<or> pattern = []")
  case True
  then show ?thesis by (auto simp: kmp_search_len_def)
next
  case False
  then show ?thesis
    using kmp_table.search_returns_occurrence [of pattern "text"] assms
    by (auto simp: kmp_search_len_bind)
qed

theorem kmp_search_sound_witness:
  "\<exists>r. kmp_search_len (Some ''abcabd'') (Some ''abd'') = Some r \<and>
    (r = - 1 \<or> 0 \<le> r \<and> ''abd'' \<noteq> [] \<and> occurs_at ''abd'' ''abcabd'' (nat r))"
  by (rule kmp_search_sound) simp_all

text \<open>
  C19. The search is complete for a pattern whose table is exact, in particular for the separators
  \<open>://\<close> and \<open>; \<close> that the URL and cookie parsers search for: it returns the
  position of the first occurrence, and \<open>-1\<close> only if there is none.
\<close>

theorem kmp_search_first_occurrence:
  assumes "length text < 2147483648" and "length pattern < 2147483648" and "pattern \<noteq> []"
    and "build_search_table pattern (length pattern) = Some tab" and "exact_table pattern tab"
  shows "\<exists>r. kmp_search_len (Some text) (Some pattern) = Some r \<and>
    first_occurrence pattern text r"
proof (cases "text = []")
  case True
  then show ?thesis
    using assms(3) by (auto simp: kmp_search_len_def first_occurrence_def occurs_at_def)
next
  case False
  then show ?thesis
    using kmp_table.search_finds_first [OF assms(3,2,1,4,5)] assms(3)
    by (simp add: kmp_search_len_bind)
qed

theorem kmp_search_first_occurrence_witness:
  "\<exists>r. kmp_search_len (Some ''http://a'') (Some ''://'') = Some r \<and>
    first_occurrence ''://'' ''http://a'' r"
proof (rule kmp_search_first_occurrence)
  show "build_search_table ''://'' (length ''://'') = Some [- 1, 0, 0]" by code_simp
qed (simp_all add: exact_table_scheme_separator)

text \<open>
  The table is not exact for every pattern: after the mismatch at the fifth byte the true border of
  \<open>abaa\<close> has length one, the table says zero, and the search misses the occurrence at
  position three.
\<close>

theorem kmp_search_misses_occurrence:
  "kmp_search_len (Some ''abaabaac'') (Some ''abaac'') = Some (- 1) \<and>
   occurs_at ''abaac'' ''abaabaac'' 3"
proof
  show "kmp_search_len (Some ''abaabaac'') (Some ''abaac'') = Some (- 1)"
    by (simp add: kmp_search_len_def build_search_table_def build_loop.simps at_def i32_def
        fall_back.simps)
  show "occurs_at ''abaac'' ''abaabaac'' 3" by (simp add: occurs_at_def)
qed

end
