(* ===== verification/Buffer_Chain.thy ===== *)
theory Buffer_Chain
  imports Unp_Prelude
begin

text \<open>
  \<open>buffer_chain\<close> of \<open>src/reactor/buffer.h\<close> and \<open>buffer.cpp\<close>: one
  contiguous block of a network buffer, with the bytes between \<open>misalign_\<close> and
  \<open>off_\<close> stored in it. A chain object has an address, because \<open>buffer\<close> and the
  iterators refer to chains by pointer. The block is a list of exactly \<open>capacity_\<close> bytes
  and every \<open>memcpy\<close> is checked against it; a moved-from or null block is the empty list.
  Allocation itself is assumed to succeed, as the code asserts.
\<close>

subsection \<open>State\<close>

record chain =
  chain_addr :: addr
  cbuf :: bytes
  capacity :: nat
  off :: nat
  next_chain :: "addr option"
  parent :: "addr option"
  misalign :: nat

text \<open>\<open>buffer_iter\<close>: a position, as pointers and offsets; null pointers are \<open>None\<close>.\<close>

record buffer_iter =
  it_buffer :: "addr option"
  it_chain :: "addr option"
  offset_of_buffer :: nat
  chain_number :: nat
  offset_of_chain :: nat

definition NULL_ITER :: buffer_iter where
  "NULL_ITER = \<lparr>it_buffer = None, it_chain = None, offset_of_buffer = 0, chain_number = 0,
     offset_of_chain = 0\<rparr>"

definition is_valid :: "buffer_iter \<Rightarrow> bool" where
  "is_valid it \<longleftrightarrow> it_buffer it \<noteq> None \<and> it_chain it \<noteq> None"

definition DEFAULT_CHAIN_SIZE :: nat where
  "DEFAULT_CHAIN_SIZE = 1024"

definition MAXIMUM_CHAIN_SIZE :: nat where
  "MAXIMUM_CHAIN_SIZE = 4294967295"

definition MAXIMUM_SIZE_WHEN_EXPAND :: nat where
  "MAXIMUM_SIZE_WHEN_EXPAND = 4096"

definition chain_size :: "chain \<Rightarrow> nat" where
  "chain_size c = u32_sub (off c) (misalign c)"

definition chain_free_space :: "chain \<Rightarrow> nat" where
  "chain_free_space c = u32_sub (capacity c) (off c)"

text \<open>The stored bytes, as the copying operations read them through \<open>get_start_buffer\<close>.\<close>

definition read_chain :: "chain \<Rightarrow> bytes option" where
  "read_chain c = memread (cbuf c) (misalign c) (chain_size c)"

subsection \<open>Capacity\<close>

text \<open>The doubling loop; with 32-bit wrap-around it need not stop, so it is partial.\<close>

partial_function (option) grow_capacity :: "nat \<Rightarrow> nat \<Rightarrow> nat option" where
  "grow_capacity to_alloc given_capacity =
     (if to_alloc < given_capacity then grow_capacity (u32 (to_alloc * 2)) given_capacity
      else Some to_alloc)"

declare grow_capacity.simps [code]

definition calculate_actual_capacity :: "nat \<Rightarrow> nat option" where
  "calculate_actual_capacity given_capacity =
     (if given_capacity < MAXIMUM_CHAIN_SIZE div 2
      then grow_capacity DEFAULT_CHAIN_SIZE given_capacity
      else Some given_capacity)"

definition realloc :: "chain \<Rightarrow> nat \<Rightarrow> chain option" where
  "realloc c sz =
     (if sz > capacity c then do {
        let len = u32_sub (off c) (misalign c);
        new_buffer \<leftarrow>
          (if len > 0
           then do { d \<leftarrow> memread (cbuf c) (misalign c) len; memcpy (calloc sz) 0 d }
           else Some (calloc sz));
        Some (c\<lparr>cbuf := new_buffer, misalign := 0, off := len, capacity := sz\<rparr>)
      } else Some c)"

subsection \<open>Constructors and assignment\<close>

definition new_chain :: "addr \<Rightarrow> addr option \<Rightarrow> nat \<Rightarrow> chain option" where
  "new_chain a par cap = do {
     cap' \<leftarrow> (if cap = 0 then Some DEFAULT_CHAIN_SIZE else calculate_actual_capacity cap);
     Some \<lparr>chain_addr = a, cbuf = calloc cap', capacity = cap', off = 0, next_chain = None,
       parent = par, misalign = 0\<rparr>
   }"

definition copy_chain :: "addr \<Rightarrow> chain \<Rightarrow> chain option" where
  "copy_chain a other = do {
     cap \<leftarrow> calculate_actual_capacity (capacity other);
     d \<leftarrow> read_chain other;
     buf \<leftarrow> memcpy (calloc cap) 0 d;
     Some \<lparr>chain_addr = a, cbuf = buf, capacity = cap, off = chain_size other,
       next_chain = next_chain other, parent = parent other, misalign = 0\<rparr>
   }"

definition move_chain :: "addr \<Rightarrow> chain \<Rightarrow> chain" where
  "move_chain a other = other\<lparr>chain_addr := a\<rparr>"

definition moved_from :: "chain \<Rightarrow> chain" where
  "moved_from other = other\<lparr>cbuf := [], capacity := 0, off := 0, next_chain := None,
     parent := None, misalign := 0\<rparr>"

text \<open>\<open>buffer_chain::validate_iter\<close>.\<close>

definition chain_validate_iter :: "chain \<Rightarrow> buffer_iter \<Rightarrow> bool" where
  "chain_validate_iter c it \<longleftrightarrow>
     \<not> (it_chain it \<noteq> Some (chain_addr c) \<or> offset_of_chain it \<ge> off c \<or>
        offset_of_chain it < misalign c)"

text \<open>The copying constructor from a position; the exception it throws is \<open>None\<close>.\<close>

definition copy_chain_range :: "addr \<Rightarrow> chain \<Rightarrow> nat \<Rightarrow> buffer_iter \<Rightarrow> chain option" where
  "copy_chain_range a other data_len start =
     (if \<not> chain_validate_iter other start \<or> data_len > u32_sub (off other) (offset_of_chain start)
      then None
      else do {
        c \<leftarrow> new_chain a (parent other) data_len;
        d \<leftarrow> memread (cbuf other) (offset_of_chain start) data_len;
        buf \<leftarrow> memcpy (cbuf c) 0 d;
        Some (c\<lparr>cbuf := buf, next_chain := next_chain other, off := data_len, misalign := 0\<rparr>)
      })"

definition assign_chain :: "chain \<Rightarrow> chain \<Rightarrow> chain option" where
  "assign_chain c other =
     (if chain_addr c = chain_addr other then Some c
      else do {
        let c1 = (if capacity c < capacity other
                  then c\<lparr>capacity := capacity other, cbuf := calloc (capacity other)\<rparr> else c);
        d \<leftarrow> read_chain other;
        buf \<leftarrow> memcpy (cbuf c1) 0 d;
        Some (c1\<lparr>cbuf := buf, next_chain := next_chain other, off := chain_size other,
          parent := parent other, misalign := 0\<rparr>)
      })"

definition move_assign_chain :: "chain \<Rightarrow> chain \<Rightarrow> chain \<times> chain" where
  "move_assign_chain c other =
     (if chain_addr c = chain_addr other then (c, other)
      else (c\<lparr>cbuf := cbuf other, next_chain := next_chain other, off := chain_size other,
              parent := parent other, misalign := misalign other, capacity := capacity other\<rparr>,
            moved_from other))"

subsection \<open>Appending to a chain\<close>

text \<open>\<open>append(const buffer_chain&)\<close>; the argument may be the chain itself.\<close>

definition append_chain :: "chain \<Rightarrow> chain \<Rightarrow> (nat \<times> chain) option" where
  "append_chain c other = do {
     let size = chain_size other;
     c1 \<leftarrow> (if size > chain_free_space c
            then do {
              cap \<leftarrow> calculate_actual_capacity (u32 (size + chain_size c));
              realloc c cap
            } else Some c);
     let src = (if chain_addr other = chain_addr c then c1 else other);
     d \<leftarrow> memread (cbuf src) (misalign src) size;
     buf \<leftarrow> memcpy (cbuf c1) (off c1) d;
     Some (size, c1\<lparr>cbuf := buf, off := u32 (off c1 + size)\<rparr>)
   }"

definition append_chain_range ::
  "chain \<Rightarrow> chain \<Rightarrow> nat \<Rightarrow> buffer_iter \<Rightarrow> (nat \<times> chain) option" where
  "append_chain_range c other len start =
     (if len > chain_size other \<or> \<not> chain_validate_iter other start \<or>
         len > u32_sub (off other) (offset_of_chain start)
      then Some (0, c)
      else do {
        c1 \<leftarrow> (if len > chain_free_space c
               then do {
                 cap \<leftarrow> calculate_actual_capacity (u32 (len + chain_size c));
                 realloc c cap
               } else Some c);
        let src = (if chain_addr other = chain_addr c then c1 else other);
        d \<leftarrow> memread (cbuf src) (offset_of_chain start) len;
        buf \<leftarrow> memcpy (cbuf c1) (off c1) d;
        Some (len, c1\<lparr>cbuf := buf, off := u32 (off c1 + len)\<rparr>)
      })"

text \<open>\<open>append(const void*, uint32_t)\<close>: a null pointer is \<open>None\<close>.\<close>

definition append_data :: "chain \<Rightarrow> bytes option \<Rightarrow> (int \<times> chain) option" where
  "append_data c data =
     (case data of
        None \<Rightarrow> Some (- 1, c)
      | Some d \<Rightarrow>
          if length d = 0 then Some (- 1, c)
          else do {
            cap \<leftarrow> calculate_actual_capacity (u32 (chain_size c + length d));
            c1 \<leftarrow> realloc c cap;
            buf \<leftarrow> memcpy (cbuf c1) (off c1) d;
            Some (int (length d), c1\<lparr>cbuf := buf, off := u32 (off c1 + length d)\<rparr>)
          })"

text \<open>The template \<open>append(const T&)\<close>, on the object representation of the value.\<close>

definition append_T :: "chain \<Rightarrow> bytes \<Rightarrow> (int \<times> chain) option" where
  "append_T c d =
     (if chain_free_space c < length d then Some (- 1, c)
      else do {
        buf \<leftarrow> memcpy (cbuf c) (off c) d;
        Some (int (length d), c\<lparr>cbuf := buf, off := u32 (off c + length d)\<rparr>)
      })"

definition set_offset :: "chain \<Rightarrow> nat \<Rightarrow> int \<times> chain" where
  "set_offset c offset =
     (if offset > capacity c then (- 1, c) else (0, c\<lparr>off := offset\<rparr>))"

subsection \<open>Well-formed chains and their contents\<close>

definition chain_ok :: "chain \<Rightarrow> bool" where
  "chain_ok c \<longleftrightarrow>
     length (cbuf c) = capacity c \<and> misalign c \<le> off c \<and> off c \<le> capacity c \<and>
     capacity c < 4294967296"

definition content :: "chain \<Rightarrow> bytes" where
  "content c = take (off c - misalign c) (drop (misalign c) (cbuf c))"

lemma chain_okD:
  assumes "chain_ok c"
  shows "length (cbuf c) = capacity c" and "misalign c \<le> off c" and "off c \<le> capacity c"
    and "capacity c < 4294967296" and "off c < 4294967296"
  using assms by (auto simp: chain_ok_def)

lemma chain_size_ok: "chain_ok c \<Longrightarrow> chain_size c = off c - misalign c"
  by (simp add: chain_size_def uint_simps chain_okD)

lemma chain_free_space_ok: "chain_ok c \<Longrightarrow> chain_free_space c = capacity c - off c"
  by (simp add: chain_free_space_def uint_simps chain_okD)

lemma length_content: "chain_ok c \<Longrightarrow> length (content c) = chain_size c"
  by (auto simp: content_def chain_size_ok chain_ok_def)

lemma read_chain_ok: "chain_ok c \<Longrightarrow> read_chain c = Some (content c)"
  by (simp add: read_chain_def content_def chain_size_ok memread_def chain_ok_def)

lemma chain_ok_less:
  "chain_ok c \<Longrightarrow> chain_size c < 4294967296"
  by (simp add: chain_size_def)

lemmas chain_simps = chain_size_ok chain_free_space_ok length_content read_chain_ok

text \<open>
  Replacing the block behind \<open>off_\<close>: the one step every appending operation ends with.
\<close>

lemma append_block:
  assumes "chain_ok c" and "off c + length d \<le> capacity c"
  defines "c' \<equiv> c\<lparr>cbuf := take (off c) (cbuf c) @ d @ drop (off c + length d) (cbuf c),
                   off := u32 (off c + length d)\<rparr>"
  shows "memcpy (cbuf c) (off c) d = Some (cbuf c')" and "chain_ok c'"
    and "content c' = content c @ d" and "off c' = off c + length d"
proof -
  note ok = chain_okD [OF assms(1)]
  have o: "u32 (off c + length d) = off c + length d" using ok assms(2) by (simp add: uint_simps)
  then show off: "off c' = off c + length d" by (simp add: c'_def)
  show "memcpy (cbuf c) (off c) d = Some (cbuf c')"
    using ok assms(2) by (simp add: memcpy_in c'_def)
  show "chain_ok c'" using ok assms(2) off by (simp add: chain_ok_def c'_def)
  show "content c' = content c @ d"
    using take_append_slice [of "misalign c" "off c" "cbuf c" d "drop (off c + length d) (cbuf c)"] ok
    by (simp add: content_def c'_def o)
qed

lemma fresh_block:
  assumes "length d \<le> cap" and "cap < 4294967296"
  shows "memcpy (calloc cap) 0 d = Some (d @ drop (length d) (calloc cap))"
    and "chain_ok \<lparr>chain_addr = a, cbuf = d @ drop (length d) (calloc cap), capacity = cap,
      off = length d, next_chain = n, parent = par, misalign = 0\<rparr>"
  using assms by (simp_all add: memcpy_in chain_ok_def)

lemma content_fresh:
  "content \<lparr>chain_addr = a, cbuf = d @ r, capacity = cap, off = length d, next_chain = n,
     parent = par, misalign = 0\<rparr> = d"
  by (simp add: content_def)

subsection \<open>Capacity policy\<close>

lemma grow_capacity_returns:
  "k \<le> 31 \<Longrightarrow> given \<le> 2 ^ 31 \<Longrightarrow>
     \<exists>m. grow_capacity (2 ^ k) given = Some (2 ^ m) \<and> k \<le> m \<and> m \<le> 31 \<and> given \<le> 2 ^ m \<and>
       (m = k \<or> 2 ^ (m - 1) < given)"
proof (induction "31 - k" arbitrary: k)
  case 0
  then show ?case by (subst grow_capacity.simps) (auto intro: exI [of _ 31])
next
  case (Suc n)
  show ?case
  proof (cases "2 ^ k < given")
    case True
    have "(2::nat) ^ Suc k \<le> 2 ^ 31" using Suc by (intro power_increasing) auto
    then have step: "grow_capacity (2 ^ k) given = grow_capacity (2 ^ Suc k) given"
      using True by (subst grow_capacity.simps) (simp add: u32_def mult.commute)
    have k: "n = 31 - Suc k" "Suc k \<le> 31" using Suc.hyps(2) by arith+
    obtain m where "grow_capacity (2 ^ Suc k) given = Some (2 ^ m)" "Suc k \<le> m" "m \<le> 31"
      "given \<le> 2 ^ m" "m = Suc k \<or> 2 ^ (m - 1) < given"
      using Suc.hyps(1) [OF k] Suc.prems(2) by blast
    then show ?thesis using True unfolding step by (intro exI [of _ m]) auto
  next
    case False
    then show ?thesis using Suc by (subst grow_capacity.simps) auto
  qed
qed

text \<open>Every request gets a capacity that covers it and fits in 32 bits.\<close>

lemma capacity_returns:
  assumes "g < 4294967296"
  shows "\<exists>cap. calculate_actual_capacity g = Some cap \<and> g \<le> cap \<and> 0 < cap \<and> cap < 4294967296"
proof (cases "g < 2147483647")
  case True
  then obtain m where m: "grow_capacity (2 ^ 10) g = Some (2 ^ m)" "m \<le> 31" "g \<le> 2 ^ m"
    using grow_capacity_returns [of 10 g] by auto
  have "(2::nat) ^ m \<le> 2 ^ 31" using m(2) by (intro power_increasing) auto
  then show ?thesis
    using m True by (simp add: calculate_actual_capacity_def MAXIMUM_CHAIN_SIZE_def
        DEFAULT_CHAIN_SIZE_def)
next
  case False
  then show ?thesis
    using assms by (simp add: calculate_actual_capacity_def MAXIMUM_CHAIN_SIZE_def)
qed

subsection \<open>What the operations do to a well-formed chain\<close>

text \<open>The pointer fields of a chain, which appending leaves alone.\<close>

definition same_links :: "chain \<Rightarrow> chain \<Rightarrow> bool" where
  "same_links c c' \<longleftrightarrow>
     chain_addr c' = chain_addr c \<and> next_chain c' = next_chain c \<and> parent c' = parent c"

lemma new_chain_returns:
  assumes "cap < 4294967296"
  shows "\<exists>cap'. new_chain a par cap = Some \<lparr>chain_addr = a, cbuf = calloc cap', capacity = cap',
    off = 0, next_chain = None, parent = par, misalign = 0\<rparr> \<and> cap \<le> cap' \<and> cap' < 4294967296"
  using capacity_returns [OF assms] by (auto simp: new_chain_def DEFAULT_CHAIN_SIZE_def)

lemma copy_chain_returns:
  assumes "chain_ok other"
  shows "\<exists>c. copy_chain a other = Some c \<and> chain_ok c \<and> content c = content other \<and>
    capacity other \<le> capacity c \<and> off c = chain_size other \<and> misalign c = 0 \<and>
    chain_addr c = a \<and> next_chain c = next_chain other \<and> parent c = parent other"
proof -
  note ok = chain_okD [OF assms]
  obtain cap where cap: "calculate_actual_capacity (capacity other) = Some cap"
    "capacity other \<le> cap" "cap < 4294967296"
    using capacity_returns ok(4) by blast
  have len: "length (content other) \<le> cap"
    using cap(2) ok by (simp add: chain_simps assms)
  note block = fresh_block [OF len cap(3)]
  show ?thesis
    using cap block(1) block(2) [of a "next_chain other" "parent other"]
    by (simp add: copy_chain_def read_chain_ok assms content_fresh flip: length_content)
qed

lemma copy_chain_range_returns:
  assumes ok: "chain_ok other" and val: "chain_validate_iter other start"
    and len: "n \<le> off other - offset_of_chain start"
  shows "\<exists>c. copy_chain_range a other n start = Some c \<and> chain_ok c \<and>
    content c = take n (drop (offset_of_chain start - misalign other) (content other)) \<and>
    off c = n \<and> misalign c = 0 \<and> chain_addr c = a \<and> next_chain c = next_chain other \<and>
    parent c = parent other"
proof -
  let ?o = "offset_of_chain start"
  let ?d = "take n (drop ?o (cbuf other))"
  have o: "misalign other \<le> ?o" "?o < off other"
    using val by (auto simp: chain_validate_iter_def)
  note f = chain_okD [OF ok]
  have n: "n < 4294967296" "length ?d = n" "?o + n \<le> length (cbuf other)"
    using len o f by auto
  obtain cap where cap: "new_chain a (parent other) n = Some \<lparr>chain_addr = a, cbuf = calloc cap,
      capacity = cap, off = 0, next_chain = None, parent = parent other, misalign = 0\<rparr>"
    "n \<le> cap" "cap < 4294967296"
    using new_chain_returns [OF n(1)] by blast
  have d: "?d = take n (drop (?o - misalign other) (content other))"
  proof -
    have "drop (?o - misalign other) (content other) = take (off other - ?o) (drop ?o (cbuf other))"
      using o f by (simp add: content_def drop_take)
    then show ?thesis using len by (simp add: min_absorb1)
  qed
  have "length ?d \<le> cap" using n cap by simp
  note block = fresh_block [OF this cap(3)]
  have "u32_sub (off other) ?o = off other - ?o" using o f by (simp add: uint_simps)
  then have "copy_chain_range a other n start = Some \<lparr>chain_addr = a,
      cbuf = ?d @ drop (length ?d) (calloc cap), capacity = cap, off = length ?d,
      next_chain = next_chain other, parent = parent other, misalign = 0\<rparr>" (is "_ = Some ?c")
    using val len cap(1) n block(1) by (simp add: copy_chain_range_def memread_in)
  moreover have "content ?c = ?d" by (rule content_fresh)
  ultimately show ?thesis
    using block(2) [of a "next_chain other" "parent other"] n(2) unfolding d by simp
qed

lemma realloc_returns:
  assumes "chain_ok c" and "sz < 4294967296"
  shows "\<exists>c'. realloc c sz = Some c' \<and> chain_ok c' \<and> content c' = content c \<and> same_links c c' \<and>
    capacity c \<le> capacity c' \<and> sz \<le> capacity c' \<and>
    (if sz > capacity c then off c' = chain_size c \<and> misalign c' = 0 else c' = c)"
proof (cases "sz > capacity c")
  case True
  note f = chain_okD [OF assms(1)]
  have len: "length (content c) \<le> sz" using True f by (simp add: chain_simps assms(1))
  note block = fresh_block [OF len assms(2)]
  define c' where "c' = c\<lparr>cbuf := content c @ drop (length (content c)) (calloc sz),
    misalign := 0, off := chain_size c, capacity := sz\<rparr>"
  have "realloc c sz = Some c'"
  proof (cases "chain_size c = 0")
    case zero: True
    then have "content c = []" using length_content [OF assms(1)] by simp
    then show ?thesis using True zero by (simp add: realloc_def c'_def chain_size_def Let_def)
  next
    case False
    have "memread (cbuf c) (misalign c) (chain_size c) = Some (content c)"
      using read_chain_ok [OF assms(1)] by (simp add: read_chain_def)
    then show ?thesis
      using True False block(1) by (simp add: realloc_def c'_def chain_size_def Let_def)
  qed
  moreover have "chain_ok c'"
    using len assms by (simp add: chain_ok_def c'_def length_content)
  moreover have "content c' = content c"
    unfolding content_def [of c'] by (simp add: c'_def length_content assms)
  ultimately show ?thesis using True by (simp add: c'_def same_links_def)
next
  case False
  then show ?thesis using assms by (auto simp: realloc_def same_links_def)
qed

lemma assign_chain_returns:
  assumes c: "chain_ok c" and other: "chain_ok other" and "chain_addr c \<noteq> chain_addr other"
  shows "\<exists>c'. assign_chain c other = Some c' \<and> chain_ok c' \<and> content c' = content other \<and>
    off c' = chain_size other \<and> misalign c' = 0 \<and> capacity c \<le> capacity c' \<and>
    chain_addr c' = chain_addr c \<and> next_chain c' = next_chain other \<and> parent c' = parent other"
proof -
  define c1 where "c1 = (if capacity c < capacity other
    then c\<lparr>capacity := capacity other, cbuf := calloc (capacity other)\<rparr> else c)"
  note f = chain_okD [OF c] chain_okD [OF other]
  have c1: "length (cbuf c1) = capacity c1" "capacity other \<le> capacity c1" "capacity c \<le> capacity c1"
    "capacity c1 < 4294967296" "chain_addr c1 = chain_addr c"
    using f by (auto simp: c1_def)
  have len: "length (content other) \<le> capacity c1"
    using f c1 by (simp add: chain_simps other)
  define c' where "c' = c1\<lparr>cbuf := content other @ drop (length (content other)) (cbuf c1),
    next_chain := next_chain other, off := chain_size other, parent := parent other, misalign := 0\<rparr>"
  have "assign_chain c other = Some c'"
    using assms(3) len c1 by (simp add: assign_chain_def c1_def [symmetric] Let_def read_chain_ok other
        memcpy_in c'_def)
  moreover have "chain_ok c'"
    using len c1 unfolding chain_ok_def [of c'] by (simp add: c'_def length_content other)
  moreover have "content c' = content other"
    unfolding content_def [of c'] by (simp add: c'_def length_content other)
  ultimately show ?thesis using c1 by (simp add: c'_def)
qed

text \<open>
  The growing step of the appending operations. When nothing is reallocated the room behind
  \<open>off_\<close> is what counts; a misaligned chain whose capacity already covers the sum of the
  sizes is not compacted, so the operations need an aligned chain or room behind \<open>off_\<close>.
\<close>

lemma grow_returns:
  assumes "chain_ok c" and "chain_size c + n < 4294967296"
    and "misalign c = 0 \<or> n \<le> chain_free_space c"
  obtains cap c1 where "calculate_actual_capacity (u32 (chain_size c + n)) = Some cap"
    and "realloc c cap = Some c1" and "chain_ok c1" and "content c1 = content c"
    and "same_links c c1" and "off c1 + n \<le> capacity c1"
proof -
  note f = chain_okD [OF assms(1)]
  obtain cap where cap: "calculate_actual_capacity (u32 (chain_size c + n)) = Some cap"
    "chain_size c + n \<le> cap" "cap < 4294967296"
    using capacity_returns [OF assms(2)] assms(2) by (auto simp: uint_simps)
  obtain c1 where c1: "realloc c cap = Some c1" "chain_ok c1" "content c1 = content c"
    "same_links c c1" "cap \<le> capacity c1"
    "if cap > capacity c then off c1 = chain_size c \<and> misalign c1 = 0 else c1 = c"
    using realloc_returns [OF assms(1) cap(3)] by blast
  have "off c1 + n \<le> capacity c1"
  proof (cases "cap > capacity c")
    case True
    then show ?thesis using c1(5,6) cap(2) by simp
  next
    case False
    then show ?thesis using c1(6) cap(2) assms(1,3) f by (auto simp: chain_simps)
  qed
  then show ?thesis using that cap(1) c1 by blast
qed

lemma append_data_returns:
  assumes "chain_ok c" and "d \<noteq> []" and "chain_size c + length d < 4294967296"
    and "misalign c = 0 \<or> length d \<le> chain_free_space c"
  shows "\<exists>c'. append_data c (Some d) = Some (int (length d), c') \<and> chain_ok c' \<and>
    content c' = content c @ d \<and> same_links c c'"
proof -
  obtain cap c1 where c1: "calculate_actual_capacity (u32 (chain_size c + length d)) = Some cap"
    "realloc c cap = Some c1" "chain_ok c1" "content c1 = content c" "same_links c c1"
    "off c1 + length d \<le> capacity c1"
    using grow_returns [OF assms(1,3,4)] .
  note block = append_block [OF c1(3,6)]
  then show ?thesis
    using c1 assms(2) by (simp add: append_data_def same_links_def)
qed

lemma append_T_returns:
  assumes "chain_ok c" and "length d \<le> chain_free_space c"
  shows "\<exists>c'. append_T c d = Some (int (length d), c') \<and> chain_ok c' \<and>
    content c' = content c @ d \<and> same_links c c'"
proof -
  have "off c + length d \<le> capacity c"
    using assms chain_okD [OF assms(1)] by (simp add: chain_simps)
  note block = append_block [OF assms(1) this]
  then show ?thesis using assms by (simp add: append_T_def same_links_def)
qed

lemma append_chain_returns:
  assumes c: "chain_ok c" and other: "chain_ok other" and ne: "chain_addr c \<noteq> chain_addr other"
    and "chain_size c + chain_size other < 4294967296"
    and "misalign c = 0 \<or> chain_size other \<le> chain_free_space c"
  shows "\<exists>c'. append_chain c other = Some (chain_size other, c') \<and> chain_ok c' \<and>
    content c' = content c @ content other \<and> same_links c c'"
proof -
  define fits where "fits \<longleftrightarrow> chain_size other \<le> chain_free_space c"
  obtain c1 where c1: "(if chain_size other > chain_free_space c then
      do { cap \<leftarrow> calculate_actual_capacity (u32 (chain_size other + chain_size c)); realloc c cap }
      else Some c) = Some c1" "chain_ok c1" "content c1 = content c" "same_links c c1"
    "off c1 + chain_size other \<le> capacity c1"
  proof (cases fits)
    case True
    then show ?thesis
      using that [of c] c chain_okD [OF c] by (auto simp: fits_def chain_simps same_links_def)
  next
    case False
    then show ?thesis
      using that by (rule_tac grow_returns [OF c assms(4,5)]) (auto simp: fits_def add.commute)
  qed
  have len: "length (content other) = chain_size other" by (simp add: chain_simps other)
  note block = append_block [OF c1(2), of "content other", unfolded len, OF c1(5)]
  have rd: "memread (cbuf other) (misalign other) (chain_size other) = Some (content other)"
    using read_chain_ok [OF other] by (simp add: read_chain_def)
  show ?thesis
    using c1(1,3,4) block rd ne unfolding append_chain_def by (simp add: same_links_def Let_def)
qed

lemma append_chain_range_returns:
  assumes c: "chain_ok c" and other: "chain_ok other" and ne: "chain_addr c \<noteq> chain_addr other"
    and val: "chain_validate_iter other start" and len: "n \<le> off other - offset_of_chain start"
    and "chain_size c + n < 4294967296" and "misalign c = 0 \<or> n \<le> chain_free_space c"
  shows "\<exists>c'. append_chain_range c other n start = Some (n, c') \<and> chain_ok c' \<and>
    content c' = content c @ take n (drop (offset_of_chain start - misalign other) (content other)) \<and>
    same_links c c'"
proof -
  let ?o = "offset_of_chain start"
  have o: "misalign other \<le> ?o" "?o < off other"
    using val by (auto simp: chain_validate_iter_def)
  note f = chain_okD [OF other]
  have len': "\<not> n > chain_size other" "\<not> n > u32_sub (off other) ?o"
    using len o f by (simp_all add: chain_simps other uint_simps)
  obtain c1 where c1: "(if n > chain_free_space c then
      do { cap \<leftarrow> calculate_actual_capacity (u32 (n + chain_size c)); realloc c cap }
      else Some c) = Some c1" "chain_ok c1" "content c1 = content c" "same_links c c1"
    "off c1 + n \<le> capacity c1"
  proof (cases "n \<le> chain_free_space c")
    case True
    then show ?thesis
      using that [of c] c chain_okD [OF c] by (auto simp: chain_simps same_links_def)
  next
    case False
    then show ?thesis
      using that by (rule_tac grow_returns [OF c assms(6,7)]) (auto simp: add.commute)
  qed
  define d where "d = take n (drop ?o (cbuf other))"
  have rd: "memread (cbuf other) ?o n = Some d" and dn: "length d = n"
    using len o f by (auto simp: d_def memread_in)
  have d: "d = take n (drop (?o - misalign other) (content other))"
    using o f len by (simp add: content_def drop_take d_def min_absorb1)
  note block = append_block [OF c1(2), of d, unfolded dn, OF c1(5)]
  show ?thesis
    using c1(1,3,4) block rd ne val len' unfolding append_chain_range_def d [symmetric]
    by (simp add: same_links_def Let_def)
qed

text \<open>
  C21. The capacity policy of \<open>calculate_actual_capacity\<close>: a request below half of the
  32-bit range gets the smallest power of two that is at least 1024 and covers it, a larger one
  gets exactly what it asks for; the doubling loop always ends.
\<close>

theorem capacity_policy:
  assumes "given < 4294967296"
  shows "\<exists>cap. calculate_actual_capacity given = Some cap \<and> given \<le> cap \<and> cap < 4294967296 \<and>
    (if given < 2147483647
     then \<exists>m \<ge> 10. cap = 2 ^ m \<and> (cap = 1024 \<or> 2 ^ (m - 1) < given)
     else cap = given)"
proof (cases "given < 2147483647")
  case True
  then obtain m where m: "grow_capacity (2 ^ 10) given = Some (2 ^ m)" "10 \<le> m" "m \<le> 31"
    "given \<le> 2 ^ m" "m = 10 \<or> 2 ^ (m - 1) < given"
    using grow_capacity_returns [of 10 given] by auto
  have "(2::nat) ^ m \<le> 2 ^ 31" using m(3) by (intro power_increasing) auto
  then show ?thesis
    using m True by (auto simp: calculate_actual_capacity_def MAXIMUM_CHAIN_SIZE_def
        DEFAULT_CHAIN_SIZE_def)
next
  case False
  then show ?thesis
    using assms by (simp add: calculate_actual_capacity_def MAXIMUM_CHAIN_SIZE_def)
qed

theorem capacity_policy_witness:
  "\<exists>cap. calculate_actual_capacity 5000 = Some cap \<and> 5000 \<le> cap \<and> cap < 4294967296 \<and>
    (if (5000::nat) < 2147483647
     then \<exists>m \<ge> 10. cap = 2 ^ m \<and> (cap = 1024 \<or> 2 ^ (m - 1) < (5000::nat))
     else cap = 5000)"
  by (rule capacity_policy) simp

text \<open>
  Appending raw bytes to a misaligned chain can write past its block: the sizes fit the capacity,
  so nothing is reallocated, but the room behind \<open>off_\<close> is too small.
\<close>

theorem append_data_misaligned_overflow:
  assumes "chain_ok c" and "capacity c = 1024" and "misalign c = 1000" and "off c = 1010"
    and "length d = 20"
  shows "append_data c (Some d) = None"
proof -
  have "calculate_actual_capacity (u32 (chain_size c + length d)) = Some 1024"
    using assms by (simp add: chain_simps u32_def calculate_actual_capacity_def
        MAXIMUM_CHAIN_SIZE_def DEFAULT_CHAIN_SIZE_def grow_capacity.simps)
  moreover have "realloc c 1024 = Some c" using assms by (simp add: realloc_def)
  moreover have "memcpy (cbuf c) (off c) d = None"
    using assms chain_okD(1) [OF assms(1)] by (simp add: memcpy_def)
  ultimately show ?thesis using assms(5) by (auto simp: append_data_def)
qed

text \<open>Move assignment sets \<open>off_\<close> to the source's size but keeps its \<open>misalign_\<close>.\<close>

theorem move_assign_truncates:
  assumes "chain_ok other" and "chain_addr c \<noteq> chain_addr other" and "0 < misalign other"
    and "misalign other \<le> chain_size other"
  shows "length (content (fst (move_assign_chain c other))) = chain_size other - misalign other"
proof -
  note f = chain_okD [OF assms(1)]
  have "chain_size other \<le> length (cbuf other)" using f by (simp add: chain_simps assms(1))
  then show ?thesis using assms by (simp add: move_assign_chain_def content_def)
qed

end
