(* ===== verification/Byte_Queue.thy ===== *)
theory Byte_Queue
  imports Unp_Prelude
begin

text \<open>
  The interface of the byte buffer that its clients rely on: a queue of bytes with a representation
  invariant \<open>wf\<close> and an abstract value \<open>bytes_in\<close>. The laws say what \<open>append\<close>,
  \<open>remove\<close>, \<open>drain\<close> and \<open>read_T\<close> do to the abstract value; what follows for every
  client, in particular that bytes leave in the order they came in, is proved here once, and
  the theory \<open>Buffer\<close> interprets the locales on the model of \<open>reactor::buffer\<close>.
\<close>

subsection \<open>Sequences of operations\<close>

datatype queue_op = Append_op bytes | Remove_op nat

text \<open>
  Runs a sequence of operations and collects the bytes the removals deliver; \<open>None\<close> when
  one of the calls has no defined result.
\<close>

fun run_queue :: "('b \<Rightarrow> bytes \<Rightarrow> (int \<times> 'b) option) \<Rightarrow> ('b \<Rightarrow> nat \<Rightarrow> (int \<times> bytes \<times> 'b) option) \<Rightarrow>
    queue_op list \<Rightarrow> 'b \<Rightarrow> (bytes \<times> 'b) option" where
  "run_queue app rem [] b = Some ([], b)"
| "run_queue app rem (Append_op d # ops) b = do {
     (_, b1) \<leftarrow> app b d;
     run_queue app rem ops b1
   }"
| "run_queue app rem (Remove_op n # ops) b = do {
     (_, d, b1) \<leftarrow> rem b n;
     (out, b2) \<leftarrow> run_queue app rem ops b1;
     Some (d @ out, b2)
   }"

text \<open>The bytes that a sequence of operations puts in.\<close>

fun bytes_appended :: "queue_op list \<Rightarrow> bytes" where
  "bytes_appended [] = []"
| "bytes_appended (Append_op d # ops) = d @ bytes_appended ops"
| "bytes_appended (Remove_op n # ops) = bytes_appended ops"

text \<open>The argument of every append fits the 32-bit length parameter.\<close>

definition ops_fit :: "queue_op list \<Rightarrow> bool" where
  "ops_fit ops \<longleftrightarrow> (\<forall>d. Append_op d \<in> set ops \<longrightarrow> d \<noteq> [] \<and> length d < 4294967296)"

lemma ops_fit_simps [simp]:
  "ops_fit []"
  "ops_fit (Append_op d # ops) \<longleftrightarrow> d \<noteq> [] \<and> length d < 4294967296 \<and> ops_fit ops"
  "ops_fit (Remove_op n # ops) \<longleftrightarrow> ops_fit ops"
  by (auto simp: ops_fit_def)

subsection \<open>The queue\<close>

locale byte_queue =
  fixes wf :: "'b \<Rightarrow> bool" and bytes_in :: "'b \<Rightarrow> bytes"
    and app :: "'b \<Rightarrow> bytes \<Rightarrow> (int \<times> 'b) option"
    and rem :: "'b \<Rightarrow> nat \<Rightarrow> (int \<times> bytes \<times> 'b) option"
  assumes app_law: "wf b \<Longrightarrow> d \<noteq> [] \<Longrightarrow> length d < 4294967296 \<Longrightarrow>
      length (bytes_in b) + length d < 18446744073709551616 \<Longrightarrow>
      \<exists>b'. app b d = Some (int (length d), b') \<and> wf b' \<and> bytes_in b' = bytes_in b @ d"
    and rem_law: "wf b \<Longrightarrow> 0 < n \<Longrightarrow> n \<le> length (bytes_in b) \<Longrightarrow>
      \<exists>b'. rem b n = Some (int n, take n (bytes_in b), b') \<and> wf b' \<and> bytes_in b' = drop n (bytes_in b)"
    and rem_refused: "wf b \<Longrightarrow> n = 0 \<or> length (bytes_in b) < n \<Longrightarrow> rem b n = Some (- 1, [], b)"
begin

text \<open>A removal of any size delivers a prefix and keeps the rest.\<close>

lemma rem_total:
  assumes "wf b"
  obtains r d b' where "rem b n = Some (r, d, b')" and "wf b'" and "d @ bytes_in b' = bytes_in b"
proof (cases "n = 0 \<or> length (bytes_in b) < n")
  case True
  then show ?thesis using that [of "- 1" "[]" b] rem_refused [OF assms True] assms by simp
next
  case False
  then obtain b' where "rem b n = Some (int n, take n (bytes_in b), b')" "wf b'"
    "bytes_in b' = drop n (bytes_in b)"
    using rem_law [OF assms, of n] by auto
  then show ?thesis using that by simp
qed

theorem run_queue_fifo:
  "wf b \<Longrightarrow> ops_fit ops \<Longrightarrow>
    length (bytes_in b) + length (bytes_appended ops) < 18446744073709551616 \<Longrightarrow>
    \<exists>out b'. run_queue app rem ops b = Some (out, b') \<and> wf b' \<and>
      out @ bytes_in b' = bytes_in b @ bytes_appended ops"
proof (induction ops arbitrary: b)
  case Nil
  then show ?case by simp
next
  case (Cons p ops)
  show ?case
  proof (cases p)
    case (Append_op d)
    then obtain b1 where b1: "app b d = Some (int (length d), b1)" "wf b1"
      "bytes_in b1 = bytes_in b @ d"
      using app_law [OF Cons.prems(1), of d] Cons.prems by auto
    then show ?thesis using Append_op Cons.IH [OF b1(2)] Cons.prems by simp
  next
    case (Remove_op n)
    obtain r d b1 where b1: "rem b n = Some (r, d, b1)" "wf b1" "d @ bytes_in b1 = bytes_in b"
      using rem_total [OF Cons.prems(1)] by blast
    have "length (bytes_in b1) + length (bytes_appended ops) < 18446744073709551616"
      using Cons.prems(3) Remove_op by (simp flip: b1(3))
    then obtain out b' where "run_queue app rem ops b1 = Some (out, b')" "wf b'"
      "out @ bytes_in b' = bytes_in b1 @ bytes_appended ops"
      using Cons.IH [OF b1(2)] Remove_op Cons.prems(2) by auto
    then show ?thesis using Remove_op b1 by (simp flip: b1(3))
  qed
qed

end

subsection \<open>The queue with a view of its front\<close>

text \<open>
  \<open>peek\<close> is \<open>read_T\<close>, which delivers bytes without removing them, and \<open>discard\<close> is
  \<open>drain\<close>, which removes them without delivering.
\<close>

locale byte_source = byte_queue +
  fixes peek :: "'b \<Rightarrow> nat \<Rightarrow> (int \<times> bytes \<times> 'b) option" and discard :: "'b \<Rightarrow> nat \<Rightarrow> (int \<times> 'b) option"
  assumes peek_law: "wf b \<Longrightarrow> 0 < n \<Longrightarrow> n \<le> length (bytes_in b) \<Longrightarrow> n < 4294967296 \<Longrightarrow>
      \<exists>b'. peek b n = Some (int n, take n (bytes_in b), b') \<and> wf b' \<and> bytes_in b' = bytes_in b"
    and discard_law: "wf b \<Longrightarrow> 0 < n \<Longrightarrow> n \<le> length (bytes_in b) \<Longrightarrow>
      \<exists>b'. discard b n = Some (int n, b') \<and> wf b' \<and> bytes_in b' = drop n (bytes_in b)"
begin

text \<open>Looking at the front and then discarding it is a removal.\<close>

lemma peek_discard:
  assumes "wf b" and "0 < n" and "n \<le> length (bytes_in b)" and "n < 4294967296"
  shows "\<exists>b1 b2. peek b n = Some (int n, take n (bytes_in b), b1) \<and> discard b1 n = Some (int n, b2) \<and>
    wf b1 \<and> bytes_in b1 = bytes_in b \<and> wf b2 \<and> bytes_in b2 = drop n (bytes_in b)"
proof -
  obtain b1 where "peek b n = Some (int n, take n (bytes_in b), b1)" "wf b1" "bytes_in b1 = bytes_in b"
    using peek_law [OF assms] by blast
  then show ?thesis using discard_law [of b1 n] assms by auto
qed

end

end
