(* ===== verification/Buffer.thy ===== *)
theory Buffer
  imports Buffer_Chain Byte_Queue
begin

text \<open>
  \<open>buffer\<close> of \<open>src/reactor/buffer.h\<close> and \<open>buffer.cpp\<close>: a list of chains,
  the pointer \<open>last_chain_with_data_\<close>, and the number of stored bytes. Chains are linked a
  second time through their \<open>next_\<close> pointers, which the loops of the code follow; a pointer
  is dereferenced by looking its address up in the list, and a dangling one is \<open>None\<close>.
  \<open>heap_top\<close> stands for the allocator: the next address that has not been used yet.
\<close>

subsection \<open>State\<close>

record buffer =
  baddr :: addr
  chains :: "chain list"
  last_data :: "addr option"
  total_len :: nat
  heap_top :: addr

definition new_buffer :: "addr \<Rightarrow> addr \<Rightarrow> buffer" where
  "new_buffer a t0 = \<lparr>baddr = a, chains = [], last_data = None, total_len = 0, heap_top = t0\<rparr>"

definition find_chain :: "chain list \<Rightarrow> addr \<Rightarrow> chain option" where
  "find_chain cs a = List.find (\<lambda>c. chain_addr c = a) cs"

definition deref :: "buffer \<Rightarrow> addr option \<Rightarrow> chain option" where
  "deref b p = Option.bind p (find_chain (chains b))"

text \<open>The chain object at the address of \<open>c\<close> becomes \<open>c\<close>.\<close>

definition put_chain :: "chain \<Rightarrow> chain list \<Rightarrow> chain list" where
  "put_chain c cs = map (\<lambda>c'. if chain_addr c' = chain_addr c then c else c') cs"

definition set_next :: "addr option \<Rightarrow> chain \<Rightarrow> chain" where
  "set_next n c = c\<lparr>next_chain := n\<rparr>"

definition map_last :: "('a \<Rightarrow> 'a) \<Rightarrow> 'a list \<Rightarrow> 'a list" where
  "map_last f xs = (if xs = [] then [] else butlast xs @ [f (last xs)])"

definition first_chain_length :: "buffer \<Rightarrow> nat" where
  "first_chain_length b =
     (case chains b of [] \<Rightarrow> 0 | c # _ \<Rightarrow> if off c = 0 then 0 else chain_size c)"

definition back_addr :: "buffer \<Rightarrow> addr option" where
  "back_addr b = (case chains b of [] \<Rightarrow> None | cs \<Rightarrow> Some (chain_addr (last cs)))"

subsection \<open>List of chains\<close>

text \<open>
  \<open>push_back\<close> of a moved and of a copied chain. The new list node gets the next address;
  its \<open>next_\<close> is reset only when the list was not empty.
\<close>

definition link_back :: "chain \<Rightarrow> chain list \<Rightarrow> chain list" where
  "link_back c cs =
     (if cs = [] then [c]
      else map_last (set_next (Some (chain_addr c))) cs @ [set_next None c])"

definition push_back_move :: "buffer \<Rightarrow> chain \<Rightarrow> buffer" where
  "push_back_move b c =
     b\<lparr>chains := link_back (move_chain (heap_top b) c) (chains b), heap_top := Suc (heap_top b)\<rparr>"

definition push_back_copy :: "buffer \<Rightarrow> chain \<Rightarrow> buffer option" where
  "push_back_copy b c = do {
     c' \<leftarrow> copy_chain (heap_top b) c;
     Some (b\<lparr>chains := link_back c' (chains b), heap_top := Suc (heap_top b)\<rparr>)
   }"

definition push_front_move :: "buffer \<Rightarrow> chain \<Rightarrow> buffer" where
  "push_front_move b c =
     (let first_chain = (case chains b of [] \<Rightarrow> None | f # _ \<Rightarrow> Some (chain_addr f))
      in b\<lparr>chains := set_next first_chain (move_chain (heap_top b) c) # chains b,
           heap_top := Suc (heap_top b)\<rparr>)"

definition push_front_copy :: "buffer \<Rightarrow> chain \<Rightarrow> buffer option" where
  "push_front_copy b c = do {
     let first_chain = (case chains b of [] \<Rightarrow> None | f # _ \<Rightarrow> Some (chain_addr f));
     c' \<leftarrow> copy_chain (heap_top b) c;
     Some (b\<lparr>chains := set_next first_chain c' # chains b, heap_top := Suc (heap_top b)\<rparr>)
   }"

text \<open>
  \<open>free_trailing_empty_chains\<close>. The search for \<open>last_chain_with_data_\<close> runs off
  the list when the pointer dangles. The loop that pops the chains behind it decrements
  \<open>back_iter\<close> after \<open>pop_back\<close> has erased the node it refers to, which is undefined:
  the function is defined only when there is nothing to pop.
\<close>

definition free_trailing_empty_chains :: "buffer \<Rightarrow> (addr option \<times> buffer) option" where
  "free_trailing_empty_chains b =
     (if total_len b = 0 then Some (None, b\<lparr>chains := []\<rparr>)
      else do {
        a \<leftarrow> last_data b;
        _ \<leftarrow> find_chain (chains b) a;
        if chain_addr (last (chains b)) = a then Some (Some a, b) else None
      })"

text \<open>
  \<open>expand_if_needed\<close> returns the address of the chain to write to. The argument is already
  truncated to 32 bits by the caller. A failing \<open>assert\<close> is \<open>None\<close>.
\<close>

definition worth_resizing :: "chain \<Rightarrow> nat \<Rightarrow> bool" where
  "worth_resizing lc data_len \<longleftrightarrow>
     \<not> (chain_free_space lc < capacity lc div 8 \<or> off lc > MAXIMUM_SIZE_WHEN_EXPAND \<or>
        data_len \<ge> u32_sub MAXIMUM_CHAIN_SIZE (off lc))"

definition expand_if_needed :: "buffer \<Rightarrow> nat \<Rightarrow> (addr option \<times> buffer) option" where
  "expand_if_needed b data_len =
     (if total_len b = 0 then do {
        c \<leftarrow> new_chain (heap_top b) (Some (baddr b)) data_len;
        let b1 = push_front_move b c;
        Some (back_addr b1, b1)
      } else do {
        lc \<leftarrow> deref b (last_data b);
        if chain_free_space lc \<ge> data_len then Some (last_data b, b)
        else if \<not> worth_resizing lc data_len then do {
          use_next \<leftarrow>
            (if next_chain lc = None then Some False
             else do {
               nx \<leftarrow> deref b (next_chain lc);
               if chain_free_space nx > data_len then (if off nx = 0 then Some True else None)
               else Some False
             });
          if use_next then Some (next_chain lc, b)
          else do {
            (_, b1) \<leftarrow> free_trailing_empty_chains b;
            c \<leftarrow> new_chain (heap_top b1) (Some (baddr b1)) data_len;
            let b2 = push_back_move b1 c;
            Some (back_addr b2, b2)
          }
        } else do {
          chain_newed \<leftarrow> new_chain (heap_top b) (Some (baddr b)) (u32 (off lc + data_len));
          chain_newed \<leftarrow> assign_chain chain_newed lc;
          b1 \<leftarrow> push_back_copy (b\<lparr>chains := butlast (chains b)\<rparr>) chain_newed;
          Some (back_addr b1, b1\<lparr>last_data := back_addr b1\<rparr>)
        }
      })"

subsection \<open>Appending\<close>

text \<open>\<open>append(const void*, uint64_t)\<close>.\<close>

definition append :: "buffer \<Rightarrow> bytes option \<Rightarrow> (int \<times> buffer) option" where
  "append b data =
     (case data of
        None \<Rightarrow> Some (- 1, b)
      | Some d \<Rightarrow>
          if length d = 0 then Some (- 1, b)
          else do {
            (p, b1) \<leftarrow> expand_if_needed b (u32 (length d));
            data_chain \<leftarrow> deref b1 p;
            if chain_free_space data_chain < length d then Some (- 1, b1)
            else do {
              (_, c) \<leftarrow> append_data data_chain (Some d);
              Some (int (length d),
                b1\<lparr>chains := put_chain c (chains b1), total_len := u64 (total_len b1 + length d),
                   last_data := p\<rparr>)
            }
          })"

text \<open>The template \<open>append(const T&)\<close> on the object representation of the value.\<close>

definition append_value :: "buffer \<Rightarrow> bytes \<Rightarrow> (int \<times> buffer) option" where
  "append_value b d = do {
     let size_needed = u32 (length d);
     (p, b1) \<leftarrow> expand_if_needed b size_needed;
     if p = None then Some (- 1, b1)
     else do {
       c \<leftarrow> deref b1 p;
       (_, c') \<leftarrow> append_T c d;
       Some (int size_needed,
         b1\<lparr>chains := put_chain c' (chains b1), total_len := u64 (total_len b1 + size_needed),
            last_data := p\<rparr>)
     }
   }"

text \<open>\<open>append(const buffer_chain&)\<close> and \<open>append(buffer_chain&&)\<close>.\<close>

definition append_copied_chain :: "buffer \<Rightarrow> chain \<Rightarrow> (int \<times> buffer) option" where
  "append_copied_chain b other = do {
     let size = chain_size other;
     if size = 0 then Some (0, b)
     else do {
       (p, b1) \<leftarrow> expand_if_needed b size;
       c \<leftarrow> deref b1 p;
       if chain_free_space c < size then None
       else do {
         d \<leftarrow> read_chain other;
         pos \<leftarrow>
           (if last_data b1 = p then Some (off c)
            else if last_data b1 = None then Some 0
            else do {
              lc \<leftarrow> deref b1 (last_data b1);
              if next_chain lc = p then Some 0 else None
            });
         buf \<leftarrow> memcpy (cbuf c) pos d;
         let c' = c\<lparr>cbuf := buf, off := u32 (off c + size)\<rparr>;
         Some (int size,
           b1\<lparr>chains := put_chain c' (chains b1), total_len := u64 (total_len b1 + size),
              last_data := p\<rparr>)
       }
     }
   }"

definition append_moved_chain :: "buffer \<Rightarrow> chain \<Rightarrow> (int \<times> buffer) option" where
  "append_moved_chain b c =
     (if chain_size c = 0 then Some (0, b)
      else do {
        b1 \<leftarrow>
          (if last_data b \<noteq> None then do {
             (p, b1) \<leftarrow> free_trailing_empty_chains b;
             lc \<leftarrow> deref b1 p;
             Some (b1\<lparr>chains := put_chain (set_next (Some (heap_top b1)) lc) (chains b1)\<rparr>)
           } else Some b);
        let c' = (move_chain (heap_top b1) c)\<lparr>next_chain := None, parent := Some (baddr b1)\<rparr>;
        Some (int (chain_size c'),
          b1\<lparr>chains := chains b1 @ [c'], last_data := Some (chain_addr c'),
             total_len := u64 (total_len b1 + chain_size c'), heap_top := Suc (heap_top b1)\<rparr>)
      })"

subsection \<open>Positions\<close>

text \<open>
  \<open>begin\<close> and \<open>end\<close> of the buffer; both dereference a chain that an empty buffer
  does not have.
\<close>

definition buffer_begin :: "buffer \<Rightarrow> buffer_iter option" where
  "buffer_begin b =
     (case chains b of
        [] \<Rightarrow> None
      | c # _ \<Rightarrow> Some \<lparr>it_buffer = Some (baddr b), it_chain = Some (chain_addr c),
          offset_of_buffer = 0, chain_number = 0, offset_of_chain = misalign c\<rparr>)"

definition buffer_end :: "buffer \<Rightarrow> buffer_iter option" where
  "buffer_end b = do {
     c \<leftarrow> deref b (last_data b);
     Some \<lparr>it_buffer = Some (baddr b), it_chain = last_data b, offset_of_buffer = total_len b,
       chain_number = 0, offset_of_chain = off c\<rparr>
   }"

text \<open>The loop of \<open>iter_of_chain\<close> along \<open>next_\<close>, summing up capacities.\<close>

partial_function (option) iter_walk ::
  "chain list \<Rightarrow> addr option \<Rightarrow> addr \<Rightarrow> nat \<Rightarrow> (addr option \<times> nat) option" where
  "iter_walk cs cur target offset =
     (case cur of
        None \<Rightarrow> Some (None, offset)
      | Some a \<Rightarrow>
          if a = target then Some (Some a, offset)
          else do {
            c \<leftarrow> find_chain cs a;
            iter_walk cs (next_chain c) target (u32 (offset + capacity c))
          })"

declare iter_walk.simps [code]

definition front_addr :: "buffer \<Rightarrow> addr option" where
  "front_addr b = (case chains b of [] \<Rightarrow> None | c # _ \<Rightarrow> Some (chain_addr c))"

definition iter_of_chain :: "buffer \<Rightarrow> addr \<Rightarrow> buffer_iter option" where
  "iter_of_chain b target =
     (if total_len b = 0 then Some NULL_ITER
      else do {
        a \<leftarrow> front_addr b;
        (found, offset) \<leftarrow> iter_walk (chains b) (Some a) target 0;
        if found = None then Some NULL_ITER
        else do {
          c \<leftarrow> deref b found;
          Some \<lparr>it_buffer = Some (baddr b), it_chain = found, offset_of_buffer = offset,
            chain_number = 0, offset_of_chain = misalign c\<rparr>
        }
      })"

text \<open>
  \<open>buffer_chain::begin\<close> and \<open>end\<close> go through \<open>parent_\<close>. Only the buffer at
  hand is part of the state, so a chain whose \<open>parent_\<close> is another object is \<open>None\<close>.
\<close>

definition chain_begin :: "buffer \<Rightarrow> chain \<Rightarrow> buffer_iter option" where
  "chain_begin b c =
     (if parent c = Some (baddr b) then do {
        it \<leftarrow> iter_of_chain b (chain_addr c);
        Some \<lparr>it_buffer = parent c, it_chain = Some (chain_addr c),
          offset_of_buffer = offset_of_buffer it, chain_number = 0, offset_of_chain = misalign c\<rparr>
      } else None)"

definition chain_end :: "buffer \<Rightarrow> chain \<Rightarrow> buffer_iter option" where
  "chain_end b c =
     (if parent c = Some (baddr b) then do {
        it \<leftarrow> iter_of_chain b (chain_addr c);
        Some \<lparr>it_buffer = parent c, it_chain = Some (chain_addr c),
          offset_of_buffer = offset_of_buffer it + off c, chain_number = 0, offset_of_chain = off c\<rparr>
      } else None)"

subsection \<open>Pulling up\<close>

text \<open>The loop that moves whole chains into the first one.\<close>

partial_function (option) pullup_loop ::
  "addr \<Rightarrow> addr option \<Rightarrow> nat \<Rightarrow> buffer \<Rightarrow> (addr option \<times> nat \<times> buffer) option" where
  "pullup_loop first cur remain b =
     (case cur of
        None \<Rightarrow> Some (None, remain, b)
      | Some a \<Rightarrow> do {
          c \<leftarrow> find_chain (chains b) a;
          if remain \<ge> chain_size c then
            if chain_size c = 0 then None
            else do {
              f \<leftarrow> find_chain (chains b) first;
              (_, f1) \<leftarrow> append_chain f c;
              let f2 = f1\<lparr>next_chain := next_chain c\<rparr>;
              let cs = put_chain f2 (chains b);
              pullup_loop first (next_chain c) (remain - chain_size c)
                (b\<lparr>chains := take 1 cs @ drop 2 cs\<rparr>)
            }
          else Some (Some a, remain, b)
        })"

declare pullup_loop.simps [code]

text \<open>The second half of \<open>pullup\<close>: move the missing bytes into the first chain.\<close>

definition pullup_into_front :: "buffer \<Rightarrow> nat \<Rightarrow> (addr option \<times> buffer) option" where
  "pullup_into_front b1 remain_to_pullup = do {
     a1 \<leftarrow> front_addr b1;
     f \<leftarrow> find_chain (chains b1) a1;
     (cur, remain, b2) \<leftarrow> pullup_loop a1 (next_chain f) remain_to_pullup b1;
     b3 \<leftarrow>
       (if remain \<noteq> 0 then do {
          c \<leftarrow> deref b2 cur;
          f \<leftarrow> find_chain (chains b2) a1;
          start \<leftarrow> chain_begin b2 c;
          (_, f1) \<leftarrow> append_chain_range f c remain start;
          let c1 = c\<lparr>misalign := u32 (misalign c + remain)\<rparr>;
          Some (b2\<lparr>chains := put_chain c1 (put_chain f1 (chains b2))\<rparr>)
        } else Some b2);
     Some (Some a1, b3\<lparr>last_data := if cur = None then Some a1 else last_data b3\<rparr>)
   }"

text \<open>
  \<open>pullup\<close> returns the address of the chain whose start it points to, or null. The test
  \<open>size > total_len_\<close> compares a signed with an unsigned 64-bit integer, so a negative size
  is converted to a large one and answered with null.
\<close>

definition pullup :: "buffer \<Rightarrow> int \<Rightarrow> (addr option \<times> buffer) option" where
  "pullup b sz =
     (if sz = 0 \<or> nat (sz mod 2 ^ 64) > total_len b then Some (None, b)
      else do {
        let sz = (if sz < 0 then total_len b else nat sz);
        a \<leftarrow> front_addr b;
        first_chain \<leftarrow> find_chain (chains b) a;
        if chain_size first_chain \<ge> sz then Some (Some a, b)
        else do {
          let remain_to_pullup = sz - chain_size first_chain;
          b1 \<leftarrow>
            (if chain_free_space first_chain \<ge> remain_to_pullup then Some b
             else do {
               c \<leftarrow> new_chain (heap_top b) (Some (baddr b)) (u32 sz);
               c \<leftarrow> assign_chain c first_chain;
               Some (b\<lparr>chains := move_chain (heap_top b) c # tl (chains b),
                      heap_top := Suc (heap_top b)\<rparr>)
             });
          pullup_into_front b1 remain_to_pullup
        }
      })"

text \<open>\<open>read_T\<close> copies the first bytes of the pulled-up chain.\<close>

definition read_T :: "buffer \<Rightarrow> nat \<Rightarrow> (int \<times> bytes \<times> buffer) option" where
  "read_T b sz = do {
     (p, b1) \<leftarrow> pullup b (int sz);
     if p = None then Some (- 1, [], b1)
     else do {
       c \<leftarrow> deref b1 p;
       d \<leftarrow> memread (cbuf c) (misalign c) sz;
       Some (int sz, d, b1)
     }
   }"

subsection \<open>Removing\<close>

text \<open>
  The loop of \<open>remove\<close>, with the two pointers it carries and the bytes written to the
  destination so far. \<open>next_chain\<close> is read before the chain is popped, and dereferenced when
  the loop advances.
\<close>

partial_function (option) remove_loop ::
  "addr \<Rightarrow> addr option \<Rightarrow> nat \<Rightarrow> bytes \<Rightarrow> buffer \<Rightarrow> (bytes \<times> buffer) option" where
  "remove_loop cur nxt remain out b =
     (if remain = 0 then Some (out, b)
      else do {
        c \<leftarrow> find_chain (chains b) cur;
        if chain_size c \<le> remain then
          if chain_size c = 0 then None
          else do {
            d \<leftarrow> read_chain c;
            let b1 = b\<lparr>total_len := u64_sub (total_len b) (chain_size c), chains := tl (chains b)\<rparr>;
            if last_data b = Some cur then
              if remain - chain_size c = 0 then Some (out @ d, b1\<lparr>last_data := None\<rparr>) else None
            else do {
              n \<leftarrow> nxt;
              c' \<leftarrow> find_chain (chains b1) n;
              remove_loop n (next_chain c') (remain - chain_size c) (out @ d) b1
            }
          }
        else do {
          d \<leftarrow> memread (cbuf c) (misalign c) remain;
          let c1 = c\<lparr>misalign := u32 (misalign c + remain)\<rparr>;
          Some (out @ d, b\<lparr>chains := put_chain c1 (chains b),
            total_len := u64_sub (total_len b) remain\<rparr>)
        }
      })"

declare remove_loop.simps [code]

text \<open>\<open>remove(data, data_len)\<close> with a destination of \<open>data_len\<close> bytes.\<close>

definition remove :: "buffer \<Rightarrow> nat \<Rightarrow> (int \<times> bytes \<times> buffer) option" where
  "remove b data_len =
     (if data_len = 0 then Some (- 1, [], b)
      else if last_data b = None \<or> total_len b < data_len then Some (- 1, [], b)
      else do {
        a \<leftarrow> front_addr b;
        c \<leftarrow> find_chain (chains b) a;
        (out, b1) \<leftarrow> remove_loop a (next_chain c) data_len [] b;
        Some (int data_len, out, b1)
      })"

definition drain :: "buffer \<Rightarrow> nat \<Rightarrow> (int \<times> buffer) option" where
  "drain b len = do {
     (ret, _, b1) \<leftarrow> remove b len;
     Some (ret, b1)
   }"

subsection \<open>Formatted output\<close>

text \<open>
  \<open>append_printf\<close>. What \<open>vsnprintf\<close> makes of a format with the arguments of the call is the
  parameter \<open>vs\<close>: \<open>None\<close> for an encoding error, otherwise the whole formatted text, of which at most \<open>data_size - 1\<close>
  bytes and a NUL are written behind \<open>off_\<close>. The \<open>for(;;)\<close> loop need not end.
\<close>

definition vsnprintf_into :: "chain \<Rightarrow> bytes \<Rightarrow> chain option" where
  "vsnprintf_into c s =
     (if chain_free_space c = 0 then Some c
      else do {
        buf \<leftarrow> memcpy (cbuf c) (off c) (take (chain_free_space c - 1) s @ [NUL]);
        Some (c\<lparr>cbuf := buf\<rparr>)
      })"

partial_function (option) printf_loop ::
  "addr option \<Rightarrow> bytes option \<Rightarrow> buffer \<Rightarrow> (int \<times> buffer) option" where
  "printf_loop p text b = do {
     c \<leftarrow> deref b p;
     case text of
       None \<Rightarrow> Some (- 1, b)
     | Some s \<Rightarrow> do {
         c1 \<leftarrow> vsnprintf_into c s;
         let b1 = b\<lparr>chains := put_chain c1 (chains b)\<rparr>;
         if MAXIMUM_CHAIN_SIZE < length s then Some (- 1, b1)
         else if length s < chain_free_space c
         then let c2 = c1\<lparr>off := u32 (off c1 + length s)\<rparr> in
           Some (int (length s), b1\<lparr>chains := put_chain c2 (chains b1),
             total_len := u64 (total_len b1 + length s), last_data := p\<rparr>)
         else do {
           (p', b2) \<leftarrow> expand_if_needed b1 (u32 (length s + 1));
           printf_loop p' text b2
         }
       }
   }"

declare printf_loop.simps [code]

definition append_printf ::
  "(bytes \<Rightarrow> bytes option) \<Rightarrow> buffer \<Rightarrow> bytes option \<Rightarrow> (int \<times> buffer) option" where
  "append_printf vs b fmt =
     (case fmt of
        None \<Rightarrow> Some (- 1, b)
      | Some f \<Rightarrow> do {
          (p, b1) \<leftarrow> expand_if_needed b 64;
          printf_loop p (vs f) b1
        })"

subsection \<open>Well-formed buffers\<close>

text \<open>The bytes of a list of chains.\<close>

definition bytes_of :: "chain list \<Rightarrow> bytes" where
  "bytes_of cs = concat (map content cs)"

text \<open>Each chain's \<open>next_\<close> is the address of its successor in the list.\<close>

fun linked_open :: "chain list \<Rightarrow> bool" where
  "linked_open (c # d # cs) \<longleftrightarrow> next_chain c = Some (chain_addr d) \<and> linked_open (d # cs)"
| "linked_open _ \<longleftrightarrow> True"

definition linked :: "chain list \<Rightarrow> bool" where
  "linked cs \<longleftrightarrow> linked_open cs \<and> (cs \<noteq> [] \<longrightarrow> next_chain (last cs) = None)"

definition chains_ok :: "addr \<Rightarrow> addr \<Rightarrow> chain list \<Rightarrow> bool" where
  "chains_ok ba ht cs \<longleftrightarrow>
     distinct (map chain_addr cs) \<and>
     (\<forall>c \<in> set cs. chain_ok c \<and> parent c = Some ba \<and> chain_addr c < ht)"

text \<open>
  The invariant of \<open>buffer\<close> between operations: no empty chains, both links agree with the
  list, \<open>last_chain_with_data_\<close> is the last chain and \<open>total_len_\<close> the number of bytes.
\<close>

definition buffer_wf :: "buffer \<Rightarrow> bool" where
  "buffer_wf b \<longleftrightarrow>
     chains_ok (baddr b) (heap_top b) (chains b) \<and> linked (chains b) \<and>
     (\<forall>c \<in> set (chains b). 0 < chain_size c) \<and>
     last_data b = back_addr b \<and> total_len b = length (bytes_of (chains b)) \<and>
     total_len b < 18446744073709551616"

text \<open>The abstract value of a buffer: the byte string it stores.\<close>

definition contents :: "buffer \<Rightarrow> bytes" where
  "contents b = bytes_of (chains b)"

lemma bytes_of_simps [simp]:
  "bytes_of [] = []" "bytes_of (c # cs) = content c @ bytes_of cs"
  "bytes_of (xs @ ys) = bytes_of xs @ bytes_of ys"
  by (simp_all add: bytes_of_def)

lemma set_next_simps [simp]:
  "content (set_next n c) = content c" "chain_ok (set_next n c) = chain_ok c"
  "chain_size (set_next n c) = chain_size c" "chain_free_space (set_next n c) = chain_free_space c"
  "chain_addr (set_next n c) = chain_addr c" "next_chain (set_next n c) = n"
  "parent (set_next n c) = parent c" "off (set_next n c) = off c"
  "misalign (set_next n c) = misalign c" "cbuf (set_next n c) = cbuf c"
  "capacity (set_next n c) = capacity c"
  by (simp_all add: set_next_def content_def chain_ok_def chain_size_def chain_free_space_def)

lemma move_chain_addr [simp]: "chain_addr (move_chain a c) = a"
  by (simp add: move_chain_def)

lemma find_chain_simps [simp]:
  "find_chain [] a = None"
  "find_chain (c # cs) a = (if chain_addr c = a then Some c else find_chain cs a)"
  by (simp_all add: find_chain_def)

lemma find_chain_mid [simp]:
  "chain_addr c \<notin> chain_addr ` set xs \<Longrightarrow> find_chain (xs @ c # ys) (chain_addr c) = Some c"
  by (induction xs) auto

lemma put_chain_simps [simp]:
  "put_chain c [] = []"
  "put_chain c (d # cs) = (if chain_addr d = chain_addr c then c else d) # put_chain c cs"
  "put_chain c (xs @ ys) = put_chain c xs @ put_chain c ys"
  by (simp_all add: put_chain_def)

lemma put_chain_other [simp]: "chain_addr c \<notin> chain_addr ` set cs \<Longrightarrow> put_chain c cs = cs"
  by (induction cs) auto

lemma map_last_simps [simp]:
  "map_last f [] = []" "map_last f (xs @ [x]) = xs @ [f x]"
  by (simp_all add: map_last_def)

lemma linked_open_appendD: "linked_open (xs @ ys) \<Longrightarrow> linked_open xs"
  by (induction xs rule: linked_open.induct) auto

lemma linked_open_Cons: "linked_open (c # cs) \<Longrightarrow> linked_open cs"
  by (cases cs) auto

lemma linked_open_snoc:
  "linked_open (xs @ [x, y]) \<longleftrightarrow> linked_open (xs @ [x]) \<and> next_chain x = Some (chain_addr y)"
proof (induction xs)
  case (Cons a xs)
  then show ?case by (cases xs) auto
qed simp

lemma linked_open_change_last:
  "chain_addr x = chain_addr y \<Longrightarrow> linked_open (xs @ [x]) \<Longrightarrow> linked_open (xs @ [y])"
proof (induction xs)
  case (Cons a xs)
  then show ?case by (cases xs) auto
qed simp

lemma linked_snocD: "linked (xs @ [x]) \<Longrightarrow> next_chain x = None"
  by (simp add: linked_def)

lemma linked_ConsD: "linked (c # d # cs) \<Longrightarrow> next_chain c = Some (chain_addr d) \<and> linked (d # cs)"
  by (simp add: linked_def)

lemma linked_link_back:
  assumes "linked_open cs" and "cs = [] \<Longrightarrow> next_chain c = None"
  shows "linked (link_back c cs)"
proof (cases cs rule: rev_cases)
  case Nil
  then show ?thesis using assms by (simp add: link_back_def linked_def)
next
  case (snoc xs x)
  then have "linked_open (xs @ [set_next (Some (chain_addr c)) x])"
    using assms(1) by (auto intro: linked_open_change_last [of x])
  then show ?thesis
    using snoc linked_open_snoc [of xs "set_next (Some (chain_addr c)) x" "set_next None c"]
    by (simp add: link_back_def linked_def)
qed

lemma link_back_facts:
  "bytes_of (link_back c cs) = bytes_of cs @ content c"
  "map chain_addr (link_back c cs) = map chain_addr cs @ [chain_addr c]"
  by (cases cs rule: rev_cases; simp add: link_back_def)+

lemma chains_ok_snoc:
  "chains_ok ba ht (xs @ [c]) \<longleftrightarrow>
     chains_ok ba ht xs \<and> chain_ok c \<and> parent c = Some ba \<and> chain_addr c < ht \<and>
     chain_addr c \<notin> chain_addr ` set xs"
  by (auto simp: chains_ok_def)

lemma chains_ok_set_next [simp]:
  "chains_ok ba ht (xs @ [set_next n x]) = chains_ok ba ht (xs @ [x])"
  by (simp add: chains_ok_snoc)

lemma chains_ok_mono: "chains_ok ba ht cs \<Longrightarrow> ht \<le> ht' \<Longrightarrow> chains_ok ba ht' cs"
  by (auto simp: chains_ok_def)

lemma chains_ok_link_back:
  assumes "chains_ok ba ht cs" and "chain_ok c" and "parent c = Some ba" and "chain_addr c = ht"
  shows "chains_ok ba (Suc ht) (link_back c cs)"
proof -
  have "chain_addr c \<notin> chain_addr ` set cs" using assms by (auto simp: chains_ok_def)
  moreover have "chains_ok ba (Suc ht) cs" using assms(1) by (rule chains_ok_mono) simp
  ultimately show ?thesis
    using assms(2-4)
    by (cases cs rule: rev_cases) (auto simp: link_back_def chains_ok_def)
qed

lemma new_buffer_wf: "buffer_wf (new_buffer a t)"
  by (simp add: buffer_wf_def new_buffer_def chains_ok_def linked_def back_addr_def)

lemma contents_new_buffer [simp]: "contents (new_buffer a t) = []"
  by (simp add: contents_def new_buffer_def)

lemma back_addr_snoc: "chains b = xs @ [x] \<Longrightarrow> back_addr b = Some (chain_addr x)"
  by (cases "chains b") (auto simp: back_addr_def Cons_eq_append_conv)

lemma back_addr_Nil: "chains b = [] \<Longrightarrow> back_addr b = None"
  by (simp add: back_addr_def)

lemma buffer_wf_empty: "buffer_wf b \<Longrightarrow> total_len b = 0 \<longleftrightarrow> chains b = []"
  by (cases "chains b") (auto simp: buffer_wf_def chains_ok_def length_content)

lemma buffer_wf_snocE:
  assumes "buffer_wf b" and "total_len b \<noteq> 0"
  obtains pre lc where "chains b = pre @ [lc]" and "last_data b = Some (chain_addr lc)"
    and "chain_ok lc" and "next_chain lc = None" and "0 < chain_size lc"
    and "chain_addr lc \<notin> chain_addr ` set pre" and "deref b (last_data b) = Some lc"
proof -
  have "chains b \<noteq> []" using buffer_wf_empty [OF assms(1)] assms(2) by simp
  then obtain pre lc where pre: "chains b = pre @ [lc]" by (cases "chains b" rule: rev_cases) auto
  moreover have ld: "last_data b = Some (chain_addr lc)"
    using assms(1) pre by (simp add: buffer_wf_def back_addr_snoc)
  moreover have "chain_addr lc \<notin> chain_addr ` set pre"
    using assms(1) pre by (simp add: buffer_wf_def chains_ok_snoc)
  moreover from this have "deref b (last_data b) = Some lc"
    using ld pre by (simp add: deref_def)
  moreover have "next_chain lc = None" "chain_ok lc" "0 < chain_size lc"
    using assms(1) pre linked_snocD [of pre lc] by (simp_all add: buffer_wf_def chains_ok_snoc)
  ultimately show ?thesis using that by blast
qed

text \<open>
  What \<open>expand_if_needed\<close> leaves behind: the chain it returns is the last one, it has room
  for the request, and it either is the old last chain with data or is still empty.
\<close>

definition expand_ready :: "buffer \<Rightarrow> nat \<Rightarrow> buffer \<Rightarrow> chain list \<Rightarrow> chain \<Rightarrow> bool" where
  "expand_ready b n b1 pre c \<longleftrightarrow>
     chains b1 = pre @ [c] \<and> baddr b1 = baddr b \<and> total_len b1 = total_len b \<and>
     chains_ok (baddr b) (heap_top b1) (pre @ [c]) \<and> linked (pre @ [c]) \<and>
     (\<forall>x \<in> set pre. 0 < chain_size x) \<and> bytes_of (pre @ [c]) = contents b \<and>
     n \<le> chain_free_space c \<and>
     (last_data b1 = Some (chain_addr c) \<or>
      off c = 0 \<and> (last_data b1 = None \<or>
        (\<exists>xs x. pre = xs @ [x] \<and> last_data b1 = Some (chain_addr x))))"

lemma expand_empty:
  assumes "buffer_wf b" and "total_len b = 0" and "n < 4294967296"
  shows "\<exists>b1 c. expand_if_needed b n = Some (Some (chain_addr c), b1) \<and> expand_ready b n b1 [] c"
proof -
  have cs: "chains b = []" using assms by (simp add: buffer_wf_empty)
  obtain cap where "new_chain (heap_top b) (Some (baddr b)) n = Some \<lparr>chain_addr = heap_top b,
      cbuf = calloc cap, capacity = cap, off = 0, next_chain = None, parent = Some (baddr b),
      misalign = 0\<rparr>" "n \<le> cap" "cap < 4294967296"
    using new_chain_returns [OF assms(3)] by blast
  moreover have "last_data b = None"
    using assms(1) cs by (simp add: buffer_wf_def back_addr_def)
  ultimately show ?thesis
    using assms(2) cs
    by (simp add: expand_if_needed_def push_front_move_def move_chain_def back_addr_def
        expand_ready_def chains_ok_def linked_def chain_ok_def chain_free_space_def uint_simps
        content_def contents_def)
qed

lemma expand_new_chain:
  assumes wf: "buffer_wf b" and tl: "total_len b \<noteq> 0" and "n < 4294967296"
    and lc: "deref b (last_data b) = Some lc" and room: "\<not> n \<le> chain_free_space lc"
    and worth: "\<not> worth_resizing lc n"
  shows "\<exists>b1 pre c. expand_if_needed b n = Some (Some (chain_addr c), b1) \<and> expand_ready b n b1 pre c"
proof -
  obtain pre where snoc: "chains b = pre @ [lc]" "last_data b = Some (chain_addr lc)"
    "next_chain lc = None" "chain_addr lc \<notin> chain_addr ` set pre"
    using buffer_wf_snocE [OF wf tl] lc by (metis option.inject)
  obtain c where new: "new_chain (heap_top b) (Some (baddr b)) n = Some c"
    and c: "chain_ok c" "content c = []" "chain_addr c = heap_top b" "off c = 0"
    "parent c = Some (baddr b)" "n \<le> chain_free_space c" "move_chain (heap_top b) c = c"
    using new_chain_returns [OF assms(3), of "heap_top b" "Some (baddr b)"]
    by (auto simp: chain_ok_def content_def chain_free_space_def uint_simps move_chain_def)
  define b1 where "b1 = b\<lparr>chains := link_back c (chains b), heap_top := Suc (heap_top b)\<rparr>"
  have b1: "chains b1 = (pre @ [set_next (Some (heap_top b)) lc]) @ [set_next None c]"
    using snoc(1) c(3) by (simp add: b1_def link_back_def)
  have free: "free_trailing_empty_chains b = Some (Some (chain_addr lc), b)"
    using snoc tl by (simp add: free_trailing_empty_chains_def)
  have "push_back_move b c = b1" by (simp add: push_back_move_def b1_def c(7))
  then have eq: "expand_if_needed b n = Some (Some (chain_addr c), b1)"
    unfolding expand_if_needed_def
    by (simp add: tl lc room worth snoc(3) free new back_addr_snoc [OF b1])
  have "chains_ok (baddr b) (Suc (heap_top b)) (link_back c (chains b))"
    using wf c by (intro chains_ok_link_back) (simp_all add: buffer_wf_def)
  moreover have "linked (link_back c (chains b))"
    using wf snoc(1) by (intro linked_link_back) (simp_all add: buffer_wf_def linked_def)
  moreover have "bytes_of (link_back c (chains b)) = contents b"
    by (simp add: link_back_facts c(2) contents_def)
  moreover have "\<forall>x \<in> set (pre @ [set_next (Some (heap_top b)) lc]). 0 < chain_size x"
    using wf snoc(1) by (simp add: buffer_wf_def)
  moreover have "link_back c (chains b) = chains b1" "last_data b1 = Some (chain_addr lc)"
    "heap_top b1 = Suc (heap_top b)" "baddr b1 = baddr b" "total_len b1 = total_len b"
    using snoc(2) by (simp_all add: b1_def)
  ultimately have "expand_ready b n b1 (pre @ [set_next (Some (heap_top b)) lc]) (set_next None c)"
    unfolding expand_ready_def b1 [symmetric] by (simp add: c)
  then show ?thesis using eq by (metis set_next_simps(5))
qed

lemma expand_resize:
  assumes wf: "buffer_wf b" and "total_len b \<noteq> 0" and "n < 4294967296"
    and "deref b (last_data b) = Some lc" and "\<not> n \<le> chain_free_space lc"
    and worth: "worth_resizing lc n"
  shows "\<exists>b1 pre c. expand_if_needed b n = Some (Some (chain_addr c), b1) \<and> expand_ready b n b1 pre c"
proof -
  obtain pre lc' where snoc: "chains b = pre @ [lc']" "chain_ok lc'" "next_chain lc' = None"
    "deref b (last_data b) = Some lc'"
    using buffer_wf_snocE [OF assms(1,2)] by blast
  then have lc: "lc' = lc" using assms(4) by simp
  note ok = chain_okD [OF snoc(2) [unfolded lc]]
  have len: "off lc + n < 4294967296"
    using worth ok by (auto simp: worth_resizing_def MAXIMUM_CHAIN_SIZE_def uint_simps)
  have cs: "chains_ok (baddr b) (heap_top b) (pre @ [lc])" and lk: "linked (pre @ [lc])"
    and pos: "\<forall>x \<in> set pre. 0 < chain_size x"
    using wf snoc(1) lc by (simp_all add: buffer_wf_def)
  have ad: "chain_addr lc < heap_top b" and par: "parent lc = Some (baddr b)"
    using cs by (simp_all add: chains_ok_snoc)
  obtain cap where new: "new_chain (heap_top b) (Some (baddr b)) (off lc + n) = Some
      \<lparr>chain_addr = heap_top b, cbuf = calloc cap, capacity = cap, off = 0, next_chain = None,
       parent = Some (baddr b), misalign = 0\<rparr>" (is "_ = Some ?c0")
    and cap: "off lc + n \<le> cap" "cap < 4294967296"
    using new_chain_returns [OF len] by blast
  have "chain_ok ?c0" using cap by (simp add: chain_ok_def)
  then obtain c1 where c1: "assign_chain ?c0 lc = Some c1" "chain_ok c1" "content c1 = content lc"
    "off c1 = chain_size lc" "misalign c1 = 0" "cap \<le> capacity c1" "next_chain c1 = None"
    "parent c1 = Some (baddr b)"
    using assign_chain_returns [of ?c0 lc] snoc(2,3) lc ad par by auto
  obtain c2 where c2: "copy_chain (heap_top b) c1 = Some c2" "chain_ok c2" "content c2 = content lc"
    "capacity c1 \<le> capacity c2" "off c2 = chain_size lc" "chain_addr c2 = heap_top b"
    "next_chain c2 = None" "parent c2 = Some (baddr b)"
    using copy_chain_returns [OF c1(2), of "heap_top b"] c1 by (auto simp: chain_simps)
  define b1 where "b1 = b\<lparr>chains := link_back c2 pre, heap_top := Suc (heap_top b),
    last_data := Some (heap_top b)\<rparr>"
  obtain pre' c3 where b1: "chains b1 = pre' @ [c3]" "c3 = c2 \<or> c3 = set_next None c2"
    "\<forall>x \<in> set pre'. 0 < chain_size x"
    using pos by (cases pre rule: rev_cases) (auto simp: b1_def link_back_def)
  have eq: "expand_if_needed b n = Some (Some (chain_addr c3), b1)"
    using assms(2,4,5) worth new c1(1) c2(1,6) b1(2) back_addr_snoc [OF b1(1)] len snoc(1)
    by (auto simp: expand_if_needed_def push_back_copy_def uint_simps b1_def back_addr_def)
  have "chains_ok (baddr b) (Suc (heap_top b)) (link_back c2 pre)"
    using cs c2 by (intro chains_ok_link_back) (simp_all add: chains_ok_snoc)
  moreover have "linked (link_back c2 pre)"
    using lk c2(7) by (intro linked_link_back) (auto simp: linked_def dest: linked_open_appendD)
  moreover have "bytes_of (link_back c2 pre) = contents b"
    using c2(3) snoc(1) lc by (simp add: link_back_facts contents_def)
  moreover have "n \<le> chain_free_space c2"
    using c2 c1(6) cap(1) ok snoc(2) lc by (simp add: chain_simps)
  ultimately have "expand_ready b n b1 pre' c3"
    using b1 c2(6) unfolding expand_ready_def b1(1) [symmetric] by (auto simp: b1_def)
  then show ?thesis using eq by blast
qed

lemma expand_returns:
  assumes "buffer_wf b" and "n < 4294967296"
  shows "\<exists>b1 pre c. expand_if_needed b n = Some (Some (chain_addr c), b1) \<and> expand_ready b n b1 pre c"
proof (cases "total_len b = 0")
  case True
  then show ?thesis using expand_empty [OF assms(1) _ assms(2)] by blast
next
  case False
  obtain pre lc where snoc: "chains b = pre @ [lc]" "last_data b = Some (chain_addr lc)"
    "deref b (last_data b) = Some lc"
    using buffer_wf_snocE [OF assms(1) False] by blast
  show ?thesis
  proof (cases "n \<le> chain_free_space lc")
    case False
    then show ?thesis
      using expand_new_chain [OF assms(1) _ assms(2) snoc(3)]
        expand_resize [OF assms(1) _ assms(2) snoc(3)] \<open>total_len b \<noteq> 0\<close> by blast
  next
    case room: True
    then have "expand_if_needed b n = Some (Some (chain_addr lc), b)"
      using False snoc by (simp add: expand_if_needed_def)
    moreover have "expand_ready b n b pre lc"
      using assms(1) snoc room by (simp add: expand_ready_def buffer_wf_def contents_def)
    ultimately show ?thesis by blast
  qed
qed

subsection \<open>Appending keeps the invariant and adds the bytes at the end\<close>

lemma linked_change_last:
  assumes "linked (pre @ [c])" and "chain_addr c' = chain_addr c" and "next_chain c' = next_chain c"
  shows "linked (pre @ [c'])"
  using assms linked_open_change_last [of c c' pre] by (simp add: linked_def)

lemma buffer_wf_total: "buffer_wf b \<Longrightarrow> total_len b = length (contents b)"
  by (simp add: buffer_wf_def contents_def)

lemma expand_ready_deref:
  assumes "expand_ready b n b1 pre c"
  shows "deref b1 (Some (chain_addr c)) = Some c" and "chain_ok c" and "n \<le> chain_free_space c"
    and "chain_addr c \<notin> chain_addr ` set pre" and "chains b1 = pre @ [c]"
  using assms by (auto simp: expand_ready_def deref_def chains_ok_snoc)

lemma write_last_chain:
  assumes wf: "buffer_wf b" and ready: "expand_ready b n b1 pre c"
    and c': "chain_ok c'" "content c' = content c @ d" "same_links c c'"
    and "d \<noteq> []" and len: "length (contents b) + length d < 18446744073709551616"
  defines "b' \<equiv> b1\<lparr>chains := put_chain c' (chains b1), total_len := u64 (total_len b1 + length d),
                    last_data := Some (chain_addr c)\<rparr>"
  shows "buffer_wf b'" and "contents b' = contents b @ d" and "baddr b' = baddr b"
proof -
  note r = expand_ready_deref [OF ready]
  have cs: "chains b' = pre @ [c']"
    using r(4,5) c'(3) by (simp add: b'_def same_links_def)
  have tl: "total_len b' = length (contents b) + length d"
    using ready wf len by (simp add: b'_def expand_ready_def buffer_wf_total uint_simps)
  have bytes: "bytes_of (pre @ [c']) = contents b @ d"
    using ready c'(2) by (simp add: expand_ready_def)
  show "contents b' = contents b @ d" using bytes by (simp add: contents_def cs)
  show ba: "baddr b' = baddr b" using ready by (simp add: b'_def expand_ready_def)
  have "chains_ok (baddr b) (heap_top b1) (pre @ [c'])"
    using ready c' by (auto simp: expand_ready_def chains_ok_snoc same_links_def)
  moreover have "linked (pre @ [c'])"
    using ready c'(3) by (auto simp: expand_ready_def same_links_def intro: linked_change_last)
  moreover have "0 < chain_size c'"
    using c'(1,2) \<open>d \<noteq> []\<close> by (simp flip: length_content)
  moreover have "back_addr b' = Some (chain_addr c)"
    using back_addr_snoc [OF cs] c'(3) by (simp add: same_links_def)
  ultimately show "buffer_wf b'"
    using ready cs ba tl len bytes unfolding buffer_wf_def
    by (auto simp: expand_ready_def b'_def)
qed

text \<open>
  \<open>append\<close> of raw bytes: the call neither writes outside a block nor follows a bad
  pointer, returns the number of bytes, keeps the invariant and adds the bytes at the end.
\<close>

lemma append_law:
  assumes "buffer_wf b" and "d \<noteq> []" and "length d < 4294967296"
    and "length (contents b) + length d < 18446744073709551616"
  shows "\<exists>b'. append b (Some d) = Some (int (length d), b') \<and> buffer_wf b' \<and>
    contents b' = contents b @ d \<and> baddr b' = baddr b"
proof -
  have u: "u32 (length d) = length d" using assms(3) by (simp add: uint_simps)
  obtain b1 pre c where e: "expand_if_needed b (length d) = Some (Some (chain_addr c), b1)"
    and ready: "expand_ready b (length d) b1 pre c"
    using expand_returns [OF assms(1,3)] by blast
  note r = expand_ready_deref [OF ready]
  have "chain_size c + length d < 4294967296"
    using r(2,3) chain_okD [OF r(2)] by (simp add: chain_simps)
  then obtain c' where c': "append_data c (Some d) = Some (int (length d), c')" "chain_ok c'"
    "content c' = content c @ d" "same_links c c'"
    using append_data_returns [OF r(2) assms(2)] r(3) by blast
  note w = write_last_chain [OF assms(1) ready c'(2-4) assms(2,4)]
  show ?thesis using w assms(2) r(3) by (simp add: append_def u e r(1) c'(1))
qed

lemma append_value_correct:
  assumes "buffer_wf b" and "d \<noteq> []" and "length d < 4294967296"
    and "length (contents b) + length d < 18446744073709551616"
  shows "\<exists>b'. append_value b d = Some (int (length d), b') \<and> buffer_wf b' \<and>
    contents b' = contents b @ d \<and> baddr b' = baddr b"
proof -
  have u: "u32 (length d) = length d" using assms(3) by (simp add: uint_simps)
  obtain b1 pre c where e: "expand_if_needed b (length d) = Some (Some (chain_addr c), b1)"
    and ready: "expand_ready b (length d) b1 pre c"
    using expand_returns [OF assms(1,3)] by blast
  note r = expand_ready_deref [OF ready]
  obtain c' where c': "append_T c d = Some (int (length d), c')" "chain_ok c'"
    "content c' = content c @ d" "same_links c c'"
    using append_T_returns [OF r(2,3)] by blast
  note w = write_last_chain [OF assms(1) ready c'(2-4) assms(2,4)]
  show ?thesis using w by (simp add: append_value_def u e r(1) c'(1) Let_def)
qed

lemma append_copied_chain_correct:
  assumes wf: "buffer_wf b" and ok: "chain_ok other" and ne: "0 < chain_size other"
    and len: "length (contents b) + chain_size other < 18446744073709551616"
  shows "\<exists>b'. append_copied_chain b other = Some (int (chain_size other), b') \<and> buffer_wf b' \<and>
    contents b' = contents b @ content other \<and> baddr b' = baddr b"
proof -
  let ?n = "chain_size other" and ?d = "content other"
  have n: "length ?d = ?n" "?d \<noteq> []" using ne length_content [OF ok] by auto
  obtain b1 pre c where e: "expand_if_needed b ?n = Some (Some (chain_addr c), b1)"
    and ready: "expand_ready b ?n b1 pre c"
    using expand_returns [OF wf chain_ok_less [OF ok]] by blast
  note r = expand_ready_deref [OF ready]
  have room: "off c + length ?d \<le> capacity c"
    using r(2,3) n(1) chain_okD [OF r(2)] by (simp add: chain_free_space_ok)
  note block = append_block [OF r(2) room, unfolded n(1)]
  have pos: "(if last_data b1 = Some (chain_addr c) then Some (off c)
      else if last_data b1 = None then Some 0
      else do { lc \<leftarrow> deref b1 (last_data b1);
                if next_chain lc = Some (chain_addr c) then Some 0 else None }) = Some (off c)"
  proof (cases "last_data b1 = Some (chain_addr c) \<or> last_data b1 = None")
    case True
    then show ?thesis using ready by (auto simp: expand_ready_def)
  next
    case False
    then obtain xs x where x: "pre = xs @ [x]" "last_data b1 = Some (chain_addr x)" "off c = 0"
      using ready by (auto simp: expand_ready_def)
    then have "next_chain x = Some (chain_addr c)"
      using ready linked_open_snoc [of xs x c] by (simp add: expand_ready_def linked_def)
    moreover have "deref b1 (last_data b1) = Some x"
      using x r(5) ready by (simp add: deref_def expand_ready_def chains_ok_def image_iff)
    ultimately show ?thesis using False x(3) by simp
  qed
  have same: "same_links c (c\<lparr>cbuf := take (off c) (cbuf c) @ ?d @ drop (off c + ?n) (cbuf c),
      off := u32 (off c + ?n)\<rparr>)" by (simp add: same_links_def)
  note w = write_last_chain [OF wf ready block(2,3) same n(2), unfolded n(1), OF len]
  show ?thesis
    using w block(1) r(3) ne
    by (simp add: append_copied_chain_def e r(1) read_chain_ok ok pos Let_def)
qed

text \<open>\<open>append(buffer_chain&&)\<close> moves the chain itself to the end of the list.\<close>

lemma append_moved_chain_correct:
  assumes wf: "buffer_wf b" and ok: "chain_ok c" and ne: "0 < chain_size c"
    and len: "length (contents b) + chain_size c < 18446744073709551616"
  shows "\<exists>b'. append_moved_chain b c = Some (int (chain_size c), b') \<and> buffer_wf b' \<and>
    contents b' = contents b @ content c \<and> baddr b' = baddr b"
proof -
  define c' where "c' = (move_chain (heap_top b) c)\<lparr>next_chain := None, parent := Some (baddr b)\<rparr>"
  have c': "chain_ok c'" "content c' = content c" "chain_size c' = chain_size c"
    "chain_addr c' = heap_top b" "parent c' = Some (baddr b)" "next_chain c' = None"
    using ok by (simp_all add: c'_def move_chain_def chain_ok_def content_def chain_size_def)
  then have self: "set_next None c' = c'" by (simp add: set_next_def)
  define b' where "b' = b\<lparr>chains := link_back c' (chains b), last_data := Some (heap_top b),
    total_len := u64 (total_len b + chain_size c), heap_top := Suc (heap_top b)\<rparr>"
  have "append_moved_chain b c = Some (int (chain_size c), b')"
  proof (cases "total_len b = 0")
    case True
    then have "chains b = []" using wf by (simp add: buffer_wf_empty)
    then show ?thesis
      using wf ne c' by (simp add: append_moved_chain_def buffer_wf_def back_addr_Nil b'_def
          link_back_def flip: c'_def)
  next
    case False
    obtain pre lc where snoc: "chains b = pre @ [lc]" "last_data b = Some (chain_addr lc)"
      "chain_addr lc \<notin> chain_addr ` set pre" "deref b (last_data b) = Some lc"
      by (rule buffer_wf_snocE [OF wf False])
    have free: "free_trailing_empty_chains b = Some (Some (chain_addr lc), b)"
      using snoc False by (simp add: free_trailing_empty_chains_def)
    have "append_moved_chain b c = Some (int (chain_size c'),
        b\<lparr>chains := put_chain (set_next (Some (heap_top b)) lc) (chains b) @ [c'],
          last_data := Some (chain_addr c'), total_len := u64 (total_len b + chain_size c'),
          heap_top := Suc (heap_top b)\<rparr>)"
      using ne free snoc(2,4) by (simp add: append_moved_chain_def c'_def Let_def)
    also have "put_chain (set_next (Some (heap_top b)) lc) (chains b) @ [c'] = link_back c' (chains b)"
      using snoc(1,3) c'(4) self by (simp add: link_back_def)
    finally show ?thesis by (simp add: b'_def c')
  qed
  moreover have bytes: "bytes_of (chains b') = contents b @ content c"
    by (simp add: b'_def link_back_facts c' contents_def)
  moreover have "buffer_wf b'"
  proof -
    have "chains_ok (baddr b) (Suc (heap_top b)) (link_back c' (chains b))"
      using wf c' by (intro chains_ok_link_back) (simp_all add: buffer_wf_def)
    moreover have "linked (link_back c' (chains b))"
      using wf c'(6) by (intro linked_link_back) (simp_all add: buffer_wf_def linked_def)
    moreover have "\<forall>x \<in> set (link_back c' (chains b)). 0 < chain_size x"
      using wf ne c'(3) by (cases "chains b" rule: rev_cases) (auto simp: link_back_def buffer_wf_def)
    moreover have "back_addr b' = Some (heap_top b)"
    proof -
      obtain xs where "chains b' = xs @ [c']"
        using self by (cases "chains b = []") (simp_all add: b'_def link_back_def)
      from back_addr_snoc [OF this] show ?thesis using c'(4) by simp
    qed
    moreover have "total_len b' = length (bytes_of (chains b'))"
      using bytes len wf ok by (simp add: b'_def buffer_wf_total uint_simps length_content)
    ultimately show ?thesis
      using len bytes ok by (simp add: buffer_wf_def length_content) (simp add: b'_def)
  qed
  ultimately show ?thesis by (auto simp: contents_def b'_def)
qed

subsection \<open>Removing takes the first bytes\<close>

lemma chain_drop_front:
  assumes "chain_ok c" and "n < chain_size c"
  defines "c' \<equiv> c\<lparr>misalign := u32 (misalign c + n)\<rparr>"
  shows "memread (cbuf c) (misalign c) n = Some (take n (content c))" and "chain_ok c'"
    and "content c' = drop n (content c)" and "same_links c c'" and "0 < chain_size c'"
proof -
  note f = chain_okD [OF assms(1)]
  have n: "misalign c + n < off c" using assms(1,2) by (simp add: chain_simps)
  then have m: "misalign c' = misalign c + n" using f by (simp add: c'_def uint_simps)
  show "memread (cbuf c) (misalign c) n = Some (take n (content c))"
    using n f by (simp add: memread_in content_def)
  show ok: "chain_ok c'" using n f m unfolding chain_ok_def by (simp add: c'_def)
  have "off c' = off c" "cbuf c' = cbuf c" by (simp_all add: c'_def)
  then show "content c' = drop n (content c)"
    unfolding content_def m by (simp add: drop_take add.commute)
  show "same_links c c'" by (simp add: c'_def same_links_def)
  show "0 < chain_size c'" using n ok m by (simp add: chain_simps c'_def)
qed

text \<open>Dropping the first chain, and replacing it, keep the invariant.\<close>

lemma chains_ok_tl: "chains_ok ba ht (c # cs) \<Longrightarrow> chains_ok ba ht cs"
  by (auto simp: chains_ok_def)

lemma linked_tl: "linked (c # cs) \<Longrightarrow> linked cs"
  by (auto simp: linked_def linked_open_Cons)

lemma linked_change_hd:
  assumes "linked (c # cs)" and "same_links c c'"
  shows "linked (c' # cs)"
  using assms by (cases cs) (simp_all add: linked_def same_links_def)

lemma chains_ok_change_hd:
  assumes "chains_ok ba ht (c # cs)" and "same_links c c'" and "chain_ok c'"
  shows "chains_ok ba ht (c' # cs)"
  using assms by (auto simp: chains_ok_def same_links_def)

lemma back_addr_Cons:
  "chains b = c # d # cs \<Longrightarrow> back_addr (b\<lparr>chains := d # cs\<rparr>) = back_addr b"
  by (simp add: back_addr_def)

lemma buffer_wf_pop:
  assumes wf: "buffer_wf b" and cs: "chains b = c # d # ds"
  defines "b' \<equiv> b\<lparr>total_len := u64_sub (total_len b) (chain_size c), chains := tl (chains b)\<rparr>"
  shows "buffer_wf b'" and "contents b = content c @ contents b'"
proof -
  have ok: "chain_ok c" using wf cs by (simp add: buffer_wf_def chains_ok_def)
  show bytes: "contents b = content c @ contents b'" by (simp add: contents_def b'_def cs)
  have "total_len b' = length (contents b')"
    using wf bytes ok by (simp add: b'_def buffer_wf_def contents_def uint_simps length_content cs)
  moreover have "back_addr b' = back_addr b" using cs by (simp add: b'_def back_addr_def)
  ultimately show "buffer_wf b'"
    using wf cs unfolding buffer_wf_def
    by (auto simp: b'_def contents_def dest: chains_ok_tl linked_tl)
qed

lemma remove_loop_correct:
  "buffer_wf b \<Longrightarrow> chains b = c # cs \<Longrightarrow> 0 < n \<Longrightarrow> n \<le> length (contents b) \<Longrightarrow>
    \<exists>b'. remove_loop (chain_addr c) (next_chain c) n out b = Some (out @ take n (contents b), b') \<and>
      buffer_wf b' \<and> contents b' = drop n (contents b) \<and> baddr b' = baddr b"
proof (induction cs arbitrary: b c n out)
  case (Nil b c n)
  then have ok: "chain_ok c" "last_data b = Some (chain_addr c)" "contents b = content c"
    and tl: "total_len b = chain_size c" and pos: "0 < chain_size c"
    by (auto simp: buffer_wf_def chains_ok_def back_addr_def contents_def length_content)
  have n: "n \<le> chain_size c" using Nil ok by (simp add: length_content)
  show ?case
  proof (cases "n = chain_size c")
    case True
    then show ?thesis
      using Nil ok tl pos
      by (subst remove_loop.simps)
        (auto simp: read_chain_ok length_content Let_def buffer_wf_def chains_ok_def linked_def
          back_addr_def contents_def uint_simps)
  next
    case False
    then have lt: "n < chain_size c" using n by simp
    note drop = chain_drop_front [OF ok(1) lt]
    show ?thesis
      using Nil ok tl pos lt drop linked_change_hd [of c "[]"] chains_ok_change_hd [of _ _ c "[]"]
      by (subst remove_loop.simps)
        (auto simp: length_content Let_def buffer_wf_def back_addr_def contents_def uint_simps
          same_links_def)
  qed
next
  case (Cons d ds b c n)
  have wf: "buffer_wf b" and cs: "chains b = c # d # ds" by fact+
  have ok: "chain_ok c" and pos: "0 < chain_size c" and nx: "next_chain c = Some (chain_addr d)"
    and di: "chain_addr c \<noteq> chain_addr d" "chain_addr c \<notin> chain_addr ` set ds"
    using wf cs by (auto simp: buffer_wf_def chains_ok_def linked_def)
  define b1 where "b1 = b\<lparr>total_len := u64_sub (total_len b) (chain_size c), chains := tl (chains b)\<rparr>"
  note pop = buffer_wf_pop [OF wf cs, folded b1_def]
  have len: "length (content c) = chain_size c" using ok by (rule length_content)
  show ?case
  proof (cases "chain_size c \<le> n")
    case True
    have "last_data b \<noteq> Some (chain_addr c)"
      using wf cs di by (cases ds rule: rev_cases) (auto simp: buffer_wf_def back_addr_def)
    then have step: "remove_loop (chain_addr c) (next_chain c) n out b =
        remove_loop (chain_addr d) (next_chain d) (n - chain_size c) (out @ content c) b1"
      using Cons.prems(3) True pos nx cs read_chain_ok [OF ok]
      by (subst remove_loop.simps) (simp add: Let_def flip: b1_def, simp add: b1_def)
    show ?thesis
    proof (cases "n = chain_size c")
      case eq: True
      then show ?thesis
        unfolding step using pop len by (subst remove_loop.simps) (auto simp: b1_def)
    next
      case False
      have b1: "chains b1 = d # ds" by (simp add: b1_def cs)
      have le: "0 < n - chain_size c" "n - chain_size c \<le> length (contents b1)"
        using Cons.prems(4) pop(2) len False True by simp_all
      obtain b' where "remove_loop (chain_addr d) (next_chain d) (n - chain_size c)
          (out @ content c) b1 = Some ((out @ content c) @ take (n - chain_size c) (contents b1), b')"
        "buffer_wf b'" "contents b' = drop (n - chain_size c) (contents b1)" "baddr b' = baddr b1"
        using Cons.IH [OF pop(1) b1 le, of "out @ content c"] by blast
      then show ?thesis unfolding step using pop(2) len True by (simp add: b1_def)
    qed
  next
    case False
    then have lt: "n < chain_size c" by simp
    note drop = chain_drop_front [OF ok lt]
    show ?thesis
      using Cons.prems cs pos lt drop len di linked_change_hd [of c "d # ds"]
        chains_ok_change_hd [of _ _ c "d # ds"]
      by (subst remove_loop.simps)
        (auto simp: Let_def buffer_wf_def back_addr_def contents_def uint_simps same_links_def)
  qed
qed

text \<open>
  \<open>remove\<close> of at most the stored number of bytes returns exactly the first ones, in
  order, and leaves the rest, with the invariant kept.
\<close>

lemma remove_law:
  assumes "buffer_wf b" and "0 < n" and "n \<le> length (contents b)"
  shows "\<exists>b'. remove b n = Some (int n, take n (contents b), b') \<and> buffer_wf b' \<and>
    contents b' = drop n (contents b) \<and> baddr b' = baddr b"
proof -
  obtain c cs where cs: "chains b = c # cs"
    using assms by (cases "chains b") (auto simp: contents_def)
  have "last_data b \<noteq> None"
    using assms(1) cs by (auto simp: buffer_wf_def back_addr_def)
  then show ?thesis
    using remove_loop_correct [OF assms(1) cs assms(2,3), of "[]"] assms cs
    by (auto simp: remove_def front_addr_def buffer_wf_total)
qed

lemma drain_correct:
  assumes "buffer_wf b" and "0 < n" and "n \<le> length (contents b)"
  shows "\<exists>b'. drain b n = Some (int n, b') \<and> buffer_wf b' \<and>
    contents b' = drop n (contents b) \<and> baddr b' = baddr b"
  using remove_law [OF assms] by (auto simp: drain_def)

text \<open>Asking for nothing or for more than there is changes nothing and returns \<open>-1\<close>.\<close>

lemma remove_refused:
  assumes "buffer_wf b" and "n = 0 \<or> length (contents b) < n"
  shows "remove b n = Some (- 1, [], b)"
  using assms by (auto simp: remove_def buffer_wf_total)

subsection \<open>Pulling up keeps the bytes and makes a prefix contiguous\<close>

text \<open>Appending a chain that fits reallocates nothing.\<close>

lemma append_chain_fits:
  assumes c: "chain_ok c" and other: "chain_ok other" and ne: "chain_addr c \<noteq> chain_addr other"
    and fits: "chain_size other \<le> chain_free_space c"
  shows "\<exists>c'. append_chain c other = Some (chain_size other, c') \<and> chain_ok c' \<and>
    content c' = content c @ content other \<and> same_links c c' \<and>
    chain_free_space c' = chain_free_space c - chain_size other"
proof -
  have len: "length (content other) = chain_size other" using other by (rule length_content)
  have room: "off c + chain_size other \<le> capacity c"
    using fits chain_okD [OF c] by (simp add: chain_free_space_ok c)
  note block = append_block [OF c, of "content other", unfolded len, OF room]
  have rd: "memread (cbuf other) (misalign other) (chain_size other) = Some (content other)"
    using read_chain_ok [OF other] by (simp add: read_chain_def)
  have "chain_free_space (c\<lparr>cbuf := take (off c) (cbuf c) @ content other @
      drop (off c + chain_size other) (cbuf c), off := u32 (off c + chain_size other)\<rparr>) =
      chain_free_space c - chain_size other"
    using block(2,4) c by (simp add: chain_free_space_ok)
  then show ?thesis
    using block rd ne fits unfolding append_chain_def by (simp add: same_links_def Let_def)
qed

definition pull_inv :: "buffer \<Rightarrow> chain \<Rightarrow> chain list \<Rightarrow> nat \<Rightarrow> bool" where
  "pull_inv b f cs r \<longleftrightarrow>
     chains b = f # cs \<and> chains_ok (baddr b) (heap_top b) (f # cs) \<and> linked (f # cs) \<and>
     (\<forall>c \<in> set cs. 0 < chain_size c) \<and> r \<le> length (bytes_of cs) \<and> r \<le> chain_free_space f"

lemma pull_step:
  assumes inv: "pull_inv b f (c # cs) r" and le: "chain_size c \<le> r"
  obtains f2 b2 where "pullup_loop (chain_addr f) (next_chain f) r b =
      pullup_loop (chain_addr f) (next_chain f2) (r - chain_size c) b2"
    and "pull_inv b2 f2 cs (r - chain_size c)" and "b2 = b\<lparr>chains := f2 # cs\<rparr>"
    and "chain_addr f2 = chain_addr f" and "content f2 = content f @ content c"
proof -
  have f: "chain_ok f" and c: "chain_ok c" and pos: "0 < chain_size c"
    and nx: "next_chain f = Some (chain_addr c)" and par: "parent f = Some (baddr b)"
    and ne: "chain_addr f \<noteq> chain_addr c" "chain_addr f \<notin> chain_addr ` set cs"
    and fits: "chain_size c \<le> chain_free_space f"
    using inv le by (auto simp: pull_inv_def chains_ok_def linked_def)
  obtain f1 where f1: "append_chain f c = Some (chain_size c, f1)" "chain_ok f1"
    "content f1 = content f @ content c" "same_links f f1"
    "chain_free_space f1 = chain_free_space f - chain_size c"
    using append_chain_fits [OF f c ne(1) fits] by blast
  define f2 where "f2 = set_next (next_chain c) f1"
  define b2 where "b2 = b\<lparr>chains := f2 # cs\<rparr>"
  have cs: "chains b = f # c # cs" using inv by (simp add: pull_inv_def)
  have f2: "f1\<lparr>next_chain := next_chain c\<rparr> = f2" by (simp add: f2_def set_next_def)
  have ad: "chain_addr f2 = chain_addr f" using f1(4) by (simp add: f2_def same_links_def)
  have "put_chain f2 (chains b) = f2 # c # cs" using cs ad ne by simp
  moreover have nf: "next_chain f2 = next_chain c" by (simp add: f2_def set_next_def)
  ultimately have eq: "pullup_loop (chain_addr f) (next_chain f) r b =
      pullup_loop (chain_addr f) (next_chain f2) (r - chain_size c) b2"
    using le pos nx cs f1(1) f2 ne(1) f1(4)
    by (subst pullup_loop.simps) (simp add: Let_def b2_def same_links_def)
  have "linked (f2 # cs)"
    using inv by (cases cs) (simp_all add: pull_inv_def linked_def f2_def)
  moreover have "chains_ok (baddr b) (heap_top b) (f2 # cs)"
    using inv f1(2,4) ad by (auto simp: pull_inv_def chains_ok_def f2_def same_links_def)
  moreover have "length (content c) = chain_size c" using c by (rule length_content)
  ultimately have "pull_inv b2 f2 cs (r - chain_size c)"
    using inv le f1(5) by (simp add: pull_inv_def b2_def f2_def) linarith
  moreover have "content f2 = content f @ content c" using f1(3) by (simp add: f2_def)
  ultimately show ?thesis using that [OF eq] ad b2_def by blast
qed

lemma pull_stop:
  assumes "pull_inv b f cs r" and "cs = [] \<or> r < chain_size (hd cs)"
  shows "pullup_loop (chain_addr f) (next_chain f) r b = Some (next_chain f, r, b)"
  using assms
  by (subst pullup_loop.simps)
    (cases cs, auto simp: pull_inv_def linked_def chains_ok_def split: if_splits)

lemma pullup_loop_correct:
  "pull_inv b f cs r \<Longrightarrow>
    \<exists>r' f' xs cs'. pullup_loop (chain_addr f) (next_chain f) r b =
        Some (next_chain f', r', b\<lparr>chains := f' # cs'\<rparr>) \<and>
      pull_inv (b\<lparr>chains := f' # cs'\<rparr>) f' cs' r' \<and> cs = xs @ cs' \<and>
      chain_addr f' = chain_addr f \<and> content f' @ bytes_of cs' = content f @ bytes_of cs \<and>
      length (content f') + r' = length (content f) + r \<and>
      (cs' = [] \<or> r' < chain_size (hd cs'))"
proof (induction cs arbitrary: b f r)
  case Nil
  then have "b\<lparr>chains := [f]\<rparr> = b" by (simp add: pull_inv_def)
  then show ?case using Nil pull_stop [OF Nil] by (intro exI [of _ r] exI [of _ f]) auto
next
  case (Cons c cs)
  have len: "length (content c) = chain_size c"
    using Cons.prems by (simp add: pull_inv_def chains_ok_def length_content)
  show ?case
  proof (cases "chain_size c \<le> r")
    case False
    have "b\<lparr>chains := f # c # cs\<rparr> = b" using Cons.prems by (simp add: pull_inv_def)
    then show ?thesis
      using Cons.prems pull_stop [OF Cons.prems] False
      by (intro exI [of _ r] exI [of _ f] exI [of _ "[]"] exI [of _ "c # cs"]) auto
  next
    case True
    obtain f2 b2 where step: "pullup_loop (chain_addr f) (next_chain f) r b =
        pullup_loop (chain_addr f) (next_chain f2) (r - chain_size c) b2"
      "pull_inv b2 f2 cs (r - chain_size c)" "b2 = b\<lparr>chains := f2 # cs\<rparr>"
      "chain_addr f2 = chain_addr f" "content f2 = content f @ content c"
      using pull_step [OF Cons.prems True] .
    obtain r' f' xs cs' where "pullup_loop (chain_addr f2) (next_chain f2) (r - chain_size c) b2 =
        Some (next_chain f', r', b2\<lparr>chains := f' # cs'\<rparr>)"
      "pull_inv (b2\<lparr>chains := f' # cs'\<rparr>) f' cs' r'" "cs = xs @ cs'" "chain_addr f' = chain_addr f2"
      "content f' @ bytes_of cs' = content f2 @ bytes_of cs"
      "length (content f') + r' = length (content f2) + (r - chain_size c)"
      "cs' = [] \<or> r' < chain_size (hd cs')"
      using Cons.IH [OF step(2)] by blast
    then show ?thesis
      using step True len
      by (intro exI [of _ r'] exI [of _ f'] exI [of _ "c # xs"] exI [of _ cs']) simp
  qed
qed

lemma pull_partial:
  assumes inv: "pull_inv b f (c # cs) r" and r: "0 < r" "r < chain_size c"
    and tot: "total_len b \<noteq> 0"
  obtains f' c' start where "chain_begin b c = Some start"
    and "append_chain_range f c r start = Some (r, f')"
    and "c' = c\<lparr>misalign := u32 (misalign c + r)\<rparr>"
    and "pull_inv (b\<lparr>chains := f' # c' # cs\<rparr>) f' (c' # cs) 0"
    and "content f' @ bytes_of (c' # cs) = content f @ bytes_of (c # cs)"
    and "chain_size f' = chain_size f + r" and "same_links f f'" and "chain_addr c' = chain_addr c"
proof -
  have f: "chain_ok f" and c: "chain_ok c" and ne: "chain_addr f \<noteq> chain_addr c"
    and fits: "r \<le> chain_free_space f" and nx: "next_chain f = Some (chain_addr c)"
    and par: "parent c = Some (baddr b)" and cs: "chains b = f # c # cs"
    using inv by (auto simp: pull_inv_def chains_ok_def linked_def)
  have walk: "iter_walk (chains b) (Some (chain_addr f)) (chain_addr c) 0 =
      Some (Some (chain_addr c), u32 (capacity f))"
    using ne cs nx by (simp add: iter_walk.simps)
  obtain start where start: "chain_begin b c = Some start" "it_chain start = Some (chain_addr c)"
    "offset_of_chain start = misalign c"
    using walk ne cs par tot
    by (simp add: chain_begin_def iter_of_chain_def front_addr_def deref_def)
  have val: "chain_validate_iter c start" "r \<le> off c - offset_of_chain start"
    using start r c by (simp_all add: chain_validate_iter_def chain_simps)
  have "chain_size f + r < 4294967296" using fits f chain_okD [OF f] by (simp add: chain_simps)
  then obtain f' where f': "append_chain_range f c r start = Some (r, f')" "chain_ok f'"
    "content f' = content f @ take r (content c)" "same_links f f'"
    using append_chain_range_returns [OF f c ne val] fits start by auto
  define c' where "c' = c\<lparr>misalign := u32 (misalign c + r)\<rparr>"
  note dr = chain_drop_front [OF c r(2), folded c'_def]
  have "chains_ok (baddr b) (heap_top b) (f' # c' # cs)"
    using inv f' dr by (auto simp: pull_inv_def chains_ok_def same_links_def)
  moreover have "linked (f' # c' # cs)"
    using inv f' dr by (cases cs) (auto simp: pull_inv_def linked_def same_links_def)
  ultimately have "pull_inv (b\<lparr>chains := f' # c' # cs\<rparr>) f' (c' # cs) 0"
    using inv dr(5) by (simp add: pull_inv_def)
  moreover have "content f' @ bytes_of (c' # cs) = content f @ bytes_of (c # cs)"
    using f'(3) dr(3) append_take_drop_id [of r "content c"] by (metis append_assoc bytes_of_simps(2))
  moreover have "chain_size f' = chain_size f + r"
    using arg_cong [OF f'(3), of length] f f'(2) c r by (simp add: length_content)
  ultimately show ?thesis
    using that start(1) f'(1,4) dr(4) c'_def by (simp add: same_links_def)
qed

lemma pull_wf:
  assumes "pull_inv b f cs 0" and "0 < chain_size f" and "total_len b = length (content f @ bytes_of cs)"
    and "total_len b < 18446744073709551616" and "cs \<noteq> [] \<Longrightarrow> last_data b = back_addr b"
  shows "buffer_wf (b\<lparr>last_data := if next_chain f = None then Some (chain_addr f) else last_data b\<rparr>)"
  using assms by (cases cs) (auto simp: pull_inv_def buffer_wf_def linked_def back_addr_def)

lemma pullup_into_front_correct:
  assumes inv: "pull_inv b f cs r" and tot: "total_len b = length (content f @ bytes_of cs)"
    "total_len b < 18446744073709551616" and pos: "0 < chain_size f + r"
    and last: "cs \<noteq> [] \<Longrightarrow> last_data b = back_addr b"
  shows "\<exists>f' cs' b'. pullup_into_front b r = Some (Some (chain_addr f'), b') \<and> chains b' = f' # cs' \<and>
    buffer_wf b' \<and> contents b' = content f @ bytes_of cs \<and> baddr b' = baddr b \<and>
    chain_size f' = chain_size f + r"
proof -
  obtain r' f' xs cs' where loop: "pullup_loop (chain_addr f) (next_chain f) r b =
        Some (next_chain f', r', b\<lparr>chains := f' # cs'\<rparr>)"
    and inv': "pull_inv (b\<lparr>chains := f' # cs'\<rparr>) f' cs' r'" and xs: "cs = xs @ cs'"
    and ad: "chain_addr f' = chain_addr f"
    and bytes: "content f' @ bytes_of cs' = content f @ bytes_of cs"
    and len: "length (content f') + r' = length (content f) + r"
    and stop: "cs' = [] \<or> r' < chain_size (hd cs')"
    using pullup_loop_correct [OF inv] by blast
  let ?b2 = "b\<lparr>chains := f' # cs'\<rparr>"
  have oks: "chain_ok f" "chain_ok f'" and chains_b: "chains b = f # cs"
    using inv inv' by (simp_all add: pull_inv_def chains_ok_def)
  have size: "chain_size f' + r' = chain_size f + r" using len oks by (simp add: length_content)
  have front: "front_addr b = Some (chain_addr f)" "find_chain (chains b) (chain_addr f) = Some f"
    using chains_b by (simp_all add: front_addr_def)
  have tot2: "total_len ?b2 = length (content f' @ bytes_of cs')" using tot(1) bytes by simp
  have last2: "last_data ?b2 = back_addr ?b2" if "cs' \<noteq> []"
    using last xs that chains_b by (simp add: back_addr_def)
  show ?thesis
  proof (cases "r' = 0")
    case True
    have "buffer_wf (?b2\<lparr>last_data := if next_chain f' = None then Some (chain_addr f')
        else last_data ?b2\<rparr>)"
      using inv' True pos size tot tot2 last2 by (intro pull_wf) simp_all
    then show ?thesis
      using loop front True ad bytes size
      by (auto simp: pullup_into_front_def contents_def)
  next
    case False
    then obtain c ds where cs': "cs' = c # ds"
      using inv' by (cases cs') (auto simp: pull_inv_def)
    have r': "0 < r'" "r' < chain_size c" using False stop cs' by simp_all
    have c: "chain_ok c" and nx: "next_chain f' = Some (chain_addr c)"
      and ne: "chain_addr f' \<noteq> chain_addr c" "chain_addr f' \<notin> chain_addr ` set ds"
        "chain_addr c \<notin> chain_addr ` set ds"
      using inv' cs' by (auto simp: pull_inv_def chains_ok_def linked_def)
    have "total_len ?b2 \<noteq> 0" using tot2 r' c cs' by (simp add: length_content)
    note pull_partial [OF inv' [unfolded cs'] r', folded cs', OF this]
    then obtain f2 c2 start where app: "chain_begin ?b2 c = Some start"
      "append_chain_range f' c r' start = Some (r', f2)" "c2 = c\<lparr>misalign := u32 (misalign c + r')\<rparr>"
      and inv2: "pull_inv (?b2\<lparr>chains := f2 # c2 # ds\<rparr>) f2 (c2 # ds) 0"
      and bytes2: "content f2 @ bytes_of (c2 # ds) = content f' @ bytes_of cs'"
      and f2: "chain_size f2 = chain_size f' + r'" "same_links f' f2" "chain_addr c2 = chain_addr c"
      unfolding cs' by blast
    let ?b3 = "b\<lparr>chains := f2 # c2 # ds\<rparr>"
    have "last_data ?b3 = back_addr ?b3"
      using last2 f2(3) cs' by (simp add: back_addr_def)
    then have "buffer_wf (?b3\<lparr>last_data := if next_chain f2 = None then Some (chain_addr f2)
        else last_data ?b3\<rparr>)"
      using inv2 pos size tot2 tot(2) f2(1) arg_cong [OF bytes2, of length]
      by (intro pull_wf [where cs = "c2 # ds"]) simp_all
    moreover have "put_chain c2 (put_chain f2 (f' # c # ds)) = f2 # c2 # ds"
      using ne f2 by (simp add: same_links_def)
    ultimately show ?thesis
      using loop front False ad bytes bytes2 size f2 cs' nx app ne
      by (auto simp: pullup_into_front_def contents_def deref_def same_links_def)
  qed
qed

text \<open>The first chain is copied to one that is large enough.\<close>

lemma pullup_new_front:
  assumes wf: "buffer_wf b" and cs: "chains b = f # cs" and sz: "sz < 4294967296"
  obtains c f' where "new_chain (heap_top b) (Some (baddr b)) sz = Some c"
    and "assign_chain c f = Some f'" and "chain_ok f'" and "content f' = content f"
    and "sz - chain_size f \<le> chain_free_space f'" and "next_chain f' = next_chain f"
    and "parent f' = parent f" and "chain_size f' = chain_size f"
proof -
  have f: "chain_ok f" "chain_addr f < heap_top b"
    using wf cs by (auto simp: buffer_wf_def chains_ok_def)
  obtain cap where new: "new_chain (heap_top b) (Some (baddr b)) sz = Some \<lparr>chain_addr = heap_top b,
      cbuf = calloc cap, capacity = cap, off = 0, next_chain = None, parent = Some (baddr b),
      misalign = 0\<rparr>" and cap: "sz \<le> cap" "cap < 4294967296"
    using new_chain_returns [OF sz] by blast
  let ?c = "\<lparr>chain_addr = heap_top b, cbuf = calloc cap, capacity = cap, off = 0,
      next_chain = None, parent = Some (baddr b), misalign = 0\<rparr>"
  have c: "chain_ok ?c" "chain_addr ?c \<noteq> chain_addr f"
    using cap f by (simp_all add: chain_ok_def)
  obtain f' where f': "assign_chain ?c f = Some f'" "chain_ok f'" "content f' = content f"
    "off f' = chain_size f" "misalign f' = 0" "cap \<le> capacity f'"
    "next_chain f' = next_chain f" "parent f' = parent f"
    using assign_chain_returns [OF c(1) f(1) c(2)] by auto
  have "chain_free_space f' = capacity f' - chain_size f" "chain_size f' = chain_size f"
    using f' by (simp_all add: chain_simps)
  then show ?thesis using that [OF new f'(1)] f' cap by simp
qed

lemma move_chain_simps [simp]:
  "content (move_chain a c) = content c" "chain_ok (move_chain a c) = chain_ok c"
  "chain_size (move_chain a c) = chain_size c" "next_chain (move_chain a c) = next_chain c"
  "chain_free_space (move_chain a c) = chain_free_space c" "parent (move_chain a c) = parent c"
  by (simp_all add: move_chain_def content_def chain_ok_def chain_size_def chain_free_space_def)

lemma pullup_size_test:
  assumes "buffer_wf b" and "0 < n" and "n \<le> length (contents b)"
  shows "\<not> (int n = 0 \<or> nat (int n mod 2 ^ 64) > total_len b)"
proof -
  have "n < 18446744073709551616" "n \<le> total_len b"
    using assms by (auto simp: buffer_wf_def contents_def)
  then show ?thesis using assms(2) by simp
qed

lemma pullup_short_front:
  assumes wf: "buffer_wf b" and cs: "chains b = f # cs" and n: "n \<le> length (contents b)"
    "n < 4294967296" and short: "chain_size f < n"
  shows "\<exists>f' cs' b'. pullup b (int n) = Some (Some (chain_addr f'), b') \<and> chains b' = f' # cs' \<and>
    buffer_wf b' \<and> contents b' = contents b \<and> baddr b' = baddr b \<and> n \<le> chain_size f'"
proof -
  let ?r = "n - chain_size f"
  have f: "chain_ok f" using wf cs by (simp add: buffer_wf_def chains_ok_def)
  have r: "?r \<le> length (bytes_of cs)" using n cs f by (simp add: contents_def length_content)
  have ne: "cs \<noteq> []" using r short by auto
  have size: "\<not> (int n = 0 \<or> nat (int n mod 2 ^ 64) > total_len b)"
    using short n(1) wf by (intro pullup_size_test) simp_all
  obtain b1 f1 where b1: "pullup b (int n) = pullup_into_front b1 ?r" and inv: "pull_inv b1 f1 cs ?r"
    and f1: "content f1 = content f" "chain_size f1 = chain_size f" "chain_ok f1"
    and same: "total_len b1 = total_len b" "last_data b1 = last_data b" "baddr b1 = baddr b"
  proof (cases "?r \<le> chain_free_space f")
    case True
    have "pullup b (int n) = pullup_into_front b ?r"
      using size True short cs by (simp add: pullup_def front_addr_def Let_def)
    moreover have "pull_inv b f cs ?r"
      using wf cs True r by (simp add: pull_inv_def buffer_wf_def)
    ultimately show ?thesis using that f by simp
  next
    case False
    obtain c f' where c: "new_chain (heap_top b) (Some (baddr b)) n = Some c"
      "assign_chain c f = Some f'" and f': "chain_ok f'" "content f' = content f"
      "?r \<le> chain_free_space f'" "next_chain f' = next_chain f" "parent f' = parent f"
      "chain_size f' = chain_size f"
      by (rule pullup_new_front [OF wf cs n(2)])
    let ?f1 = "move_chain (heap_top b) f'"
    let ?b1 = "b\<lparr>chains := ?f1 # cs, heap_top := Suc (heap_top b)\<rparr>"
    have "pullup b (int n) = pullup_into_front ?b1 ?r"
      using size False short cs c n by (simp add: pullup_def front_addr_def Let_def u32_id)
    moreover have "pull_inv ?b1 ?f1 cs ?r"
      using wf cs f' r ne
      by (cases cs) (auto simp: pull_inv_def buffer_wf_def chains_ok_def linked_def)
    ultimately show ?thesis using that f' by simp
  qed
  have last: "last_data b1 = back_addr b1"
    using same(2) wf inv cs ne by (simp add: buffer_wf_def back_addr_def pull_inv_def)
  have "total_len b1 = length (content f1 @ bytes_of cs)" "total_len b1 < 18446744073709551616"
    "0 < chain_size f1 + ?r"
    using wf cs f1 same short by (simp_all add: buffer_wf_def)
  from pullup_into_front_correct [OF inv this last]
  show ?thesis unfolding b1 using f1 short same(3) cs by (auto simp: contents_def)
qed

text \<open>
  \<open>pullup\<close> of a number of bytes that are there makes the first chain hold at least
  that many: the pointer it returns is followed by exactly the first bytes of the buffer, the
  contents are unchanged and the invariant is kept.
\<close>

lemma pullup_law:
  assumes wf: "buffer_wf b" and n: "0 < n" "n \<le> length (contents b)" "n < 4294967296"
  shows "\<exists>f cs b'. pullup b (int n) = Some (Some (chain_addr f), b') \<and> chains b' = f # cs \<and>
    n \<le> chain_size f \<and> memread (cbuf f) (misalign f) n = Some (take n (contents b)) \<and>
    buffer_wf b' \<and> contents b' = contents b \<and> baddr b' = baddr b"
proof -
  obtain f cs where cs: "chains b = f # cs"
    using n by (cases "chains b") (auto simp: contents_def)
  have "\<exists>f cs b'. pullup b (int n) = Some (Some (chain_addr f), b') \<and> chains b' = f # cs \<and>
      buffer_wf b' \<and> contents b' = contents b \<and> baddr b' = baddr b \<and> n \<le> chain_size f"
  proof (cases "n \<le> chain_size f")
    case True
    then show ?thesis
      using pullup_size_test [OF wf n(1,2)] n cs wf by (simp add: pullup_def front_addr_def)
  next
    case False
    then show ?thesis using pullup_short_front [OF wf cs n(2,3)] by simp
  qed
  then obtain f cs b' where p: "pullup b (int n) = Some (Some (chain_addr f), b')"
    "chains b' = f # cs" "buffer_wf b'" "contents b' = contents b" "baddr b' = baddr b"
    "n \<le> chain_size f" by blast
  have f: "chain_ok f" using p(2,3) by (simp add: buffer_wf_def chains_ok_def)
  have "take n (contents b) = take n (content f)"
    using p(2,6) f unfolding p(4) [symmetric] by (simp add: contents_def length_content)
  moreover have "memread (cbuf f) (misalign f) n = Some (take n (content f))"
    using f p(6) chain_okD [OF f] by (simp add: memread_in content_def chain_simps min_absorb1)
  ultimately show ?thesis using p by auto
qed

lemma read_T_law:
  assumes "buffer_wf b" and "0 < n" and "n \<le> length (contents b)" and "n < 4294967296"
  shows "\<exists>b'. read_T b n = Some (int n, take n (contents b), b') \<and> buffer_wf b' \<and>
    contents b' = contents b \<and> baddr b' = baddr b"
  using pullup_law [OF assms] by (auto simp: read_T_def deref_def)

subsection \<open>Formatted output\<close>

lemma vsnprintf_into_fits:
  assumes c: "chain_ok c" and fits: "length s < chain_free_space c"
  obtains c1 where "vsnprintf_into c s = Some c1" and "same_links c c1"
    and "chain_ok (c1\<lparr>off := u32 (off c1 + length s)\<rparr>)"
    and "content (c1\<lparr>off := u32 (off c1 + length s)\<rparr>) = content c @ s"
proof -
  note ok = chain_okD [OF c]
  have room: "off c + length (s @ [NUL]) \<le> capacity c" using fits ok by (simp add: chain_simps c)
  define c1 where "c1 = c\<lparr>cbuf := take (off c) (cbuf c) @ (s @ [NUL]) @ drop (off c + length (s @ [NUL])) (cbuf c)\<rparr>"
  have o: "u32 (off c + length s) = off c + length s" using room ok by (simp add: uint_simps)
  have v: "vsnprintf_into c s = Some c1"
    using fits room ok by (simp add: vsnprintf_into_def memcpy_in c1_def)
  have links: "same_links c c1" by (simp add: c1_def same_links_def)
  have ok2: "chain_ok (c1\<lparr>off := u32 (off c1 + length s)\<rparr>)"
    using room ok by (simp add: c1_def chain_ok_def o)
  have "content (c1\<lparr>off := u32 (off c1 + length s)\<rparr>) = content c @ s"
    using take_append_slice [of "misalign c" "off c" "cbuf c" s "NUL # drop (Suc (off c + length s)) (cbuf c)"] ok room
    by (simp add: content_def c1_def o)
  then show ?thesis using that v links ok2 by blast
qed

lemma append_printf_law:
  assumes wf: "buffer_wf b" and vs: "vs fmt = Some s" and s: "s \<noteq> []" "length s < 64"
    and len: "length (contents b) + length s < 18446744073709551616"
  shows "\<exists>b'. append_printf vs b (Some fmt) = Some (int (length s), b') \<and> buffer_wf b' \<and>
    contents b' = contents b @ s \<and> baddr b' = baddr b"
proof -
  obtain b1 pre c where e: "expand_if_needed b 64 = Some (Some (chain_addr c), b1)"
    and ready: "expand_ready b 64 b1 pre c"
    using expand_returns [OF wf, of 64] by auto
  note r = expand_ready_deref [OF ready]
  have fits: "length s < chain_free_space c" using s(2) r(3) by simp
  obtain c1 where c1: "vsnprintf_into c s = Some c1" "same_links c c1"
    "chain_ok (c1\<lparr>off := u32 (off c1 + length s)\<rparr>)"
    "content (c1\<lparr>off := u32 (off c1 + length s)\<rparr>) = content c @ s"
    by (rule vsnprintf_into_fits [OF r(2) fits])
  define c2 where "c2 = c1\<lparr>off := u32 (off c1 + length s)\<rparr>"
  have links: "same_links c c2" using c1(2) by (simp add: same_links_def c2_def)
  have put: "put_chain c2 (put_chain c1 (chains b1)) = put_chain c2 (chains b1)"
    using r(4,5) links c1(2) by (simp add: same_links_def)
  note w = write_last_chain [OF wf ready c1(3,4) [folded c2_def] links s(1) len]
  have "printf_loop (Some (chain_addr c)) (Some s) b1 = Some (int (length s),
      b1\<lparr>chains := put_chain c2 (chains b1), total_len := u64 (total_len b1 + length s),
         last_data := Some (chain_addr c)\<rparr>)"
    using s(2) r(1) c1(1) fits put
    by (subst printf_loop.simps) (simp add: Let_def MAXIMUM_CHAIN_SIZE_def flip: c2_def)
  then show ?thesis using w by (simp add: append_printf_def e vs)
qed

text \<open>
  A text that does not fit the first chain of an empty buffer: every round pushes one more chain
  to the front and gets the same last chain back, so the loop does not end.
\<close>

definition printf_stuck :: "addr option \<Rightarrow> bytes option \<Rightarrow> buffer \<Rightarrow> bool" where
  "printf_stuck p t b \<longleftrightarrow> (\<exists>pre c s. t = Some s \<and> 1024 \<le> length s \<and> length s < 4294967295 \<and>
     chains b = pre @ [c] \<and> p = Some (chain_addr c) \<and> chain_addr c \<notin> chain_addr ` set pre \<and>
     chain_addr c < heap_top b \<and> length (cbuf c) = 1024 \<and> capacity c = 1024 \<and> off c = 0 \<and>
     total_len b = 0)"

lemma printf_stuck_step:
  assumes "printf_stuck p (Some s) b"
  obtains c c1 p' b2 where "deref b p = Some c" and "vsnprintf_into c s = Some c1"
    and "\<not> MAXIMUM_CHAIN_SIZE < length s" and "\<not> length s < chain_free_space c"
    and "expand_if_needed (b\<lparr>chains := put_chain c1 (chains b)\<rparr>) (u32 (length s + 1)) = Some (p', b2)"
    and "printf_stuck p' (Some s) b2"
proof -
  obtain pre c where st: "1024 \<le> length s" "length s < 4294967295"
    "chains b = pre @ [c]" "p = Some (chain_addr c)" "chain_addr c \<notin> chain_addr ` set pre"
    "chain_addr c < heap_top b" "length (cbuf c) = 1024" "capacity c = 1024" "off c = 0"
    "total_len b = 0"
    using assms by (auto simp: printf_stuck_def)
  have free: "chain_free_space c = 1024" using st by (simp add: chain_free_space_def uint_simps)
  obtain buf where buf: "memcpy (cbuf c) (off c) (take (chain_free_space c - 1) s @ [NUL]) = Some buf"
    "length buf = 1024"
    using st free by (simp add: memcpy_in)
  define c1 where "c1 = c\<lparr>cbuf := buf\<rparr>"
  have v: "vsnprintf_into c s = Some c1" using buf free by (simp add: vsnprintf_into_def c1_def)
  have put: "put_chain c1 (chains b) = pre @ [c1]" using st by (simp add: c1_def)
  obtain cap where new: "new_chain (heap_top b) (Some (baddr b)) (u32 (length s + 1)) =
      Some \<lparr>chain_addr = heap_top b, cbuf = calloc cap, capacity = cap, off = 0, next_chain = None,
        parent = Some (baddr b), misalign = 0\<rparr>"
    using new_chain_returns [of "u32 (length s + 1)"] st(2) by (auto simp: uint_simps)
  define b2 where "b2 = push_front_move (b\<lparr>chains := pre @ [c1]\<rparr>) \<lparr>chain_addr = heap_top b,
    cbuf = calloc cap, capacity = cap, off = 0, next_chain = None, parent = Some (baddr b), misalign = 0\<rparr>"
  have e: "expand_if_needed (b\<lparr>chains := put_chain c1 (chains b)\<rparr>) (u32 (length s + 1)) =
      Some (Some (chain_addr c1), b2)"
    using st(10) put new by (simp add: expand_if_needed_def b2_def push_front_move_def back_addr_def)
  have "printf_stuck (Some (chain_addr c1)) (Some s) b2"
    using st buf(2) unfolding printf_stuck_def
    by (intro exI [of _ "hd (chains b2) # pre"] exI [of _ c1])
      (simp add: b2_def push_front_move_def c1_def)
  then show ?thesis
    using that [OF _ v _ _ e] st free by (simp add: deref_def MAXIMUM_CHAIN_SIZE_def)
qed

lemma printf_stuck_diverges:
  assumes "printf_loop p t b = Some r"
  shows "\<not> printf_stuck p t b"
proof (rule printf_loop.raw_induct [OF _ assms])
  fix loop p t b r
  assume 1: "\<And>p t b r. loop p t b = Some r \<Longrightarrow> \<not> printf_stuck p t b"
    "do {
     c \<leftarrow> deref b p;
     case t of
       None \<Rightarrow> Some (- 1, b)
     | Some s \<Rightarrow> do {
         c1 \<leftarrow> vsnprintf_into c s;
         let b1 = b\<lparr>chains := put_chain c1 (chains b)\<rparr>;
         if MAXIMUM_CHAIN_SIZE < length s then Some (- 1, b1)
         else if length s < chain_free_space c
         then let c2 = c1\<lparr>off := u32 (off c1 + length s)\<rparr> in
           Some (int (length s), b1\<lparr>chains := put_chain c2 (chains b1),
             total_len := u64 (total_len b1 + length s), last_data := p\<rparr>)
         else do {
           (p', b2) \<leftarrow> expand_if_needed b1 (u32 (length s + 1));
           loop p' t b2
         }
       }
     } = Some r"
  show "\<not> printf_stuck p t b"
  proof
    assume st: "printf_stuck p t b"
    then obtain s where t: "t = Some s" by (auto simp: printf_stuck_def)
    obtain c c1 p' b2 where step: "deref b p = Some c" "vsnprintf_into c s = Some c1"
      "\<not> MAXIMUM_CHAIN_SIZE < length s" "\<not> length s < chain_free_space c"
      "expand_if_needed (b\<lparr>chains := put_chain c1 (chains b)\<rparr>) (u32 (length s + 1)) = Some (p', b2)"
      "printf_stuck p' (Some s) b2"
      by (rule printf_stuck_step [OF st [unfolded t]])
    then show False using 1 t by (auto simp: Let_def)
  qed
qed

subsection \<open>The buffer is a byte queue\<close>

interpretation buf: byte_source buffer_wf contents "\<lambda>b d. append b (Some d)" remove read_T drain
proof (unfold_locales, goal_cases)
  case (1 b d)
  then show ?case using append_law [of b d] by blast
next
  case (2 b n)
  then show ?case using remove_law [of b n] by blast
next
  case (3 b n)
  then show ?case using remove_refused [of b n] by blast
next
  case (4 b n)
  then show ?case using read_T_law [of b n] by blast
next
  case (5 b n)
  then show ?case using drain_correct [of b n] by blast
qed

text \<open>A buffer of two chains, the first one with consumed bytes, as the witnesses use it.\<close>

definition sample_buffer :: buffer where
  "sample_buffer = \<lparr>baddr = 1,
     chains =
       [\<lparr>chain_addr = 2, cbuf = ''xabc'', capacity = 4, off = 4, next_chain = Some 3, parent = Some 1,
          misalign = 1\<rparr>,
        \<lparr>chain_addr = 3, cbuf = ''defzz'', capacity = 5, off = 3, next_chain = None, parent = Some 1,
          misalign = 0\<rparr>],
     last_data = Some 3, total_len = 6, heap_top = 4\<rparr>"

lemma sample_buffer_facts:
  "buffer_wf sample_buffer" "contents sample_buffer = ''abcdef''"
  by (simp_all add: sample_buffer_def buffer_wf_def contents_def chains_ok_def chain_ok_def
      linked_def content_def chain_size_def u32_sub_def back_addr_def)

text \<open>
  \<open>append\<close> of raw bytes to a well-formed buffer: the call neither writes outside a block nor
  follows a bad pointer, returns the number of bytes, keeps the invariant and adds the bytes at
  the end, whichever of the three ways of \<open>expand_if_needed\<close> provides the room.
\<close>

theorem append_correct:
  assumes "buffer_wf b" and "d \<noteq> []" and "length d < 4294967296"
    and "length (contents b) + length d < 18446744073709551616"
  shows "\<exists>b'. append b (Some d) = Some (int (length d), b') \<and> buffer_wf b' \<and>
    contents b' = contents b @ d \<and> baddr b' = baddr b"
  using append_law [OF assms] .

theorem append_correct_witness:
  "\<exists>b'. append sample_buffer (Some ''0123456789'') = Some (10, b') \<and> buffer_wf b' \<and>
    contents b' = ''abcdef0123456789''"
  using append_correct [of sample_buffer "''0123456789''"] sample_buffer_facts by auto

text \<open>
  C5. \<open>remove\<close> of at most the stored number of bytes returns exactly the first ones, in
  order, and leaves the rest, with the invariant kept; a request for nothing or for more than
  there is returns \<open>-1\<close> and changes nothing. This is what the code does; the comment at its declaration
  (\<open>buffer.h\<close>, lines 214 to 216) says that all the data is copied when there is less than was asked for.
\<close>

theorem remove_correct:
  assumes "buffer_wf b"
  shows "if 0 < n \<and> n \<le> length (contents b)
    then \<exists>b'. remove b n = Some (int n, take n (contents b), b') \<and> buffer_wf b' \<and>
      contents b' = drop n (contents b) \<and> baddr b' = baddr b
    else remove b n = Some (- 1, [], b)"
  using remove_law [OF assms] remove_refused [OF assms] by auto

theorem remove_correct_witness:
  "\<exists>b'. remove sample_buffer 4 = Some (4, ''abcd'', b') \<and> buffer_wf b' \<and> contents b' = ''ef''"
  using remove_correct [of sample_buffer 4] sample_buffer_facts by auto

text \<open>
  C18. \<open>pullup\<close> of a number of bytes that are there makes the first chain hold at least
  that many: the pointer it returns is followed by exactly the first bytes of the buffer, the
  contents are unchanged and the invariant is kept.
\<close>

theorem pullup_correct:
  assumes "buffer_wf b" and "0 < n" and "n \<le> length (contents b)" and "n < 4294967296"
  shows "\<exists>f cs b'. pullup b (int n) = Some (Some (chain_addr f), b') \<and> chains b' = f # cs \<and>
    n \<le> chain_size f \<and> memread (cbuf f) (misalign f) n = Some (take n (contents b)) \<and>
    buffer_wf b' \<and> contents b' = contents b \<and> baddr b' = baddr b"
  using pullup_law [OF assms] .

theorem pullup_correct_witness:
  "\<exists>f b'. pullup sample_buffer 5 = Some (Some (chain_addr f), b') \<and> 5 \<le> chain_size f \<and>
    memread (cbuf f) (misalign f) 5 = Some ''abcde'' \<and> contents b' = ''abcdef''"
  using pullup_correct [of sample_buffer 5] sample_buffer_facts by auto

text \<open>
  C1. The buffer is a FIFO queue of bytes: after any sequence of appends and removals, of any
  sizes, the bytes delivered so far followed by the bytes still stored are the bytes stored at
  the beginning followed by all bytes appended, and no call of the sequence goes wrong.
\<close>

theorem buffer_fifo:
  assumes "buffer_wf b" and "ops_fit ops"
    and "length (contents b) + length (bytes_appended ops) < 18446744073709551616"
  shows "\<exists>out b'. run_queue (\<lambda>b d. append b (Some d)) remove ops b = Some (out, b') \<and> buffer_wf b' \<and>
    out @ contents b' = contents b @ bytes_appended ops"
  using buf.run_queue_fifo [OF assms] .

theorem buffer_fifo_witness:
  "\<exists>out b'. run_queue (\<lambda>b d. append b (Some d)) remove
      [Append_op ''gh'', Remove_op 5, Append_op ''ij'', Remove_op 9, Remove_op 1] sample_buffer =
        Some (out, b') \<and> out @ contents b' = ''abcdefghij''"
  using buffer_fifo [of sample_buffer "[Append_op ''gh'', Remove_op 5, Append_op ''ij'', Remove_op 9, Remove_op 1]"]
    sample_buffer_facts by auto

text \<open>
  \<open>append_printf\<close> of a formatted text below 64 bytes, the space it reserves, appends exactly
  the text, without the terminating NUL.
\<close>

theorem append_printf_correct:
  assumes "buffer_wf b" and "vs fmt = Some s" and "s \<noteq> []" and "length s < 64"
    and "length (contents b) + length s < 18446744073709551616"
  shows "\<exists>b'. append_printf vs b (Some fmt) = Some (int (length s), b') \<and> buffer_wf b' \<and>
    contents b' = contents b @ s"
  using append_printf_law [of b vs fmt s, OF assms] by blast

theorem append_printf_correct_witness:
  "\<exists>b'. append_printf Some sample_buffer (Some ''GET /'') = Some (5, b') \<and> contents b' = ''abcdefGET /''"
  using append_printf_correct [of sample_buffer Some "''GET /''"] sample_buffer_facts by auto

text \<open>
  A formatted text of 1024 bytes or more never gets into an empty buffer: the call does not return.
\<close>

theorem append_printf_long_diverges:
  assumes vs: "vs fmt = Some s" and "1024 \<le> length s" and "length s < 4294967295"
  shows "append_printf vs (new_buffer a t) (Some fmt) = None"
proof -
  have cap: "calculate_actual_capacity 64 = Some 1024"
    by (simp add: calculate_actual_capacity_def MAXIMUM_CHAIN_SIZE_def DEFAULT_CHAIN_SIZE_def
        grow_capacity.simps)
  obtain p b1 where e: "expand_if_needed (new_buffer a t) 64 = Some (p, b1)"
    and st: "printf_stuck p (Some s) b1"
    using assms
    by (simp add: expand_if_needed_def new_buffer_def new_chain_def cap push_front_move_def
        printf_stuck_def back_addr_def move_chain_def set_next_def)
  then show ?thesis
    using printf_stuck_diverges [of p "Some s" b1]
    by (cases "printf_loop p (Some s) b1") (auto simp: append_printf_def vs)
qed

text \<open>
  \<open>pullup\<close> with a negative size, documented to align everything into the first chain, returns null.
\<close>

theorem pullup_negative_is_null:
  assumes "buffer_wf b" and "- 9223372036854775808 \<le> n" and "n < 0"
    and "length (contents b) < 9223372036854775808"
  shows "pullup b n = Some (None, b)"
proof -
  have "(n + 2 ^ 64) mod 2 ^ 64 = n + 2 ^ 64"
    using assms(2,3) by (intro mod_pos_pos_trivial) simp_all
  then have m: "n mod 2 ^ 64 = n + 2 ^ 64" by simp
  have "length (contents b) < nat (n + 2 ^ 64)" using assms(2,4) by simp
  with m show ?thesis using assms by (simp add: pullup_def buffer_wf_total)
qed

end
