(* ===== verification/Buffer_Iter.thy ===== *)
theory Buffer_Iter
  imports Buffer Kmp
begin

text \<open>
  Positions in a buffer and searching: \<open>buffer_iter\<close>'s operators, \<open>buffer::validate_iter\<close>,
  \<open>buffer_memcmp\<close>, \<open>search_range\<close>, \<open>search\<close>, \<open>search_eol\<close> and \<open>read_line\<close> of
  \<open>src/reactor/buffer.cpp\<close>. The loops follow \<open>next_\<close> pointers through the list
  of chains; a null or dangling pointer that is dereferenced, and a failing \<open>assert\<close>, are
  \<open>None\<close>.
\<close>

subsection \<open>Validating a position\<close>

text \<open>The search for a chain along \<open>next_\<close>.\<close>

partial_function (option) chain_walk :: "chain list \<Rightarrow> addr option \<Rightarrow> addr option \<Rightarrow> addr option option" where
  "chain_walk cs cur target =
     (case cur of
        None \<Rightarrow> Some None
      | Some a \<Rightarrow>
          if cur = target then Some cur
          else do {
            c \<leftarrow> find_chain cs a;
            chain_walk cs (next_chain c) target
          })"

declare chain_walk.simps [code]

text \<open>
  The first element of an empty list is dereferenced, hence \<open>None\<close>; so is a null
  \<open>chain_\<close> that the walk "finds" at its end.
\<close>

definition validate_iter :: "buffer \<Rightarrow> buffer_iter \<Rightarrow> bool option" where
  "validate_iter b it =
     (if it_buffer it \<noteq> Some (baddr b) then Some False
      else do {
        a \<leftarrow> front_addr b;
        current_chain \<leftarrow> chain_walk (chains b) (Some a) (it_chain it);
        if current_chain = it_chain it
        then (if it_chain it = None then None else Some True)
        else Some False
      })"

definition is_last_chain_with_data :: "buffer \<Rightarrow> addr option \<Rightarrow> bool" where
  "is_last_chain_with_data b current_chain \<longleftrightarrow>
     \<not> (current_chain = None \<or> current_chain \<noteq> last_data b)"

subsection \<open>Moving and comparing positions\<close>

partial_function (option) forward_loop ::
  "buffer \<Rightarrow> buffer_iter \<Rightarrow> nat \<Rightarrow> nat \<Rightarrow> (buffer_iter \<times> nat) option" where
  "forward_loop b it remain_steps can_forward =
     (if \<not> is_last_chain_with_data b (it_chain it) \<and> remain_steps > can_forward
      then do {
        c \<leftarrow> deref b (it_chain it);
        d \<leftarrow> deref b (next_chain c);
        forward_loop b
          (it\<lparr>it_chain := next_chain c, chain_number := u32 (chain_number it + 1), offset_of_chain := 0\<rparr>)
          (remain_steps - can_forward) (off d)
      }
      else Some (it, remain_steps))"

declare forward_loop.simps [code]

text \<open>\<open>operator+\<close>; a position without a buffer is \<open>None\<close> unless the step is zero.\<close>

definition iter_plus :: "buffer \<Rightarrow> buffer_iter \<Rightarrow> nat \<Rightarrow> buffer_iter option" where
  "iter_plus b it forward_steps =
     (if forward_steps = 0 then Some it
      else if it_buffer it \<noteq> Some (baddr b) then None
      else do {
        let maximum_steps_can_forward = u32 (u64_sub (total_len b) (offset_of_buffer it));
        if forward_steps > maximum_steps_can_forward
        then do {
          c \<leftarrow> deref b (last_data b);
          Some (it\<lparr>it_chain := last_data b, offset_of_chain := off c, offset_of_buffer := total_len b,
            chain_number := 0\<rparr>)
        }
        else do {
          c \<leftarrow> deref b (it_chain it);
          (it1, remain_steps) \<leftarrow>
            forward_loop b it forward_steps (u32_sub (off c) (offset_of_chain it));
          Some (it1\<lparr>offset_of_chain := u32 (offset_of_chain it1 + remain_steps),
            offset_of_buffer := u64 (offset_of_buffer it1 + forward_steps)\<rparr>)
        }
      })"

text \<open>
  \<open>operator>\<close>, \<open>operator<\<close> and \<open>operator==\<close>. Two positions of one buffer other than \<open>b\<close>
  would need that buffer's state and are \<open>None\<close>.
\<close>

definition iter_compare :: "(nat \<Rightarrow> nat \<Rightarrow> bool) \<Rightarrow> buffer \<Rightarrow> buffer_iter \<Rightarrow> buffer_iter \<Rightarrow> bool option" where
  "iter_compare r b it other =
     (if it_buffer it = None \<or> it_buffer other = None then Some False
      else if it_buffer other \<noteq> it_buffer it then Some False
      else if it_buffer it \<noteq> Some (baddr b) then None
      else do {
        v1 \<leftarrow> validate_iter b other;
        if \<not> v1 then Some False
        else do {
          v2 \<leftarrow> validate_iter b it;
          Some (v2 \<and> r (offset_of_buffer it) (offset_of_buffer other))
        }
      })"

definition iter_greater :: "buffer \<Rightarrow> buffer_iter \<Rightarrow> buffer_iter \<Rightarrow> bool option" where
  "iter_greater = iter_compare (>)"

definition iter_less :: "buffer \<Rightarrow> buffer_iter \<Rightarrow> buffer_iter \<Rightarrow> bool option" where
  "iter_less b it other = do {
     g \<leftarrow> iter_greater b it other;
     Some (\<not> g)
   }"

definition iter_equal :: "buffer \<Rightarrow> buffer_iter \<Rightarrow> buffer_iter \<Rightarrow> bool option" where
  "iter_equal = iter_compare (=)"

subsection \<open>Comparing and searching\<close>

partial_function (option) memcmp_loop ::
  "buffer \<Rightarrow> addr option \<Rightarrow> nat \<Rightarrow> bytes \<Rightarrow> nat \<Rightarrow> nat \<Rightarrow> bool option" where
  "memcmp_loop b current_chain off_in source remain off_of_source =
     (if current_chain = None then Some (remain = 0)
      else do {
        c \<leftarrow> deref b current_chain;
        if chain_size c > 0 \<and> remain > 0
        then do {
          let size_going_to_compare = min remain (u32_sub (off c) off_in);
          d \<leftarrow> memread (cbuf c) off_in size_going_to_compare;
          s \<leftarrow> memread source off_of_source size_going_to_compare;
          if d \<noteq> s then Some False
          else if next_chain c = None then Some (remain - size_going_to_compare = 0)
          else do {
            n \<leftarrow> deref b (next_chain c);
            memcmp_loop b (next_chain c) (misalign n) source (remain - size_going_to_compare)
              (off_of_source + size_going_to_compare)
          }
        }
        else Some (remain = 0)
      })"

declare memcmp_loop.simps [code]

text \<open>\<open>source\<close> is a byte string of which \<open>len\<close> bytes are compared, or null.\<close>

definition buffer_memcmp :: "buffer \<Rightarrow> bytes option \<Rightarrow> nat \<Rightarrow> buffer_iter \<Rightarrow> bool option" where
  "buffer_memcmp b source len start = do {
     v \<leftarrow> validate_iter b start;
     case source of
       None \<Rightarrow> Some False
     | Some s \<Rightarrow>
         if \<not> v \<or> len > u64_sub (total_len b) (offset_of_buffer start) then Some False
         else memcmp_loop b (it_chain start) (offset_of_chain start) s len 0
   }"

text \<open>\<open>memchr\<close> on a range of a block: the index of the first match.\<close>

definition memchr :: "bytes \<Rightarrow> nat \<Rightarrow> char \<Rightarrow> nat \<Rightarrow> nat option option" where
  "memchr buf pos ch n = do {
     d \<leftarrow> memread buf pos n;
     Some (if ch \<in> set d then Some (pos + length (takeWhile (\<lambda>x. x \<noteq> ch) d)) else None)
   }"

text \<open>
  The inner loop of \<open>search_range\<close> over the occurrences of the first character in one chain. It
  returns \<open>target_offset_of_chain\<close> when the bytes there compare equal.
\<close>

partial_function (option) search_in_chain ::
  "buffer \<Rightarrow> bytes \<Rightarrow> nat \<Rightarrow> char \<Rightarrow> chain \<Rightarrow> nat \<Rightarrow> nat option option" where
  "search_in_chain b what len first c off_in = do {
     target \<leftarrow> memchr (cbuf c) off_in first (u32_sub (off c) off_in);
     case target of
       None \<Rightarrow> Some None
     | Some t \<Rightarrow> do {
         let target_offset_of_chain = u32_sub t (misalign c);
         it \<leftarrow> iter_of_chain b (chain_addr c);
         it1 \<leftarrow> iter_plus b it (u32_sub target_offset_of_chain (misalign c));
         found \<leftarrow> buffer_memcmp b (Some what) len it1;
         if found then Some (Some target_offset_of_chain)
         else search_in_chain b what len first c (t + 1)
       }
   }"

declare search_in_chain.simps [code]

partial_function (option) search_chains ::
  "buffer \<Rightarrow> bytes \<Rightarrow> nat \<Rightarrow> char \<Rightarrow> addr option \<Rightarrow> addr option \<Rightarrow> nat \<Rightarrow> nat \<Rightarrow>
    (addr \<times> nat) option option" where
  "search_chains b what len first current_chain last_chain last_off off_in =
     (case current_chain of
        None \<Rightarrow> Some None
      | Some a \<Rightarrow> do {
          c \<leftarrow> find_chain (chains b) a;
          if chain_size c > 0 then do {
            r \<leftarrow> search_in_chain b what len first c (if current_chain = last_chain then last_off else off_in);
            case r of
              Some target \<Rightarrow> Some (Some (a, target))
            | None \<Rightarrow>
                (case next_chain c of
                   None \<Rightarrow> Some None
                 | Some n \<Rightarrow> do {
                     d \<leftarrow> find_chain (chains b) n;
                     search_chains b what len first (Some n) last_chain last_off (misalign d)
                   })
          }
          else Some None
        })"

declare search_chains.simps [code]

definition search_range ::
  "buffer \<Rightarrow> bytes option \<Rightarrow> nat \<Rightarrow> buffer_iter \<Rightarrow> buffer_iter \<Rightarrow> buffer_iter option" where
  "search_range b what len start end_iter = do {
     v1 \<leftarrow> validate_iter b start;
     v2 \<leftarrow> (if v1 then validate_iter b end_iter else Some False);
     case what of
       None \<Rightarrow> Some NULL_ITER
     | Some w \<Rightarrow>
         if \<not> v1 \<or> \<not> v2 \<or> len = 0 then Some NULL_ITER
         else do {
           first \<leftarrow> at w 0;
           r \<leftarrow> search_chains b w len first (it_chain start) (it_chain end_iter) (offset_of_chain start)
                 (offset_of_chain start);
           case r of
             None \<Rightarrow> Some NULL_ITER
           | Some (a, target) \<Rightarrow> do {
               it \<leftarrow> iter_of_chain b a;
               iter_plus b it target
             }
         }
   }"

definition search :: "buffer \<Rightarrow> bytes option \<Rightarrow> nat \<Rightarrow> buffer_iter \<Rightarrow> buffer_iter option" where
  "search b what len start = do {
     e \<leftarrow> buffer_end b;
     search_range b what len start e
   }"

subsection \<open>Lines\<close>

datatype buffer_eol_style = BUFFER_EOL_LF | BUFFER_EOL_CRLF_STRICT | BUFFER_EOL_CRLF | BUFFER_EOL_NUL

abbreviation LF :: char where "LF \<equiv> CHR 0x0A"
abbreviation CR :: char where "CR \<equiv> CHR 0x0D"

text \<open>
  \<open>search_eol\<close> returns the position and \<open>*eol_len_out\<close>. For \<open>BUFFER_EOL_CRLF\<close> the assignments
  in the inner \<open>if\<close> are overwritten by the two that follow.
\<close>

definition search_eol :: "buffer \<Rightarrow> buffer_eol_style \<Rightarrow> buffer_iter \<Rightarrow> nat \<Rightarrow> (buffer_iter \<times> nat) option" where
  "search_eol b eol_style start eol_len = do {
     v \<leftarrow> validate_iter b start;
     if \<not> v \<or> total_len b = 0 then Some (NULL_ITER, eol_len)
     else do {
       bg \<leftarrow> buffer_begin b;
       e \<leftarrow> buffer_end b;
       it_CRLF \<leftarrow> search_range b (Some [CR, LF]) 2 bg e;
       it_LF \<leftarrow> search_range b (Some [LF]) 1 bg e;
       it_NUL \<leftarrow> search_range b (Some [NUL]) 1 bg e;
       case eol_style of
         BUFFER_EOL_CRLF \<Rightarrow> do {
           _ \<leftarrow> (if \<not> is_valid it_CRLF \<and> is_valid it_LF
                then do { l \<leftarrow> iter_less b it_LF it_CRLF; Some (if l then it_LF else it_CRLF, 2::nat) }
                else Some (NULL_ITER, eol_len));
           Some (it_CRLF, 1)
         }
       | BUFFER_EOL_CRLF_STRICT \<Rightarrow> Some (it_CRLF, 2)
       | BUFFER_EOL_LF \<Rightarrow> Some (it_LF, 1)
       | BUFFER_EOL_NUL \<Rightarrow> Some (it_NUL, 1)
     }
   }"

text \<open>\<open>read_line\<close> into a destination of \<open>n\<close> bytes; the bytes written are part of the result.\<close>

definition read_line :: "buffer \<Rightarrow> nat \<Rightarrow> buffer_eol_style \<Rightarrow> (int \<times> bytes \<times> buffer) option" where
  "read_line b n eol_style =
     (if n = 0 then Some (- 1, [], b)
      else do {
        bg \<leftarrow> buffer_begin b;
        (it, eol_len) \<leftarrow> search_eol b eol_style bg 0;
        if \<not> is_valid it then Some (- 1, [], b)
        else if n < offset_of_buffer it then Some (- 1, [], b)
        else do {
          (bytes_read, out, b1) \<leftarrow> remove b (u32 (offset_of_buffer it));
          (_, b2) \<leftarrow> drain b1 eol_len;
          Some (bytes_read, out, b2)
        }
      })"

subsection \<open>Searching a buffer of one chain without consumed bytes\<close>

text \<open>
  With a single chain whose bytes start at the beginning of its block, positions in the block,
  in the chain and in the buffer coincide.
\<close>

definition one_chain :: "buffer \<Rightarrow> chain \<Rightarrow> bool" where
  "one_chain b c \<longleftrightarrow> buffer_wf b \<and> chains b = [c] \<and> misalign c = 0"

definition pos_iter :: "buffer \<Rightarrow> chain \<Rightarrow> nat \<Rightarrow> buffer_iter" where
  "pos_iter b c t = \<lparr>it_buffer = Some (baddr b), it_chain = Some (chain_addr c),
     offset_of_buffer = t, chain_number = 0, offset_of_chain = t\<rparr>"

lemma pos_iter_sel [simp]:
  "it_buffer (pos_iter b c t) = Some (baddr b)" "it_chain (pos_iter b c t) = Some (chain_addr c)"
  "offset_of_buffer (pos_iter b c t) = t" "offset_of_chain (pos_iter b c t) = t"
  "chain_number (pos_iter b c t) = 0" "is_valid (pos_iter b c t)"
  by (simp_all add: pos_iter_def is_valid_def)

lemma one_chainD:
  assumes "one_chain b c"
  shows "chain_ok c" and "chains b = [c]" and "last_data b = Some (chain_addr c)"
    and "total_len b = off c" and "contents b = content c" and "off c < 4294967296"
    and "chain_size c = off c" and "0 < off c" and "next_chain c = None"
    and "content c = take (off c) (cbuf c)"
proof -
  have wf: "buffer_wf b" and cs: "chains b = [c]" and m: "misalign c = 0"
    using assms by (auto simp: one_chain_def)
  show ok: "chain_ok c" using wf cs by (simp add: buffer_wf_def chains_ok_def)
  show "last_data b = Some (chain_addr c)" "next_chain c = None"
    using wf cs by (simp_all add: buffer_wf_def back_addr_def linked_def)
  show cont: "contents b = content c" using cs by (simp add: contents_def)
  show sz: "chain_size c = off c" using ok m by (simp add: chain_simps)
  show "total_len b = off c" using wf cont ok sz by (simp add: buffer_wf_total length_content)
  show "off c < 4294967296" using chain_okD [OF ok] by simp
  show "0 < off c" using wf cs sz by (simp add: buffer_wf_def)
  show "content c = take (off c) (cbuf c)" using m by (simp add: content_def)
qed (use assms in \<open>simp add: one_chain_def\<close>)

lemma one_chain_iters:
  assumes "one_chain b c"
  shows "buffer_begin b = Some (pos_iter b c 0)" and "buffer_end b = Some (pos_iter b c (off c))"
    and "iter_of_chain b (chain_addr c) = Some (pos_iter b c 0)"
    and "validate_iter b (pos_iter b c t) = Some True"
  using one_chainD [OF assms] assms
  by (simp_all add: one_chain_def buffer_begin_def buffer_end_def iter_of_chain_def validate_iter_def
      pos_iter_def deref_def front_addr_def iter_walk.simps chain_walk.simps)

lemma one_chain_plus:
  assumes "one_chain b c" and "t \<le> off c"
  shows "iter_plus b (pos_iter b c 0) t = Some (pos_iter b c t)"
proof -
  note D = one_chainD [OF assms(1)]
  have "is_last_chain_with_data b (it_chain (pos_iter b c 0))"
    using D by (simp add: is_last_chain_with_data_def)
  then show ?thesis
    using D assms(2)
    by (simp add: iter_plus_def deref_def forward_loop.simps uint_simps Let_def pos_iter_def)
qed

lemma one_chain_memcmp:
  assumes one: "one_chain b c" and t: "t \<le> off c" and w: "w \<noteq> []"
  shows "buffer_memcmp b (Some w) (length w) (pos_iter b c t) = Some (occurs_at w (content c) t)"
proof -
  note D = one_chainD [OF one]
  note ok = chain_okD [OF D(1)]
  have max: "u64_sub (total_len b) t = off c - t" using D t by (simp add: uint_simps)
  show ?thesis
  proof (cases "length w \<le> off c - t")
    case True
    have rd: "memread (cbuf c) t (length w) = Some (take (length w) (drop t (content c)))"
      using True t ok D(10) by (simp add: memread_in drop_take min_absorb1)
    have min: "min (length w) (u32_sub (off c) t) = length w" using True t D(6) by (simp add: uint_simps)
    have "memcmp_loop b (Some (chain_addr c)) t w (length w) 0 =
        Some (take (length w) (drop t (content c)) = w)"
      using D(2,7,8,9) w rd by (subst memcmp_loop.simps) (simp add: deref_def min memread_in Let_def)
    then show ?thesis
      using True max t w D ok
      by (auto simp: buffer_memcmp_def one_chain_iters [OF one] occurs_at_def)
  next
    case False
    then show ?thesis
      using max t D ok by (auto simp: buffer_memcmp_def one_chain_iters [OF one] occurs_at_def)
  qed
qed

lemma one_chain_memchr:
  assumes one: "one_chain b c" and p: "p \<le> off c"
  obtains "memchr (cbuf c) p ch (u32_sub (off c) p) = Some None" and "ch \<notin> set (drop p (content c))"
  | t where "memchr (cbuf c) p ch (u32_sub (off c) p) = Some (Some t)" and "p \<le> t" and "t < off c"
    and "\<forall>q. p \<le> q \<and> q < t \<longrightarrow> content c ! q \<noteq> ch"
proof -
  note D = one_chainD [OF one]
  define d where "d = drop p (content c)"
  define k where "k = length (takeWhile (\<lambda>x. x \<noteq> ch) d)"
  have "memread (cbuf c) p (u32_sub (off c) p) = Some d"
    using p chain_okD [OF D(1)] D(6,10) by (simp add: memread_in uint_simps d_def drop_take)
  then have m: "memchr (cbuf c) p ch (u32_sub (off c) p) =
      Some (if ch \<in> set d then Some (p + k) else None)"
    by (simp add: memchr_def k_def)
  have len: "length d = off c - p" using D(1,7) by (simp add: d_def length_content)
  show ?thesis
  proof (cases "ch \<in> set d")
    case True
    then have "dropWhile (\<lambda>x. x \<noteq> ch) d \<noteq> []" by (simp add: dropWhile_eq_Nil_conv)
    then have k: "k < length d"
      using arg_cong [OF takeWhile_dropWhile_id [of "\<lambda>x. x \<noteq> ch" d], of length]
      unfolding k_def length_append by (metis length_greater_0_conv less_add_same_cancel1)
    have "content c ! q \<noteq> ch" if "p \<le> q" "q < p + k" for q
    proof -
      have "d ! (q - p) = takeWhile (\<lambda>x. x \<noteq> ch) d ! (q - p)"
        using that by (simp add: takeWhile_nth k_def)
      also have "\<dots> \<noteq> ch"
        using that nth_mem [of "q - p" "takeWhile (\<lambda>x. x \<noteq> ch) d"] set_takeWhileD
        unfolding k_def by fastforce
      finally show ?thesis using that k len by (simp add: d_def)
    qed
    then show ?thesis using that(2) [of "p + k"] m True k len by simp
  next
    case False
    then show ?thesis using that(1) m by (simp add: d_def)
  qed
qed

lemma occurs_at_first:
  assumes "occurs_at w text q" and "w \<noteq> []"
  shows "q < length text" and "text ! q = hd w"
proof -
  show q: "q < length text" using assms by (cases w) (auto simp: occurs_at_def)
  have "hd w = hd (take (length w) (drop q text))" using assms by (simp add: occurs_at_def)
  then show "text ! q = hd w" using q assms(2) by (simp add: hd_drop_conv_nth)
qed

text \<open>The first occurrence at or after a position.\<close>

definition first_from :: "bytes \<Rightarrow> bytes \<Rightarrow> nat \<Rightarrow> nat option \<Rightarrow> bool" where
  "first_from w xs p r \<longleftrightarrow>
     (case r of
        None \<Rightarrow> \<forall>q. p \<le> q \<longrightarrow> \<not> occurs_at w xs q
      | Some t \<Rightarrow> p \<le> t \<and> occurs_at w xs t \<and> (\<forall>q. p \<le> q \<and> q < t \<longrightarrow> \<not> occurs_at w xs q))"

lemma first_from_skip:
  assumes "first_from w xs p' r" and "p \<le> p'" and "\<And>q. p \<le> q \<Longrightarrow> q < p' \<Longrightarrow> \<not> occurs_at w xs q"
  shows "first_from w xs p r"
  using assms unfolding first_from_def by (auto split: option.splits) (metis not_le)+

lemma one_chain_search:
  assumes one: "one_chain b c" and w: "w \<noteq> []"
  shows "p \<le> off c \<Longrightarrow>
    \<exists>r. search_in_chain b w (length w) (hd w) c p = Some r \<and> first_from w (content c) p r"
proof (induction "off c - p" arbitrary: p rule: less_induct)
  case less
  note D = one_chainD [OF one]
  have len: "length (content c) = off c" using D(1,7) by (simp add: length_content)
  note occ = occurs_at_first [OF _ w, of "content c"]
  show ?case
  proof (rule one_chain_memchr [OF one less.prems, of "hd w"])
    assume m: "memchr (cbuf c) p (hd w) (u32_sub (off c) p) = Some None"
      and no: "hd w \<notin> set (drop p (content c))"
    have "\<not> occurs_at w (content c) q" if "p \<le> q" for q
      using occ [of q] no that nth_mem [of "q - p" "drop p (content c)"]
        diff_less_mono [of q "length (content c)" p] by auto
    then show ?thesis using m by (subst search_in_chain.simps) (simp add: first_from_def)
  next
    fix t
    assume m: "memchr (cbuf c) p (hd w) (u32_sub (off c) p) = Some (Some t)" and t: "p \<le> t" "t < off c"
      and no: "\<forall>q. p \<le> q \<and> q < t \<longrightarrow> content c ! q \<noteq> hd w"
    have before: "\<not> occurs_at w (content c) q" if "p \<le> q" "q < t" for q
      using occ [of q] no that by auto
    have u: "u32_sub t (misalign c) = t" "u32_sub (u32_sub t (misalign c)) (misalign c) = t"
      using one t(2) D(6) by (simp_all add: one_chain_def uint_simps)
    have step: "search_in_chain b w (length w) (hd w) c p =
        (if occurs_at w (content c) t then Some (Some t)
         else search_in_chain b w (length w) (hd w) c (t + 1))"
      using m t one_chain_iters [OF one] one_chain_plus [OF one, of t] one_chain_memcmp [OF one _ w, of t] u
      by (subst search_in_chain.simps) (simp add: Let_def)
    show ?thesis
    proof (cases "occurs_at w (content c) t")
      case True
      then show ?thesis using step t before by (simp add: first_from_def)
    next
      case False
      have "off c - (t + 1) < off c - p" "t + 1 \<le> off c" using t by simp_all
      then obtain r where r: "search_in_chain b w (length w) (hd w) c (t + 1) = Some r"
        "first_from w (content c) (t + 1) r"
        using less.hyps by blast
      have "\<not> occurs_at w (content c) q" if "p \<le> q" "q < t + 1" for q
        using before False that by (cases "q = t") auto
      then show ?thesis using step r False t first_from_skip [OF r(2), of p] by simp
    qed
  qed
qed

text \<open>
  The position \<open>search_range\<close> returns is the one of the first occurrence, or the null position.
\<close>

lemma one_chain_search_range:
  assumes one: "one_chain b c" and w: "w \<noteq> []"
  shows "\<exists>it. search_range b (Some w) (length w) (pos_iter b c 0) (pos_iter b c (off c)) = Some it \<and>
    (if is_valid it then \<exists>t < off c. it = pos_iter b c t \<and> first_occurrence w (content c) (int t)
     else it = NULL_ITER \<and> first_occurrence w (content c) (- 1))"
proof -
  note D = one_chainD [OF one]
  have first: "at w 0 = Some (hd w)" using w by (simp add: at_def hd_conv_nth)
  obtain r where r: "search_in_chain b w (length w) (hd w) c 0 = Some r"
    "first_from w (content c) 0 r"
    using one_chain_search [OF one w, of 0] by auto
  have lt: "t < off c" if "r = Some t" for t
    using that r(2) occurs_at_first [OF _ w, of "content c" t] D(1,7)
    by (simp add: first_from_def length_content)
  have "search_chains b w (length w) (hd w) (Some (chain_addr c)) (Some (chain_addr c)) 0 0 =
      Some (map_option (\<lambda>t. (chain_addr c, t)) r)"
    using D r(1) by (subst search_chains.simps) (simp split: option.splits)
  then have "search_range b (Some w) (length w) (pos_iter b c 0) (pos_iter b c (off c)) =
      Some (case r of None \<Rightarrow> NULL_ITER | Some t \<Rightarrow> pos_iter b c t)"
    using lt one_chain_plus [OF one] w first
    by (auto simp: search_range_def one_chain_iters [OF one] split: option.splits)
  then show ?thesis
    using r(2) lt by (auto simp: first_from_def first_occurrence_def NULL_ITER_def is_valid_def split: option.splits)
qed

lemma one_chain_search_eol:
  assumes one: "one_chain b c"
  shows "\<exists>it. search_eol b BUFFER_EOL_LF (pos_iter b c 0) n = Some (it, 1) \<and>
    (if is_valid it then \<exists>t < off c. it = pos_iter b c t \<and> first_occurrence [LF] (content c) (int t)
     else first_occurrence [LF] (content c) (- 1))"
proof -
  have len: "length [CR, LF] = 2" "length [LF] = 1" "length [NUL] = 1" by simp_all
  note search = one_chain_search_range [OF one]
  obtain i1 where i1: "search_range b (Some [CR, LF]) 2 (pos_iter b c 0) (pos_iter b c (off c)) = Some i1"
    using search [of "[CR, LF]", unfolded len] by blast
  obtain i3 where i3: "search_range b (Some [NUL]) 1 (pos_iter b c 0) (pos_iter b c (off c)) = Some i3"
    using search [of "[NUL]", unfolded len] by blast
  obtain i2 where i2: "search_range b (Some [LF]) 1 (pos_iter b c 0) (pos_iter b c (off c)) = Some i2"
    "if is_valid i2 then \<exists>t < off c. i2 = pos_iter b c t \<and> first_occurrence [LF] (content c) (int t)
     else i2 = NULL_ITER \<and> first_occurrence [LF] (content c) (- 1)"
    using search [of "[LF]", unfolded len] by blast
  have "search_eol b BUFFER_EOL_LF (pos_iter b c 0) n = Some (i2, 1)"
    using one_chainD [OF one] one_chain_iters [OF one] i1 i3 i2(1) by (simp add: search_eol_def)
  then show ?thesis using i2(2) by (auto split: if_splits)
qed

lemma first_LF:
  assumes "first_occurrence [LF] text (int t)"
  shows "t < length text" and "text ! t = LF" and "LF \<notin> set (take t text)"
    and "text = take t text @ LF # drop (Suc t) text"
proof -
  have t: "occurs_at [LF] text t" and before: "\<And>q. q < t \<Longrightarrow> \<not> occurs_at [LF] text q"
    using assms by (auto simp: first_occurrence_def)
  show l: "t < length text" "text ! t = LF" using occurs_at_first [OF t] by simp_all
  show "LF \<notin> set (take t text)"
  proof
    assume "LF \<in> set (take t text)"
    then obtain q where q: "q < t" "q < length text" "text ! q = LF" by (auto simp: in_set_conv_nth)
    then have "occurs_at [LF] text q"
      by (simp add: occurs_at_def take_Suc_conv_app_nth hd_drop_conv_nth)
    then show False using before q(1) by simp
  qed
  show "text = take t text @ LF # drop (Suc t) text" using l by (metis id_take_nth_drop)
qed

lemma first_LF_line:
  assumes "first_occurrence [LF] (line @ LF # rest) (int t)" and "LF \<notin> set line"
  shows "t = length line"
proof (rule linorder_cases [of t "length line"])
  assume "t < length line"
  then have "LF \<in> set line"
    using first_LF(2) [OF assms(1)] nth_mem [of t line] by (simp add: nth_append)
  then show ?thesis using assms(2) by simp
next
  assume "length line < t"
  moreover have "occurs_at [LF] (line @ LF # rest) (length line)" by (simp add: occurs_at_def)
  ultimately show ?thesis using assms(1) by (auto simp: first_occurrence_def)
qed simp

lemma read_line_found:
  assumes wf: "buffer_wf b" and bg: "buffer_begin b = Some bg"
    and eol: "search_eol b style bg 0 = Some (it, k)" and it: "is_valid it" "offset_of_buffer it = t"
    and t: "0 < t" "t \<le> n" "t < 4294967296" and k: "0 < k" "t + k \<le> length (contents b)"
  shows "\<exists>b'. read_line b n style = Some (int t, take t (contents b), b') \<and> buffer_wf b' \<and>
    contents b' = drop (t + k) (contents b)"
proof -
  obtain b1 where b1: "remove b t = Some (int t, take t (contents b), b1)" "buffer_wf b1"
    "contents b1 = drop t (contents b)"
    using remove_law [OF wf t(1)] k by auto
  obtain b2 where b2: "drain b1 k = Some (int k, b2)" "buffer_wf b2" "contents b2 = drop k (contents b1)"
    using drain_correct [OF b1(2) k(1)] k(2) b1(3) by (auto simp: le_diff_conv2)
  have "u32 t = t" using t(3) by (simp add: uint_simps)
  then show ?thesis
    using bg eol it t b1 b2 by (simp add: read_line_def add.commute)
qed

text \<open>
  C20. \<open>read_line\<close> with \<open>BUFFER_EOL_LF\<close> on a buffer of one chain with no consumed bytes: a first
  line that is not empty and fits is delivered without its line feed, both are removed and what
  follows stays; without a line feed the buffer is unchanged and the result is \<open>-1\<close>.
\<close>

theorem read_line_correct:
  assumes one: "one_chain b c" and n: "0 < n"
  shows "(\<forall>line rest. contents b = line @ LF # rest \<and> LF \<notin> set line \<and> line \<noteq> [] \<and> length line \<le> n \<longrightarrow>
      (\<exists>b'. read_line b n BUFFER_EOL_LF = Some (int (length line), line, b') \<and> buffer_wf b' \<and>
        contents b' = rest)) \<and>
    (LF \<notin> set (contents b) \<longrightarrow> read_line b n BUFFER_EOL_LF = Some (- 1, [], b))"
proof -
  note D = one_chainD [OF one]
  have wf: "buffer_wf b" using one by (simp add: one_chain_def)
  note bg = one_chain_iters(1) [OF one]
  obtain it where it: "search_eol b BUFFER_EOL_LF (pos_iter b c 0) 0 = Some (it, 1)"
    "if is_valid it then \<exists>t < off c. it = pos_iter b c t \<and> first_occurrence [LF] (content c) (int t)
     else first_occurrence [LF] (content c) (- 1)"
    using one_chain_search_eol [OF one] by blast
  have found: "\<exists>b'. read_line b n BUFFER_EOL_LF = Some (int (length line), line, b') \<and> buffer_wf b' \<and>
      contents b' = rest"
    if line: "contents b = line @ LF # rest" "LF \<notin> set line" "line \<noteq> []" "length line \<le> n" for line rest
  proof -
    have "occurs_at [LF] (content c) (length line)" using line D(5) by (simp add: occurs_at_def)
    then have valid: "is_valid it" using it(2) by (auto simp: first_occurrence_def split: if_splits)
    then obtain t where t: "t < off c" "it = pos_iter b c t" "first_occurrence [LF] (content c) (int t)"
      using it(2) by auto
    have len: "t = length line"
      using first_LF_line [OF _ line(2)] t(3) line(1) D(5) by simp
    show ?thesis
      using read_line_found [OF wf bg it(1) valid, of t n] t len line D(6) by simp
  qed
  have none: "read_line b n BUFFER_EOL_LF = Some (- 1, [], b)" if "LF \<notin> set (contents b)"
  proof -
    have "\<not> is_valid it"
    proof
      assume "is_valid it"
      then obtain t where "first_occurrence [LF] (contents b) (int t)" using it(2) D(5) by auto
      then show False using first_LF(1,2) [of "contents b" t] that nth_mem by metis
    qed
    then show ?thesis using n bg it(1) by (simp add: read_line_def)
  qed
  show ?thesis using found none by blast
qed

text \<open>A buffer of one chain that holds two lines.\<close>

definition sample_lines :: buffer where
  "sample_lines = \<lparr>baddr = 1,
     chains = [\<lparr>chain_addr = 2, cbuf = ''ab'' @ [LF] @ ''c'' @ [LF, NUL], capacity = 6, off = 5,
       next_chain = None, parent = Some 1, misalign = 0\<rparr>],
     last_data = Some 2, total_len = 5, heap_top = 3\<rparr>"

lemma sample_lines_facts:
  "one_chain sample_lines (hd (chains sample_lines))"
  "contents sample_lines = ''ab'' @ LF # ''c'' @ [LF]"
  by (simp_all add: one_chain_def sample_lines_def buffer_wf_def contents_def chains_ok_def
      chain_ok_def linked_def content_def chain_size_def u32_sub_def back_addr_def)

theorem read_line_correct_witness:
  "\<exists>b'. read_line sample_lines 10 BUFFER_EOL_LF = Some (2, ''ab'', b') \<and> contents b' = ''c'' @ [LF]"
  using conjunct1 [OF read_line_correct [OF sample_lines_facts(1), of 10], rule_format, of "''ab''" "''c'' @ [LF]"]
    sample_lines_facts(2) by auto

text \<open>
  The second line of the same chain is not found: the bytes consumed by the first call are
  subtracted twice when the match is compared, and the call returns \<open>-1\<close>.
\<close>

lemmas buffer_eval = buffer_begin_def buffer_end_def search_eol_def validate_iter_def front_addr_def
  chain_walk.simps deref_def search_range_def at_def search_chains.simps search_in_chain.simps
  memchr_def memread_def chain_size_def u32_sub_def u64_sub_def u32_def u64_def iter_of_chain_def
  iter_walk.simps iter_plus_def Let_def forward_loop.simps is_last_chain_with_data_def
  buffer_memcmp_def memcmp_loop.simps read_line_def NULL_ITER_def is_valid_def remove_def
  remove_loop.simps drain_def

theorem read_line_second_line_missed:
  "do { (_, _, b1) \<leftarrow> read_line sample_lines 10 BUFFER_EOL_LF;
        (r, _, _) \<leftarrow> read_line b1 10 BUFFER_EOL_LF; Some r } = Some (- 1)"
  by (simp add: sample_lines_def buffer_eval)

text \<open>
  \<open>BUFFER_EOL_CRLF\<close>, documented as a line feed with or without a carriage return, finds exactly
  what \<open>BUFFER_EOL_CRLF_STRICT\<close> finds, and reports one byte for the two-byte line end.
\<close>

theorem search_eol_crlf_is_strict:
  assumes "search_eol b BUFFER_EOL_CRLF start k = Some (it, l)" and "is_valid it"
  shows "search_eol b BUFFER_EOL_CRLF_STRICT start k = Some (it, 2) \<and> l = 1"
proof -
  have v: "validate_iter b start = Some True" "total_len b \<noteq> 0"
    using assms by (cases "validate_iter b start";
      force simp: search_eol_def is_valid_def NULL_ITER_def split: if_splits)+
  obtain bg e where be: "buffer_begin b = Some bg" "buffer_end b = Some e"
    using assms(1) v by (cases "buffer_begin b"; cases "buffer_end b") (simp_all add: search_eol_def)
  then obtain i1 i2 i3 where "search_range b (Some [CR, LF]) 2 bg e = Some i1"
    "search_range b (Some [LF]) 1 bg e = Some i2" "search_range b (Some [NUL]) 1 bg e = Some i3"
    using assms(1) v
    by (cases "search_range b (Some [CR, LF]) 2 bg e"; cases "search_range b (Some [LF]) 1 bg e";
        cases "search_range b (Some [NUL]) 1 bg e") (simp_all add: search_eol_def)
  then show ?thesis
    using assms(1) v be
    by (cases "iter_less b i2 i1") (simp_all add: search_eol_def split: if_splits)
qed

end
