(* ===== verification/Buffer_Copy.thy ===== *)
theory Buffer_Copy
  imports Buffer_Iter
begin

text \<open>
  Copying between buffers: the copy constructors of \<open>buffer\<close>, its assignment operator,
  \<open>append\<close> from another buffer and \<open>copy_out_from\<close>, of \<open>src/reactor/buffer.cpp\<close>. The
  source is a second buffer value; a temporary chain on the stack gets an address that no
  chain of the destination has.
\<close>

subsection \<open>Copy constructor and assignment\<close>

text \<open>The copy of a \<open>std::list\<close> of chains: one new node per element.\<close>

fun copy_chains :: "addr \<Rightarrow> chain list \<Rightarrow> (chain list \<times> addr) option" where
  "copy_chains t [] = Some ([], t)"
| "copy_chains t (c # cs) = do {
     c' \<leftarrow> copy_chain t c;
     (cs', t') \<leftarrow> copy_chains (Suc t) cs;
     Some (c' # cs', t')
   }"

text \<open>
  \<open>update_last_chain_with_data\<close> walks both lists in step. When the walk ends at the end of
  the own list, the end is dereferenced.
\<close>

fun update_last_chain_with_data :: "chain list \<Rightarrow> chain list \<Rightarrow> addr option \<Rightarrow> addr option" where
  "update_last_chain_with_data (c # cs) (d # ds) l =
     (if Some (chain_addr d) \<noteq> l then update_last_chain_with_data cs ds l else Some (chain_addr c))"
| "update_last_chain_with_data (c # cs) [] l = Some (chain_addr c)"
| "update_last_chain_with_data [] ds l = None"

fun relink :: "chain list \<Rightarrow> chain list" where
  "relink (c # d # cs) = set_next (Some (chain_addr d)) c # relink (d # cs)"
| "relink [c] = [set_next None c]"
| "relink [] = []"

definition update_next_field_after_copy :: "chain list \<Rightarrow> chain list" where
  "update_next_field_after_copy cs = (if length cs \<le> 1 then cs else relink cs)"

definition copy_buffer :: "addr \<Rightarrow> addr \<Rightarrow> buffer \<Rightarrow> buffer option" where
  "copy_buffer a t other = do {
     (cs, t') \<leftarrow> copy_chains t (chains other);
     l \<leftarrow> update_last_chain_with_data cs (chains other) (last_data other);
     Some \<lparr>baddr = a, chains = update_next_field_after_copy cs, last_data = Some l,
       total_len = total_len other, heap_top = t'\<rparr>
   }"

text \<open>
  The assignment of a \<open>std::list\<close>: elements are assigned one by one, the rest is erased or
  inserted as copies. \<open>operator=\<close> of \<open>buffer\<close> leaves the \<open>next_\<close> pointers as they are.
\<close>

fun assign_chains :: "addr \<Rightarrow> chain list \<Rightarrow> chain list \<Rightarrow> (chain list \<times> addr) option" where
  "assign_chains t (c # cs) (d # ds) = do {
     c' \<leftarrow> assign_chain c d;
     (cs', t') \<leftarrow> assign_chains t cs ds;
     Some (c' # cs', t')
   }"
| "assign_chains t [] ds = copy_chains t ds"
| "assign_chains t cs [] = Some ([], t)"

definition assign_buffer :: "buffer \<Rightarrow> buffer \<Rightarrow> buffer option" where
  "assign_buffer b other =
     (if baddr b = baddr other then Some b
      else if total_len other = 0 then Some b
      else do {
        (cs, t') \<leftarrow> assign_chains (heap_top b) (chains b) (chains other);
        l \<leftarrow> update_last_chain_with_data cs (chains other) (last_data other);
        Some (b\<lparr>chains := cs, total_len := total_len other, last_data := Some l, heap_top := t'\<rparr>)
      })"

subsection \<open>Copying a part\<close>

text \<open>The loop of \<open>buffer(other, data_len)\<close>.\<close>

partial_function (option) copy_len_loop ::
  "buffer \<Rightarrow> addr option \<Rightarrow> nat \<Rightarrow> buffer \<Rightarrow> (addr option \<times> nat \<times> buffer) option" where
  "copy_len_loop other current_chain remain_to_copy b = do {
     c \<leftarrow> deref other current_chain;
     if \<not> is_last_chain_with_data other current_chain \<and> chain_size c < remain_to_copy
     then do {
       (_, b1) \<leftarrow> append_copied_chain b c;
       copy_len_loop other (next_chain c) (remain_to_copy - chain_size c)
         (b1\<lparr>last_data := back_addr b1\<rparr>)
     }
     else Some (current_chain, remain_to_copy, b)
   }"

declare copy_len_loop.simps [code]

definition copy_buffer_len :: "addr \<Rightarrow> addr \<Rightarrow> buffer \<Rightarrow> nat \<Rightarrow> buffer option" where
  "copy_buffer_len a t other data_len =
     (if total_len other = 0 \<or> data_len = 0 then Some (new_buffer a t)
      else if data_len \<ge> total_len other then copy_buffer a t other
      else do {
        (current_chain, remain_to_copy, b1) \<leftarrow>
          copy_len_loop other (front_addr other) data_len (new_buffer a t);
        c \<leftarrow> deref other current_chain;
        start \<leftarrow> chain_begin other c;
        last_chain \<leftarrow> copy_chain_range (heap_top b1) c remain_to_copy start;
        (_, b2) \<leftarrow> append_copied_chain b1 last_chain;
        let cs = (case last_data b2 of
            None \<Rightarrow> chains b2
          | Some l \<Rightarrow> map (\<lambda>d. if chain_addr d = l then set_next (back_addr b2) d else d) (chains b2));
        Some (b2\<lparr>chains := cs, last_data := back_addr b2, total_len := data_len\<rparr>)
      })"

text \<open>
  The loop that \<open>buffer(other, data_len, start)\<close> and \<open>append(other, data_len, start)\<close> share: whole
  rests of chains are copied to a temporary chain and appended.
\<close>

partial_function (option) copy_from_loop ::
  "buffer \<Rightarrow> addr option \<Rightarrow> nat \<Rightarrow> buffer_iter \<Rightarrow> nat \<Rightarrow> bool \<Rightarrow> buffer \<Rightarrow>
    (addr option \<times> nat \<times> buffer_iter \<times> bool \<times> buffer) option" where
  "copy_from_loop other current_chain bytes_can_copy it remain_to_copy start_from_begin b =
     (if \<not> is_last_chain_with_data other current_chain \<and> bytes_can_copy < remain_to_copy
      then do {
        c \<leftarrow> deref other current_chain;
        tmp \<leftarrow> copy_chain_range (heap_top b) c bytes_can_copy it;
        (_, b1) \<leftarrow> append_copied_chain b tmp;
        d \<leftarrow> deref other (next_chain c);
        it' \<leftarrow> chain_begin other d;
        copy_from_loop other (next_chain c) (chain_size d) it' (remain_to_copy - bytes_can_copy) True
          (b1\<lparr>last_data := back_addr b1\<rparr>)
      }
      else Some (current_chain, remain_to_copy, it, start_from_begin, b))"

declare copy_from_loop.simps [code]

definition copy_buffer_from :: "addr \<Rightarrow> addr \<Rightarrow> buffer \<Rightarrow> nat \<Rightarrow> buffer_iter \<Rightarrow> buffer option" where
  "copy_buffer_from a t other data_len start = do {
     v \<leftarrow> validate_iter other start;
     if \<not> v \<or> data_len = 0 \<or> total_len other = 0 then Some (new_buffer a t)
     else do {
       c \<leftarrow> deref other (it_chain start);
       if \<not> chain_validate_iter c start then Some (new_buffer a t)
       else do {
         let maximum_bytes_can_copy_out = u32 (u64_sub (total_len other) (offset_of_buffer start));
         let remain_to_copy =
           (if data_len > maximum_bytes_can_copy_out then maximum_bytes_can_copy_out else data_len);
         (cur, remain, it, start_from_begin, b1) \<leftarrow>
           copy_from_loop other (it_chain start) (u32_sub (off c) (offset_of_chain start)) start
             remain_to_copy False (new_buffer a t);
         d \<leftarrow> deref other cur;
         it' \<leftarrow> (if start_from_begin then chain_begin other d else Some it);
         tmp \<leftarrow> copy_chain_range (heap_top b1) d remain it';
         (_, b2) \<leftarrow> append_moved_chain b1 tmp;
         Some (b2\<lparr>last_data := back_addr b2, total_len := data_len\<rparr>)
       }
     }
   }"

definition append_buffer :: "buffer \<Rightarrow> buffer \<Rightarrow> nat \<Rightarrow> buffer_iter \<Rightarrow> (int \<times> buffer) option" where
  "append_buffer b other data_len start = do {
     v \<leftarrow> validate_iter other start;
     if \<not> v \<or> total_len other = 0 \<or> data_len = 0 then Some (- 1, b)
     else do {
       (_, b0) \<leftarrow> free_trailing_empty_chains b;
       c \<leftarrow> deref other (it_chain start);
       if \<not> chain_validate_iter c start then Some (- 1, b0)
       else do {
         let maximum_bytes_can_copy_out = u32 (u64_sub (total_len other) (offset_of_buffer start));
         let remain_to_copy =
           u32 (if data_len > maximum_bytes_can_copy_out then maximum_bytes_can_copy_out else data_len);
         (cur, remain, it, start_from_begin, b1) \<leftarrow>
           copy_from_loop other (it_chain start) (u32_sub (off c) (offset_of_chain start)) start
             remain_to_copy False b0;
         d \<leftarrow> deref other cur;
         it' \<leftarrow> (if start_from_begin then chain_begin other d else Some it);
         tmp \<leftarrow> copy_chain_range (heap_top b1) d remain it';
         (_, b2) \<leftarrow> append_copied_chain b1 tmp;
         Some (int remain_to_copy, b2)
       }
     }
   }"

text \<open>\<open>copy_out_from\<close> through a temporary buffer; \<open>a\<close> and \<open>t\<close> are its address and its heap.\<close>

definition copy_out_from :: "addr \<Rightarrow> addr \<Rightarrow> buffer \<Rightarrow> nat \<Rightarrow> buffer_iter \<Rightarrow> (int \<times> bytes) option" where
  "copy_out_from a t b data_len start = do {
     v \<leftarrow> validate_iter b start;
     if \<not> v then Some (- 1, [])
     else if data_len = 0 then Some (0, [])
     else do {
       tmp_buf \<leftarrow> copy_buffer_from a t b data_len start;
       (r, out, _) \<leftarrow> remove tmp_buf data_len;
       Some (r, out)
     }
   }"

subsection \<open>Positions of chains\<close>

lemma linked_open_split:
  assumes "linked_open (xs @ c # d # ys)"
  shows "next_chain c = Some (chain_addr d)"
  using assms by (induction xs rule: linked_open.induct) auto

lemma wf_split:
  assumes "buffer_wf b" and "chains b = pre @ c # post"
  shows "chain_ok c" and "0 < chain_size c" and "find_chain (chains b) (chain_addr c) = Some c"
    and "parent c = Some (baddr b)" and "total_len b = length (bytes_of pre) + chain_size c + length (bytes_of post)"
    and "post = d # ds \<Longrightarrow> next_chain c = Some (chain_addr d)" and "post = [] \<Longrightarrow> next_chain c = None"
    and "is_last_chain_with_data b (Some (chain_addr c)) \<longleftrightarrow> post = []"
proof -
  have ok: "chains_ok (baddr b) (heap_top b) (chains b)" and lk: "linked (chains b)"
    and last: "last_data b = back_addr b"
    using assms(1) by (simp_all add: buffer_wf_def)
  show c: "chain_ok c" using ok assms(2) by (simp add: chains_ok_def)
  have ad: "chain_addr c \<notin> chain_addr ` set pre" "distinct (map chain_addr (c # post))"
    using ok assms(2) by (auto simp: chains_ok_def)
  show "0 < chain_size c" "parent c = Some (baddr b)"
    using assms by (auto simp: buffer_wf_def chains_ok_def)
  show "find_chain (chains b) (chain_addr c) = Some c" using ad assms(2) by simp
  show "total_len b = length (bytes_of pre) + chain_size c + length (bytes_of post)"
    using assms c by (simp add: buffer_wf_def length_content)
  show "post = d # ds \<Longrightarrow> next_chain c = Some (chain_addr d)"
    using lk assms(2) linked_open_split [of pre c d ds] by (simp add: linked_def)
  show "post = [] \<Longrightarrow> next_chain c = None" using lk assms(2) by (simp add: linked_def)
  have "back_addr b = Some (chain_addr (last (c # post)))"
    using assms(2) by (cases pre) (simp_all add: back_addr_def)
  then show "is_last_chain_with_data b (Some (chain_addr c)) \<longleftrightarrow> post = []"
    using last ad(2) by (cases post) (auto simp: is_last_chain_with_data_def)
qed

text \<open>Both walks along \<open>next_\<close> find every chain of a well-formed buffer.\<close>

lemma iter_walk_finds:
  assumes "buffer_wf b"
  shows "chains b = pre @ mid @ c # post \<Longrightarrow>
    \<exists>k. iter_walk (chains b) (Some (chain_addr (hd (mid @ [c])))) (chain_addr c) n = Some (Some (chain_addr c), k)"
proof (induction mid arbitrary: pre n)
  case Nil
  then show ?case by (simp add: iter_walk.simps)
next
  case (Cons m mid)
  let ?rest = "mid @ c # post"
  have cs: "chains b = pre @ m # ?rest" using Cons.prems by simp
  have nx: "next_chain m = Some (chain_addr (hd (mid @ [c])))"
    using wf_split(6) [OF assms cs, of "hd ?rest" "tl ?rest"] by (cases mid) simp_all
  have ne: "chain_addr m \<noteq> chain_addr c"
    using assms cs by (auto simp: buffer_wf_def chains_ok_def)
  have "chains b = (pre @ [m]) @ mid @ c # post" using Cons.prems by simp
  then show ?case
    using Cons.IH [of "pre @ [m]" "u32 (n + capacity m)"] wf_split(3) [OF assms cs] nx ne
    by (subst iter_walk.simps) simp
qed

lemma chain_begin_ok:
  assumes "buffer_wf b" and cs: "chains b = pre @ c # post"
  obtains it where "chain_begin b c = Some it" and "it_chain it = Some (chain_addr c)"
    and "offset_of_chain it = misalign c" and "chain_validate_iter c it"
proof -
  note s = wf_split [OF assms]
  have front: "front_addr b = Some (chain_addr (hd (pre @ [c])))"
    using cs by (cases pre) (simp_all add: front_addr_def)
  obtain k where "iter_walk (chains b) (Some (chain_addr (hd (pre @ [c])))) (chain_addr c) 0 =
      Some (Some (chain_addr c), k)"
    using iter_walk_finds [OF assms(1), of "[]" pre c post 0] cs by auto
  then show ?thesis
    using that s(1-5) front
    by (simp add: chain_begin_def iter_of_chain_def deref_def chain_validate_iter_def chain_simps)
qed

lemma chain_walk_finds:
  assumes "buffer_wf b"
  shows "chains b = pre @ mid @ c # post \<Longrightarrow>
    chain_walk (chains b) (Some (chain_addr (hd (mid @ [c])))) (Some (chain_addr c)) = Some (Some (chain_addr c))"
proof (induction mid arbitrary: pre)
  case Nil
  then show ?case by (simp add: chain_walk.simps)
next
  case (Cons m mid)
  let ?rest = "mid @ c # post"
  have cs: "chains b = pre @ m # ?rest" using Cons.prems by simp
  have nx: "next_chain m = Some (chain_addr (hd (mid @ [c])))"
    using wf_split(6) [OF assms cs, of "hd ?rest" "tl ?rest"] by (cases mid) simp_all
  have ne: "chain_addr m \<noteq> chain_addr c"
    using assms cs by (auto simp: buffer_wf_def chains_ok_def)
  have "chains b = (pre @ [m]) @ mid @ c # post" using Cons.prems by simp
  then show ?case
    using Cons.IH [of "pre @ [m]"] wf_split(3) [OF assms cs] nx ne by (subst chain_walk.simps) simp
qed

lemma validate_iter_ok:
  assumes "buffer_wf b" and cs: "chains b = pre @ c # post"
    and "it_buffer it = Some (baddr b)" and "it_chain it = Some (chain_addr c)"
  shows "validate_iter b it = Some True"
proof -
  have "front_addr b = Some (chain_addr (hd (pre @ [c])))"
    using cs by (cases pre) (simp_all add: front_addr_def)
  then show ?thesis
    using assms chain_walk_finds [OF assms(1), of "[]" pre c post] by (simp add: validate_iter_def)
qed

subsection \<open>The copying loop\<close>

text \<open>The bytes from a position to the end of its chain.\<close>

definition rest_at :: "chain \<Rightarrow> buffer_iter \<Rightarrow> bytes" where
  "rest_at c it = drop (offset_of_chain it - misalign c) (content c)"

lemma rest_at_facts:
  assumes "chain_ok c" and "chain_validate_iter c it"
  shows "length (rest_at c it) = off c - offset_of_chain it" and "rest_at c it \<noteq> []"
    and "u32_sub (off c) (offset_of_chain it) = length (rest_at c it)"
proof -
  have o: "misalign c \<le> offset_of_chain it" "offset_of_chain it < off c"
    using assms(2) by (auto simp: chain_validate_iter_def)
  then show len: "length (rest_at c it) = off c - offset_of_chain it"
    using assms(1) by (simp add: rest_at_def chain_simps)
  then show "rest_at c it \<noteq> []" using o by auto
  show "u32_sub (off c) (offset_of_chain it) = length (rest_at c it)"
    using o chain_okD [OF assms(1)] len by (simp add: uint_simps)
qed

lemma copied_part:
  assumes "chain_ok c" and "chain_validate_iter c it" and "0 < n" and "n \<le> length (rest_at c it)"
  obtains tmp where "copy_chain_range a c n it = Some tmp" and "chain_ok tmp"
    and "content tmp = take n (rest_at c it)" and "chain_size tmp = n"
proof -
  obtain tmp where tmp: "copy_chain_range a c n it = Some tmp" "chain_ok tmp"
    "content tmp = take n (rest_at c it)" "off tmp = n" "misalign tmp = 0"
    using copy_chain_range_returns [OF assms(1,2), of n a] assms(4) rest_at_facts(1) [OF assms(1,2)]
    by (auto simp: rest_at_def)
  then show ?thesis using that by (simp add: chain_size_ok)
qed

lemma rest_at_begin: "offset_of_chain it = misalign c \<Longrightarrow> rest_at c it = content c"
  by (simp add: rest_at_def)

lemma copy_from_loop_step:
  assumes wf: "buffer_wf other" and cs: "chains other = pre @ c # d # ds"
    and val: "chain_validate_iter c it" and b: "buffer_wf b"
    and more: "length (rest_at c it) < remain"
    and len: "length (contents b) + remain < 18446744073709551616"
  obtains b1 it' where "copy_from_loop other (Some (chain_addr c)) (length (rest_at c it)) it remain flag b =
      copy_from_loop other (Some (chain_addr d)) (length (rest_at d it')) it'
        (remain - length (rest_at c it)) True b1"
    and "buffer_wf b1" and "contents b1 = contents b @ rest_at c it" and "baddr b1 = baddr b"
    and "chain_begin other d = Some it'" and "chain_validate_iter d it'" and "rest_at d it' = content d"
proof -
  note s = wf_split [OF wf cs]
  have cs': "chains other = (pre @ [c]) @ d # ds" using cs by simp
  note s' = wf_split [OF wf cs']
  let ?n = "length (rest_at c it)"
  have pos: "0 < ?n" using rest_at_facts(2) [OF s(1) val] by simp
  obtain tmp where tmp: "copy_chain_range (heap_top b) c ?n it = Some tmp" "chain_ok tmp"
    "content tmp = take ?n (rest_at c it)" "chain_size tmp = ?n"
    by (rule copied_part [OF s(1) val pos order_refl])
  obtain b1 where b1: "append_copied_chain b tmp = Some (int ?n, b1)" "buffer_wf b1"
    "contents b1 = contents b @ rest_at c it" "baddr b1 = baddr b"
    using append_copied_chain_correct [OF b tmp(2)] tmp(3,4) pos more len by auto
  obtain it' where it': "chain_begin other d = Some it'" "it_chain it' = Some (chain_addr d)"
    "offset_of_chain it' = misalign d" "chain_validate_iter d it'"
    by (rule chain_begin_ok [OF wf cs'])
  have same: "b1\<lparr>last_data := back_addr b1\<rparr> = b1"
    using b1(2) by (simp add: buffer_wf_def)
  have sz: "chain_size d = length (rest_at d it')"
    using s'(1) it'(3) by (simp add: rest_at_begin length_content)
  have "copy_from_loop other (Some (chain_addr c)) ?n it remain flag b =
      copy_from_loop other (Some (chain_addr d)) (length (rest_at d it')) it' (remain - ?n) True b1"
    using s(3,6,8) s'(3) more tmp(1) b1(1) it'(1) sz same
    by (subst copy_from_loop.simps) (simp add: deref_def)
  then show ?thesis using that b1 it' by (simp add: rest_at_begin)
qed

lemma copy_from_loop_correct:
  assumes wf: "buffer_wf other"
  shows "chains other = pre @ c # post \<Longrightarrow> chain_validate_iter c it \<Longrightarrow> buffer_wf b \<Longrightarrow> 0 < remain \<Longrightarrow>
    remain \<le> length (rest_at c it @ bytes_of post) \<Longrightarrow>
    length (contents b) + remain < 18446744073709551616 \<Longrightarrow> (flag \<longrightarrow> chain_begin other c = Some it) \<Longrightarrow>
    \<exists>d it' r flag' b'. copy_from_loop other (Some (chain_addr c)) (length (rest_at c it)) it remain flag b =
        Some (Some (chain_addr d), r, it', flag', b') \<and>
      find_chain (chains other) (chain_addr d) = Some d \<and> chain_ok d \<and> chain_validate_iter d it' \<and>
      (flag' \<longrightarrow> chain_begin other d = Some it') \<and> 0 < r \<and> r \<le> length (rest_at d it') \<and>
      buffer_wf b' \<and> baddr b' = baddr b \<and>
      contents b' @ take r (rest_at d it') = contents b @ take remain (rest_at c it @ bytes_of post)"
proof (induction post arbitrary: pre c it b remain flag)
  case Nil
  note s = wf_split [OF wf Nil.prems(1)]
  have "copy_from_loop other (Some (chain_addr c)) (length (rest_at c it)) it remain flag b =
      Some (Some (chain_addr c), remain, it, flag, b)"
    using s(8) by (simp add: copy_from_loop.simps)
  then show ?case using Nil.prems s(1,3) by (intro exI) auto
next
  case (Cons d ds)
  note s = wf_split [OF wf Cons.prems(1)]
  show ?case
  proof (cases "length (rest_at c it) < remain")
    case False
    have "copy_from_loop other (Some (chain_addr c)) (length (rest_at c it)) it remain flag b =
        Some (Some (chain_addr c), remain, it, flag, b)"
      using s(8) False by (simp add: copy_from_loop.simps)
    then show ?thesis using Cons.prems s(1,3) False by (intro exI) auto
  next
    case True
    obtain b1 it' where step: "copy_from_loop other (Some (chain_addr c)) (length (rest_at c it)) it remain flag b =
        copy_from_loop other (Some (chain_addr d)) (length (rest_at d it')) it'
          (remain - length (rest_at c it)) True b1"
      "buffer_wf b1" "contents b1 = contents b @ rest_at c it" "baddr b1 = baddr b"
      "chain_begin other d = Some it'" "chain_validate_iter d it'" "rest_at d it' = content d"
      by (rule copy_from_loop_step [OF wf Cons.prems(1-3) True Cons.prems(6)])
    have cs': "chains other = (pre @ [c]) @ d # ds" using Cons.prems(1) by simp
    note IH = Cons.IH [OF cs' step(6,2), of "remain - length (rest_at c it)" True]
    have "length (contents b1) + (remain - length (rest_at c it)) < 18446744073709551616"
      "remain - length (rest_at c it) \<le> length (rest_at d it' @ bytes_of ds)"
      using Cons.prems(5,6) True step(3,7) by auto
    then show ?thesis
      using IH True step by (simp add: append_assoc)
  qed
qed

subsection \<open>Copying from a position\<close>

text \<open>The position stands before byte number \<open>pos\<close> of the contents.\<close>

definition iter_at :: "buffer \<Rightarrow> buffer_iter \<Rightarrow> nat \<Rightarrow> bool" where
  "iter_at b it pos \<longleftrightarrow> (\<exists>pre c post. chains b = pre @ c # post \<and> it_buffer it = Some (baddr b) \<and>
     it_chain it = Some (chain_addr c) \<and> chain_validate_iter c it \<and> offset_of_buffer it = pos \<and>
     pos = length (bytes_of pre) + (offset_of_chain it - misalign c))"

lemma iter_atE:
  assumes wf: "buffer_wf b" and "iter_at b it pos"
  obtains pre c post where "chains b = pre @ c # post" and "it_chain it = Some (chain_addr c)"
    and "chain_validate_iter c it" and "drop pos (contents b) = rest_at c it @ bytes_of post"
    and "validate_iter b it = Some True" and "deref b (it_chain it) = Some c" and "chain_ok c"
    and "offset_of_buffer it = pos" and "pos < length (contents b)"
proof -
  obtain pre c post where cs: "chains b = pre @ c # post" and it: "it_buffer it = Some (baddr b)"
    "it_chain it = Some (chain_addr c)" "chain_validate_iter c it" "offset_of_buffer it = pos"
    and pos: "pos = length (bytes_of pre) + (offset_of_chain it - misalign c)"
    using assms(2) by (auto simp: iter_at_def)
  note s = wf_split [OF wf cs]
  have o: "misalign c \<le> offset_of_chain it" "offset_of_chain it < off c"
    using it(3) by (auto simp: chain_validate_iter_def)
  then have k: "offset_of_chain it - misalign c < length (content c)"
    using s(1) by (simp add: chain_simps)
  have "drop pos (contents b) = rest_at c it @ bytes_of post"
    using k by (simp add: contents_def cs pos rest_at_def)
  moreover have "pos < length (contents b)" using k by (simp add: contents_def cs pos)
  ultimately show ?thesis
    using that [OF cs it(2,3)] validate_iter_ok [OF wf cs it(1,2)] s(1,3) it by (simp add: deref_def)
qed

lemma copy_from_ready:
  assumes other: "buffer_wf other" and it: "iter_at other start pos" and b: "buffer_wf b"
    and m: "0 < m" "m \<le> length (contents other) - pos"
    and len: "length (contents b) + m < 18446744073709551616"
  obtains c d it' r flag b1 tmp where "deref other (it_chain start) = Some c"
    and "chain_validate_iter c start"
    and "copy_from_loop other (it_chain start) (u32_sub (off c) (offset_of_chain start)) start m False b =
        Some (Some (chain_addr d), r, it', flag, b1)"
    and "deref other (Some (chain_addr d)) = Some d"
    and "(if flag then chain_begin other d else Some it') = Some it'"
    and "copy_chain_range (heap_top b1) d r it' = Some tmp" and "chain_ok tmp" and "0 < chain_size tmp"
    and "buffer_wf b1" and "baddr b1 = baddr b"
    and "contents b1 @ content tmp = contents b @ take m (drop pos (contents other))"
    and "length (contents b1) + chain_size tmp = length (contents b) + m"
proof -
  obtain pre c post where p: "chains other = pre @ c # post" "it_chain start = Some (chain_addr c)"
    "chain_validate_iter c start" "drop pos (contents other) = rest_at c start @ bytes_of post"
    "deref other (it_chain start) = Some c" "chain_ok c"
    by (rule iter_atE [OF other it])
  have m': "m \<le> length (rest_at c start @ bytes_of post)"
    using m(2) unfolding p(4) [symmetric] by simp
  obtain d it' r flag b1 where
    loop: "copy_from_loop other (Some (chain_addr c)) (length (rest_at c start)) start m False b =
        Some (Some (chain_addr d), r, it', flag, b1)"
    and d: "find_chain (chains other) (chain_addr d) = Some d" "chain_ok d" "chain_validate_iter d it'"
      "flag \<longrightarrow> chain_begin other d = Some it'" and r: "0 < r" "r \<le> length (rest_at d it')"
    and b1: "buffer_wf b1" "baddr b1 = baddr b"
      "contents b1 @ take r (rest_at d it') = contents b @ take m (drop pos (contents other))"
    using copy_from_loop_correct [OF other p(1,3) b m(1) m' len, of False] p(4) by auto
  obtain tmp where tmp: "copy_chain_range (heap_top b1) d r it' = Some tmp" "chain_ok tmp"
    "content tmp = take r (rest_at d it')" "chain_size tmp = r"
    by (rule copied_part [OF d(2,3) r])
  have "length (contents b1) + chain_size tmp = length (contents b) + m"
    using arg_cong [OF b1(3), of length] m(2) r(2) tmp(4) by simp
  then show ?thesis
    using that [OF p(5,3) _ _ _ tmp(1,2) _ b1(1,2)] loop p(2) rest_at_facts(3) [OF p(6,3)] d tmp(3,4) r b1(3)
    by (simp add: deref_def)
qed

lemma free_trailing_wf:
  assumes wf: "buffer_wf b"
  obtains p where "free_trailing_empty_chains b = Some (p, b)"
proof (cases "total_len b = 0")
  case True
  then show ?thesis
    using that buffer_wf_empty [OF wf] by (simp add: free_trailing_empty_chains_def)
next
  case False
  obtain xs x where "chains b = xs @ [x]" "last_data b = Some (chain_addr x)"
    "deref b (last_data b) = Some x"
    using buffer_wf_snocE [OF wf False] by blast
  then show ?thesis using that False by (simp add: free_trailing_empty_chains_def deref_def)
qed

text \<open>
  \<open>append(other, data_len, start)\<close> for two different buffers: as many bytes as there are behind the
  position, and at most \<open>data_len\<close>, are appended in order, across all chain boundaries of the source,
  and their number is returned.
\<close>

theorem append_buffer_correct:
  assumes wf: "buffer_wf b" and other: "buffer_wf other" "length (contents other) < 4294967296"
    and it: "iter_at other start pos" and n: "0 < n"
    and len: "length (contents b) + length (contents other) < 18446744073709551616"
  shows "\<exists>b'. append_buffer b other n start = Some (int (min n (length (contents other) - pos)), b') \<and>
    buffer_wf b' \<and> baddr b' = baddr b \<and>
    contents b' = contents b @ take n (drop pos (contents other))"
proof -
  define m where "m = min n (length (contents other) - pos)"
  obtain c' where v: "validate_iter other start = Some True" "offset_of_buffer start = pos"
    "pos < length (contents other)"
    by (rule iter_atE [OF other(1) it])
  have tot: "total_len other = length (contents other)" using other(1) by (rule buffer_wf_total)
  have max: "u32 (u64_sub (total_len other) pos) = length (contents other) - pos"
    using other(2) v tot by (simp add: uint_simps)
  have m: "0 < m" "m \<le> length (contents other) - pos" "length (contents b) + m < 18446744073709551616"
    "u32 (if n > length (contents other) - pos then length (contents other) - pos else n) = m"
    using n v len other(2) by (auto simp: m_def uint_simps min_def)
  obtain c d it' r flag b1 tmp where t: "deref other (it_chain start) = Some c"
    "chain_validate_iter c start"
    "copy_from_loop other (it_chain start) (u32_sub (off c) (offset_of_chain start)) start m False b =
        Some (Some (chain_addr d), r, it', flag, b1)"
    "deref other (Some (chain_addr d)) = Some d"
    "(if flag then chain_begin other d else Some it') = Some it'"
    "copy_chain_range (heap_top b1) d r it' = Some tmp" "chain_ok tmp" "0 < chain_size tmp"
    "buffer_wf b1" "baddr b1 = baddr b"
    "contents b1 @ content tmp = contents b @ take m (drop pos (contents other))"
    "length (contents b1) + chain_size tmp = length (contents b) + m"
    by (rule copy_from_ready [OF other(1) it wf m(1-3)])
  obtain b2 where b2: "append_copied_chain b1 tmp = Some (int (chain_size tmp), b2)" "buffer_wf b2"
    "contents b2 = contents b1 @ content tmp" "baddr b2 = baddr b1"
    using append_copied_chain_correct [OF t(9,7,8)] t(12) m(3) by auto
  obtain p where free: "free_trailing_empty_chains b = Some (p, b)" by (rule free_trailing_wf [OF wf])
  have "append_buffer b other n start = Some (int m, b2)"
    using v n tot max m(4) free t(1-6) b2(1) by (auto simp: append_buffer_def Let_def)
  moreover have "take m (drop pos (contents other)) = take n (drop pos (contents other))"
    by (simp add: m_def min_def)
  ultimately show ?thesis using b2 t(10,11) by (simp add: m_def)
qed

text \<open>The position behind the first byte of the sample buffer.\<close>

definition sample_iter :: buffer_iter where
  "sample_iter = \<lparr>it_buffer = Some 1, it_chain = Some 2, offset_of_buffer = 1, chain_number = 0,
     offset_of_chain = 2\<rparr>"

lemma sample_iter_at: "iter_at sample_buffer sample_iter 1"
  unfolding iter_at_def
  by (rule exI [of _ "[]"], rule exI [of _ "hd (chains sample_buffer)"],
      rule exI [of _ "tl (chains sample_buffer)"])
    (simp add: sample_buffer_def sample_iter_def chain_validate_iter_def)

theorem append_buffer_correct_witness:
  "\<exists>b'. append_buffer (new_buffer 10 11) sample_buffer 4 sample_iter = Some (4, b') \<and>
    buffer_wf b' \<and> contents b' = ''bcde''"
  using append_buffer_correct [OF new_buffer_wf sample_buffer_facts(1) _ sample_iter_at, of 4 10 11]
    sample_buffer_facts by auto

lemma copy_buffer_from_law:
  assumes other: "buffer_wf other" "length (contents other) < 4294967296"
    and it: "iter_at other start pos" and n: "0 < n" "n \<le> length (contents other) - pos"
  shows "\<exists>b'. copy_buffer_from a t other n start = Some b' \<and> buffer_wf b' \<and> baddr b' = a \<and>
    contents b' = take n (drop pos (contents other))"
proof -
  obtain c' where v: "validate_iter other start = Some True" "offset_of_buffer start = pos"
    "pos < length (contents other)"
    by (rule iter_atE [OF other(1) it])
  have tot: "total_len other = length (contents other)" using other(1) by (rule buffer_wf_total)
  have max: "u32 (u64_sub (total_len other) pos) = length (contents other) - pos"
    using other(2) v tot by (simp add: uint_simps)
  have len: "length (contents (new_buffer a t)) + n < 18446744073709551616"
    using n other(2) by simp
  obtain c d it' r flag b1 tmp where t: "deref other (it_chain start) = Some c"
    "chain_validate_iter c start"
    "copy_from_loop other (it_chain start) (u32_sub (off c) (offset_of_chain start)) start n False
       (new_buffer a t) = Some (Some (chain_addr d), r, it', flag, b1)"
    "deref other (Some (chain_addr d)) = Some d"
    "(if flag then chain_begin other d else Some it') = Some it'"
    "copy_chain_range (heap_top b1) d r it' = Some tmp" "chain_ok tmp" "0 < chain_size tmp"
    "buffer_wf b1" "baddr b1 = baddr (new_buffer a t)"
    "contents b1 @ content tmp = contents (new_buffer a t) @ take n (drop pos (contents other))"
    "length (contents b1) + chain_size tmp = length (contents (new_buffer a t)) + n"
    by (rule copy_from_ready [OF other(1) it new_buffer_wf n len])
  obtain b2 where b2: "append_moved_chain b1 tmp = Some (int (chain_size tmp), b2)" "buffer_wf b2"
    "contents b2 = contents b1 @ content tmp" "baddr b2 = baddr b1"
    using append_moved_chain_correct [OF t(9,7,8)] t(12) len by auto
  have "total_len b2 = n" using b2(2,3) t(11) n by (simp add: buffer_wf_total)
  then have "b2\<lparr>last_data := back_addr b2, total_len := n\<rparr> = b2"
    using b2(2) by (simp add: buffer_wf_def)
  then have "copy_buffer_from a t other n start = Some b2"
    using v n tot max t(1-6) b2(1) by (auto simp: copy_buffer_from_def Let_def)
  moreover have "baddr (new_buffer a t) = a" by (simp add: new_buffer_def)
  ultimately show ?thesis using b2 t(10,11) by simp
qed

text \<open>
  \<open>copy_out_from\<close> of a range that lies within the stored bytes delivers exactly the bytes from
  the position on, across chain boundaries, and leaves the buffer as it is.
\<close>

theorem copy_out_from_correct:
  assumes "buffer_wf b" and "length (contents b) < 4294967296" and "iter_at b start pos"
    and "0 < n" and "n \<le> length (contents b) - pos"
  shows "copy_out_from a t b n start = Some (int n, take n (drop pos (contents b)))"
proof -
  obtain tmp where tmp: "copy_buffer_from a t b n start = Some tmp" "buffer_wf tmp"
    "contents tmp = take n (drop pos (contents b))"
    using copy_buffer_from_law [OF assms] by blast
  have v: "validate_iter b start = Some True" by (rule iter_atE [OF assms(1,3)])
  have "n \<le> length (contents tmp)" using tmp(3) assms(5) by simp
  then obtain b' where "remove tmp n = Some (int n, take n (contents tmp), b')"
    using remove_law [OF tmp(2) assms(4)] by blast
  then show ?thesis using v tmp assms(4) by (simp add: copy_out_from_def)
qed

theorem copy_out_from_correct_witness:
  "copy_out_from 10 11 sample_buffer 4 sample_iter = Some (4, ''bcde'')"
  using copy_out_from_correct [OF sample_buffer_facts(1) _ sample_iter_at, of 4 10 11]
    sample_buffer_facts by simp

subsection \<open>The copy constructor\<close>

lemma copy_chains_returns:
  "\<forall>c \<in> set cs. chain_ok c \<Longrightarrow>
    \<exists>cs'. copy_chains t cs = Some (cs', t + length cs) \<and> bytes_of cs' = bytes_of cs \<and>
      (\<forall>c \<in> set cs'. chain_ok c) \<and> map chain_addr cs' = [t..<t + length cs] \<and>
      map parent cs' = map parent cs \<and> map next_chain cs' = map next_chain cs \<and>
      map chain_size cs' = map chain_size cs"
proof (induction cs arbitrary: t)
  case Nil
  then show ?case by simp
next
  case (Cons c cs)
  obtain c' where c': "copy_chain t c = Some c'" "chain_ok c'" "content c' = content c"
    "chain_addr c' = t" "parent c' = parent c" "next_chain c' = next_chain c"
    using copy_chain_returns [of c t] Cons.prems by auto
  moreover have "chain_size c' = chain_size c"
    using c'(2,3) Cons.prems by (simp flip: length_content)
  moreover obtain cs' where "copy_chains (Suc t) cs = Some (cs', Suc t + length cs)"
    "bytes_of cs' = bytes_of cs" "\<forall>c \<in> set cs'. chain_ok c"
    "map chain_addr cs' = [Suc t..<Suc t + length cs]" "map parent cs' = map parent cs"
    "map next_chain cs' = map next_chain cs" "map chain_size cs' = map chain_size cs"
    using Cons.IH [of "Suc t"] Cons.prems by auto
  ultimately show ?case by (simp add: upt_conv_Cons del: upt_Suc)
qed

lemma update_last_finds:
  assumes "distinct (map chain_addr (ds @ [d]))" and "length cs = length ds"
  shows "update_last_chain_with_data (cs @ [c]) (ds @ [d]) (Some (chain_addr d)) = Some (chain_addr c)"
  using assms(2,1) by (induction cs ds rule: list_induct2) auto

lemma back_addr_last:
  "chains b \<noteq> [] \<Longrightarrow> back_addr b = Some (last (map chain_addr (chains b)))"
  by (cases "chains b") (simp_all add: back_addr_def last_map)

lemma relink_facts:
  "map chain_addr (relink cs) = map chain_addr cs" "bytes_of (relink cs) = bytes_of cs"
  "map parent (relink cs) = map parent cs" "linked (relink cs)"
  "(\<forall>c \<in> set (relink cs). chain_ok c) \<longleftrightarrow> (\<forall>c \<in> set cs. chain_ok c)"
proof -
  show "map chain_addr (relink cs) = map chain_addr cs" "bytes_of (relink cs) = bytes_of cs"
    "map parent (relink cs) = map parent cs"
    "(\<forall>c \<in> set (relink cs). chain_ok c) \<longleftrightarrow> (\<forall>c \<in> set cs. chain_ok c)"
    by (induction cs rule: relink.induct) auto
  show "linked (relink cs)"
  proof (induction cs rule: relink.induct)
    case (1 c d cs)
    then show ?case by (cases cs) (auto simp: linked_def)
  qed (simp_all add: linked_def)
qed

text \<open>
  The copy constructor of a buffer that holds data: the copy holds the same bytes in chains of
  its own, correctly linked, with \<open>last_chain_with_data_\<close> and \<open>total_len_\<close> to match; but every copied
  chain keeps the \<open>parent_\<close> of the original, so that its positions belong to the source buffer.
\<close>

theorem copy_buffer_correct:
  assumes wf: "buffer_wf other" and ne: "contents other \<noteq> []"
  shows "\<exists>b'. copy_buffer a t other = Some b' \<and> contents b' = contents other \<and> baddr b' = a \<and>
    linked (chains b') \<and> (\<forall>c \<in> set (chains b'). chain_ok c \<and> parent c = Some (baddr other)) \<and>
    map chain_addr (chains b') = [t..<t + length (chains other)] \<and>
    last_data b' = back_addr b' \<and> total_len b' = length (contents b')"
proof -
  have ok: "\<forall>c \<in> set (chains other). chain_ok c" using wf by (auto simp: buffer_wf_def chains_ok_def)
  obtain cs where cs: "copy_chains t (chains other) = Some (cs, t + length (chains other))"
    "bytes_of cs = bytes_of (chains other)" "\<forall>c \<in> set cs. chain_ok c"
    "map chain_addr cs = [t..<t + length (chains other)]" "map parent cs = map parent (chains other)"
    "map next_chain cs = map next_chain (chains other)"
    using copy_chains_returns [OF ok] by blast
  have "total_len other \<noteq> 0" using wf ne by (simp add: buffer_wf_total)
  then obtain ds d where ds: "chains other = ds @ [d]" "last_data other = Some (chain_addr d)"
    "next_chain d = None"
    using buffer_wf_snocE [OF wf] by blast
  have len: "length cs = length (chains other)" using arg_cong [OF cs(4), of length] by simp
  then obtain xs x where xs: "cs = xs @ [x]" "length xs = length ds"
    using ds(1) by (cases cs rule: rev_cases) auto
  have "distinct (map chain_addr (ds @ [d]))" using wf ds(1) by (simp add: buffer_wf_def chains_ok_def)
  then have last: "update_last_chain_with_data cs (chains other) (last_data other) = Some (chain_addr x)"
    using update_last_finds [of ds d xs x] ds xs by simp
  let ?cs = "update_next_field_after_copy cs"
  have "linked ?cs \<and> bytes_of ?cs = bytes_of cs \<and> map chain_addr ?cs = map chain_addr cs \<and>
      map parent ?cs = map parent cs \<and> (\<forall>c \<in> set ?cs. chain_ok c)"
    using cs(3,6) xs ds relink_facts [of cs]
    by (cases "length cs \<le> 1") (auto simp: update_next_field_after_copy_def linked_def)
  then have link: "linked ?cs" "bytes_of ?cs = bytes_of cs" "map chain_addr ?cs = map chain_addr cs"
    "map parent ?cs = map parent cs" "\<forall>c \<in> set ?cs. chain_ok c"
    by blast+
  have "parent c = Some (baddr other)" if "c \<in> set ?cs" for c
  proof -
    have "parent c \<in> set (map parent (chains other))" using that link(4) cs(5) by (metis image_eqI set_map)
    then show ?thesis using wf by (auto simp: buffer_wf_def chains_ok_def)
  qed
  moreover have "back_addr b' = Some (chain_addr x)" if "chains b' = ?cs" for b'
  proof -
    have "?cs \<noteq> []" using arg_cong [OF link(3), of length] xs by auto
    then show ?thesis using back_addr_last [of b'] that link(3) xs(1) by simp
  qed
  ultimately show ?thesis
    using cs last link wf by (auto simp: copy_buffer_def contents_def buffer_wf_def)
qed

theorem copy_buffer_correct_witness:
  "\<exists>b'. copy_buffer 10 11 sample_buffer = Some b' \<and> contents b' = ''abcdef'' \<and> baddr b' = 10"
  using copy_buffer_correct [OF sample_buffer_facts(1), of 10 11] sample_buffer_facts by auto

text \<open>Copying an empty buffer dereferences the end of a list.\<close>

theorem copy_empty_buffer_undefined: "copy_buffer a t (new_buffer a' t') = None"
  by (simp add: copy_buffer_def new_buffer_def)

text \<open>
  \<open>buffer(other, data_len)\<close>: after the last chain has been appended, \<open>last_chain_with_data_\<close> already is
  that chain, and setting its \<open>next_\<close> to the last chain makes it its own successor. Shown for a
  source of one chain.
\<close>

theorem copy_buffer_len_self_loop:
  assumes wf: "buffer_wf other" and cs: "chains other = [c]" and n: "0 < n" "n < length (contents other)"
  shows "\<exists>b' d. copy_buffer_len a t other n = Some b' \<and> last_data b' = Some (chain_addr d) \<and>
    d \<in> set (chains b') \<and> next_chain d = Some (chain_addr d)"
proof -
  note s = wf_split [OF wf, of "[]" c "[]", unfolded append_Nil, OF cs]
  have tot: "total_len other = length (contents other)" using wf by (rule buffer_wf_total)
  obtain it where it: "chain_begin other c = Some it" "offset_of_chain it = misalign c"
    "chain_validate_iter c it"
    using chain_begin_ok [OF wf, of "[]" c "[]"] cs by auto
  have "n \<le> length (rest_at c it)" using n cs it(2) by (simp add: rest_at_begin contents_def)
  then obtain tmp where tmp: "copy_chain_range t c n it = Some tmp" "chain_ok tmp"
    "content tmp = take n (rest_at c it)" "chain_size tmp = n"
    using copied_part [OF s(1) it(3) n(1)] by blast
  have "length (contents (new_buffer a t)) + chain_size tmp < 18446744073709551616"
    using tmp(4) chain_ok_less [OF tmp(2)] by simp
  then obtain b2 where b2: "append_copied_chain (new_buffer a t) tmp = Some (int n, b2)" "buffer_wf b2"
    "contents b2 = content tmp"
    using append_copied_chain_correct [OF new_buffer_wf tmp(2), of a t] tmp(4) n(1) by auto
  have "total_len b2 \<noteq> 0" using b2(2,3) tmp(2,4) n(1) by (simp add: buffer_wf_total length_content)
  then obtain xs x where x: "chains b2 = xs @ [x]" "last_data b2 = Some (chain_addr x)"
    using buffer_wf_snocE [OF b2(2)] by blast
  let ?f = "\<lambda>d. if chain_addr d = chain_addr x then set_next (Some (chain_addr x)) d else d"
  have "copy_len_loop other (Some (chain_addr c)) n (new_buffer a t) = Some (Some (chain_addr c), n, new_buffer a t)"
    using s(3,8) by (subst copy_len_loop.simps) (simp add: deref_def)
  moreover have "heap_top (new_buffer a t) = t" by (simp add: new_buffer_def)
  ultimately have "copy_buffer_len a t other n =
      Some (b2\<lparr>chains := map ?f (chains b2), last_data := back_addr b2, total_len := n\<rparr>)"
    using n tot cs s(3) it(1) tmp(1) b2(1) x back_addr_snoc [OF x(1)]
    by (auto simp: copy_buffer_len_def front_addr_def deref_def Let_def)
  then show ?thesis
    using x back_addr_snoc [OF x(1)]
    by (simp, intro exI [of _ "set_next (Some (chain_addr x)) x"]) simp
qed

end
