(* ===== verification/Socket.thy ===== *)
theory Socket
  imports Buffer "HOL-Library.Word"
begin

text \<open>
  Socket descriptors and streams: \<open>unp::fd\<close> (\<open>src/net/fd.cpp\<close>), \<open>net::inet_sock\<close>
  (\<open>src/net/inet_sock.cpp\<close>), \<open>net::SockStream\<close> and \<open>net::InetSockStream\<close>
  (\<open>src/net/sock_stream.cpp\<close>, \<open>inet_sock_stream.cpp\<close>), and the event types of
  \<open>src/reactor/EventHandler.h\<close>. The answers of the system calls are arguments: a call
  that the code makes gets the answer, a call that it does not make ignores it.
\<close>

subsection \<open>Event types\<close>

type_synonym event_type = "32 word"

definition NONE :: event_type where "NONE = 0"
definition READ_EVENT :: event_type where "READ_EVENT = 1"
definition EXCEPT_EVENT :: event_type where "EXCEPT_EVENT = 2"
definition WRITE_EVENT :: event_type where "WRITE_EVENT = 4"
definition ACCEPT_EVENT :: event_type where "ACCEPT_EVENT = 8"
definition TIMEOUT_EVENT :: event_type where "TIMEOUT_EVENT = 16"
definition SIGNAL_EVENT :: event_type where "SIGNAL_EVENT = 32"
definition CLOSE_EVENT :: event_type where "CLOSE_EVENT = 64"
definition CONNECT_EVENT :: event_type where "CONNECT_EVENT = 128"

lemmas event_defs = NONE_def READ_EVENT_def EXCEPT_EVENT_def WRITE_EVENT_def ACCEPT_EVENT_def
  TIMEOUT_EVENT_def SIGNAL_EVENT_def CLOSE_EVENT_def CONNECT_EVENT_def

definition INVALID_HANDLE :: int where
  "INVALID_HANDLE = - 1"

subsection \<open>Socket descriptors\<close>

datatype shut_how = SHUT_RD | SHUT_WR | SHUT_ALL

record inet_sock =
  fd_no :: int
  can_write :: bool
  can_read :: bool
  reuse_addr :: bool

definition new_sock :: "bool \<Rightarrow> inet_sock" where
  "new_sock reuse = \<lparr>fd_no = INVALID_HANDLE, can_write = False, can_read = False, reuse_addr = reuse\<rparr>"

definition set_fd :: "int \<Rightarrow> inet_sock \<Rightarrow> inet_sock" where
  "set_fd n s = s\<lparr>fd_no := n, can_write := True, can_read := True\<rparr>"

text \<open>The argument \<open>ans\<close> is what \<open>::shutdown\<close> or \<open>::close\<close> returns.\<close>

definition shut_down :: "shut_how \<Rightarrow> int \<Rightarrow> inet_sock \<Rightarrow> int \<times> inet_sock" where
  "shut_down how ans s =
     (if fd_no s \<noteq> INVALID_HANDLE
      then (ans, case how of
                   SHUT_RD \<Rightarrow> s\<lparr>can_read := False\<rparr>
                 | SHUT_WR \<Rightarrow> s\<lparr>can_write := False\<rparr>
                 | SHUT_ALL \<Rightarrow> s)
      else (0, s))"

definition close_sock :: "shut_how \<Rightarrow> int \<Rightarrow> inet_sock \<Rightarrow> int \<times> inet_sock" where
  "close_sock how ans s =
     (if fd_no s \<noteq> INVALID_HANDLE then
        if how = SHUT_RD \<or> how = SHUT_WR then shut_down how ans s
        else (ans, s\<lparr>fd_no := INVALID_HANDLE, can_read := False, can_write := False\<rparr>)
      else (0, s))"

text \<open>\<open>open\<close>: the results of \<open>::close\<close>, \<open>::socket\<close> and \<open>::setsockopt\<close> are arguments.\<close>

definition open_sock :: "int \<Rightarrow> int \<Rightarrow> int \<Rightarrow> inet_sock \<Rightarrow> int \<times> inet_sock" where
  "open_sock close_ans socket_ans opt_ans s0 =
     (let s = (if fd_no s0 \<noteq> INVALID_HANDLE \<and> (can_write s0 \<or> can_read s0)
               then snd (close_sock SHUT_ALL close_ans s0) else s0);
          s1 = s\<lparr>fd_no := socket_ans\<rparr>
      in if fd_no s1 = INVALID_HANDLE then (- 1, s1)
         else if reuse_addr s1 \<and> opt_ans = - 1 then (- 1, snd (close_sock SHUT_ALL close_ans s1))
         else (0, s1\<lparr>can_write := True, can_read := True\<rparr>))"

text \<open>A socket without a descriptor is neither readable nor writable.\<close>

definition sock_ok :: "inet_sock \<Rightarrow> bool" where
  "sock_ok s \<longleftrightarrow> (fd_no s = INVALID_HANDLE \<longrightarrow> \<not> can_read s \<and> \<not> can_write s)"

subsection \<open>Streams\<close>

text \<open>A stream owns at most one descriptor object; \<open>None\<close> is the null pointer \<open>fd_\<close>.\<close>

type_synonym sock_stream = "inet_sock option"

definition stream_handle :: "sock_stream \<Rightarrow> int" where
  "stream_handle st = (case st of Some s \<Rightarrow> fd_no s | None \<Rightarrow> INVALID_HANDLE)"

definition has_handle :: "sock_stream \<Rightarrow> bool" where
  "has_handle st = (case st of None \<Rightarrow> False | Some s \<Rightarrow> fd_no s \<noteq> INVALID_HANDLE)"

definition stream_close :: "int \<Rightarrow> sock_stream \<Rightarrow> int \<times> sock_stream" where
  "stream_close ans st =
     (case st of Some s \<Rightarrow> map_prod id Some (close_sock SHUT_ALL ans s) | None \<Rightarrow> (- 1, None))"

definition stream_close_read :: "int \<Rightarrow> sock_stream \<Rightarrow> sock_stream" where
  "stream_close_read ans st = map_option (\<lambda>s. snd (close_sock SHUT_RD ans s)) st"

definition stream_close_write :: "int \<Rightarrow> sock_stream \<Rightarrow> sock_stream" where
  "stream_close_write ans st = map_option (\<lambda>s. snd (close_sock SHUT_WR ans s)) st"

definition stream_set_handle :: "int \<Rightarrow> int \<Rightarrow> sock_stream \<Rightarrow> int \<times> sock_stream" where
  "stream_set_handle ans handle st =
     (if handle = INVALID_HANDLE then (- 1, st)
      else
        let st1 = (case st of
            Some s \<Rightarrow> Some (if fd_no s \<noteq> INVALID_HANDLE then snd (close_sock SHUT_ALL ans s) else s)
          | None \<Rightarrow> Some (new_sock False))
        in (handle, map_option (set_fd handle) st1))"

definition set_sock_info :: "bool \<Rightarrow> sock_stream \<Rightarrow> sock_stream" where
  "set_sock_info reuse st = (if st = None then Some (new_sock reuse) else None)"

text \<open>
  \<open>::read\<close> answers with bytes, none of them meaning end of file, or with an error number.
  \<open>read_imp\<close> dereferences \<open>fd_\<close>.
\<close>

datatype read_answer = Data bytes | Read_error int

definition read_imp :: "sock_stream \<Rightarrow> nat \<Rightarrow> read_answer \<Rightarrow> (int \<times> bytes) option" where
  "read_imp st len ans = do {
     s \<leftarrow> st;
     if fd_no s = INVALID_HANDLE \<or> \<not> can_read s then Some (0, [])
     else Some (case ans of Data d \<Rightarrow> (int (length (take len d)), take len d) | Read_error e \<Rightarrow> (- 1, []))
   }"

text \<open>\<open>InetSockStream::read(buffer&, size_t)\<close>.\<close>

definition stream_read :: "sock_stream \<Rightarrow> buffer \<Rightarrow> nat \<Rightarrow> read_answer \<Rightarrow> (int \<times> buffer) option" where
  "stream_read st buf len ans = do {
     (read_len, d) \<leftarrow> read_imp st len ans;
     if read_len > 0 then do {
       (data_appended, buf1) \<leftarrow> append buf (Some d);
       Some (if data_appended \<noteq> read_len then (- 1, buf1) else (read_len, buf1))
     }
     else Some (read_len, buf)
   }"

text \<open>
  \<open>::send\<close> answers with the number of bytes the kernel has room for, of which it takes as many as
  there are, or with a negative result.
\<close>

definition send_imp :: "sock_stream \<Rightarrow> bytes \<Rightarrow> int \<Rightarrow> int option" where
  "send_imp st d ans = do {
     s \<leftarrow> st;
     if fd_no s = INVALID_HANDLE \<or> \<not> can_write s then Some (- 1)
     else Some (min ans (int (length d)))
   }"

subsection \<open>The descriptor invariant\<close>

lemma sock_ok_simps [simp]:
  "sock_ok (new_sock r)" "h \<noteq> INVALID_HANDLE \<Longrightarrow> sock_ok (set_fd h s)"
  "sock_ok (s\<lparr>fd_no := INVALID_HANDLE, can_read := False, can_write := False\<rparr>)"
  by (simp_all add: sock_ok_def set_fd_def new_sock_def)

lemma sock_ok_ops:
  assumes "sock_ok s"
  shows "sock_ok (snd (close_sock how a s))" and "sock_ok (snd (shut_down how a s))"
    and "sock_ok (snd (open_sock a b c s))"
  using assms
  by (auto simp: sock_ok_def close_sock_def shut_down_def open_sock_def Let_def
      split: shut_how.splits)

definition stream_ok :: "sock_stream \<Rightarrow> bool" where
  "stream_ok st = (case st of None \<Rightarrow> True | Some s \<Rightarrow> sock_ok s)"

text \<open>
  Every operation on a stream keeps the descriptor invariant: a stream without a descriptor is never
  readable or writable, so that after \<open>close\<close>, after a failed \<open>open\<close> and after the refused
  handle \<open>-1\<close>, reading returns 0 and sending \<open>-1\<close> without a system call.
\<close>

theorem stream_operations_ok:
  assumes "stream_ok st"
  shows "stream_ok (snd (stream_close a st)) \<and> stream_ok (stream_close_read a st) \<and>
    stream_ok (stream_close_write a st) \<and> stream_ok (snd (stream_set_handle a h st)) \<and>
    stream_ok (set_sock_info r st) \<and>
    (case st of Some s \<Rightarrow> sock_ok (snd (open_sock a b c s)) | None \<Rightarrow> True) \<and>
    (\<not> has_handle (snd (stream_close a st))) \<and>
    (st \<noteq> None \<and> \<not> has_handle st \<longrightarrow>
      read_imp st len ra = Some (0, []) \<and> send_imp st d sa = Some (- 1))"
  using assms
  by (cases st)
    (auto simp: stream_ok_def stream_close_def stream_close_read_def stream_close_write_def
      stream_set_handle_def set_sock_info_def has_handle_def read_imp_def send_imp_def sock_ok_ops
      close_sock_def Let_def)

theorem stream_operations_ok_witness:
  "stream_ok (snd (stream_set_handle 0 7 (Some (new_sock True)))) \<and>
   read_imp (Some (new_sock True)) 10 (Data ''ab'') = Some (0, [])"
proof -
  have "stream_ok (Some (new_sock True))" by (simp add: stream_ok_def)
  moreover have "\<not> has_handle (Some (new_sock True))" by (simp add: has_handle_def new_sock_def)
  ultimately show ?thesis
    using stream_operations_ok [of "Some (new_sock True)" 0 7 True 0 0 10 "Data ''ab''" "''x''" 1]
    by blast
qed

text \<open>\<open>set_sock_info\<close> on a stream that has a descriptor object replaces it by the null pointer.\<close>

theorem set_sock_info_drops_descriptor: "set_sock_info r (Some s) = None"
  by (simp add: set_sock_info_def)

lemma stream_read_law:
  assumes buf: "buffer_wf buf" and s: "fd_no s \<noteq> INVALID_HANDLE" "can_read s"
    and len: "len < 4294967296" "length (contents buf) + len < 18446744073709551616"
  shows "\<exists>buf'. stream_read (Some s) buf len (Data d) = Some (int (length (take len d)), buf') \<and>
    buffer_wf buf' \<and> contents buf' = contents buf @ take len d"
proof (cases "take len d = []")
  case True
  then show ?thesis using buf s by (auto simp: stream_read_def read_imp_def)
next
  case False
  have l: "length (take len d) < 4294967296"
    "length (contents buf) + length (take len d) < 18446744073709551616"
    using len by simp_all
  obtain buf' where "append buf (Some (take len d)) = Some (int (length (take len d)), buf')"
    "buffer_wf buf'" "contents buf' = contents buf @ take len d"
    using append_law [OF buf False l] by blast
  then show ?thesis using s False by (auto simp: stream_read_def read_imp_def)
qed

end
