(* ===== verification/Decoder.thy ===== *)
theory Decoder
  imports Buffer
begin

text \<open>
  The length-prefixed message decoder of \<open>src/proto/decoder.h\<close> over a \<open>buffer\<close>, for
  \<open>Len_T = int64_t\<close>, the instance the file synchronisation client and server use. A frame
  is an eight-byte length in the byte order of the machine, taken to be little endian, and
  that many bytes of a serialised message. \<open>ParseFromArray\<close> of the message type belongs to
  the protocol buffer library and is the parameter \<open>parse\<close>: it gets the bytes the pointer
  and the length denote and returns the message, or \<open>None\<close> when it returns false.
\<close>

subsection \<open>Eight-byte lengths\<close>

fun le_nat :: "bytes \<Rightarrow> nat" where
  "le_nat [] = 0"
| "le_nat (c # cs) = of_char c + 256 * le_nat cs"

fun le_bytes :: "nat \<Rightarrow> nat \<Rightarrow> bytes" where
  "le_bytes 0 n = []"
| "le_bytes (Suc k) n = char_of (n mod 256) # le_bytes k (n div 256)"

text \<open>The value of an \<open>int64_t\<close> with the given object representation, and back.\<close>

definition int64_of :: "bytes \<Rightarrow> int" where
  "int64_of d = i64 (int (le_nat d))"

definition int64_bytes :: "int \<Rightarrow> bytes" where
  "int64_bytes n = le_bytes 8 (nat (n mod 2 ^ 64))"

lemma length_le_bytes [simp]: "length (le_bytes k n) = k"
  by (induction k arbitrary: n) simp_all

lemma le_nat_le_bytes: "n < 256 ^ k \<Longrightarrow> le_nat (le_bytes k n) = n"
  by (induction k arbitrary: n) (simp_all add: less_mult_imp_div_less mult.commute)

lemma length_int64_bytes [simp]: "length (int64_bytes n) = 8"
  by (simp add: int64_bytes_def)

lemma int64_roundtrip:
  assumes "0 \<le> n" and "n < 9223372036854775808"
  shows "int64_of (int64_bytes n) = n"
proof -
  have "n mod 2 ^ 64 = n" using assms by (intro mod_pos_pos_trivial) simp_all
  then have "le_nat (int64_bytes n) = nat n"
    using assms le_nat_le_bytes [of "nat n" 8] by (simp add: int64_bytes_def)
  then show ?thesis using assms by (simp add: int64_of_def i64_id)
qed

subsection \<open>The decoder\<close>

datatype decode_state = IDLE | LEN_DECODED | PARTIALY_PARSED | COMPLETED | ERROR

record 'm decoder =
  bytesParsed :: int
  bytesRemainToParse :: int
  dec_state :: decode_state
  messLen :: int
  mesPtr :: "'m option"

definition new_decoder :: "'m decoder" where
  "new_decoder = \<lparr>bytesParsed = 0, bytesRemainToParse = 0, dec_state = IDLE, messLen = 0, mesPtr = None\<rparr>"

definition reset :: "'m decoder \<Rightarrow> 'm decoder" where
  "reset d = d\<lparr>mesPtr := None, bytesParsed := 0, bytesRemainToParse := 0, dec_state := IDLE, messLen := 0\<rparr>"

definition isCompleted :: "'m decoder \<Rightarrow> bool" where
  "isCompleted d \<longleftrightarrow> dec_state d = COMPLETED"

definition isError :: "'m decoder \<Rightarrow> bool" where
  "isError d \<longleftrightarrow> dec_state d = ERROR"

text \<open>Conversion of a signed length to the unsigned type of \<open>total_len_\<close>.\<close>

definition to_u64 :: "int \<Rightarrow> nat" where
  "to_u64 n = nat (n mod 2 ^ 64)"

definition decodeLen :: "'m decoder \<Rightarrow> buffer \<Rightarrow> (int \<times> 'm decoder \<times> buffer) option" where
  "decodeLen d buf =
     (if total_len buf < 8 then Some (0, d, buf)
      else do {
        (ret, bs, buf1) \<leftarrow> read_T buf 8;
        if ret \<noteq> 8 then Some (0, d\<lparr>messLen := 0\<rparr>, buf1)
        else do {
          (_, buf2) \<leftarrow> drain buf1 8;
          Some (8, d\<lparr>messLen := int64_of bs, bytesParsed := i64 (bytesParsed d + 8),
                     bytesRemainToParse := int64_of bs\<rparr>, buf2)
        }
      })"

text \<open>
  A message length that does not fit the \<open>int\<close> parameter of \<open>ParseFromArray\<close> is converted to it; a
  negative result is outside the contract of that function.
\<close>

definition decodeRemain ::
  "(bytes \<Rightarrow> 'm option) \<Rightarrow> 'm decoder \<Rightarrow> buffer \<Rightarrow> (int \<times> 'm decoder \<times> buffer) option" where
  "decodeRemain parse d buf =
     (if total_len buf < to_u64 (bytesRemainToParse d) then Some (0, d, buf)
      else if messLen d \<noteq> bytesRemainToParse d then None
      else do {
        (p, buf1) \<leftarrow> pullup buf (messLen d);
        case p of
          None \<Rightarrow> Some (0, d, buf1)
        | Some a \<Rightarrow> do {
            c \<leftarrow> find_chain (chains buf1) a;
            bs \<leftarrow> (if i32 (messLen d) < 0 then None
                  else memread (cbuf c) (misalign c) (nat (i32 (messLen d))));
            case parse bs of
              None \<Rightarrow> Some (- 1, reset (d\<lparr>mesPtr := None, dec_state := ERROR\<rparr>), buf1)
            | Some m \<Rightarrow> do {
                let d1 = d\<lparr>mesPtr := Some m, bytesParsed := i64 (bytesParsed d + messLen d),
                           bytesRemainToParse := i64 (bytesRemainToParse d - messLen d)\<rparr>;
                (_, buf2) \<leftarrow> drain buf1 (u32 (to_u64 (messLen d)));
                Some (messLen d, d1, buf2)
              }
          }
      })"

text \<open>
  The loop of \<open>decode\<close>; \<open>buf_len\<close> is the number of bytes at the beginning of the call. The differences
  are unsigned 64-bit.
\<close>

partial_function (option) decode_loop ::
  "(bytes \<Rightarrow> 'm option) \<Rightarrow> nat \<Rightarrow> int \<Rightarrow> 'm decoder \<Rightarrow> buffer \<Rightarrow> (int \<times> 'm decoder \<times> buffer) option" where
  "decode_loop parse buf_len parsed d buf =
     (if u64_sub buf_len (to_u64 parsed) > 0 \<and> dec_state d \<noteq> COMPLETED
      then
        if dec_state d = IDLE then
          if buf_len < 8 then decode_loop parse buf_len parsed d buf
          else do {
            (parsed1, d1, buf1) \<leftarrow> decodeLen d buf;
            decode_loop parse buf_len parsed1 (if parsed1 = 8 then d1\<lparr>dec_state := LEN_DECODED\<rparr> else d1) buf1
          }
        else if dec_state d = ERROR then Some (0, d, buf)
        else if u64_sub buf_len (to_u64 parsed) < to_u64 (bytesRemainToParse d) then Some (parsed, d, buf)
        else do {
          (k, d1, buf1) \<leftarrow> decodeRemain parse d buf;
          decode_loop parse buf_len (i64 (parsed + k))
            (if bytesRemainToParse d1 = 0 then d1\<lparr>dec_state := COMPLETED\<rparr> else d1) buf1
        }
      else Some (parsed, d, buf))"

declare decode_loop.simps [code]

definition decode ::
  "(bytes \<Rightarrow> 'm option) \<Rightarrow> 'm decoder \<Rightarrow> buffer \<Rightarrow> (int \<times> 'm decoder \<times> buffer) option" where
  "decode parse d buf =
     decode_loop parse (total_len buf) 0 (if dec_state d = COMPLETED then reset d else d) buf"

subsection \<open>Decoding a frame\<close>

lemma to_u64_int: "n < 18446744073709551616 \<Longrightarrow> to_u64 (int n) = n"
  by (simp add: to_u64_def)

lemma to_u64_0 [simp]: "to_u64 0 = 0"
  by (simp add: to_u64_def)

lemma decodeLen_law:
  assumes wf: "buffer_wf buf" and c: "contents buf = int64_bytes (int n) @ rest"
    and n: "n < 9223372036854775808"
  shows "\<exists>buf'. decodeLen d buf = Some (8, d\<lparr>messLen := int n, bytesParsed := i64 (bytesParsed d + 8),
      bytesRemainToParse := int n\<rparr>, buf') \<and> buffer_wf buf' \<and> contents buf' = rest"
proof -
  have len: "8 \<le> length (contents buf)" using c by simp
  obtain b1 b2 where b: "read_T buf 8 = Some (8, int64_bytes (int n), b1)" "drain b1 8 = Some (8, b2)"
    "buffer_wf b2" "contents b2 = rest"
    using buf.peek_discard [OF wf, of 8] len c by auto
  have "int64_of (int64_bytes (int n)) = int n" using n by (intro int64_roundtrip) simp_all
  moreover have "\<not> total_len buf < 8" using len wf by (simp add: buffer_wf_total)
  ultimately show ?thesis using b by (simp add: decodeLen_def)
qed

text \<open>The state after the length of a frame with \<open>n\<close> bytes has been read.\<close>

definition expecting :: "'m decoder \<Rightarrow> nat \<Rightarrow> bool" where
  "expecting d n \<longleftrightarrow> (dec_state d = LEN_DECODED \<or> dec_state d = PARTIALY_PARSED) \<and>
     messLen d = int n \<and> bytesRemainToParse d = int n"

lemma decodeRemain_law:
  assumes wf: "buffer_wf buf" and c: "contents buf = payload @ rest"
    and n: "payload \<noteq> []" "length payload < 2147483648" and d: "expecting d (length payload)"
    and parse: "parse payload = Some m"
  shows "\<exists>buf' d'. decodeRemain parse d buf = Some (int (length payload), d', buf') \<and>
    buffer_wf buf' \<and> contents buf' = rest \<and> mesPtr d' = Some m \<and> bytesRemainToParse d' = 0"
proof -
  let ?n = "length payload"
  have len: "0 < ?n" "?n \<le> length (contents buf)" "?n < 4294967296" using n c by simp_all
  obtain f cs b1 where p: "pullup buf (int ?n) = Some (Some (chain_addr f), b1)" "chains b1 = f # cs"
    "memread (cbuf f) (misalign f) ?n = Some payload" "buffer_wf b1" "contents b1 = contents buf"
    using pullup_law [OF wf len] c by auto
  obtain b2 where b2: "drain b1 ?n = Some (int ?n, b2)" "buffer_wf b2" "contents b2 = rest"
    using drain_correct [OF p(4) len(1)] len(2) p(5) c by auto
  have "\<not> total_len buf < to_u64 (int ?n)" "i32 (int ?n) = int ?n" "u32 (to_u64 (int ?n)) = ?n"
    using wf len n(2) by (simp_all add: buffer_wf_total to_u64_int uint_simps i32_id)
  then show ?thesis
    using d p b2 parse by (simp add: decodeRemain_def expecting_def Let_def i64_id)
qed

lemma decode_loop_payload:
  assumes wf: "buffer_wf buf" and c: "contents buf = payload @ rest"
    and n: "payload \<noteq> []" "length payload < 2147483648" and d: "expecting d (length payload)"
    and parse: "parse payload = Some m"
    and tot: "buf_len = p + length (contents buf)" "buf_len < 9223372036854775808"
  shows "\<exists>buf' d'. decode_loop parse buf_len (int p) d buf = Some (int (p + length payload), d', buf') \<and>
    buffer_wf buf' \<and> contents buf' = rest \<and> isCompleted d' \<and> mesPtr d' = Some m"
proof -
  obtain buf' d' where r: "decodeRemain parse d buf = Some (int (length payload), d', buf')"
    "buffer_wf buf'" "contents buf' = rest" "mesPtr d' = Some m" "bytesRemainToParse d' = 0"
    using decodeRemain_law [where parse = parse, OF wf c n d, OF parse] by blast
  have sub: "u64_sub buf_len (to_u64 (int p)) = length (contents buf)"
    using tot by (simp add: to_u64_int uint_simps)
  have rem: "to_u64 (bytesRemainToParse d) = length payload" "dec_state d \<noteq> IDLE"
    "dec_state d \<noteq> ERROR" "dec_state d \<noteq> COMPLETED"
    using d n(2) by (auto simp: expecting_def to_u64_int)
  have i: "i64 (int p + int (length payload)) = int (p + length payload)"
    using tot c by (simp add: i64_id)
  have "decode_loop parse buf_len (int p) d buf =
      decode_loop parse buf_len (int (p + length payload)) (d'\<lparr>dec_state := COMPLETED\<rparr>) buf'"
    using sub rem r(1,5) i c n(1) by (subst decode_loop.simps) simp
  also have "\<dots> = Some (int (p + length payload), d'\<lparr>dec_state := COMPLETED\<rparr>, buf')"
    by (simp add: decode_loop.simps)
  finally show ?thesis using r by (simp add: isCompleted_def)
qed

text \<open>From the idle state, the loop first reads the length.\<close>

lemma decode_loop_length:
  assumes wf: "buffer_wf buf" and c: "contents buf = int64_bytes (int n) @ rest"
    and n: "n < 9223372036854775808" and idle: "dec_state d = IDLE"
    and tot: "length (contents buf) < 9223372036854775808"
  obtains d1 buf1 where "decode_loop parse (total_len buf) 0 d buf = decode_loop parse (total_len buf) 8 d1 buf1"
    and "expecting d1 n" and "buffer_wf buf1" and "contents buf1 = rest" and "mesPtr d1 = mesPtr d"
proof -
  obtain buf1 where b1: "decodeLen d buf = Some (8, d\<lparr>messLen := int n,
      bytesParsed := i64 (bytesParsed d + 8), bytesRemainToParse := int n\<rparr>, buf1)"
    "buffer_wf buf1" "contents buf1 = rest"
    using decodeLen_law [OF wf c n] by blast
  let ?d1 = "d\<lparr>messLen := int n, bytesParsed := i64 (bytesParsed d + 8), bytesRemainToParse := int n,
      dec_state := LEN_DECODED\<rparr>"
  have "total_len buf = 8 + length rest" using wf c by (simp add: buffer_wf_total)
  then have "decode_loop parse (total_len buf) 0 d buf = decode_loop parse (total_len buf) 8 ?d1 buf1"
    using idle b1(1) tot c by (subst decode_loop.simps) (simp add: uint_simps)
  then show ?thesis using that b1 by (simp add: expecting_def)
qed

lemma reset_idle [simp]: "dec_state (reset d) = IDLE" "mesPtr (reset d) = None"
  by (simp_all add: reset_def)

lemma decode_frame_law:
  assumes wf: "buffer_wf buf"
    and c: "contents buf = int64_bytes (int (length payload)) @ payload @ rest"
    and payload: "payload \<noteq> []" "length payload < 2147483648" and parse: "parse payload = Some m"
    and d: "dec_state d = IDLE \<or> dec_state d = COMPLETED"
    and tot: "length (contents buf) < 9223372036854775808"
  shows "\<exists>d' buf'. decode parse d buf = Some (8 + int (length payload), d', buf') \<and> isCompleted d' \<and>
    mesPtr d' = Some m \<and> buffer_wf buf' \<and> contents buf' = rest"
proof -
  let ?d = "if dec_state d = COMPLETED then reset d else d"
  have idle: "dec_state ?d = IDLE" using d by auto
  have n: "length payload < 9223372036854775808" using payload(2) by simp
  obtain d1 buf1 where l: "decode_loop parse (total_len buf) 0 ?d buf = decode_loop parse (total_len buf) 8 d1 buf1"
    "expecting d1 (length payload)" "buffer_wf buf1" "contents buf1 = payload @ rest"
    by (rule decode_loop_length [OF wf c n idle tot])
  have "total_len buf = 8 + length (contents buf1)" "total_len buf < 9223372036854775808"
    using wf c tot l(4) by (simp_all add: buffer_wf_total)
  then show ?thesis
    using decode_loop_payload [where parse = parse, OF l(3,4) payload l(2), OF parse, of "total_len buf" 8] l(1) by (auto simp: decode_def)
qed

text \<open>
  C13. A buffer that starts with a complete frame whose payload is not empty, has less than 2 to the 31 bytes and parses
  is decoded in one call by a decoder that is idle or has completed: the decoder completes with the message that the
  payload parses to, the call returns the size of the frame and removes exactly the frame, so that what follows, the next
  frame for example, is untouched. (For an empty payload and for one that does not parse see below.)
\<close>

theorem decode_frame:
  assumes wf: "buffer_wf buf"
    and c: "contents buf = int64_bytes (int (length payload)) @ payload @ rest"
    and payload: "payload \<noteq> []" "length payload < 2147483648" and parse: "parse payload = Some m"
    and d: "dec_state d = IDLE \<or> dec_state d = COMPLETED"
    and tot: "length (contents buf) < 9223372036854775808"
  shows "\<exists>d' buf'. decode parse d buf = Some (8 + int (length payload), d', buf') \<and> isCompleted d' \<and>
    mesPtr d' = Some m \<and> buffer_wf buf' \<and> contents buf' = rest"
  using decode_frame_law [where parse = parse, OF wf c payload parse d tot] .

text \<open>An example parser for the witnesses: a message is its bytes, unless it starts with a NUL.\<close>

definition sample_parse :: "bytes \<Rightarrow> bytes option" where
  "sample_parse bs = (if bs \<noteq> [] \<and> hd bs = NUL then None else Some bs)"

text \<open>A buffer of one full chain with the given bytes.\<close>

definition filled_buffer :: "bytes \<Rightarrow> buffer" where
  "filled_buffer bs = \<lparr>baddr = 1, chains = [\<lparr>chain_addr = 2, cbuf = bs, capacity = length bs,
     off = length bs, next_chain = None, parent = Some 1, misalign = 0\<rparr>],
     last_data = Some 2, total_len = length bs, heap_top = 3\<rparr>"

lemma filled_buffer_facts:
  assumes "bs \<noteq> []" and "length bs < 4294967296"
  shows "buffer_wf (filled_buffer bs)" and "contents (filled_buffer bs) = bs"
  using assms
  by (simp_all add: filled_buffer_def buffer_wf_def contents_def chains_ok_def chain_ok_def
      linked_def content_def chain_size_def u32_sub_def back_addr_def)

theorem decode_frame_witness:
  "\<exists>d' buf'. decode sample_parse new_decoder (filled_buffer (int64_bytes 3 @ ''abc'' @ ''xy'')) =
      Some (11, d', buf') \<and> isCompleted d' \<and> mesPtr d' = Some ''abc'' \<and> contents buf' = ''xy''"
  using decode_frame [of "filled_buffer (int64_bytes 3 @ ''abc'' @ ''xy'')" "''abc''" "''xy''" sample_parse "''abc''"
      new_decoder]
    filled_buffer_facts [of "int64_bytes 3 @ ''abc'' @ ''xy''"]
  by (auto simp: sample_parse_def new_decoder_def)

text \<open>
  C26. A frame with an empty payload is never decoded to a message. When nothing follows it, the call stops with the length
  decoded and the decoder is not complete; when something follows, the decoder completes but has parsed nothing, and the
  pointer to the message is the one from before, null after a completed message. The eight bytes of the length are
  removed in both cases.
\<close>

theorem decode_empty_payload:
  assumes wf: "buffer_wf buf" and c: "contents buf = int64_bytes 0 @ rest"
    and d: "dec_state d = IDLE \<or> dec_state d = COMPLETED" and tot: "length (contents buf) < 9223372036854775808"
  shows "\<exists>d' buf'. decode parse d buf = Some (8, d', buf') \<and> buffer_wf buf' \<and> contents buf' = rest \<and>
    dec_state d' = (if rest = [] then LEN_DECODED else COMPLETED) \<and>
    mesPtr d' = (if dec_state d = COMPLETED then None else mesPtr d)"
proof -
  let ?d = "if dec_state d = COMPLETED then reset d else d"
  have idle: "dec_state ?d = IDLE" using d by auto
  obtain buf1 where b1: "decodeLen ?d buf = Some (8, ?d\<lparr>messLen := 0, bytesParsed := i64 (bytesParsed ?d + 8),
      bytesRemainToParse := 0\<rparr>, buf1)" "buffer_wf buf1" "contents buf1 = rest"
    using decodeLen_law [OF wf, of 0 rest ?d] c by auto
  define d1 where "d1 = ?d\<lparr>messLen := 0, bytesParsed := i64 (bytesParsed ?d + 8), bytesRemainToParse := 0,
      dec_state := LEN_DECODED\<rparr>"
  have len: "total_len buf = 8 + length rest" using wf c by (simp add: buffer_wf_total)
  have start: "decode parse d buf = decode_loop parse (total_len buf) 8 d1 buf1"
    unfolding decode_def using idle b1(1) tot c len by (subst decode_loop.simps) (simp add: uint_simps d1_def)
  have sub: "u64_sub (8 + length rest) (to_u64 8) = length rest"
    using tot c by (simp add: to_u64_def uint_simps)
  have m: "mesPtr d1 = (if dec_state d = COMPLETED then None else mesPtr d)" by (simp add: d1_def)
  show ?thesis
  proof (cases "rest = []")
    case True
    have "decode parse d buf = Some (8, d1, buf1)"
      unfolding start len by (subst decode_loop.simps) (use sub True in simp)
    then show ?thesis using b1 m True by (simp add: d1_def)
  next
    case False
    have "decodeRemain parse d1 buf1 = Some (0, d1, buf1)" by (simp add: decodeRemain_def d1_def pullup_def)
    then have "decode_loop parse (8 + length rest) 8 d1 buf1 =
        decode_loop parse (8 + length rest) (i64 8) (d1\<lparr>dec_state := COMPLETED\<rparr>) buf1"
      using sub False by (subst decode_loop.simps) (simp add: d1_def)
    also have "\<dots> = Some (8, d1\<lparr>dec_state := COMPLETED\<rparr>, buf1)" by (simp add: decode_loop.simps i64_id)
    finally show ?thesis using b1 m False by (simp add: start len)
  qed
qed

theorem decode_empty_payload_witness:
  "\<exists>d' buf'. decode sample_parse new_decoder (filled_buffer (int64_bytes 0)) = Some (8, d', buf') \<and>
    dec_state d' = LEN_DECODED \<and> contents buf' = []"
proof -
  have "contents (filled_buffer (int64_bytes 0)) = int64_bytes 0 @ []" "buffer_wf (filled_buffer (int64_bytes 0))"
    using filled_buffer_facts [of "int64_bytes 0"] length_int64_bytes [of 0] by fastforce+
  then show ?thesis
    using decode_empty_payload [of "filled_buffer (int64_bytes 0)" "[]" new_decoder sample_parse]
    by (auto simp: new_decoder_def)
qed

text \<open>
  A frame that arrives in two pieces, cut anywhere behind the length: the first call consumes the
  length and waits, with all the bytes of the payload kept in the buffer; after the rest has been
  appended, the second call completes with the message and leaves what follows the frame.
\<close>

theorem decode_two_pieces:
  assumes wf: "buffer_wf buf" and c: "contents buf = int64_bytes (int (length (p1 @ p2))) @ p1"
    and p: "p2 \<noteq> []" "length (p1 @ p2) < 2147483648" and parse: "parse (p1 @ p2) = Some m"
    and d: "dec_state d = IDLE \<or> dec_state d = COMPLETED" and len: "length (p2 @ rest) < 4294967296"
  shows "\<exists>d1 buf1 buf2 d3 buf3. decode parse d buf = Some (8, d1, buf1) \<and> contents buf1 = p1 \<and>
    \<not> isCompleted d1 \<and> append buf1 (Some (p2 @ rest)) = Some (int (length (p2 @ rest)), buf2) \<and>
    decode parse d1 buf2 = Some (int (length (p1 @ p2)), d3, buf3) \<and> isCompleted d3 \<and>
    mesPtr d3 = Some m \<and> buffer_wf buf3 \<and> contents buf3 = rest"
proof -
  let ?d = "if dec_state d = COMPLETED then reset d else d" and ?n = "length (p1 @ p2)"
  have idle: "dec_state ?d = IDLE" using d by auto
  have n: "?n < 9223372036854775808" and tot: "length (contents buf) < 9223372036854775808"
    using p(2) c by simp_all
  obtain d1 buf1 where l: "decode_loop parse (total_len buf) 0 ?d buf = decode_loop parse (total_len buf) 8 d1 buf1"
    "expecting d1 ?n" "buffer_wf buf1" "contents buf1 = p1"
    by (rule decode_loop_length [OF wf c n idle tot])
  have "total_len buf = 8 + length p1" using wf c by (simp add: buffer_wf_total)
  then have sub: "u64_sub (total_len buf) (to_u64 8) = length p1"
    using p(2) to_u64_int [of 8] by (simp add: uint_simps)
  have st: "dec_state d1 \<noteq> IDLE" "dec_state d1 \<noteq> ERROR" "dec_state d1 \<noteq> COMPLETED"
    "to_u64 (bytesRemainToParse d1) = ?n"
    using l(2) p(2) by (auto simp: expecting_def to_u64_int simp del: length_append of_nat_add)
  have wait: "decode parse d buf = Some (8, d1, buf1)"
    using l(1) sub st p(1) by (subst (asm) (2) decode_loop.simps) (simp add: decode_def)
  have more: "p2 @ rest \<noteq> []" "length (contents buf1) + length (p2 @ rest) < 18446744073709551616"
    using p l(4) len by simp_all
  obtain buf2 where b2: "append buf1 (Some (p2 @ rest)) = Some (int (length (p2 @ rest)), buf2)"
    "buffer_wf buf2" "contents buf2 = (p1 @ p2) @ rest"
    using append_law [OF l(3) more(1) len more(2)] l(4) by auto
  have "total_len buf2 = 0 + length (contents buf2)" "total_len buf2 < 9223372036854775808"
    "p1 @ p2 \<noteq> []"
    using b2(2,3) p len by (simp_all add: buffer_wf_total)
  then obtain d3 buf3 where "decode_loop parse (total_len buf2) 0 d1 buf2 = Some (int ?n, d3, buf3)"
    "buffer_wf buf3" "contents buf3 = rest" "isCompleted d3" "mesPtr d3 = Some m"
    using decode_loop_payload [where parse = parse, OF b2(2,3) _ p(2) l(2), OF _ parse, of "total_len buf2" 0] by auto
  then show ?thesis using wait b2(1) l(4) st(3) by (auto simp: decode_def isCompleted_def)
qed

theorem decode_two_pieces_witness:
  "\<exists>d1 buf1 buf2 d3 buf3.
    decode sample_parse new_decoder (filled_buffer (int64_bytes 3 @ ''a'')) = Some (8, d1, buf1) \<and>
    append buf1 (Some ''bcxy'') = Some (4, buf2) \<and>
    decode sample_parse d1 buf2 = Some (3, d3, buf3) \<and> mesPtr d3 = Some ''abc'' \<and> contents buf3 = ''xy''"
  using decode_two_pieces [of "filled_buffer (int64_bytes 3 @ ''a'')" "''a''" "''bc''" sample_parse "''abc''"
      new_decoder "''xy''"]
    filled_buffer_facts [of "int64_bytes 3 @ ''a''"]
  by (auto simp: sample_parse_def new_decoder_def)

subsection \<open>Where decoding goes wrong\<close>

lemma short_length_diverges:
  assumes "decode_loop parse buf_len parsed d buf = Some r"
  shows "\<not> (dec_state d = IDLE \<and> 0 < buf_len \<and> buf_len < 8 \<and> parsed = 0)"
proof (rule decode_loop.raw_induct [OF _ assms])
  fix loop :: "(bytes \<Rightarrow> 'm option) \<Rightarrow> nat \<Rightarrow> int \<Rightarrow> 'm decoder \<Rightarrow> buffer \<Rightarrow> (int \<times> 'm decoder \<times> buffer) option"
    and parse buf_len parsed d buf r
  assume IH: "\<And>parse buf_len parsed d buf r. loop parse buf_len parsed d buf = Some r \<Longrightarrow>
      \<not> (dec_state d = IDLE \<and> 0 < buf_len \<and> buf_len < 8 \<and> parsed = 0)"
    and body: "(if u64_sub buf_len (to_u64 parsed) > 0 \<and> dec_state d \<noteq> COMPLETED
      then
        if dec_state d = IDLE then
          if buf_len < 8 then loop parse buf_len parsed d buf
          else do {
            (parsed1, d1, buf1) \<leftarrow> decodeLen d buf;
            loop parse buf_len parsed1 (if parsed1 = 8 then d1\<lparr>dec_state := LEN_DECODED\<rparr> else d1) buf1
          }
        else if dec_state d = ERROR then Some (0, d, buf)
        else if u64_sub buf_len (to_u64 parsed) < to_u64 (bytesRemainToParse d) then Some (parsed, d, buf)
        else do {
          (k, d1, buf1) \<leftarrow> decodeRemain parse d buf;
          loop parse buf_len (i64 (parsed + k))
            (if bytesRemainToParse d1 = 0 then d1\<lparr>dec_state := COMPLETED\<rparr> else d1) buf1
        }
      else Some (parsed, d, buf)) = Some r"
  show "\<not> (dec_state d = IDLE \<and> 0 < buf_len \<and> buf_len < 8 \<and> parsed = 0)"
  proof
    assume st: "dec_state d = IDLE \<and> 0 < buf_len \<and> buf_len < 8 \<and> parsed = 0"
    then have "loop parse buf_len parsed d buf = Some r" using body by (simp add: uint_simps)
    then show False using IH st by blast
  qed
qed

text \<open>
  C34. Fewer than eight bytes in the idle state: the length cannot be read, the state does not change
  and the loop of \<open>decode\<close> does not end.
\<close>

theorem decode_short_length_diverges:
  assumes "dec_state d = IDLE" and "0 < total_len buf" and "total_len buf < 8"
  shows "decode parse d buf = None"
  using assms short_length_diverges [of parse "total_len buf" 0 d buf]
  by (cases "decode parse d buf") (auto simp: decode_def)

theorem decode_short_length_diverges_witness:
  "decode sample_parse new_decoder (filled_buffer ''abc'') = None"
  by (rule decode_short_length_diverges) (simp_all add: new_decoder_def filled_buffer_def)

text \<open>
  C35. A payload that does not parse: the decoder ends in the completed state without a message, never
  in the error state, the bytes of the payload stay in the buffer and one byte less than the
  length field is reported as parsed.
\<close>

theorem decode_parse_failure_completes:
  assumes wf: "buffer_wf buf"
    and c: "contents buf = int64_bytes (int (length payload)) @ payload @ rest"
    and payload: "payload \<noteq> []" "length payload < 2147483648" and parse: "parse payload = None"
    and d: "dec_state d = IDLE" and tot: "length (contents buf) < 9223372036854775808"
  shows "\<exists>d' buf'. decode parse d buf = Some (7, d', buf') \<and> isCompleted d' \<and> \<not> isError d' \<and>
    mesPtr d' = None \<and> contents buf' = payload @ rest"
proof -
  let ?n = "length payload"
  have n: "?n < 9223372036854775808" using payload(2) by simp
  obtain d1 buf1 where l: "decode_loop parse (total_len buf) 0 d buf = decode_loop parse (total_len buf) 8 d1 buf1"
    "expecting d1 ?n" "buffer_wf buf1" "contents buf1 = payload @ rest"
    by (rule decode_loop_length [OF wf c n d tot])
  have len: "0 < ?n" "?n \<le> length (contents buf1)" "?n < 4294967296" using payload l(4) by simp_all
  obtain f cs b1 where p: "pullup buf1 (int ?n) = Some (Some (chain_addr f), b1)" "chains b1 = f # cs"
    "memread (cbuf f) (misalign f) ?n = Some payload" "buffer_wf b1" "contents b1 = contents buf1"
    using pullup_law [OF l(3) len] l(4) by auto
  have i: "\<not> total_len buf1 < to_u64 (int ?n)" "i32 (int ?n) = int ?n"
    using l(3) len payload(2) by (simp_all add: buffer_wf_total to_u64_int uint_simps i32_id)
  have r: "decodeRemain parse d1 buf1 = Some (- 1, reset (d1\<lparr>mesPtr := None, dec_state := ERROR\<rparr>), b1)"
    using l(2) p parse i by (simp add: decodeRemain_def expecting_def)
  have "total_len buf = 8 + length (contents buf1)" using wf c l(4) by (simp add: buffer_wf_total)
  then have sub: "u64_sub (total_len buf) (to_u64 8) = length (contents buf1)"
    using tot c l(4) to_u64_int [of 8] by (simp add: uint_simps)
  have st: "dec_state d1 \<noteq> IDLE" "dec_state d1 \<noteq> ERROR" "dec_state d1 \<noteq> COMPLETED"
    "to_u64 (bytesRemainToParse d1) = ?n"
    using l(2) payload(2) by (auto simp: expecting_def to_u64_int)
  let ?d2 = "(reset (d1\<lparr>mesPtr := None, dec_state := ERROR\<rparr>))\<lparr>dec_state := COMPLETED\<rparr>"
  have "decode_loop parse (total_len buf) 8 d1 buf1 = decode_loop parse (total_len buf) 7 ?d2 b1"
    using sub st r len payload(1) l(4) by (subst decode_loop.simps) (simp add: reset_def i64_id)
  also have "\<dots> = Some (7, ?d2, b1)" by (simp add: decode_loop.simps)
  finally show ?thesis
    using l(1,4) d p(5) by (simp add: decode_def isCompleted_def isError_def reset_def)
qed

theorem decode_parse_failure_completes_witness:
  "\<exists>d' buf'. decode sample_parse new_decoder (filled_buffer (int64_bytes 2 @ [NUL, NUL] @ ''xy'')) =
      Some (7, d', buf') \<and> isCompleted d' \<and> mesPtr d' = None \<and> contents buf' = [NUL, NUL] @ ''xy''"
  using decode_parse_failure_completes [of "filled_buffer (int64_bytes 2 @ [NUL, NUL] @ ''xy'')" "[NUL, NUL]"
      "''xy''" sample_parse new_decoder]
    filled_buffer_facts [of "int64_bytes 2 @ [NUL, NUL] @ ''xy''"]
  by (auto simp: sample_parse_def new_decoder_def)

end
