(* ===== verification/Connection.thy ===== *)
theory Connection
  imports Socket Buffer_Iter Decoder
begin

text \<open>
  Connections: \<open>connection_handler\<close> (\<open>src/reactor/connection_handler.cpp\<close>, \<open>.h\<close>) and
  \<open>sock_connection_handler\<close> (\<open>src/reactor/sock_connection_handler.cpp\<close>), an input and an
  output buffer between a stream and the reactor, and \<open>sendPackage\<close> of the synchronisation
  server, which frames a message for \<open>Decoder\<close>. Each operation holds the mutex of the buffer
  it uses from beginning to end and is one step of the model. The calls to the reactor are
  recorded in order; what they return is the field \<open>reactor_answer\<close>.
\<close>

subsection \<open>State\<close>

datatype reactor_call = Register int event_type | Unregister int event_type

record connection =
  stream :: "sock_stream option"
  input_buffer :: buffer
  output_buffer :: buffer
  read_enabled :: bool
  write_enabled :: bool
  reactor_calls :: "reactor_call list"
  reactor_answer :: "reactor_call \<Rightarrow> int"

text \<open>\<open>100 * UINT32_MAX\<close> as an \<open>unsigned int\<close>.\<close>

definition BUFFER_HIGH_WATER_MARK :: nat where
  "BUFFER_HIGH_WATER_MARK = u32 (100 * MAXIMUM_CHAIN_SIZE)"

definition call_reactor :: "reactor_call \<Rightarrow> connection \<Rightarrow> int \<times> connection" where
  "call_reactor rc c = (reactor_answer c rc, c\<lparr>reactor_calls := reactor_calls c @ [rc]\<rparr>)"

subsection \<open>Registration\<close>

text \<open>\<open>stream_->get_handle()\<close> with a null \<open>stream_\<close> is \<open>None\<close>.\<close>

definition enable_reading :: "connection \<Rightarrow> (int \<times> connection) option" where
  "enable_reading c =
     (if read_enabled c then Some (0, c)
      else do {
        st \<leftarrow> stream c;
        Some (call_reactor (Register (stream_handle st) READ_EVENT) (c\<lparr>read_enabled := True\<rparr>))
      })"

definition enable_writing :: "connection \<Rightarrow> (int \<times> connection) option" where
  "enable_writing c =
     (if write_enabled c then Some (0, c)
      else do {
        st \<leftarrow> stream c;
        Some (call_reactor (Register (stream_handle st) WRITE_EVENT) (c\<lparr>write_enabled := True\<rparr>))
      })"

definition disable_reading :: "connection \<Rightarrow> (int \<times> connection) option" where
  "disable_reading c =
     (if \<not> read_enabled c then Some (0, c)
      else do {
        st \<leftarrow> stream c;
        Some (call_reactor (Unregister (stream_handle st) READ_EVENT) (c\<lparr>read_enabled := False\<rparr>))
      })"

definition disable_writing :: "connection \<Rightarrow> (int \<times> connection) option" where
  "disable_writing c =
     (if \<not> write_enabled c then Some (0, c)
      else do {
        st \<leftarrow> stream c;
        Some (call_reactor (Unregister (stream_handle st) WRITE_EVENT) (c\<lparr>write_enabled := False\<rparr>))
      })"

definition open_connection :: "connection \<Rightarrow> (int \<times> connection) option" where
  "open_connection c = enable_reading c"

text \<open>The argument \<open>ans\<close> is what the system call answers.\<close>

definition close_stream :: "int \<Rightarrow> connection \<Rightarrow> int \<times> connection" where
  "close_stream ans c =
     (case stream c of
        Some st \<Rightarrow> (fst (stream_close ans st), c\<lparr>stream := Some (snd (stream_close ans st))\<rparr>)
      | None \<Rightarrow> (- 1, c))"

definition close_connection :: "int \<Rightarrow> connection \<Rightarrow> (int \<times> connection) option" where
  "close_connection ans c = do {
     (_, c1) \<leftarrow> (if read_enabled c then disable_reading c else Some (0, c));
     (_, c2) \<leftarrow> (if write_enabled c1 then disable_writing c1 else Some (0, c1));
     Some (close_stream ans c2)
   }"

definition close_read :: "int \<Rightarrow> connection \<Rightarrow> (int \<times> connection) option" where
  "close_read ans c =
     (case stream c of
        None \<Rightarrow> Some (- 1, c)
      | Some _ \<Rightarrow> do {
          (_, c1) \<leftarrow> (if read_enabled c then disable_reading c else Some (0, c));
          Some (0, c1\<lparr>stream := map_option (stream_close_read ans) (stream c1)\<rparr>)
        })"

definition close_write :: "int \<Rightarrow> connection \<Rightarrow> (int \<times> connection) option" where
  "close_write ans c =
     (case stream c of
        None \<Rightarrow> Some (- 1, c)
      | Some _ \<Rightarrow> do {
          (_, c1) \<leftarrow> (if write_enabled c then disable_writing c else Some (0, c));
          Some (0, c1\<lparr>stream := map_option (stream_close_write ans) (stream c1)\<rparr>)
        })"

subsection \<open>Reading and writing\<close>

text \<open>The results are \<open>uint32_t\<close>: \<open>-1\<close> is returned as 4294967295.\<close>

definition conn_read :: "connection \<Rightarrow> nat \<Rightarrow> (nat \<times> bytes \<times> connection) option" where
  "conn_read c data_len =
     (if data_len = 0 then Some (4294967295, [], c)
      else if total_len (input_buffer c) = 0 then Some (0, [], c)
      else do {
        let buf_len = u32 (total_len (input_buffer c));
        let len_gonna_pullup = (if buf_len < data_len then buf_len else data_len);
        (_, d, b) \<leftarrow> remove (input_buffer c) len_gonna_pullup;
        Some (len_gonna_pullup, d, c\<lparr>input_buffer := b\<rparr>)
      })"

definition conn_read_line ::
  "connection \<Rightarrow> nat \<Rightarrow> buffer_eol_style \<Rightarrow> (nat \<times> bytes \<times> connection) option" where
  "conn_read_line c data_len eol =
     (if data_len = 0 then Some (4294967295, [], c)
      else do {
        (r, d, b) \<leftarrow> read_line (input_buffer c) data_len eol;
        Some (nat (r mod 2 ^ 32), d, c\<lparr>input_buffer := b\<rparr>)
      })"

definition conn_write :: "connection \<Rightarrow> bytes option \<Rightarrow> bool \<Rightarrow> (nat \<times> connection) option" where
  "conn_write c data is_flush =
     (if data = None \<or> data = Some [] then Some (4294967295, c)
      else if total_len (output_buffer c) \<ge> BUFFER_HIGH_WATER_MARK then Some (0, c)
      else do {
        (bytesWritten, b) \<leftarrow> append (output_buffer c) data;
        let c1 = c\<lparr>output_buffer := b\<rparr>;
        (_, c2) \<leftarrow> (if is_flush \<and> \<not> write_enabled c1 then enable_writing c1 else Some (0, c1));
        Some (nat (bytesWritten mod 2 ^ 32), c2)
      })"

text \<open>The template \<open>write(const T&)\<close> on the object representation of the value.\<close>

definition conn_write_T :: "connection \<Rightarrow> bytes \<Rightarrow> bool \<Rightarrow> (int \<times> connection) option" where
  "conn_write_T c d is_flush = do {
     (_, b) \<leftarrow> append_value (output_buffer c) d;
     let c1 = c\<lparr>output_buffer := b\<rparr>;
     (_, c2) \<leftarrow> (if is_flush \<and> \<not> write_enabled c1 then enable_writing c1 else Some (0, c1));
     Some (int (length d), c2)
   }"

definition clear_input_buffer :: "connection \<Rightarrow> connection option" where
  "clear_input_buffer c = do {
     (_, b) \<leftarrow> drain (input_buffer c) 1;
     Some (c\<lparr>input_buffer := b\<rparr>)
   }"

text \<open>
  \<open>sendPackage\<close> of the synchronisation server: the serialised package \<open>d\<close>, not empty, behind its
  length.
\<close>

definition sendPackage :: "connection \<Rightarrow> bytes \<Rightarrow> (int \<times> connection) option" where
  "sendPackage c d = do {
     (n1, c1) \<leftarrow> conn_write_T c (int64_bytes (int (length d))) False;
     (n2, c2) \<leftarrow> conn_write c1 (Some d) True;
     Some (n1 + int n2, c2)
   }"

subsection \<open>Event callbacks\<close>

definition EAGAIN :: int where "EAGAIN = 11"
definition ECONNRESET :: int where "ECONNRESET = 104"

definition handle_input :: "connection \<Rightarrow> int \<Rightarrow> read_answer \<Rightarrow> int \<Rightarrow> (int \<times> connection) option" where
  "handle_input c handle ans errno =
     (case stream c of
        None \<Rightarrow> Some (- 1, c)
      | Some st \<Rightarrow>
          if total_len (input_buffer c) \<ge> BUFFER_HIGH_WATER_MARK then Some (0, c)
          else if handle \<noteq> stream_handle st \<or> handle = INVALID_HANDLE then Some (- 1, c)
          else do {
            (ret, b) \<leftarrow> stream_read st (input_buffer c) 4096 ans;
            let c1 = c\<lparr>input_buffer := b\<rparr>;
            if ret < 0 then (if errno = EAGAIN then Some (0, c1) else Some (- 1, c1))
            else if ret = 0 then Some (- 1, c1)
            else Some (0, c1)
          })"

text \<open>
  The sending loop. \<open>ans k\<close> is the answer to the \<open>::send\<close> made when \<open>try_times\<close> is \<open>k\<close>, with the error
  number of that moment. The loop returns \<open>Some r\<close> for an early return, the bytes that went out and
  the connection.
\<close>

definition DEFAULT_SEND_SIZE :: nat where "DEFAULT_SEND_SIZE = 4096"

fun output_loop :: "nat \<Rightarrow> (nat \<Rightarrow> int \<times> int) \<Rightarrow> connection \<Rightarrow> (int option \<times> bytes \<times> connection) option" where
  "output_loop 0 ans c = Some (None, [], c)"
| "output_loop (Suc k) ans c = do {
     st \<leftarrow> stream c;
     let len = total_len (output_buffer c);
     let pullupSize = (if DEFAULT_SEND_SIZE > len then len else DEFAULT_SEND_SIZE);
     (p, b) \<leftarrow> pullup (output_buffer c) (int pullupSize);
     ch \<leftarrow> deref b p;
     d \<leftarrow> memread (cbuf ch) (misalign ch) pullupSize;
     let c1 = c\<lparr>output_buffer := b\<rparr>;
     bytes_send \<leftarrow> send_imp st d (fst (ans (Suc k)));
     if bytes_send \<le> 0 then
       if snd (ans (Suc k)) = ECONNRESET then do {
         (_, c2) \<leftarrow> disable_reading c1;
         (_, c3) \<leftarrow> disable_writing c2;
         Some (Some (- 1), [], c3)
       }
       else output_loop k ans c1
     else do {
       (_, b2) \<leftarrow> drain b (nat bytes_send);
       let c2 = c1\<lparr>output_buffer := b2\<rparr>;
       if total_len b2 = 0 then Some (None, take (nat bytes_send) d, c2)
       else do {
         (r, out, c3) \<leftarrow> output_loop k ans c2;
         Some (r, take (nat bytes_send) d @ out, c3)
       }
     }
   }"

definition handle_output ::
  "connection \<Rightarrow> int \<Rightarrow> (nat \<Rightarrow> int \<times> int) \<Rightarrow> (int \<times> bytes \<times> connection) option" where
  "handle_output c handle ans =
     (if total_len (output_buffer c) = 0 then Some (0, [], c)
      else do {
        st \<leftarrow> stream c;
        if handle \<noteq> stream_handle st \<or> handle = INVALID_HANDLE then Some (- 1, [], c)
        else do {
          (r, out, c1) \<leftarrow> output_loop 3 ans c;
          case r of
            Some v \<Rightarrow> Some (v, out, c1)
          | None \<Rightarrow> do {
              (_, c2) \<leftarrow> (if total_len (output_buffer c1) = 0 then disable_writing c1 else Some (0, c1));
              Some (0, out, c2)
            }
        }
      })"

definition handle_close :: "int \<Rightarrow> connection \<Rightarrow> (int \<times> connection) option" where
  "handle_close ans c = do {
     _ \<leftarrow> stream c;
     (_, c1) \<leftarrow> close_connection ans c;
     Some (0, c1)
   }"

subsection \<open>Registrations are balanced\<close>

text \<open>
  The registration of one event type as the reactor sees it: \<open>None\<close> after a second \<open>Register\<close> in a
  row or an \<open>Unregister\<close> of what is not registered.
\<close>

fun registration :: "event_type \<Rightarrow> bool option \<Rightarrow> reactor_call \<Rightarrow> bool option" where
  "registration ev s (Register h e) = (if e \<noteq> ev then s else if s = Some False then Some True else None)"
| "registration ev s (Unregister h e) = (if e \<noteq> ev then s else if s = Some True then Some False else None)"

definition registered :: "event_type \<Rightarrow> reactor_call list \<Rightarrow> bool option" where
  "registered ev calls = foldl (registration ev) (Some False) calls"

definition balanced :: "connection \<Rightarrow> bool" where
  "balanced c \<longleftrightarrow> registered READ_EVENT (reactor_calls c) = Some (read_enabled c) \<and>
     registered WRITE_EVENT (reactor_calls c) = Some (write_enabled c)"

lemma registered_snoc: "registered ev (cs @ [x]) = registration ev (registered ev cs) x"
  by (simp add: registered_def)

lemma balanced_update [simp]:
  "balanced (c\<lparr>input_buffer := b\<rparr>) = balanced c" "balanced (c\<lparr>output_buffer := b\<rparr>) = balanced c"
  "balanced (c\<lparr>stream := s\<rparr>) = balanced c"
  by (simp_all add: balanced_def)

text \<open>Every result of an operation is balanced, whatever else it returns.\<close>

abbreviation keeps_balanced :: "('a \<times> connection) option \<Rightarrow> bool" where
  "keeps_balanced m \<equiv> ok_opt (\<lambda>(r, c). balanced c) m"

lemmas balanced_bind = ok_bindI [where Q = "\<lambda>(r, c). balanced c"]

text \<open>Calls that return no connection are passed over.\<close>

lemmas other_bind = ok_bindI [where Q = "\<lambda>_. True", OF ok_opt_True]

lemmas skip_bind = other_bind [where m = "stream c" for c] other_bind [where m = "pullup b n" for b n]
  other_bind [where m = "deref b p" for b p] other_bind [where m = "memread b p n" for b p n]
  other_bind [where m = "send_imp s d a" for s d a] other_bind [where m = "drain b n" for b n]
  other_bind [where m = "remove b n" for b n] other_bind [where m = "read_line b n e" for b n e]
  other_bind [where m = "append b d" for b d] other_bind [where m = "append_value b d" for b d]
  other_bind [where m = "stream_read s b n a" for s b n a]

lemma balanced_registration:
  assumes "balanced c"
  shows "keeps_balanced (enable_reading c)" and "keeps_balanced (enable_writing c)"
    and "keeps_balanced (disable_reading c)" and "keeps_balanced (disable_writing c)"
  using assms
  by (cases "stream c";
      simp add: balanced_def enable_reading_def enable_writing_def disable_reading_def disable_writing_def
        call_reactor_def registered_snoc event_defs)+

lemma balanced_disable_if:
  assumes "balanced c"
  shows "keeps_balanced (if b then disable_reading c else Some (r, c))"
    and "keeps_balanced (if b then disable_writing c else Some (r, c))"
    and "keeps_balanced (if b then enable_writing c else Some (r, c))"
  using assms balanced_registration by auto

lemmas registration_bind = balanced_bind [where m = "disable_reading c" for c]
  balanced_bind [where m = "disable_writing c" for c]
  balanced_bind [where m = "if b then disable_reading c else Some (r, c)" for b c r]
  balanced_bind [where m = "if b then disable_writing c else Some (r, c)" for b c r]
  balanced_bind [where m = "if b then enable_writing c else Some (r, c)" for b c r]

lemma balanced_close:
  assumes "balanced c"
  shows "keeps_balanced (close_connection a c)" and "keeps_balanced (close_read a c)"
    and "keeps_balanced (close_write a c)" and "keeps_balanced (handle_close a c)"
proof -
  show close: "keeps_balanced (close_connection a c)"
    unfolding close_connection_def
    by (auto simp: close_stream_def assms split: option.split
        intro!: registration_bind balanced_disable_if simp del: if_split split del: if_split)
  show "keeps_balanced (close_read a c)" "keeps_balanced (close_write a c)"
    unfolding close_read_def close_write_def
    by (auto simp: assms split: option.split
        intro!: registration_bind balanced_disable_if simp del: if_split split del: if_split)
  show "keeps_balanced (handle_close a c)"
    unfolding handle_close_def by (intro skip_bind balanced_bind [OF close]) auto
qed

lemma balanced_output_loop: "balanced c \<Longrightarrow> ok_opt (\<lambda>(r, out, c'). balanced c') (output_loop k ans c)"
proof (induction k arbitrary: c)
  case (Suc k)
  note IH = ok_bindI [where Q = "\<lambda>(r, out, c'). balanced c'", OF Suc.IH]
  show ?case
    using Suc.prems
    by (auto simp: Let_def intro!: skip_bind registration_bind balanced_registration Suc.IH IH)
qed simp

text \<open>One step of a connection: any of its operations.\<close>

inductive conn_step :: "connection \<Rightarrow> connection \<Rightarrow> bool" where
  step_open: "open_connection c = Some (r, c') \<Longrightarrow> conn_step c c'"
| step_read: "conn_read c n = Some (m, d, c') \<Longrightarrow> conn_step c c'"
| step_read_line: "conn_read_line c n eol = Some (m, d, c') \<Longrightarrow> conn_step c c'"
| step_write: "conn_write c data flush = Some (m, c') \<Longrightarrow> conn_step c c'"
| step_write_T: "conn_write_T c d flush = Some (r, c') \<Longrightarrow> conn_step c c'"
| step_send: "sendPackage c d = Some (r, c') \<Longrightarrow> conn_step c c'"
| step_clear: "clear_input_buffer c = Some c' \<Longrightarrow> conn_step c c'"
| step_enable: "enable_writing c = Some (r, c') \<Longrightarrow> conn_step c c'"
| step_disable_reading: "disable_reading c = Some (r, c') \<Longrightarrow> conn_step c c'"
| step_disable_writing: "disable_writing c = Some (r, c') \<Longrightarrow> conn_step c c'"
| step_input: "handle_input c h ra e = Some (r, c') \<Longrightarrow> conn_step c c'"
| step_output: "handle_output c h sa = Some (r, out, c') \<Longrightarrow> conn_step c c'"
| step_close: "close_connection a c = Some (r, c') \<Longrightarrow> conn_step c c'"
| step_close_read: "close_read a c = Some (r, c') \<Longrightarrow> conn_step c c'"
| step_close_write: "close_write a c = Some (r, c') \<Longrightarrow> conn_step c c'"
| step_handle_close: "handle_close a c = Some (r, c') \<Longrightarrow> conn_step c c'"

lemma balanced_write_tail:
  assumes "balanced c"
  shows "keeps_balanced ((if x then enable_writing c else Some (0, c)) \<bind> (\<lambda>(_, c'). Some (g, c')))"
  by (intro registration_bind(5) balanced_disable_if(3) assms) auto

lemma balanced_operations:
  assumes "balanced c"
  shows "keeps_balanced (conn_write c data flush)" and "keeps_balanced (conn_write_T c d flush)"
    and "ok_opt (\<lambda>(m, d, c'). balanced c') (conn_read c n)"
    and "ok_opt (\<lambda>(m, d, c'). balanced c') (conn_read_line c n eol)"
    and "ok_opt balanced (clear_input_buffer c)"
    and "keeps_balanced (handle_input c h ra e)"
    and "ok_opt (\<lambda>(r, out, c'). balanced c') (handle_output c h sa)"
proof -
  show "keeps_balanced (conn_write c data flush)"
    unfolding conn_write_def Let_def
    by (cases "data = None \<or> data = Some []"; cases "total_len (output_buffer c) \<ge> BUFFER_HIGH_WATER_MARK") (auto simp: assms intro!: skip_bind balanced_write_tail split del: if_split cong del: if_weak_cong)
  show "keeps_balanced (conn_write_T c d flush)"
    unfolding conn_write_T_def Let_def by (auto simp: assms intro!: skip_bind balanced_write_tail split del: if_split cong del: if_weak_cong)
  show "ok_opt (\<lambda>(m, d, c'). balanced c') (conn_read c n)"
    "ok_opt (\<lambda>(m, d, c'). balanced c') (conn_read_line c n eol)" "ok_opt balanced (clear_input_buffer c)"
    unfolding conn_read_def conn_read_line_def clear_input_buffer_def
    by (auto simp: Let_def assms intro!: skip_bind)
  show "keeps_balanced (handle_input c h ra e)"
    unfolding handle_input_def by (auto simp: Let_def assms intro!: skip_bind split: option.split)
  show "ok_opt (\<lambda>(r, out, c'). balanced c') (handle_output c h sa)"
    unfolding handle_output_def
    by (auto simp: assms split: option.split
        intro!: skip_bind ok_bindI [OF balanced_output_loop] registration_bind balanced_registration)
qed

lemma balanced_send: "balanced c \<Longrightarrow> keeps_balanced (sendPackage c d)"
  unfolding sendPackage_def
  by (rule balanced_bind, erule balanced_operations, clarsimp, rule balanced_bind, erule balanced_operations)
    auto

lemma pairD: "keeps_balanced m \<Longrightarrow> m = Some (r, c) \<Longrightarrow> balanced c"
  by simp

lemma tripleD: "ok_opt (\<lambda>(r, d, c). balanced c) m \<Longrightarrow> m = Some (r, d, c) \<Longrightarrow> balanced c"
  by simp

lemma conn_step_balanced: "conn_step c c' \<Longrightarrow> balanced c \<Longrightarrow> balanced c'"
proof (induction rule: conn_step.induct)
  case step_open
  then show ?case by (auto simp: open_connection_def dest: pairD [OF balanced_registration(1)])
next
  case step_read
  then show ?case by (auto dest: tripleD [OF balanced_operations(3)])
next
  case step_read_line
  then show ?case by (auto dest: tripleD [OF balanced_operations(4)])
next
  case step_write
  then show ?case by (auto dest: pairD [OF balanced_operations(1)])
next
  case step_write_T
  then show ?case by (auto dest: pairD [OF balanced_operations(2)])
next
  case step_send
  then show ?case by (auto dest: pairD [OF balanced_send])
next
  case step_clear
  then show ?case by (auto dest: ok_optD [OF balanced_operations(5)])
next
  case step_enable
  then show ?case by (auto dest: pairD [OF balanced_registration(2)])
next
  case step_disable_reading
  then show ?case by (auto dest: pairD [OF balanced_registration(3)])
next
  case step_disable_writing
  then show ?case by (auto dest: pairD [OF balanced_registration(4)])
next
  case step_input
  then show ?case by (auto dest: pairD [OF balanced_operations(6)])
next
  case step_output
  then show ?case by (auto dest: tripleD [OF balanced_operations(7)])
next
  case step_close
  then show ?case by (auto dest: pairD [OF balanced_close(1)])
next
  case step_close_read
  then show ?case by (auto dest: pairD [OF balanced_close(2)])
next
  case step_close_write
  then show ?case by (auto dest: pairD [OF balanced_close(3)])
next
  case step_handle_close
  then show ?case by (auto dest: pairD [OF balanced_close(4)])
qed

text \<open>A connection on a fresh stream, before \<open>open\<close>.\<close>

definition new_connection :: "sock_stream \<Rightarrow> buffer \<Rightarrow> buffer \<Rightarrow> (reactor_call \<Rightarrow> int) \<Rightarrow> connection" where
  "new_connection st b1 b2 ans = \<lparr>stream = Some st, input_buffer = b1, output_buffer = b2,
     read_enabled = False, write_enabled = False, reactor_calls = [], reactor_answer = ans\<rparr>"

text \<open>
  C15. In every state a connection can reach, whatever the reactor and the system calls answer, its calls to
  the reactor are balanced for reading and for writing: it never registers an event twice in a row,
  never unregisters what it has not registered, and \<open>read_enabled_\<close> and \<open>write_enabled_\<close> say what
  is registered.
\<close>

theorem registrations_balanced:
  assumes "conn_step\<^sup>*\<^sup>* (new_connection st b1 b2 ans) c"
  shows "registered READ_EVENT (reactor_calls c) = Some (read_enabled c) \<and>
    registered WRITE_EVENT (reactor_calls c) = Some (write_enabled c)"
proof -
  have "balanced c"
    using assms
  proof (induction rule: rtranclp_induct)
    case base
    then show ?case by (simp add: balanced_def new_connection_def registered_def)
  next
    case (step c c')
    then show ?case using conn_step_balanced by blast
  qed
  then show ?thesis by (simp add: balanced_def)
qed

theorem registrations_balanced_witness:
  "registered READ_EVENT [Register 7 READ_EVENT] = Some True \<and>
   registered WRITE_EVENT [Register 7 READ_EVENT] = Some False"
proof -
  let ?c0 = "new_connection (Some (set_fd 7 (new_sock True))) (new_buffer 1 2) (new_buffer 1 2) (\<lambda>_. 0)"
  let ?c1 = "?c0\<lparr>read_enabled := True, reactor_calls := [Register 7 READ_EVENT]\<rparr>"
  have "open_connection ?c0 = Some (0, ?c1)"
    by (simp add: open_connection_def enable_reading_def new_connection_def call_reactor_def
        stream_handle_def set_fd_def)
  then have "conn_step\<^sup>*\<^sup>* ?c0 ?c1" by (intro r_into_rtranclp step_open)
  from registrations_balanced [OF this] show ?thesis by (simp add: new_connection_def)
qed

subsection \<open>Output\<close>

lemma disable_writing_total:
  assumes "stream c \<noteq> None"
  shows "\<exists>r c'. disable_writing c = Some (r, c') \<and> output_buffer c' = output_buffer c \<and>
    input_buffer c' = input_buffer c \<and> \<not> write_enabled c' \<and> stream c' = stream c"
  using assms by (cases "write_enabled c") (auto simp: disable_writing_def call_reactor_def)

lemma disable_reading_total:
  assumes "stream c \<noteq> None"
  shows "\<exists>r c'. disable_reading c = Some (r, c') \<and> output_buffer c' = output_buffer c \<and>
    input_buffer c' = input_buffer c \<and> stream c' = stream c"
  using assms by (cases "read_enabled c") (auto simp: disable_reading_def call_reactor_def)

text \<open>One round of the sending loop, up to the answer of \<open>::send\<close>.\<close>

lemma output_round:
  assumes wf: "buffer_wf (output_buffer c)" and ne: "contents (output_buffer c) \<noteq> []"
    and st: "stream c = Some (Some s)"
  defines "m \<equiv> min (length (contents (output_buffer c))) 4096"
  obtains b f where "pullup (output_buffer c) (int m) = Some (Some (chain_addr f), b)"
    and "deref b (Some (chain_addr f)) = Some f"
    and "memread (cbuf f) (misalign f) m = Some (take m (contents (output_buffer c)))"
    and "buffer_wf b" and "contents b = contents (output_buffer c)"
    and "(if DEFAULT_SEND_SIZE > total_len (output_buffer c) then total_len (output_buffer c)
          else DEFAULT_SEND_SIZE) = m" and "0 < m" and "m \<le> length (contents b)"
proof -
  have m: "0 < m" "m \<le> length (contents (output_buffer c))" "m < 4294967296"
    using ne by (auto simp: m_def)
  obtain f cs b where "pullup (output_buffer c) (int m) = Some (Some (chain_addr f), b)" "chains b = f # cs"
    "memread (cbuf f) (misalign f) m = Some (take m (contents (output_buffer c)))"
    "buffer_wf b" "contents b = contents (output_buffer c)"
    using pullup_law [OF wf m] by blast
  moreover have "(if DEFAULT_SEND_SIZE > total_len (output_buffer c) then total_len (output_buffer c)
      else DEFAULT_SEND_SIZE) = m"
    using wf by (auto simp: m_def DEFAULT_SEND_SIZE_def buffer_wf_total)
  ultimately show ?thesis using that m by (simp add: deref_def)
qed

lemma send_imp_bound: "\<exists>n. send_imp (Some s) d a = Some n \<and> n \<le> int (length d)"
  by (simp add: send_imp_def)

lemma output_loop_law:
  assumes "buffer_wf (output_buffer c)" and "contents (output_buffer c) \<noteq> []"
    and "stream c = Some (Some s)"
  shows "\<exists>r out c'. output_loop k ans c = Some (r, out, c') \<and> buffer_wf (output_buffer c') \<and>
    out @ contents (output_buffer c') = contents (output_buffer c) \<and> stream c' = stream c \<and>
    input_buffer c' = input_buffer c \<and> (r = None \<or> r = Some (- 1))"
  using assms
proof (induction k arbitrary: c)
  case 0
  then show ?case by simp
next
  case (Suc k)
  let ?m = "min (length (contents (output_buffer c))) 4096"
  obtain b f where p: "pullup (output_buffer c) (int ?m) = Some (Some (chain_addr f), b)"
    "deref b (Some (chain_addr f)) = Some f"
    "memread (cbuf f) (misalign f) ?m = Some (take ?m (contents (output_buffer c)))"
    "buffer_wf b" "contents b = contents (output_buffer c)"
    "(if DEFAULT_SEND_SIZE > total_len (output_buffer c) then total_len (output_buffer c)
          else DEFAULT_SEND_SIZE) = ?m" "0 < ?m" "?m \<le> length (contents b)"
    by (rule output_round [OF Suc.prems])
  let ?c1 = "c\<lparr>output_buffer := b\<rparr>" and ?d = "take ?m (contents (output_buffer c))"
  have dlen: "length ?d = ?m" by simp
  obtain n where n: "send_imp (Some s) ?d (fst (ans (Suc k))) = Some n" "n \<le> int ?m"
    using send_imp_bound [of s ?d "fst (ans (Suc k))"] unfolding dlen by blast
  have c1: "buffer_wf (output_buffer ?c1)" "contents (output_buffer ?c1) \<noteq> []" "stream ?c1 = Some (Some s)"
    using p(4,5) Suc.prems by simp_all
  note unfold_loop = output_loop.simps(2) Let_def p(6) Suc.prems(3) p(1-3) n(1)
  consider (reset) "n \<le> 0" "snd (ans (Suc k)) = ECONNRESET" | (again) "n \<le> 0" "snd (ans (Suc k)) \<noteq> ECONNRESET"
    | (sent) "0 < n" by linarith
  then show ?case
  proof cases
    case reset
    obtain r2 c2 where c2: "disable_reading ?c1 = Some (r2, c2)" "output_buffer c2 = b"
      "input_buffer c2 = input_buffer c" "stream c2 = stream c"
      using disable_reading_total [of ?c1] c1(3) Suc.prems(3) by auto
    obtain r3 c3 where "disable_writing c2 = Some (r3, c3)" "output_buffer c3 = b"
      "input_buffer c3 = input_buffer c" "stream c3 = stream c"
      using disable_writing_total [of c2] c2 Suc.prems(3) by auto
    then show ?thesis using reset c2 p(4,5) by (simp add: unfold_loop)
  next
    case again
    then show ?thesis using Suc.IH [OF c1] p(5) by (simp add: unfold_loop)
  next
    case sent
    have k: "0 < nat n" "nat n \<le> length (contents b)" using sent n(2) p(8) by auto
    obtain b2 where b2: "drain b (nat n) = Some (int (nat n), b2)" "buffer_wf b2"
      "contents b2 = drop (nat n) (contents b)"
      using drain_correct [OF p(4) k] by blast
    have "nat n \<le> ?m" using n(2) by linarith
    then have out: "take (nat n) ?d = take (nat n) (contents b)" by (simp add: p(5) min_absorb1)
    let ?c2 = "?c1\<lparr>output_buffer := b2\<rparr>"
    show ?thesis
    proof (cases "contents b2 = []")
      case True
      then have "total_len b2 = 0" using b2(2) by (simp add: buffer_wf_total)
      then show ?thesis
        using sent b2 out p(5) by (simp add: unfold_loop)
    next
      case False
      then have tl: "total_len b2 \<noteq> 0" using b2(2) by (simp add: buffer_wf_total)
      have c2: "buffer_wf (output_buffer ?c2)" "contents (output_buffer ?c2) \<noteq> []" "stream ?c2 = Some (Some s)"
        using b2(2) False c1(3) by simp_all
      show ?thesis
        using Suc.IH [OF c2] sent tl b2 out p(5)
        by (auto simp: unfold_loop)
    qed
  qed
qed

text \<open>
  C14. \<open>handle_output\<close> on the connection's own handle, whatever \<open>::send\<close> answers in its up to three
  attempts: the bytes that went out are a prefix of the output buffer, in order, and exactly the
  rest is kept for the next call; when everything is out, writing is disabled.
\<close>

theorem handle_output_correct:
  assumes wf: "buffer_wf (output_buffer c)" and st: "stream c = Some (Some s)"
    and h: "h = fd_no s" "h \<noteq> INVALID_HANDLE"
  shows "\<exists>r out c'. handle_output c h ans = Some (r, out, c') \<and> buffer_wf (output_buffer c') \<and>
    out @ contents (output_buffer c') = contents (output_buffer c) \<and> input_buffer c' = input_buffer c \<and>
    (r = 0 \<or> r = - 1) \<and> (r = 0 \<and> out \<noteq> [] \<and> contents (output_buffer c') = [] \<longrightarrow> \<not> write_enabled c')"
proof (cases "contents (output_buffer c) = []")
  case True
  then show ?thesis using wf by (simp add: handle_output_def buffer_wf_total)
next
  case False
  then have tl: "total_len (output_buffer c) \<noteq> 0" using wf by (simp add: buffer_wf_total)
  obtain r out c1 where loop: "output_loop 3 ans c = Some (r, out, c1)" "buffer_wf (output_buffer c1)"
    "out @ contents (output_buffer c1) = contents (output_buffer c)" "stream c1 = stream c"
    "input_buffer c1 = input_buffer c" "r = None \<or> r = Some (- 1)"
    using output_loop_law [OF wf False st] by blast
  have eq: "handle_output c h ans = (case r of Some v \<Rightarrow> Some (v, out, c1)
      | None \<Rightarrow> do {
          (_, c2) \<leftarrow> (if total_len (output_buffer c1) = 0 then disable_writing c1 else Some (0, c1));
          Some (0, out, c2)
        })"
    using tl st h loop(1) by (simp add: handle_output_def stream_handle_def)
  obtain r2 c2 where dis: "disable_writing c1 = Some (r2, c2)" "output_buffer c2 = output_buffer c1"
    "input_buffer c2 = input_buffer c1" "\<not> write_enabled c2"
    using disable_writing_total [of c1] loop(4) st by auto
  have tot: "total_len (output_buffer c1) = length (contents (output_buffer c1))"
    using loop(2) by (rule buffer_wf_total)
  show ?thesis
    using loop(6)
  proof
    assume "r = Some (- 1)"
    then show ?thesis using eq loop by simp
  next
    assume "r = None"
    then show ?thesis
      using eq loop dis tot by (cases "contents (output_buffer c1) = []") simp_all
  qed
qed

text \<open>A connection with three bytes to send, on descriptor 7.\<close>

definition sample_connection :: connection where
  "sample_connection = (new_connection (Some (set_fd 7 (new_sock True))) (new_buffer 1 2) sample_buffer (\<lambda>_. 0))
     \<lparr>write_enabled := True, reactor_calls := [Register 7 WRITE_EVENT]\<rparr>"

theorem handle_output_correct_witness:
  "\<exists>r out c'. handle_output sample_connection 7 (\<lambda>_. (2, 0)) = Some (r, out, c') \<and>
    out @ contents (output_buffer c') = ''abcdef''"
  using handle_output_correct [of sample_connection "set_fd 7 (new_sock True)" 7 "\<lambda>_. (2, 0)"]
    sample_buffer_facts
  by (auto simp: sample_connection_def new_connection_def set_fd_def INVALID_HANDLE_def)

subsection \<open>Sending and receiving messages\<close>

lemma enable_writing_total:
  assumes "stream c \<noteq> None"
  shows "\<exists>r c'. enable_writing c = Some (r, c') \<and> output_buffer c' = output_buffer c \<and>
    input_buffer c' = input_buffer c \<and> write_enabled c' \<and> stream c' = stream c"
  using assms by (cases "write_enabled c") (auto simp: enable_writing_def call_reactor_def)

lemma high_water_mark: "BUFFER_HIGH_WATER_MARK = 4294967196"
  by (simp add: BUFFER_HIGH_WATER_MARK_def MAXIMUM_CHAIN_SIZE_def u32_def)

lemma sendPackage_law:
  assumes wf: "buffer_wf (output_buffer c)" and st: "stream c \<noteq> None"
    and d: "d \<noteq> []" "length d < 4294967296" "length (contents (output_buffer c)) + 8 < 4294967196"
  shows "\<exists>c'. sendPackage c d = Some (8 + int (length d), c') \<and> buffer_wf (output_buffer c') \<and>
    contents (output_buffer c') = contents (output_buffer c) @ int64_bytes (int (length d)) @ d \<and>
    write_enabled c' \<and> stream c' = stream c \<and> input_buffer c' = input_buffer c"
proof -
  let ?l = "int64_bytes (int (length d))"
  have l: "?l \<noteq> []" "length ?l < 4294967296"
    "length (contents (output_buffer c)) + length ?l < 18446744073709551616"
    using d(3) by (simp_all flip: length_greater_0_conv)
  obtain b1 where b1: "append_value (output_buffer c) ?l = Some (int (length ?l), b1)" "buffer_wf b1"
    "contents b1 = contents (output_buffer c) @ ?l"
    using append_value_correct [OF wf l] by blast
  let ?c1 = "c\<lparr>output_buffer := b1\<rparr>"
  have w1: "conn_write_T c ?l False = Some (8, ?c1)" using b1(1) by (simp add: conn_write_T_def)
  have room: "length (contents b1) + length d < 18446744073709551616"
    using b1(3) d by simp
  obtain b2 where b2: "append b1 (Some d) = Some (int (length d), b2)" "buffer_wf b2"
    "contents b2 = contents b1 @ d"
    using append_law [OF b1(2) d(1,2) room] by blast
  have mark: "\<not> total_len b1 \<ge> BUFFER_HIGH_WATER_MARK"
    using b1(2,3) d(3) by (simp add: buffer_wf_total high_water_mark)
  let ?c2 = "?c1\<lparr>output_buffer := b2\<rparr>"
  obtain r c3 where c3: "enable_writing ?c2 = Some (r, c3)" "output_buffer c3 = b2"
    "input_buffer c3 = input_buffer c" "write_enabled c3" "stream c3 = stream c"
    using enable_writing_total [of ?c2] st by auto
  have "int (length d) mod 4294967296 = int (length d)" using d(2) by simp
  then have "\<exists>c'. conn_write ?c1 (Some d) True = Some (length d, c') \<and> output_buffer c' = b2 \<and>
      input_buffer c' = input_buffer c \<and> write_enabled c' \<and> stream c' = stream c"
    using d(1) mark b2(1) c3 by (cases "write_enabled c") (auto simp: conn_write_def Let_def)
  then show ?thesis using w1 b1(3) b2 by (auto simp: sendPackage_def)
qed

text \<open>Everything goes out in one round when the kernel has the room.\<close>

lemma handle_output_all:
  assumes wf: "buffer_wf (output_buffer c)" and st: "stream c = Some (Some s)" "can_write s"
    and h: "h = fd_no s" "h \<noteq> INVALID_HANDLE"
    and len: "contents (output_buffer c) \<noteq> []" "length (contents (output_buffer c)) \<le> 4096"
    and ans: "fst (ans 3) \<ge> 4096"
  shows "\<exists>c'. handle_output c h ans = Some (0, contents (output_buffer c), c') \<and>
    buffer_wf (output_buffer c') \<and> contents (output_buffer c') = [] \<and> \<not> write_enabled c'"
proof -
  let ?d = "contents (output_buffer c)"
  have m: "min (length ?d) 4096 = length ?d" using len(2) by simp
  obtain b f where p: "pullup (output_buffer c) (int (length ?d)) = Some (Some (chain_addr f), b)"
    "deref b (Some (chain_addr f)) = Some f" "memread (cbuf f) (misalign f) (length ?d) = Some ?d"
    "buffer_wf b" "contents b = ?d"
    "(if DEFAULT_SEND_SIZE > total_len (output_buffer c) then total_len (output_buffer c)
      else DEFAULT_SEND_SIZE) = length ?d"
    by (rule output_round [OF wf len(1) st(1), unfolded m]) (simp add: that)
  have send: "send_imp (Some s) ?d (fst (ans 3)) = Some (int (length ?d))"
    using st(2) h ans len(2) by (simp add: send_imp_def min_absorb2)
  obtain b2 where b2: "drain b (length ?d) = Some (int (length ?d), b2)" "buffer_wf b2" "contents b2 = []"
    using drain_correct [OF p(4), of "length ?d"] p(5) len(1) by auto
  have tot: "total_len b2 = 0" "total_len (output_buffer c) \<noteq> 0"
    using b2(2,3) wf len(1) by (simp_all add: buffer_wf_total)
  let ?c2 = "c\<lparr>output_buffer := b, output_buffer := b2\<rparr>"
  obtain r c3 where c3: "disable_writing ?c2 = Some (r, c3)" "output_buffer c3 = b2" "\<not> write_enabled c3"
    using disable_writing_total [of ?c2] st(1) by auto
  have "output_loop 3 ans c = Some (None, ?d, ?c2)"
    unfolding numeral_3_eq_3
    using st(1) p send b2(1) tot(1) len(1) by (simp add: Let_def numeral_3_eq_3)
  then show ?thesis
    using tot st(1) h c3 b2 by (simp add: handle_output_def stream_handle_def)
qed

text \<open>
  C2. From one end to the other, for a package of 1 to 4088 bytes that parses, with the output buffer of the
  sender and the input buffer of the receiver empty and the decoder idle or completed: when the kernel takes the
  frame in one send and delivers it in one read, a package that the sender frames with \<open>sendPackage\<close>, that its
  \<open>handle_output\<close> puts on the wire and that the receiver's \<open>handle_input\<close> reads is decoded to the
  message the package parses to; nothing is left over on either side and the sender stops
  watching for writability. When the first read brings fewer than the eight bytes of the length the decoder does not
  return (\<open>decode_short_length_diverges\<close> in \<open>Decoder\<close>); an empty package and one that does not parse are treated there too.
\<close>

theorem package_end_to_end:
  assumes sender: "buffer_wf (output_buffer c)" "contents (output_buffer c) = []"
      "stream c = Some (Some s)" "can_write s" "fd_no s \<noteq> INVALID_HANDLE"
    and receiver: "buffer_wf (input_buffer r)" "contents (input_buffer r) = []"
      "stream r = Some (Some t)" "can_read t" "fd_no t \<noteq> INVALID_HANDLE"
    and d: "d \<noteq> []" "length d \<le> 4088" and parse: "parse d = Some m"
    and dec: "dec_state dec = IDLE \<or> dec_state dec = COMPLETED"
  shows "\<exists>c1 c2 r1 out dec' buf'. sendPackage c d = Some (8 + int (length d), c1) \<and>
    handle_output c1 (fd_no s) (\<lambda>_. (4096, 0)) = Some (0, out, c2) \<and> \<not> write_enabled c2 \<and>
    contents (output_buffer c2) = [] \<and>
    handle_input r (fd_no t) (Data out) e = Some (0, r1) \<and>
    decode parse dec (input_buffer r1) = Some (8 + int (length d), dec', buf') \<and> isCompleted dec' \<and>
    mesPtr dec' = Some m \<and> contents buf' = []"
proof -
  obtain c1 where c1: "sendPackage c d = Some (8 + int (length d), c1)" "buffer_wf (output_buffer c1)"
    "contents (output_buffer c1) = int64_bytes (int (length d)) @ d" "stream c1 = stream c"
    using sendPackage_law [OF sender(1) _ d(1)] sender(2,3) d(2) by auto
  let ?out = "contents (output_buffer c1)"
  have out: "?out \<noteq> []" "length ?out \<le> 4096" using c1(3) d by auto
  obtain c2 where c2: "handle_output c1 (fd_no s) (\<lambda>_. (4096, 0)) = Some (0, ?out, c2)"
    "contents (output_buffer c2) = []" "\<not> write_enabled c2"
    using handle_output_all [OF c1(2) _ sender(4) refl sender(5) out, of "\<lambda>_. (4096, 0)"] c1(4) sender(3)
    by auto
  obtain buf where buf: "stream_read (Some t) (input_buffer r) 4096 (Data ?out) = Some (int (length ?out), buf)"
    "buffer_wf buf" "contents buf = ?out"
    using stream_read_law [OF receiver(1,5,4), of 4096 ?out] receiver(2) out(2) by auto
  have "total_len (input_buffer r) = 0" using receiver(1,2) by (simp add: buffer_wf_total)
  then have inp: "handle_input r (fd_no t) (Data ?out) e = Some (0, r\<lparr>input_buffer := buf\<rparr>)"
    using receiver(3,5) buf(1) out(1)
    by (simp add: handle_input_def high_water_mark stream_handle_def)
  have len: "length d < 2147483648" "length (contents buf) < 9223372036854775808"
    "contents buf = int64_bytes (int (length d)) @ d @ []"
    using d(2) out(2) buf(3) c1(3) by simp_all
  obtain dec' buf' where "decode parse dec buf = Some (8 + int (length d), dec', buf')" "isCompleted dec'"
    "mesPtr dec' = Some m" "contents buf' = []"
    using decode_frame_law [where parse = parse, OF buf(2) len(3) d(1) len(1) parse dec len(2)] by blast
  then show ?thesis using c1(1) c2 inp by auto
qed

theorem package_end_to_end_witness:
  "\<exists>c1 c2 r1 out dec' buf'.
    sendPackage (new_connection (Some (set_fd 7 (new_sock True))) (new_buffer 1 2) (new_buffer 3 4) (\<lambda>_. 0))
      ''abc'' = Some (11, c1) \<and>
    handle_output c1 7 (\<lambda>_. (4096, 0)) = Some (0, out, c2) \<and>
    handle_input (new_connection (Some (set_fd 9 (new_sock True))) (new_buffer 1 2) (new_buffer 3 4) (\<lambda>_. 0))
      9 (Data out) 0 = Some (0, r1) \<and>
    decode sample_parse new_decoder (input_buffer r1) = Some (11, dec', buf') \<and> mesPtr dec' = Some ''abc''"
  using package_end_to_end
    [of "new_connection (Some (set_fd 7 (new_sock True))) (new_buffer 1 2) (new_buffer 3 4) (\<lambda>_. 0)"
      "set_fd 7 (new_sock True)"
      "new_connection (Some (set_fd 9 (new_sock True))) (new_buffer 1 2) (new_buffer 3 4) (\<lambda>_. 0)"
      "set_fd 9 (new_sock True)" "''abc''" sample_parse "''abc''" new_decoder 0] new_buffer_wf
  by (auto simp: new_connection_def set_fd_def INVALID_HANDLE_def sample_parse_def new_decoder_def)

text \<open>\<open>clear_input_buffer\<close> removes a single byte.\<close>

theorem clear_input_buffer_drains_one:
  assumes "buffer_wf (input_buffer c)" and "contents (input_buffer c) \<noteq> []"
  shows "\<exists>c'. clear_input_buffer c = Some c' \<and> contents (input_buffer c') = tl (contents (input_buffer c))"
  using drain_correct [OF assms(1), of 1] assms(2)
  by (cases "contents (input_buffer c)") (auto simp: clear_input_buffer_def)

end
