(* ===== verification/Epoller.thy ===== *)
theory Epoller
  imports Socket "HOL-Library.AList"
begin

unbundle bit_operations_syntax

text \<open>
  \<open>epoller\<close> of \<open>src/reactor/epoller.cpp\<close>: the user-level copy of the interest list of an epoll
  descriptor. The kernel is a parameter: a state and the call \<open>epoll_ctl\<close> on it, with the result and the
  new state. What the code relies on is \<open>epoll_ctl_spec\<close>, the documented behaviour of the
  call. The \<open>unordered_map\<close> is an association list with distinct keys, whose order is not observed.
\<close>

subsection \<open>State and operations\<close>

datatype ctl_op = EPOLL_CTL_ADD | EPOLL_CTL_MOD | EPOLL_CTL_DEL

type_synonym 'k epoll_ctl = "'k \<Rightarrow> ctl_op \<Rightarrow> int \<Rightarrow> 32 word \<Rightarrow> int \<times> 'k"

record epoller =
  epoll_fd :: int
  handle_event_map :: "(int \<times> 32 word) list"

definition new_epoller :: epoller where
  "new_epoller = \<lparr>epoll_fd = 0, handle_event_map = []\<rparr>"

text \<open>\<open>open\<close> and \<open>close\<close>, with the answer of \<open>epoll_create1\<close> or \<open>::close\<close>.\<close>

definition open_epoller :: "int \<Rightarrow> epoller \<Rightarrow> int \<times> epoller" where
  "open_epoller ans p =
     (let p1 = p\<lparr>epoll_fd := ans\<rparr> in if epoll_fd p1 < 0 then (- 1, p1) else (0, p1))"

definition close_epoller :: "int \<Rightarrow> epoller \<Rightarrow> int \<times> epoller" where
  "close_epoller ans p = (ans, p)"

definition add :: "'k epoll_ctl \<Rightarrow> 'k \<Rightarrow> epoller \<Rightarrow> int \<Rightarrow> 32 word \<Rightarrow> int \<times> 'k \<times> epoller" where
  "add ctl k p handle event =
     (case map_of (handle_event_map p) handle of
        Some evs \<Rightarrow>
          if evs AND event \<noteq> 0 then (- 1, k, p)
          else
            let m = AList.update handle (evs OR event) (handle_event_map p);
                (r, k1) = ctl k EPOLL_CTL_MOD handle (evs OR event)
            in (if r \<noteq> 0 then - 1 else 0, k1, p\<lparr>handle_event_map := m\<rparr>)
      | None \<Rightarrow>
          let m = AList.update handle event (handle_event_map p);
              (r, k1) = ctl k EPOLL_CTL_ADD handle event
          in (if r \<noteq> 0 then - 1 else 0, k1, p\<lparr>handle_event_map := m\<rparr>))"

definition del :: "'k epoll_ctl \<Rightarrow> 'k \<Rightarrow> epoller \<Rightarrow> int \<Rightarrow> 32 word \<Rightarrow> int \<times> 'k \<times> epoller" where
  "del ctl k p handle event =
     (case map_of (handle_event_map p) handle of
        None \<Rightarrow> (- 1, k, p)
      | Some evs \<Rightarrow>
          if evs AND event = 0 then (- 1, k, p)
          else
            let (r, k1) = ctl k EPOLL_CTL_MOD handle (evs AND NOT event)
            in if r \<noteq> 0 then (- 1, k1, p)
               else
                 let p1 = p\<lparr>handle_event_map :=
                            AList.update handle (evs AND NOT event) (handle_event_map p)\<rparr>
                 in if evs AND NOT event = 0 then
                      let (r2, k2) = ctl k1 EPOLL_CTL_DEL handle (evs AND NOT event)
                      in if r2 \<noteq> 0 then (- 1, k2, p1)
                         else (0, k2, p1\<lparr>handle_event_map :=
                                         AList.delete handle (handle_event_map p1)\<rparr>)
                    else (0, k1, p1))"

definition has :: "epoller \<Rightarrow> int \<Rightarrow> 32 word \<Rightarrow> bool" where
  "has p handle event =
     (case map_of (handle_event_map p) handle of
        None \<Rightarrow> False
      | Some evs \<Rightarrow> evs AND event \<noteq> 0)"

subsection \<open>The kernel\<close>

text \<open>
  \<open>epoll_ctl(2)\<close>: adding is an error for a descriptor in the interest list, changing and deleting
  for one that is not; a failing call changes nothing, a successful one has the effect of its operation.
\<close>

definition epoll_ctl_spec :: "('k \<Rightarrow> int \<Rightarrow> 32 word option) \<Rightarrow> 'k epoll_ctl \<Rightarrow> bool" where
  "epoll_ctl_spec interest ctl \<longleftrightarrow>
     (\<forall>k op h e. let (r, k') = ctl k op h e in
        if r = 0
        then (op = EPOLL_CTL_ADD \<longleftrightarrow> interest k h = None) \<and>
             interest k' = (interest k)(h := if op = EPOLL_CTL_DEL then None else Some e)
        else interest k' = interest k)"

lemma ctl_success:
  "epoll_ctl_spec interest ctl \<Longrightarrow> ctl k op h e = (0, k') \<Longrightarrow>
     interest k' = (interest k)(h := if op = EPOLL_CTL_DEL then None else Some e)"
  by (force simp: epoll_ctl_spec_def Let_def split: prod.splits)

lemma ctl_failure:
  "epoll_ctl_spec interest ctl \<Longrightarrow> ctl k op h e = (r, k') \<Longrightarrow> r \<noteq> 0 \<Longrightarrow> interest k' = interest k"
  by (force simp: epoll_ctl_spec_def Let_def split: prod.splits)

text \<open>The map of the epoller is the interest list of the kernel.\<close>

definition mirrors :: "('k \<Rightarrow> int \<Rightarrow> 32 word option) \<Rightarrow> 'k \<Rightarrow> epoller \<Rightarrow> bool" where
  "mirrors interest k p \<longleftrightarrow> interest k = map_of (handle_event_map p) \<and>
     distinct (map fst (handle_event_map p))"

lemma mirrors_update:
  "mirrors interest k p \<Longrightarrow> interest k' = (interest k)(h := Some e) \<Longrightarrow>
     mirrors interest k' (p\<lparr>handle_event_map := AList.update h e (handle_event_map p)\<rparr>)"
  by (simp add: mirrors_def AList.update_conv' distinct_update)

lemma del_law:
  assumes spec: "epoll_ctl_spec interest ctl" and m: "mirrors interest k p"
    and r: "del ctl k p h e = (r, k', p')"
  shows "mirrors interest k' p'"
proof (cases "map_of (handle_event_map p) h")
  case None
  then show ?thesis using m r by (simp add: del_def)
next
  case (Some evs)
  obtain r1 k1 where c1: "ctl k EPOLL_CTL_MOD h (evs AND NOT e) = (r1, k1)" by fastforce
  obtain r2 k2 where c2: "ctl k1 EPOLL_CTL_DEL h (evs AND NOT e) = (r2, k2)" by fastforce
  define p1 where "p1 = p\<lparr>handle_event_map := AList.update h (evs AND NOT e) (handle_event_map p)\<rparr>"
  have m1: "mirrors interest k1 p1" if "r1 = 0"
    using that mirrors_update [OF m] ctl_success [OF spec] c1 by (fastforce simp: p1_def)
  consider "evs AND e = 0" | "evs AND e \<noteq> 0" "r1 \<noteq> 0"
    | "evs AND e \<noteq> 0" "r1 = 0" "evs AND NOT e \<noteq> 0"
    | "evs AND e \<noteq> 0" "r1 = 0" "evs AND NOT e = 0" "r2 \<noteq> 0"
    | "evs AND e \<noteq> 0" "r1 = 0" "evs AND NOT e = 0" "r2 = 0" by blast
  then show ?thesis
  proof cases
    case 1
    then show ?thesis using m r Some by (simp add: del_def)
  next
    case 2
    then have "k' = k1" "p' = p" using r Some c1 by (simp_all add: del_def)
    then show ?thesis using m ctl_failure [OF spec c1 2(2)] by (simp add: mirrors_def)
  next
    case 3
    then have "k' = k1" "p' = p1" using r Some c1 by (simp_all add: del_def p1_def)
    then show ?thesis using m1 3 by simp
  next
    case 4
    then have "k' = k2" "p' = p1" using r Some c1 c2 by (simp_all add: del_def p1_def)
    then show ?thesis using m1 4 ctl_failure [OF spec c2 4(4)] by (simp add: mirrors_def)
  next
    case 5
    then have "k' = k2" "p' = p1\<lparr>handle_event_map := AList.delete h (handle_event_map p1)\<rparr>"
      using r Some c1 c2 by (simp_all add: del_def p1_def)
    moreover have "interest k2 = (interest k1)(h := None)"
      using ctl_success [OF spec, of k1 EPOLL_CTL_DEL h "evs AND NOT e" k2] c2 5 by simp
    ultimately show ?thesis using m1 5
      by (simp add: mirrors_def AList.delete_conv' distinct_delete)
  qed
qed

text \<open>A failing \<open>epoll_ctl\<close> leaves an added event in the map, where the kernel does not have it.\<close>

lemma add_law:
  assumes spec: "epoll_ctl_spec interest ctl" and m: "mirrors interest k p"
    and r: "add ctl k p h e = (r, k', p')"
  shows "r = 0 \<Longrightarrow> mirrors interest k' p'"
    and "r = 0 \<Longrightarrow> interest k' = (interest k)(h \<mapsto>
      (case interest k h of None \<Rightarrow> e | Some evs \<Rightarrow> evs OR e))"
    and "r \<noteq> 0 \<Longrightarrow> interest k' = interest k"
proof -
  have i: "interest k = map_of (handle_event_map p)" using m by (simp add: mirrors_def)
  have 1: "(r = 0 \<longrightarrow> mirrors interest k' p' \<and> interest k' = (interest k)(h \<mapsto>
      (case interest k h of None \<Rightarrow> e | Some evs \<Rightarrow> evs OR e))) \<and>
    (r \<noteq> 0 \<longrightarrow> interest k' = interest k)"
  proof (cases "map_of (handle_event_map p) h")
    case None
    obtain r1 k1 where c1: "ctl k EPOLL_CTL_ADD h e = (r1, k1)" by fastforce
    then show ?thesis
      using None i r mirrors_update [OF m, of k1 h e] ctl_success [OF spec, of k EPOLL_CTL_ADD h e k1]
        ctl_failure [OF spec c1]
      by (cases "r1 = 0") (auto simp: add_def AList.update_conv')
  next
    case (Some evs)
    obtain r1 k1 where c1: "ctl k EPOLL_CTL_MOD h (evs OR e) = (r1, k1)" by fastforce
    then show ?thesis
      using Some i r mirrors_update [OF m, of k1 h "evs OR e"]
        ctl_success [OF spec, of k EPOLL_CTL_MOD h "evs OR e" k1] ctl_failure [OF spec c1]
      by (cases "evs AND e \<noteq> 0"; cases "r1 = 0") (auto simp: add_def AList.update_conv')
  qed
  then show "r = 0 \<Longrightarrow> mirrors interest k' p'" and "r = 0 \<Longrightarrow> interest k' = (interest k)(h \<mapsto>
      (case interest k h of None \<Rightarrow> e | Some evs \<Rightarrow> evs OR e))"
    and "r \<noteq> 0 \<Longrightarrow> interest k' = interest k"
    by blast+
qed


text \<open>A kernel that refuses only the illegal calls.\<close>

definition epoll_ctl_accepts :: "('k \<Rightarrow> int \<Rightarrow> 32 word option) \<Rightarrow> 'k epoll_ctl \<Rightarrow> bool" where
  "epoll_ctl_accepts interest ctl \<longleftrightarrow>
     (\<forall>k op h e. (op = EPOLL_CTL_ADD \<longleftrightarrow> interest k h = None) \<longrightarrow> fst (ctl k op h e) = 0)"

definition ideal_ctl :: "(int \<Rightarrow> 32 word option) epoll_ctl" where
  "ideal_ctl k op h e =
     (if (op = EPOLL_CTL_ADD) = (k h = None)
      then (0, k(h := if op = EPOLL_CTL_DEL then None else Some e)) else (- 1, k))"

lemma ideal_ctl_spec: "epoll_ctl_spec (\<lambda>k. k) ideal_ctl"
  by (simp add: epoll_ctl_spec_def ideal_ctl_def)

lemma ideal_ctl_accepts: "epoll_ctl_accepts (\<lambda>k. k) ideal_ctl"
  by (simp add: epoll_ctl_accepts_def ideal_ctl_def)

lemma mirrors_new: "interest k = (\<lambda>_. None) \<Longrightarrow> mirrors interest k new_epoller"
  by (simp add: mirrors_def new_epoller_def)

lemma accepted:
  assumes "epoll_ctl_accepts interest ctl" and "op = EPOLL_CTL_ADD \<longleftrightarrow> interest k h = None"
  obtains k' where "ctl k op h e = (0, k')"
proof
  have "fst (ctl k op h e) = 0" using assms by (simp add: epoll_ctl_accepts_def)
  then show "ctl k op h e = (0, snd (ctl k op h e))" by (metis prod.collapse)
qed

text \<open>With such a kernel the two operations fail on exactly the calls the comments name.\<close>

lemma add_accepted:
  assumes spec: "epoll_ctl_spec interest ctl" and acc: "epoll_ctl_accepts interest ctl"
    and m: "mirrors interest k p"
  shows "\<exists>k' p'. add ctl k p h e = (if has p h e then - 1 else 0, k', p') \<and> mirrors interest k' p' \<and>
    interest k' = (if has p h e then interest k
      else (interest k)(h \<mapsto> (case interest k h of None \<Rightarrow> e | Some evs \<Rightarrow> evs OR e)))"
proof (cases "has p h e")
  case True
  then show ?thesis using m by (auto simp: add_def has_def split: option.splits)
next
  case False
  have i: "interest k = map_of (handle_event_map p)" using m by (simp add: mirrors_def)
  have "\<exists>k' p'. add ctl k p h e = (0, k', p')"
  proof (cases "interest k h")
    case None
    then obtain k' where "ctl k EPOLL_CTL_ADD h e = (0, k')"
      using accepted [OF acc, of EPOLL_CTL_ADD k h e] by auto
    then show ?thesis using None i by (simp add: add_def)
  next
    case (Some evs)
    then obtain k' where "ctl k EPOLL_CTL_MOD h (evs OR e) = (0, k')"
      using accepted [OF acc, of EPOLL_CTL_MOD k h "evs OR e"] by auto
    then show ?thesis using Some i False by (simp add: add_def has_def)
  qed
  then obtain k' p' where a: "add ctl k p h e = (0, k', p')" by blast
  show ?thesis unfolding a using False add_law(1,2) [OF spec m a] by simp
qed

lemma del_accepted:
  assumes spec: "epoll_ctl_spec interest ctl" and acc: "epoll_ctl_accepts interest ctl"
    and m: "mirrors interest k p"
  shows "\<exists>k' p'. del ctl k p h e = (if has p h e then 0 else - 1, k', p') \<and> mirrors interest k' p' \<and>
    interest k' = (if has p h e
      then (interest k)(h := (let evs = the (interest k h) AND NOT e in if evs = 0 then None else Some evs))
      else interest k)"
proof (cases "has p h e")
  case False
  then show ?thesis using m by (auto simp: del_def has_def split: option.splits)
next
  case True
  then obtain evs where evs: "map_of (handle_event_map p) h = Some evs" "evs AND e \<noteq> 0"
    by (auto simp: has_def split: option.splits)
  have i: "interest k h = Some evs" using m evs by (simp add: mirrors_def)
  obtain k1 where c1: "ctl k EPOLL_CTL_MOD h (evs AND NOT e) = (0, k1)"
    using accepted [OF acc, of EPOLL_CTL_MOD k h "evs AND NOT e"] i by auto
  have i1: "interest k1 = (interest k)(h \<mapsto> evs AND NOT e)" using ctl_success [OF spec c1] by simp
  obtain k2 where c2: "ctl k1 EPOLL_CTL_DEL h (evs AND NOT e) = (0, k2)"
    using accepted [OF acc, of EPOLL_CTL_DEL k1 h "evs AND NOT e"] i1 by auto
  have i2: "interest k2 = (interest k)(h := None)" using ctl_success [OF spec c2] i1 by simp
  show ?thesis
  proof (cases "evs AND NOT e = 0")
    case z: True
    then obtain p' where "del ctl k p h e = (0, k2, p')" using evs c1 c2 by (simp add: del_def)
    then show ?thesis using True del_law [OF spec m] i i2 z by simp
  next
    case nz: False
    then obtain p' where "del ctl k p h e = (0, k1, p')" using evs c1 by (simp add: del_def)
    then show ?thesis using True del_law [OF spec m] i i1 nz by simp
  qed
qed

subsection \<open>Properties\<close>

text \<open>
  The map of the epoller is the interest list of the kernel, and stays so: \<open>del\<close> keeps it whatever
  the kernel answers, \<open>add\<close> keeps it when it succeeds, and then the new event is in the list.
\<close>

theorem epoller_mirrors_kernel:
  assumes "epoll_ctl_spec interest ctl" and "mirrors interest k p"
  shows "(\<forall>r k' p'. del ctl k p h e = (r, k', p') \<longrightarrow> mirrors interest k' p') \<and>
    (\<forall>k' p'. add ctl k p h e = (0, k', p') \<longrightarrow> mirrors interest k' p' \<and>
      interest k' = (interest k)(h \<mapsto> (case interest k h of None \<Rightarrow> e | Some evs \<Rightarrow> evs OR e)))"
  using del_law [OF assms] add_law(1,2) [OF assms] by blast+

theorem epoller_mirrors_kernel_witness:
  "\<exists>k p. add ideal_ctl (\<lambda>_. None) new_epoller 3 1 = (0, k, p) \<and> mirrors (\<lambda>k. k) k p \<and> k 3 = Some 1"
proof -
  have a: "add ideal_ctl (\<lambda>_. None) new_epoller 3 1 =
      (0, (\<lambda>_. None)(3 \<mapsto> 1), new_epoller\<lparr>handle_event_map := [(3, 1)]\<rparr>)"
    by (simp add: add_def new_epoller_def ideal_ctl_def)
  then show ?thesis
    using epoller_mirrors_kernel [OF ideal_ctl_spec mirrors_new, of "\<lambda>_. None" 3 1]
    by simp
qed

text \<open>A refused \<open>epoll_ctl\<close> is not undone: the event counts as present, and adding it again is refused.\<close>

lemma add_refused_not_undone:
  assumes "map_of (handle_event_map p) h = None" and "ctl k EPOLL_CTL_ADD h e = (- 1, k)" and "e \<noteq> 0"
  shows "\<exists>p'. add ctl k p h e = (- 1, k, p') \<and> has p' h e \<and> add ctl k p' h e = (- 1, k, p')"
  using assms by (simp add: add_def has_def AList.update_conv')

end
