(* ===== verification/Handler_Table.thy ===== *)
theory Handler_Table
  imports Unp_Prelude "HOL-Library.Word"
begin

text \<open>
  The interface of the demultiplexing tables: which event handler is bound to which event of which
  handle. The three reactor implementations keep different tables, \<open>select_demultiplex_table\<close>,
  \<open>poll_demultiplex_table\<close> and \<open>PollEventRepo\<close>; the laws here are what a reactor relies on, and
  what follows from them is proved once.
\<close>

type_synonym handler = nat

text \<open>Bindings one after the other; every one of them has to succeed.\<close>

primrec bind_all :: "('t \<Rightarrow> int \<Rightarrow> 32 word \<Rightarrow> handler \<Rightarrow> (int \<times> 't) option) \<Rightarrow>
    (int \<times> 32 word \<times> handler) list \<Rightarrow> 't \<Rightarrow> 't option" where
  "bind_all bnd [] t = Some t"
| "bind_all bnd (b # bs) t = do {
     (r, t1) \<leftarrow> bnd t (fst b) (fst (snd b)) (snd (snd b));
     if r = 0 then bind_all bnd bs t1 else None
   }"

text \<open>
  \<open>lookup\<close> is the abstract table; \<open>valid\<close> says which handles and event types the implementation
  supports.
\<close>

locale binding_table =
  fixes inv :: "'t \<Rightarrow> bool" and lookup :: "'t \<Rightarrow> int \<Rightarrow> 32 word \<Rightarrow> handler option"
    and valid :: "int \<Rightarrow> 32 word \<Rightarrow> bool"
    and bind_op :: "'t \<Rightarrow> int \<Rightarrow> 32 word \<Rightarrow> handler \<Rightarrow> (int \<times> 't) option"
  assumes bind_law: "inv t \<Longrightarrow> valid h e \<Longrightarrow> lookup t h e = None \<Longrightarrow>
      \<exists>t'. bind_op t h e x = Some (0, t') \<and> inv t' \<and>
        (\<forall>h' e'. lookup t' h' e' = (if h' = h \<and> e' = e then Some x else lookup t h' e'))"
begin

text \<open>Distinct events that are free can all be bound, in any order, and each finds its handler.\<close>

theorem bind_all_lookup:
  assumes "inv t" and "distinct (map (\<lambda>b. (fst b, fst (snd b))) bs)"
    and "\<forall>b \<in> set bs. valid (fst b) (fst (snd b)) \<and> lookup t (fst b) (fst (snd b)) = None"
  shows "\<exists>t'. bind_all bind_op bs t = Some t' \<and> inv t' \<and>
    (\<forall>h e x. (h, e, x) \<in> set bs \<longrightarrow> lookup t' h e = Some x) \<and>
    (\<forall>h e. (\<forall>x. (h, e, x) \<notin> set bs) \<longrightarrow> lookup t' h e = lookup t h e)"
  using assms
proof (induction bs arbitrary: t)
  case Nil
  then show ?case by simp
next
  case (Cons b bs)
  obtain h e x where b: "b = (h, e, x)" by (cases b)
  obtain t1 where t1: "bind_op t h e x = Some (0, t1)" "inv t1"
    "\<And>h' e'. lookup t1 h' e' = (if h' = h \<and> e' = e then Some x else lookup t h' e')"
    using bind_law [OF Cons.prems(1), of h e x] Cons.prems(3) b by auto
  have new: "(h, e, y) \<notin> set bs" for y
    using Cons.prems(2) b by force
  have "\<forall>c \<in> set bs. valid (fst c) (fst (snd c)) \<and> lookup t1 (fst c) (fst (snd c)) = None"
    using Cons.prems(3) t1(3) new by (auto split: if_splits)
  then obtain t' where t': "bind_all bind_op bs t1 = Some t'" "inv t'"
    "\<And>h e x. (h, e, x) \<in> set bs \<Longrightarrow> lookup t' h e = Some x"
    "\<And>h e. (\<And>x. (h, e, x) \<notin> set bs) \<Longrightarrow> lookup t' h e = lookup t1 h e"
    using Cons.IH [OF t1(2)] Cons.prems(2) by auto
  have "lookup t' h e = Some x" using t'(4) [of h e] new t1(3) by simp
  moreover have "lookup t' h' e' = lookup t h' e'" if "\<And>y. (h', e', y) \<notin> set (b # bs)" for h' e'
  proof -
    have "\<not> (h' = h \<and> e' = e)" using that [of x] b by auto
    then show ?thesis using t'(4) [of h' e'] that t1(3) by auto
  qed
  ultimately show ?case using t'(1-3) t1(1) b by auto
qed

end

text \<open>Tables whose bindings can be undone.\<close>

locale handler_table = binding_table inv lookup valid bind_op
  for inv :: "'t \<Rightarrow> bool" and lookup valid bind_op +
  fixes unbind_op :: "'t \<Rightarrow> int \<Rightarrow> 32 word \<Rightarrow> handler \<Rightarrow> (int \<times> 't) option"
  assumes unbind_law: "inv t \<Longrightarrow> valid h e \<Longrightarrow> lookup t h e = Some x \<Longrightarrow>
      \<exists>t'. unbind_op t h e x = Some (0, t') \<and> inv t' \<and>
        (\<forall>h' e'. lookup t' h' e' = (if h' = h \<and> e' = e then None else lookup t h' e'))"
    and unbind_refused: "inv t \<Longrightarrow> valid h e \<Longrightarrow> lookup t h e \<noteq> Some x \<Longrightarrow>
      \<exists>t'. unbind_op t h e x = Some (- 1, t') \<and> inv t' \<and> lookup t' = lookup t"
begin

text \<open>Unbinding what has just been bound restores the table.\<close>

theorem bind_unbind:
  assumes "inv t" and "valid h e" and "lookup t h e = None"
  shows "\<exists>t1 t2. bind_op t h e x = Some (0, t1) \<and> lookup t1 h e = Some x \<and>
    unbind_op t1 h e x = Some (0, t2) \<and> inv t2 \<and> lookup t2 = lookup t"
proof -
  obtain t1 where t1: "bind_op t h e x = Some (0, t1)" "inv t1"
    "\<And>h' e'. lookup t1 h' e' = (if h' = h \<and> e' = e then Some x else lookup t h' e')"
    using bind_law [OF assms] by blast
  then obtain t2 where t2: "unbind_op t1 h e x = Some (0, t2)" "inv t2"
    "\<And>h' e'. lookup t2 h' e' = (if h' = h \<and> e' = e then None else lookup t1 h' e')"
    using unbind_law [OF t1(2) assms(2), of x] by auto
  then have "lookup t2 = lookup t" using t1(3) assms(3) by (intro ext) auto
  then show ?thesis using t1 t2 by auto
qed

end

end
