(* ===== verification/Event_Repo.thy ===== *)
theory Event_Repo
  imports Handler_Table Socket "HOL-Library.AList"
begin

text \<open>
  \<open>PollEventRepo\<close> of \<open>src/reactor/poll_demultiplex_table.h\<close> and \<open>.cpp\<close>, the table of the epoll
  reactor: per handle a map from event types to handlers, the set of handles that have one,
  and the timeout handlers ordered by expiration time. Maps are association lists with distinct
  keys, the one of the time points in increasing order; the order of the event types in one
  entry is observed by the file reactor only, which sorts them. The operations that change the table of a handle hold the mutex, so
  each is one step. A handler is its address, which orders the sets of handlers, and \<open>None\<close> is
  the null pointer; \<open>expiration\<close> says when a handler that is a \<open>TimeoutHandler\<close> expires, and is
  \<open>None\<close> for one that \<open>dynamic_cast\<close> refuses.
\<close>

subsection \<open>State and operations\<close>

record event_repo =
  handle_set :: "int set"
  events_table :: "(event_type \<times> handler) list list"
  timeout_handlers :: "(int \<times> handler list) list"

definition new_repo :: event_repo where
  "new_repo = \<lparr>handle_set = {}, events_table = [], timeout_handlers = []\<rparr>"

text \<open>The entry of a time point in an ordered map, which is created when it is missing.\<close>

fun update_time :: "int \<Rightarrow> (handler list \<Rightarrow> handler list) \<Rightarrow> (int \<times> handler list) list \<Rightarrow>
    (int \<times> handler list) list" where
  "update_time t f [] = [(t, f [])]"
| "update_time t f ((u, hs) # m) =
     (if t < u then (t, f []) # (u, hs) # m
      else if t = u then (u, f hs) # m
      else (u, hs) # update_time t f m)"

definition handlers_at :: "int \<Rightarrow> (int \<times> handler list) list \<Rightarrow> handler list" where
  "handlers_at t m = (case map_of m t of Some hs \<Rightarrow> hs | None \<Rightarrow> [])"

text \<open>\<open>vector::resize\<close> to a larger size.\<close>

definition grow :: "nat \<Rightarrow> 'a \<Rightarrow> 'a list \<Rightarrow> 'a list" where
  "grow n x xs = xs @ replicate (n - length xs) x"

definition bindNew :: "(handler \<Rightarrow> int option) \<Rightarrow> event_repo \<Rightarrow> int \<Rightarrow> event_type \<Rightarrow> handler option \<Rightarrow>
    int \<times> event_repo" where
  "bindNew expiration r handle event0 h =
     (let event = (if event0 = ACCEPT_EVENT then READ_EVENT else event0)
      in case h of
           None \<Rightarrow> (- 1, r)
         | Some x \<Rightarrow>
             if event = NONE then (- 1, r)
             else if event = TIMEOUT_EVENT then
               (case expiration x of
                  None \<Rightarrow> (- 1, r)
                | Some t \<Rightarrow>
                    if x \<in> set (handlers_at t (timeout_handlers r))
                    then (- 1, r)
                    else (0, r\<lparr>timeout_handlers :=
                                update_time t (insort x) (timeout_handlers r)\<rparr>))
             else if handle = INVALID_HANDLE then (- 1, r)
             else
               let n = nat (handle mod 2 ^ 32);
                   tab = grow (n + 1) [] (events_table r)
               in (0, r\<lparr>handle_set := insert handle (handle_set r),
                        events_table := tab[n := AList.update event x (tab ! n)]\<rparr>))"

text \<open>
  \<open>unbind\<close> of one event. The table is indexed with the handle itself, so a negative one in the
  handle set is out of range, which is \<open>None\<close>.
\<close>

definition unbind :: "(handler \<Rightarrow> int option) \<Rightarrow> event_repo \<Rightarrow> int \<Rightarrow> event_type \<Rightarrow> handler option \<Rightarrow>
    (int \<times> event_repo) option" where
  "unbind expiration r handle event h =
     (case h of
        None \<Rightarrow> Some (- 1, r)
      | Some x \<Rightarrow>
          if event = NONE then Some (- 1, r)
          else if event = TIMEOUT_EVENT then
            (case expiration x of
               None \<Rightarrow> Some (- 1, r)
             | Some t \<Rightarrow>
                 if map_of (timeout_handlers r) t = None then Some (- 1, r)
                 else if x \<notin> set (handlers_at t (timeout_handlers r)) then Some (- 1, r)
                 else Some (0, r\<lparr>timeout_handlers :=
                                  update_time t (remove1 x) (timeout_handlers r)\<rparr>))
          else if handle \<notin> handle_set r then Some (- 1, r)
          else do {
            evs \<leftarrow> at (events_table r) handle;
            if map_of evs event = None then Some (- 1, r)
            else if map_of evs event \<noteq> Some x then Some (- 1, r)
            else do {
              let evs1 = AList.delete event evs;
              let r1 = r\<lparr>events_table := (events_table r)[nat handle := evs1]\<rparr>;
              Some (0, if evs1 = [] then r1\<lparr>handle_set := handle_set r1 - {handle}\<rparr> else r1)
            }
          })"

definition unbindTimeoutHandlers :: "event_repo \<Rightarrow> int \<Rightarrow> int \<times> event_repo" where
  "unbindTimeoutHandlers r tp =
     (if map_of (timeout_handlers r) tp = None then (- 1, r)
      else (0, r\<lparr>timeout_handlers := AList.delete tp (timeout_handlers r)\<rparr>))"

definition getHandler :: "event_repo \<Rightarrow> int \<Rightarrow> event_type \<Rightarrow> handler option" where
  "getHandler r handle type =
     (if handle = INVALID_HANDLE \<or> type = NONE then None
      else
        let n = nat (handle mod 2 ^ 32)
        in if length (events_table r) \<le> n then None else map_of (events_table r ! n) type)"

definition hasTimeoutHandler :: "event_repo \<Rightarrow> bool" where
  "hasTimeoutHandler r \<longleftrightarrow> timeout_handlers r \<noteq> []"

definition getLatestTimeoutHandlers :: "event_repo \<Rightarrow> handler list" where
  "getLatestTimeoutHandlers r = (case timeout_handlers r of [] \<Rightarrow> [] | (t, hs) # _ \<Rightarrow> hs)"

text \<open>\<open>TimePoint_T::max()\<close> without timeout handlers.\<close>

definition TIME_MAX :: int where "TIME_MAX = 9223372036854775807"

definition getLastestTimeoutPoint :: "event_repo \<Rightarrow> int" where
  "getLastestTimeoutPoint r = (case timeout_handlers r of [] \<Rightarrow> TIME_MAX | (t, hs) # _ \<Rightarrow> t)"

text \<open>\<open>unbind\<close> of all events of a handle.\<close>

definition unbind_handle :: "event_repo \<Rightarrow> int \<Rightarrow> int \<times> event_repo" where
  "unbind_handle r handle =
     (if handle = INVALID_HANDLE then (- 1, r)
      else
        let n = nat (handle mod 2 ^ 32)
        in if length (events_table r) \<le> n \<or> length (events_table r ! n) = 0 then (- 1, r)
           else (0, r\<lparr>handle_set := {}, events_table := (events_table r)[n := []]\<rparr>))"

definition hasHandle :: "event_repo \<Rightarrow> int \<Rightarrow> bool" where
  "hasHandle r handle \<longleftrightarrow> handle \<in> handle_set r"

definition handleCount :: "event_repo \<Rightarrow> nat" where
  "handleCount r = card (handle_set r)"

definition clear_repo :: "event_repo \<Rightarrow> event_repo" where
  "clear_repo r = r\<lparr>events_table := [], handle_set := {}\<rparr>"

definition getHandlers :: "event_repo \<Rightarrow> int \<Rightarrow> (event_type \<times> handler) list option" where
  "getHandlers r handle = (if handle \<in> handle_set r then at (events_table r) handle else Some [])"

subsection \<open>Invariant\<close>

text \<open>
  The keys of every map are distinct, time points are increasing, and the handle set holds exactly
  the non-negative handles with at least one event.
\<close>

definition repo_ok :: "event_repo \<Rightarrow> bool" where
  "repo_ok r \<longleftrightarrow>
     (\<forall>evs \<in> set (events_table r). distinct (map fst evs)) \<and>
     handle_set r = {h. 0 \<le> h \<and> h < int (length (events_table r)) \<and> events_table r ! nat h \<noteq> []} \<and>
     sorted_wrt (<) (map fst (timeout_handlers r)) \<and>
     (\<forall>(t, hs) \<in> set (timeout_handlers r). distinct hs)"

lemma length_grow [simp]: "length (grow n x xs) = max n (length xs)"
  by (simp add: grow_def)

lemma nth_grow: "i < max n (length xs) \<Longrightarrow> grow n x xs ! i = (if i < length xs then xs ! i else x)"
  by (auto simp: grow_def nth_append)

lemma set_grow: "set (grow n x xs) \<subseteq> insert x (set xs)"
  by (auto simp: grow_def)

lemma new_repo_ok: "repo_ok new_repo"
  by (simp add: repo_ok_def new_repo_def)

subsection \<open>Binding and unbinding\<close>

text \<open>Handles are non-negative \<open>int\<close>s; the event types are the ones kept per handle.\<close>

definition repo_valid :: "int \<Rightarrow> event_type \<Rightarrow> bool" where
  "repo_valid h e \<longleftrightarrow> 0 \<le> h \<and> h < 2147483648 \<and> e \<noteq> NONE \<and> e \<noteq> TIMEOUT_EVENT \<and> e \<noteq> ACCEPT_EVENT"

definition repo_lookup :: "event_repo \<Rightarrow> int \<Rightarrow> event_type \<Rightarrow> handler option" where
  "repo_lookup r h e = (if 0 \<le> h \<and> h < 2147483648 then getHandler r h e else None)"

lemma handle_index: "0 \<le> h \<Longrightarrow> h < 2147483648 \<Longrightarrow> nat (h mod 2 ^ 32) = nat h"
  by simp

lemma repo_lookup_table:
  "repo_lookup r h e =
     (if 0 \<le> h \<and> h < 2147483648 \<and> e \<noteq> NONE \<and> nat h < length (events_table r)
      then map_of (events_table r ! nat h) e else None)"
  by (auto simp: repo_lookup_def getHandler_def INVALID_HANDLE_def Let_def handle_index)

lemma distinct_keys_update:
  assumes "\<forall>evs \<in> set tab. distinct (map fst evs)" and "distinct (map fst new)"
  shows "\<forall>evs \<in> set (tab[n := new]). distinct (map fst evs)"
  using assms set_update_subset_insert [of tab n new] by auto

lemma repo_bind_law:
  assumes ok: "repo_ok r" and v: "repo_valid h e"
  shows "\<exists>r'. bindNew ex r h e (Some x) = (0, r') \<and> repo_ok r' \<and>
    (\<forall>h' e'. repo_lookup r' h' e' = (if h' = h \<and> e' = e then Some x else repo_lookup r h' e'))"
proof -
  have h: "0 \<le> h" "h < 2147483648" "e \<noteq> NONE" "e \<noteq> TIMEOUT_EVENT" "e \<noteq> ACCEPT_EVENT"
    "h \<noteq> INVALID_HANDLE" "nat (h mod 2 ^ 32) = nat h"
    using v by (auto simp: repo_valid_def INVALID_HANDLE_def)
  define tab where "tab = grow (nat h + 1) [] (events_table r)"
  define r' where "r' = r\<lparr>handle_set := insert h (handle_set r),
    events_table := tab[nat h := AList.update e x (tab ! nat h)]\<rparr>"
  have bind: "bindNew ex r h e (Some x) = (0, r')"
    using h by (simp add: bindNew_def Let_def tab_def r'_def)
  have len: "nat h < length tab" "length (events_table r) \<le> length tab" by (simp_all add: tab_def)
  have tab: "tab ! i = (if i < length (events_table r) then events_table r ! i else [])"
    if "i < length tab" for i
    using that by (auto simp: tab_def nth_grow)
  have dist: "\<forall>evs \<in> set tab. distinct (map fst evs)"
    using ok set_grow [of "nat h + 1" "[]" "events_table r"] by (auto simp: repo_ok_def tab_def)
  then have "distinct (map fst (AList.update e x (tab ! nat h)))"
    using len by (simp add: distinct_update)
  then have 1: "\<forall>evs \<in> set (events_table r'). distinct (map fst evs)"
    using distinct_keys_update [OF dist] by (simp add: r'_def)
  have hs: "g \<in> handle_set r \<longleftrightarrow>
    0 \<le> g \<and> g < int (length (events_table r)) \<and> events_table r ! nat g \<noteq> []" for g
    using ok unfolding repo_ok_def by blast
  have "g \<in> handle_set r' \<longleftrightarrow>
    0 \<le> g \<and> g < int (length (events_table r')) \<and> events_table r' ! nat g \<noteq> []" for g
  proof (cases "g = h")
    case True
    then show ?thesis using len h by (simp add: r'_def update_nonempty)
  next
    case False
    show ?thesis
    proof (cases "0 \<le> g")
      case True
      then have "nat g \<noteq> nat h" using False h by simp
      then show ?thesis using True False hs [of g] len(2) tab [of "nat g"]
        by (auto simp: r'_def nat_less_iff split: if_splits)
    next
      case False
      then show ?thesis using hs [of g] h by (auto simp: r'_def)
    qed
  qed
  then have 2: "repo_ok r'" using 1 ok by (auto simp: repo_ok_def r'_def)
  have "repo_lookup r' h' e' = (if h' = h \<and> e' = e then Some x else repo_lookup r h' e')" for h' e'
  proof (cases "h' = h")
    case True
    then show ?thesis using h len tab [of "nat h"]
      by (simp add: repo_lookup_table r'_def AList.update_conv')
  next
    case False
    then have "nat h' \<noteq> nat h" if "0 \<le> h'" using that h by simp
    then show ?thesis using False len tab [of "nat h'"]
      by (auto simp: repo_lookup_table r'_def)
  qed
  then show ?thesis using bind 2 by blast
qed

lemma repo_at: "repo_ok r \<Longrightarrow> h \<in> handle_set r \<Longrightarrow>
  0 \<le> h \<and> nat h < length (events_table r) \<and> at (events_table r) h = Some (events_table r ! nat h)"
  by (auto simp: repo_ok_def at_def)

lemma repo_ok_iff_handles:
  "repo_ok r \<longleftrightarrow>
     (\<forall>evs \<in> set (events_table r). distinct (map fst evs)) \<and>
     (\<forall>g. g \<in> handle_set r \<longleftrightarrow>
        0 \<le> g \<and> g < int (length (events_table r)) \<and> events_table r ! nat g \<noteq> []) \<and>
     sorted_wrt (<) (map fst (timeout_handlers r)) \<and>
     (\<forall>(t, hs) \<in> set (timeout_handlers r). distinct hs)"
  by (auto simp: repo_ok_def)

text \<open>The entry of a handle is replaced, and the handle is forgotten with its last event.\<close>

lemma repo_ok_replace:
  assumes ok: "repo_ok r" and h: "h \<in> handle_set r" and d: "distinct (map fst evs1)"
  shows "repo_ok (r\<lparr>events_table := (events_table r)[nat h := evs1],
    handle_set := (if evs1 = [] then handle_set r - {h} else handle_set r)\<rparr>)"
proof -
  let ?tab = "(events_table r)[nat h := evs1]"
  have hs: "g \<in> handle_set r \<longleftrightarrow>
    0 \<le> g \<and> g < int (length (events_table r)) \<and> events_table r ! nat g \<noteq> []" for g
    using ok unfolding repo_ok_iff_handles by blast
  have "?tab ! nat g = events_table r ! nat g" if "0 \<le> g" "g \<noteq> h" for g
  proof -
    have "nat g \<noteq> nat h" using that h hs [of h] by auto
    then show ?thesis by simp
  qed
  then have "g \<in> (if evs1 = [] then handle_set r - {h} else handle_set r) \<longleftrightarrow>
      0 \<le> g \<and> g < int (length ?tab) \<and> ?tab ! nat g \<noteq> []" for g
    using h hs [of g] by (cases "g = h") auto
  moreover have "\<forall>evs \<in> set ?tab. distinct (map fst evs)"
    by (rule distinct_keys_update [OF _ d]) (use ok in \<open>simp add: repo_ok_def\<close>)
  ultimately show ?thesis using ok unfolding repo_ok_iff_handles by simp
qed

lemma repo_unbind_law:
  assumes ok: "repo_ok r" and v: "repo_valid h e" and l: "repo_lookup r h e = Some x"
  shows "\<exists>r'. unbind ex r h e (Some x) = Some (0, r') \<and> repo_ok r' \<and>
    (\<forall>h' e'. repo_lookup r' h' e' = (if h' = h \<and> e' = e then None else repo_lookup r h' e'))"
proof -
  have h: "0 \<le> h" "h < 2147483648" "e \<noteq> NONE" "e \<noteq> TIMEOUT_EVENT" "nat h < length (events_table r)"
    "map_of (events_table r ! nat h) e = Some x"
    using v l by (auto simp: repo_valid_def repo_lookup_table split: if_splits)
  define evs1 where "evs1 = AList.delete e (events_table r ! nat h)"
  define tab where "tab = (events_table r)[nat h := evs1]"
  define r' where "r' = r\<lparr>events_table := tab,
    handle_set := (if evs1 = [] then handle_set r - {h} else handle_set r)\<rparr>"
  have mem: "h \<in> handle_set r" using h ok by (auto simp: repo_ok_iff_handles)
  have step: "unbind ex r h e (Some x) = Some (0, r')"
    using h mem repo_at [OF ok mem] by (simp add: unbind_def Let_def evs1_def tab_def r'_def)
  have "distinct (map fst (events_table r ! nat h))" using ok h by (simp add: repo_ok_def)
  then have 2: "repo_ok r'"
    unfolding r'_def tab_def by (intro repo_ok_replace [OF ok mem]) (simp add: evs1_def distinct_delete)
  have other: "tab ! nat g = events_table r ! nat g" if "0 \<le> g" "g \<noteq> h" for g
    using that h by (simp add: tab_def)
  have "repo_lookup r' h' e' = (if h' = h \<and> e' = e then None else repo_lookup r h' e')" for h' e'
    using h other [of h'] by (cases "h' = h")
      (auto simp: repo_lookup_table r'_def tab_def evs1_def AList.delete_conv')
  then show ?thesis using step 2 by blast
qed

lemma repo_unbind_refused:
  assumes ok: "repo_ok r" and v: "repo_valid h e" and l: "repo_lookup r h e \<noteq> Some x"
  shows "unbind ex r h e (Some x) = Some (- 1, r)"
  using v l repo_at [OF ok, of h]
  by (auto simp: unbind_def repo_valid_def repo_lookup_table)

text \<open>The table of the epoll reactor keeps the contract of a demultiplexing table.\<close>

interpretation repo: handler_table repo_ok repo_lookup repo_valid
  "\<lambda>r h e x. Some (bindNew ex r h e (Some x))" "\<lambda>r h e x. unbind ex r h e (Some x)"
  by unfold_locales (use repo_bind_law repo_unbind_law repo_unbind_refused in \<open>fastforce+\<close>)


subsection \<open>Timeout handlers\<close>

lemma update_time_keys:
  "set (map fst (update_time t f m)) = insert t (set (map fst m))"
  by (induction t f m rule: update_time.induct) auto

lemma update_time_sorted:
  "sorted_wrt (<) (map fst m) \<Longrightarrow> sorted_wrt (<) (map fst (update_time t f m))"
proof (induction t f m rule: update_time.induct)
  case (2 t f u hs m)
  then show ?case using update_time_keys [of t f m] by (auto simp del: set_map)
qed simp

lemma map_of_update_time:
  "sorted_wrt (<) (map fst m) \<Longrightarrow>
     map_of (update_time t f m) = (map_of m)(t \<mapsto> f (handlers_at t m))"
proof (induction t f m rule: update_time.induct)
  case (1 t f)
  then show ?case by (simp add: handlers_at_def)
next
  case (2 t f u hs m)
  have "map_of m t = None" if "t < u"
    using that 2(2) by (auto simp: map_of_eq_None_iff)
  then show ?case using 2 by (auto simp: handlers_at_def fun_eq_iff)
qed

lemma handlers_at_update_time:
  "sorted_wrt (<) (map fst m) \<Longrightarrow>
     handlers_at u (update_time t f m) = (if u = t then f (handlers_at t m) else handlers_at u m)"
  by (auto simp: map_of_update_time handlers_at_def)

lemma sorted_keys_map_of:
  "sorted_wrt (<) (map fst m) \<Longrightarrow> (k, v) \<in> set m \<longleftrightarrow> map_of m k = Some (v::'b)"
  for m :: "(int \<times> 'b) list"
  using strict_sorted_iff [of "map fst m"] by simp

lemma handlers_at_distinct: "repo_ok r \<Longrightarrow> distinct (handlers_at t (timeout_handlers r))"
  by (auto simp: repo_ok_def handlers_at_def split: option.splits dest!: map_of_SomeD)

lemma repo_ok_update_time:
  assumes "repo_ok r" and "distinct (f (handlers_at t (timeout_handlers r)))"
  shows "repo_ok (r\<lparr>timeout_handlers := update_time t f (timeout_handlers r)\<rparr>)"
proof -
  let ?m = "timeout_handlers r"
  have s: "sorted_wrt (<) (map fst ?m)" using assms(1) by (simp add: repo_ok_def)
  note s' = update_time_sorted [OF s, of t f]
  have "distinct hs" if "(u, hs) \<in> set (update_time t f ?m)" for u hs
    using that assms s s' by (auto simp: sorted_keys_map_of map_of_update_time repo_ok_def
        split: if_splits)
  then show ?thesis using assms(1) s' by (auto simp: repo_ok_def)
qed

lemma latest_point:
  assumes "sorted_wrt (<) (map fst m)" and "m \<noteq> []"
  shows "fst (hd m) = Min (set (map fst m))"
  using assms by (cases m) (auto intro!: Min_eqI [symmetric])

text \<open>The earliest of the time points comes first.\<close>

lemma getLastestTimeoutPoint_Min:
  assumes "repo_ok r" and "hasTimeoutHandler r"
  shows "getLastestTimeoutPoint r = Min (fst ` set (timeout_handlers r))"
  using assms latest_point [of "timeout_handlers r"]
  by (auto simp: getLastestTimeoutPoint_def hasTimeoutHandler_def repo_ok_def
      split: list.splits)

lemma bind_timeout_law:
  assumes ok: "repo_ok r" and ex: "ex x = Some t"
    and new: "x \<notin> set (handlers_at t (timeout_handlers r))"
  shows "\<exists>r'. bindNew ex r h TIMEOUT_EVENT (Some x) = (0, r') \<and> repo_ok r' \<and>
    (\<forall>u. set (handlers_at u (timeout_handlers r')) =
       (if u = t then insert x (set (handlers_at t (timeout_handlers r)))
        else set (handlers_at u (timeout_handlers r)))) \<and>
    getLastestTimeoutPoint r' = (if hasTimeoutHandler r then min t (getLastestTimeoutPoint r) else t) \<and>
    repo_lookup r' = repo_lookup r"
proof -
  define r' where "r' = r\<lparr>timeout_handlers := update_time t (insort x) (timeout_handlers r)\<rparr>"
  have s: "sorted_wrt (<) (map fst (timeout_handlers r))" using ok by (simp add: repo_ok_def)
  have ok': "repo_ok r'" unfolding r'_def
    by (rule repo_ok_update_time) (use ok new in \<open>simp_all add: distinct_insort handlers_at_distinct\<close>)
  have keys: "fst ` set (timeout_handlers r') = insert t (fst ` set (timeout_handlers r))"
    using update_time_keys [of t "insort x" "timeout_handlers r"] by (simp add: r'_def)
  have ht: "hasTimeoutHandler r'"
    using keys by (auto simp: hasTimeoutHandler_def)
  have "getLastestTimeoutPoint r' = (if hasTimeoutHandler r then min t (getLastestTimeoutPoint r) else t)"
  proof (cases "hasTimeoutHandler r")
    case True
    then show ?thesis
      using getLastestTimeoutPoint_Min [OF ok' ht] getLastestTimeoutPoint_Min [OF ok True] keys
      by (simp add: hasTimeoutHandler_def)
  next
    case False
    then show ?thesis using getLastestTimeoutPoint_Min [OF ok' ht] keys
      by (simp add: hasTimeoutHandler_def)
  qed
  moreover have "bindNew ex r h TIMEOUT_EVENT (Some x) = (0, r')"
    using ex new by (simp add: bindNew_def r'_def event_defs)
  moreover have "set (handlers_at u (timeout_handlers r')) =
       (if u = t then insert x (set (handlers_at t (timeout_handlers r)))
        else set (handlers_at u (timeout_handlers r)))" for u
    using s by (simp add: r'_def handlers_at_update_time set_insort_key)
  moreover have "repo_lookup r' = repo_lookup r"
    by (intro ext) (simp add: repo_lookup_table r'_def)
  ultimately show ?thesis using ok' by blast
qed

text \<open>
  A timeout handler that is unbound again leaves its time point behind with an empty set: the
  earliest point is then one at which nobody expires.
\<close>

lemma unbind_timeout_law:
  assumes ok: "repo_ok r" and ex: "ex x = Some t"
    and mem: "x \<in> set (handlers_at t (timeout_handlers r))"
  shows "\<exists>r'. unbind ex r h TIMEOUT_EVENT (Some x) = Some (0, r') \<and> repo_ok r' \<and>
    (\<forall>u. set (handlers_at u (timeout_handlers r')) =
       set (handlers_at u (timeout_handlers r)) - (if u = t then {x} else {})) \<and>
    fst ` set (timeout_handlers r') = fst ` set (timeout_handlers r)"
proof -
  define r' where "r' = r\<lparr>timeout_handlers := update_time t (remove1 x) (timeout_handlers r)\<rparr>"
  have s: "sorted_wrt (<) (map fst (timeout_handlers r))" using ok by (simp add: repo_ok_def)
  note d = handlers_at_distinct [OF ok, of t]
  have ok': "repo_ok r'" unfolding r'_def
    by (rule repo_ok_update_time) (use ok d in \<open>simp_all add: distinct_remove1\<close>)
  have in_map: "map_of (timeout_handlers r) t \<noteq> None"
    using mem by (cases "map_of (timeout_handlers r) t") (simp_all add: handlers_at_def)
  then have "t \<in> fst ` set (timeout_handlers r)" by (simp add: map_of_eq_None_iff)
  then have "fst ` set (timeout_handlers r') = fst ` set (timeout_handlers r)"
    using update_time_keys [of t "remove1 x" "timeout_handlers r"]
    by (simp add: r'_def insert_absorb)
  moreover have "unbind ex r h TIMEOUT_EVENT (Some x) = Some (0, r')"
    using ex mem in_map by (simp add: unbind_def r'_def event_defs)
  moreover have "set (handlers_at u (timeout_handlers r')) =
       set (handlers_at u (timeout_handlers r)) - (if u = t then {x} else {})" for u
    using s d by (simp add: r'_def handlers_at_update_time set_remove1_eq)
  ultimately show ?thesis using ok' by blast
qed


subsection \<open>Every reachable table is well formed\<close>

text \<open>The calls on the table; what is bound is a handle that the kernel gives out or \<open>INVALID_HANDLE\<close>.\<close>

definition kernel_handle :: "int \<Rightarrow> bool" where
  "kernel_handle h \<longleftrightarrow> h = INVALID_HANDLE \<or> 0 \<le> h \<and> h < 2147483648"

datatype repo_op =
    Op_bindNew int event_type "handler option"
  | Op_unbind int event_type "handler option"
  | Op_unbind_handle int
  | Op_unbindTimeoutHandlers int
  | Op_clear

fun repo_do :: "(handler \<Rightarrow> int option) \<Rightarrow> repo_op \<Rightarrow> event_repo \<Rightarrow> event_repo option" where
  "repo_do ex (Op_bindNew h e x) r = Some (snd (bindNew ex r h e x))"
| "repo_do ex (Op_unbind h e x) r = map_option snd (unbind ex r h e x)"
| "repo_do ex (Op_unbind_handle h) r = Some (snd (unbind_handle r h))"
| "repo_do ex (Op_unbindTimeoutHandlers tp) r = Some (snd (unbindTimeoutHandlers r tp))"
| "repo_do ex Op_clear r = Some (clear_repo r)"

fun kernel_op :: "repo_op \<Rightarrow> bool" where
  "kernel_op (Op_bindNew h e x) \<longleftrightarrow> kernel_handle h"
| "kernel_op _ \<longleftrightarrow> True"

text \<open>\<open>unbind(handle)\<close> is harmless when it refuses or when no other handle has events.\<close>

fun sole_op :: "repo_op \<Rightarrow> event_repo \<Rightarrow> bool" where
  "sole_op (Op_unbind_handle h) r \<longleftrightarrow> handle_set r \<subseteq> {h} \<or> fst (unbind_handle r h) = - 1"
| "sole_op _ r \<longleftrightarrow> True"

inductive repo_path :: "(handler \<Rightarrow> int option) \<Rightarrow> (repo_op \<Rightarrow> event_repo \<Rightarrow> bool) \<Rightarrow> event_repo \<Rightarrow> event_repo \<Rightarrow> bool"
  for ex P where
  path_start: "repo_path ex P r r"
| path_step: "repo_path ex P r r1 \<Longrightarrow> P op r1 \<Longrightarrow> kernel_op op \<Longrightarrow> repo_do ex op r1 = Some r2 \<Longrightarrow> repo_path ex P r r2"

lemma bindNew_ok:
  assumes ok: "repo_ok r" and h: "kernel_handle h"
  shows "repo_ok (snd (bindNew ex r h e x))"
proof (cases x)
  case None
  then show ?thesis using ok by (simp add: bindNew_def)
next
  case (Some y)
  consider "e = NONE" | "e = TIMEOUT_EVENT" | "e \<noteq> NONE" "e \<noteq> TIMEOUT_EVENT" "h = INVALID_HANDLE"
    | "e \<noteq> NONE" "e \<noteq> TIMEOUT_EVENT" "0 \<le> h" "h < 2147483648"
    using h unfolding kernel_handle_def by blast
  then show ?thesis
  proof cases
    case 1
    then show ?thesis using ok Some by (simp add: bindNew_def event_defs)
  next
    case 2
    show ?thesis
    proof (cases "ex y")
      case None
      then show ?thesis using ok Some 2 by (simp add: bindNew_def event_defs)
    next
      case t: (Some t)
      show ?thesis
      proof (cases "y \<in> set (handlers_at t (timeout_handlers r))")
        case True
        then show ?thesis using ok Some 2 t by (simp add: bindNew_def event_defs)
      next
        case False
        then show ?thesis using bind_timeout_law [where ex = ex, OF ok t False, of h] Some 2 by auto
      qed
    qed
  next
    case 3
    then show ?thesis using ok Some by (auto simp: bindNew_def event_defs)
  next
    case 4
    define e1 where "e1 = (if e = ACCEPT_EVENT then READ_EVENT else e)"
    have "repo_valid h e1" using 4 by (auto simp: repo_valid_def e1_def event_defs)
    moreover have "bindNew ex r h e x = bindNew ex r h e1 x"
      by (simp add: bindNew_def e1_def event_defs)
    ultimately show ?thesis using repo_bind_law [OF ok, of h e1 ex y] Some by auto
  qed
qed

lemma unbind_defined_ok:
  assumes ok: "repo_ok r"
  shows "\<exists>c r'. unbind ex r h e x = Some (c, r') \<and> repo_ok r'"
proof (cases x)
  case None
  then show ?thesis using ok by (simp add: unbind_def)
next
  case (Some y)
  show ?thesis
  proof (cases "e = TIMEOUT_EVENT")
    case True
    then show ?thesis
      using unbind_timeout_law [OF ok, of ex y _ h] ok Some
      by (cases "ex y") (force simp: unbind_def event_defs)+
  next
    case False
    show ?thesis
    proof (cases "h \<in> handle_set r")
      case True
      have "distinct (map fst (events_table r ! nat h))"
        using ok repo_at [OF ok True] by (simp add: repo_ok_def)
      then show ?thesis
        using repo_ok_replace [OF ok True, of "AList.delete e (events_table r ! nat h)"]
          repo_at [OF ok True] ok Some False
        by (cases "AList.delete e (events_table r ! nat h) = []")
          (simp_all add: unbind_def distinct_delete repo_ok_def)
    next
      case False
      then show ?thesis using ok Some \<open>e \<noteq> TIMEOUT_EVENT\<close> by (simp add: unbind_def)
    qed
  qed
qed

lemma unbindTimeoutHandlers_ok:
  assumes ok: "repo_ok r"
  shows "repo_ok (snd (unbindTimeoutHandlers r tp))"
proof -
  let ?m = "timeout_handlers r"
  have "sorted_wrt (<) (map fst (AList.delete tp ?m))"
    using ok by (simp add: repo_ok_def AList.delete_eq sorted_wrt_filter sorted_wrt_map)
  moreover have "set (AList.delete tp ?m) \<subseteq> set ?m" by (auto simp: AList.delete_eq)
  ultimately show ?thesis using ok by (auto simp: unbindTimeoutHandlers_def repo_ok_def)
qed

lemma sole_unbind_handle_ok:
  assumes ok: "repo_ok r" and sole: "handle_set r \<subseteq> {h}"
  shows "repo_ok (snd (unbind_handle r h))"
proof -
  define n where "n = nat (h mod 2 ^ 32)"
  show ?thesis
  proof (cases "h = INVALID_HANDLE \<or> length (events_table r) \<le> n \<or> events_table r ! n = []")
    case True
    then show ?thesis using ok by (auto simp: unbind_handle_def n_def)
  next
    case False
    have hs: "g \<in> handle_set r \<longleftrightarrow> 0 \<le> g \<and> g < int (length (events_table r)) \<and> events_table r ! nat g \<noteq> []" for g
      using ok unfolding repo_ok_iff_handles by blast
    have "int n = h" using hs [of "int n"] False sole by auto
    then have "events_table r ! nat g = []" if "0 \<le> g" "g < int (length (events_table r))" "g \<noteq> int n" for g
      using hs [of g] sole that by auto
    then have "(events_table r)[n := []] ! nat g = []" if "0 \<le> g" "g < int (length (events_table r))" for g
      using that by (cases "g = int n") (auto simp: nth_list_update)
    moreover have "\<forall>evs \<in> set ((events_table r)[n := []]). distinct (map fst evs)"
      by (rule distinct_keys_update) (use ok in \<open>simp_all add: repo_ok_def\<close>)
    moreover have "snd (unbind_handle r h) = r\<lparr>handle_set := {}, events_table := (events_table r)[n := []]\<rparr>"
      using False by (simp add: unbind_handle_def n_def)
    ultimately show ?thesis using ok unfolding repo_ok_iff_handles by auto
  qed
qed

lemma repo_do_ok:
  assumes "repo_ok r" and "kernel_op op" and "sole_op op r" and "repo_do ex op r = Some r'"
  shows "repo_ok r'"
proof (cases op)
  case (Op_unbind h e x)
  then show ?thesis using assms unbind_defined_ok [OF assms(1), of ex h e x] by auto
next
  case (Op_unbind_handle h)
  have "fst (unbind_handle r h) = - 1 \<Longrightarrow> snd (unbind_handle r h) = r"
    by (auto simp: unbind_handle_def Let_def split: if_splits)
  then show ?thesis using assms Op_unbind_handle sole_unbind_handle_ok [OF assms(1), of h] by auto
next
  case Op_clear
  then show ?thesis using assms by (auto simp: clear_repo_def repo_ok_def)
qed (use assms bindNew_ok unbindTimeoutHandlers_ok in auto)

text \<open>
  What holds whatever is called: the handle set may miss handles with events, and the table is well formed once these
  are put back.
\<close>

definition with_handles :: "event_repo \<Rightarrow> event_repo" where
  "with_handles r = r\<lparr>handle_set := {h. 0 \<le> h \<and> h < int (length (events_table r)) \<and> events_table r ! nat h \<noteq> []}\<rparr>"

definition repo_weak :: "event_repo \<Rightarrow> bool" where
  "repo_weak r \<longleftrightarrow> repo_ok (with_handles r) \<and> handle_set r \<subseteq> handle_set (with_handles r)"

lemma repo_weakI:
  assumes "repo_ok f" and "events_table f = events_table r" and "timeout_handlers f = timeout_handlers r"
    and "handle_set r \<subseteq> handle_set f"
  shows "repo_weak r"
proof -
  have "handle_set f = handle_set (with_handles r)" using assms(1,2) by (simp add: repo_ok_def with_handles_def)
  then have "f = with_handles r" using assms(2,3) by (simp add: with_handles_def)
  then show ?thesis using assms(1,4) by (simp add: repo_weak_def)
qed

lemma bindNew_weak:
  assumes "repo_weak r" and "kernel_handle h"
  shows "repo_weak (snd (bindNew ex r h e x))"
proof (rule repo_weakI)
  show "repo_ok (snd (bindNew ex (with_handles r) h e x))"
    by (rule bindNew_ok) (use assms in \<open>simp_all add: repo_weak_def\<close>)
  have f: "events_table (with_handles r) = events_table r" "timeout_handlers (with_handles r) = timeout_handlers r"
    by (simp_all add: with_handles_def)
  show "events_table (snd (bindNew ex (with_handles r) h e x)) = events_table (snd (bindNew ex r h e x))"
    "timeout_handlers (snd (bindNew ex (with_handles r) h e x)) = timeout_handlers (snd (bindNew ex r h e x))"
    by (simp_all add: bindNew_def f Let_def split: option.split)
  show "handle_set (snd (bindNew ex r h e x)) \<subseteq> handle_set (snd (bindNew ex (with_handles r) h e x))"
    using assms(1) by (auto simp: bindNew_def repo_weak_def f Let_def split: option.split)
qed

lemma unbind_weak:
  assumes "repo_weak r"
  shows "\<exists>c r'. unbind ex r h e x = Some (c, r') \<and> repo_weak r'"
proof (cases "x = None \<or> e = NONE \<or> e \<noteq> TIMEOUT_EVENT \<and> h \<notin> handle_set r")
  case True
  then show ?thesis using assms by (cases x) (auto simp: unbind_def)
next
  case False
  have f: "events_table (with_handles r) = events_table r" "timeout_handlers (with_handles r) = timeout_handlers r"
    "handle_set r \<subseteq> handle_set (with_handles r)"
    using assms by (simp_all add: with_handles_def repo_weak_def)
  obtain c f' where f': "unbind ex (with_handles r) h e x = Some (c, f')" "repo_ok f'"
    using unbind_defined_ok [of "with_handles r" ex h e x] assms by (auto simp: repo_weak_def)
  obtain r' where r': "unbind ex r h e x = Some (c, r')" "events_table f' = events_table r'"
      "timeout_handlers f' = timeout_handlers r'" "handle_set r' \<subseteq> handle_set f'"
    using False f f'(1) by (fastforce simp: unbind_def Let_def split: option.splits if_splits bind_splits)
  then show ?thesis using repo_weakI [OF f'(2)] by blast
qed

lemma unbind_handle_weak:
  assumes "repo_weak r"
  shows "repo_weak (snd (unbind_handle r h))"
proof (cases "fst (unbind_handle r h) = 0")
  case True
  define n where "n = nat (h mod 2 ^ 32)"
  have r': "snd (unbind_handle r h) = r\<lparr>handle_set := {}, events_table := (events_table r)[n := []]\<rparr>"
    using True by (auto simp: unbind_handle_def n_def Let_def split: if_splits)
  have "\<forall>evs \<in> set ((events_table r)[n := []]). distinct (map fst evs)"
    by (rule distinct_keys_update) (use assms in \<open>simp_all add: repo_weak_def repo_ok_def with_handles_def\<close>)
  then show ?thesis using assms by (simp add: r' repo_weak_def repo_ok_def with_handles_def)
next
  case False
  then have "snd (unbind_handle r h) = r" by (auto simp: unbind_handle_def Let_def split: if_splits)
  then show ?thesis using assms by simp
qed

lemma expire_weak: "repo_weak r \<Longrightarrow> repo_weak (snd (unbindTimeoutHandlers r tp))"
  using unbindTimeoutHandlers_ok [of "with_handles r" tp]
  by (intro repo_weakI [of "snd (unbindTimeoutHandlers (with_handles r) tp)"])
    (auto simp: repo_weak_def unbindTimeoutHandlers_def with_handles_def)

lemma repo_do_weak:
  assumes "repo_weak r" and "kernel_op op" and "repo_do ex op r = Some r'"
  shows "repo_weak r'"
proof (cases op)
  case (Op_unbind h e x)
  then show ?thesis using assms unbind_weak [OF assms(1), of ex h e x] by auto
next
  case Op_clear
  then show ?thesis using assms by (auto simp: clear_repo_def repo_weak_def repo_ok_def with_handles_def)
qed (use assms bindNew_weak unbind_handle_weak expire_weak in auto)

lemma repo_ok_weak: "repo_ok r \<Longrightarrow> repo_weak r"
  by (rule repo_weakI) auto

lemma repo_path_inv:
  assumes "repo_path ex P new_repo r"
  shows "repo_weak r \<and> (P \<le> sole_op \<longrightarrow> repo_ok r)"
  using assms
proof (induction new_repo r rule: repo_path.induct)
  case path_start
  show ?case using new_repo_ok repo_ok_weak by blast
next
  case (path_step r1 op r2)
  have "sole_op op r1" if "P \<le> sole_op" using that path_step(3) by (auto simp: le_fun_def)
  then show ?case using path_step repo_do_weak [of r1 op ex r2] repo_do_ok [of r1 op ex r2] by blast
qed

subsection \<open>Properties\<close>

text \<open>
  C17. Whatever sequence of calls is made on the table of events, starting from an empty one and with handles that the
  kernel gives out or \<open>INVALID_HANDLE\<close>: every handle in the handle set has an event, no event is bound twice, the time
  points are in increasing order without repetition, and unbinding an event is defined. When moreover \<open>unbind(handle)\<close>,
  which clears the whole handle set, only ever succeeds on a handle that is the only one with events, then every handle
  with an event is in the handle set.
\<close>

theorem repo_invariant:
  assumes "repo_path ex P new_repo r"
  shows "(\<forall>evs \<in> set (events_table r). distinct (map fst evs)) \<and>
    (\<forall>h \<in> handle_set r. 0 \<le> h \<and> h < int (length (events_table r)) \<and> events_table r ! nat h \<noteq> []) \<and>
    sorted_wrt (<) (map fst (timeout_handlers r)) \<and>
    (\<forall>h e x. unbind ex r h e x \<noteq> None) \<and>
    (P \<le> sole_op \<longrightarrow>
       handle_set r = {h. 0 \<le> h \<and> h < int (length (events_table r)) \<and> events_table r ! nat h \<noteq> []})"
proof -
  have w: "repo_weak r" and ok: "P \<le> sole_op \<longrightarrow> repo_ok r" using repo_path_inv [OF assms] by auto
  have "unbind ex r h e x \<noteq> None" for h e x using unbind_weak [OF w, of ex h e x] by auto
  then show ?thesis using w ok by (auto simp: repo_weak_def with_handles_def repo_ok_def)
qed

theorem repo_invariant_witness:
  "handle_set (snd (bindNew (\<lambda>_. None) (clear_repo new_repo) 3 READ_EVENT (Some 7))) = {3}"
proof -
  let ?r = "snd (bindNew (\<lambda>_. None) (clear_repo new_repo) 3 READ_EVENT (Some 7))"
  have "repo_path (\<lambda>_. None) sole_op new_repo (clear_repo new_repo)"
    by (rule path_step [OF path_start, where op = Op_clear]) simp_all
  then have path: "repo_path (\<lambda>_. None) sole_op new_repo ?r"
    by (rule path_step [where op = "Op_bindNew 3 READ_EVENT (Some 7)"]) (simp_all add: kernel_handle_def)
  have tab: "events_table ?r = [[], [], [], [(READ_EVENT, 7)]]"
    by (simp add: bindNew_def clear_repo_def new_repo_def event_defs grow_def INVALID_HANDLE_def numeral_3_eq_3)
  have only: "0 \<le> g \<and> g < int (length (events_table ?r)) \<and> events_table ?r ! nat g \<noteq> [] \<longleftrightarrow> g = 3" for g
  proof -
    have "g < 0 \<or> 4 \<le> g \<or> g = 0 \<or> g = 1 \<or> g = 2 \<or> g = 3" by arith
    then show ?thesis unfolding tab by (elim disjE) simp_all
  qed
  have "handle_set ?r = {h. 0 \<le> h \<and> h < int (length (events_table ?r)) \<and> events_table ?r ! nat h \<noteq> []}"
    using repo_invariant [OF path] order_refl [of sole_op] by blast
  then show ?thesis unfolding only by simp
qed

text \<open>
  Distinct events of handles that are still free can be bound one after the other; afterwards
  \<open>getHandler\<close> gives for each of them the handler it was bound to, and every other event of every
  other handle is as before.
\<close>

theorem repo_bind_all:
  assumes "repo_ok r" and "distinct (map (\<lambda>b. (fst b, fst (snd b))) bs)"
    and "\<forall>b \<in> set bs. repo_valid (fst b) (fst (snd b)) \<and> repo_lookup r (fst b) (fst (snd b)) = None"
  shows "\<exists>r'. bind_all (\<lambda>r h e x. Some (bindNew ex r h e (Some x))) bs r = Some r' \<and> repo_ok r' \<and>
    (\<forall>h e x. (h, e, x) \<in> set bs \<longrightarrow> getHandler r' h e = Some x) \<and>
    (\<forall>h e. (\<forall>x. (h, e, x) \<notin> set bs) \<longrightarrow> repo_lookup r' h e = repo_lookup r h e)"
proof -
  have "repo_lookup r' h e = getHandler r' h e" if "(h, e, x) \<in> set bs" for r' h e x
    using that assms(3) by (force simp: repo_valid_def repo_lookup_def)
  then show ?thesis using repo.bind_all_lookup [OF assms, of ex] by metis
qed

theorem repo_bind_all_witness:
  "\<exists>r'. bind_all (\<lambda>r h e x. Some (bindNew (\<lambda>_. None) r h e (Some x)))
      [(3, READ_EVENT, 7), (3, WRITE_EVENT, 8), (0, READ_EVENT, 9)] new_repo = Some r' \<and>
    repo_ok r' \<and> getHandler r' 3 WRITE_EVENT = Some 8 \<and> getHandler r' 0 READ_EVENT = Some 9"
  using repo_bind_all [of new_repo "[(3, READ_EVENT, 7), (3, WRITE_EVENT, 8), (0, READ_EVENT, 9)]"
      "\<lambda>_. None", OF new_repo_ok]
  by (auto simp: event_defs repo_valid_def repo_lookup_table new_repo_def)

text \<open>
  Binding and unbinding are inverse: an event that was free is bound, found, and unbound again,
  and the table answers every query as before.
\<close>

theorem repo_bind_unbind:
  assumes "repo_ok r" and "repo_valid h e" and "repo_lookup r h e = None"
  shows "\<exists>r1 r2. bindNew ex r h e (Some x) = (0, r1) \<and> repo_lookup r1 h e = Some x \<and>
    unbind ex r1 h e (Some x) = Some (0, r2) \<and> repo_ok r2 \<and> repo_lookup r2 = repo_lookup r"
  using repo.bind_unbind [OF assms, where ex = ex and x = x] by simp

theorem repo_bind_unbind_witness:
  "\<exists>r1 r2. bindNew (\<lambda>_. None) new_repo 5 READ_EVENT (Some 1) = (0, r1) \<and>
    repo_lookup r1 5 READ_EVENT = Some 1 \<and>
    unbind (\<lambda>_. None) r1 5 READ_EVENT (Some 1) = Some (0, r2) \<and> repo_ok r2 \<and>
    repo_lookup r2 = repo_lookup new_repo"
  using repo_bind_unbind [of new_repo 5 READ_EVENT "\<lambda>_. None" 1, OF new_repo_ok]
  by (simp add: repo_valid_def repo_lookup_table new_repo_def event_defs)

text \<open>
  A timeout handler is filed under its expiration time, and the next time point the reactor waits for is the
  earliest of all.
\<close>

theorem timeout_binding_keeps_earliest:
  assumes "repo_ok r" and "ex x = Some t" and "x \<notin> set (handlers_at t (timeout_handlers r))"
  shows "\<exists>r'. bindNew ex r INVALID_HANDLE TIMEOUT_EVENT (Some x) = (0, r') \<and> repo_ok r' \<and>
    x \<in> set (handlers_at t (timeout_handlers r')) \<and>
    getLastestTimeoutPoint r' =
      (if hasTimeoutHandler r then min t (getLastestTimeoutPoint r) else t)"
  using bind_timeout_law [where ex = ex, OF assms, of INVALID_HANDLE] by fastforce

theorem timeout_binding_keeps_earliest_witness:
  "\<exists>r'. bindNew (\<lambda>_. Some 50) new_repo INVALID_HANDLE TIMEOUT_EVENT (Some 1) = (0, r') \<and>
    repo_ok r' \<and> 1 \<in> set (handlers_at 50 (timeout_handlers r')) \<and> getLastestTimeoutPoint r' = 50"
  using timeout_binding_keeps_earliest [of new_repo "\<lambda>_. Some 50" 1 50, OF new_repo_ok]
  by (simp add: new_repo_def handlers_at_def hasTimeoutHandler_def)

text \<open>
  \<open>unbind(handle)\<close> clears the handle set of all handles: another handle keeps its handler in the table
  but is no longer known, so it can be neither listed nor unbound.
\<close>

lemma unbind_handle_forgets_others:
  assumes "repo_ok r" and "repo_lookup r h e = Some x" and "repo_lookup r g e' = Some y" and "g \<noteq> h"
  shows "\<exists>r'. unbind_handle r h = (0, r') \<and> getHandler r' g e' = Some y \<and> \<not> hasHandle r' g \<and>
    getHandlers r' g = Some [] \<and>
    (e' \<noteq> TIMEOUT_EVENT \<longrightarrow> unbind ex r' g e' (Some y) = Some (- 1, r'))"
proof -
  have h: "0 \<le> h" "h < 2147483648" "nat h < length (events_table r)" "events_table r ! nat h \<noteq> []"
    using assms(2) by (auto simp: repo_lookup_table split: if_splits)
  have g: "0 \<le> g" "g < 2147483648" "nat g < length (events_table r)" "e' \<noteq> NONE"
    "map_of (events_table r ! nat g) e' = Some y"
    using assms(3) by (auto simp: repo_lookup_table split: if_splits)
  have "nat h \<noteq> nat g" using h(1) g(1) assms(4) by auto
  then show ?thesis using h g
    by (simp add: unbind_handle_def getHandler_def hasHandle_def getHandlers_def unbind_def
        INVALID_HANDLE_def Let_def not_le)
qed

text \<open>A listening handle is bound to the read event, but is looked up and unbound under its own event.\<close>

lemma accept_binding_not_found:
  assumes "repo_ok r" and "0 \<le> h" and "h < 2147483648" and "repo_lookup r h ACCEPT_EVENT = None"
  shows "\<exists>r'. bindNew ex r h ACCEPT_EVENT (Some x) = (0, r') \<and> getHandler r' h READ_EVENT = Some x \<and>
    getHandler r' h ACCEPT_EVENT = None \<and> unbind ex r' h ACCEPT_EVENT (Some x) = Some (- 1, r')"
proof -
  have "repo_valid h READ_EVENT" using assms by (simp add: repo_valid_def event_defs)
  from repo_bind_law [OF assms(1) this, of ex x] obtain r' where r':
    "bindNew ex r h READ_EVENT (Some x) = (0, r')" "repo_ok r'"
    "\<And>h' e'. repo_lookup r' h' e' = (if h' = h \<and> e' = READ_EVENT then Some x else repo_lookup r h' e')"
    by blast
  have "bindNew ex r h ACCEPT_EVENT (Some x) = (0, r')"
    using r'(1) by (simp add: bindNew_def event_defs)
  moreover have l: "repo_lookup r' h READ_EVENT = Some x" "repo_lookup r' h ACCEPT_EVENT = None"
    using r'(3) assms(4) by (simp_all add: event_defs)
  moreover have "unbind ex r' h ACCEPT_EVENT (Some x) = Some (- 1, r')"
    using l(2) assms repo_at [OF r'(2), of h]
    by (auto simp: unbind_def repo_lookup_table event_defs)
  ultimately show ?thesis using assms(2,3) by (auto simp: repo_lookup_def)
qed

end
