(* ===== verification/Epoll_Reactor.thy ===== *)
theory Epoll_Reactor
  imports Epoller Event_Repo
begin

unbundle bit_operations_syntax

text \<open>
  \<open>epoll_reactor_impl\<close> of \<open>src/reactor/epoll_reactor_impl.cpp\<close> and the translation of event types in
  \<open>src/reactor/reactor_implementation.cpp\<close>. The reactor owns the table of events, the epoller and the
  array that \<open>epoll_wait\<close> fills. Three parties are parameters: the kernel (\<open>epoll_ctl\<close> and
  \<open>epoll_wait\<close>), the clock, and the callbacks of the registered handlers, which get the reactor, may change its
  registrations, and leave their own effects in \<open>world\<close>. Registrations and the lookups of a dispatch take
  the mutex, so each is one step. Callbacks do not call \<open>handle_events\<close>: a dispatch works on the array
  of one wait.
\<close>

subsection \<open>Event types\<close>

datatype poll_flavour = USING_POLL | USING_EPOLL

definition EPOLLIN :: "32 word" where "EPOLLIN = 1"
definition EPOLLOUT :: "32 word" where "EPOLLOUT = 4"
definition EPOLLERR :: "32 word" where "EPOLLERR = 8"
definition POLLIN :: "32 word" where "POLLIN = 1"
definition POLLOUT :: "32 word" where "POLLOUT = 4"

lemmas poll_defs = EPOLLIN_def EPOLLOUT_def EPOLLERR_def POLLIN_def POLLOUT_def

definition reactor_event_to_poll_event :: "event_type \<Rightarrow> poll_flavour \<Rightarrow> 32 word" where
  "reactor_event_to_poll_event type flavour =
     (let events = 0;
          events = (if type = READ_EVENT \<or> type = ACCEPT_EVENT \<or> type = CONNECT_EVENT
                    then events OR (case flavour of USING_POLL \<Rightarrow> POLLIN | USING_EPOLL \<Rightarrow> EPOLLIN)
                    else events)
      in if type = WRITE_EVENT \<or> type = CONNECT_EVENT
         then events OR (case flavour of USING_POLL \<Rightarrow> POLLOUT | USING_EPOLL \<Rightarrow> EPOLLOUT)
         else events)"

subsection \<open>State\<close>

record ('k, 'w) epoll_reactor =
  fd_count :: int
  ret_events :: "(int \<times> 32 word) list"
  demux_table :: event_repo
  epoller_of :: epoller
  cached_now :: int
  kernel :: 'k
  world :: 'w

datatype callback =
  Handle_input | Handle_output | Handle_timeout | Handle_close | Close_read | Close_write

type_synonym ('k, 'w) callbacks =
  "callback \<Rightarrow> handler \<Rightarrow> int \<Rightarrow> ('k, 'w) epoll_reactor \<Rightarrow> int \<times> ('k, 'w) epoll_reactor"

definition new_epoll_reactor :: "int \<Rightarrow> 'k \<Rightarrow> 'w \<Rightarrow> ('k, 'w) epoll_reactor" where
  "new_epoll_reactor epoll_create_ans k w =
     \<lparr>fd_count = 0, ret_events = [], demux_table = new_repo,
      epoller_of = snd (open_epoller epoll_create_ans new_epoller), cached_now = 0, kernel = k, world = w\<rparr>"

subsection \<open>Registration\<close>

text \<open>Timeout handlers; the result of the table is ignored.\<close>

definition register_timeout :: "(handler \<Rightarrow> int option) \<Rightarrow> handler option \<Rightarrow> event_type \<Rightarrow>
    ('k, 'w) epoll_reactor \<Rightarrow> int \<times> ('k, 'w) epoll_reactor" where
  "register_timeout ex h type r =
     (if h = None \<or> type \<noteq> TIMEOUT_EVENT then (- 1, r)
      else (0, r\<lparr>demux_table := snd (bindNew ex (demux_table r) INVALID_HANDLE type h)\<rparr>))"

definition unregister_timeout :: "(handler \<Rightarrow> int option) \<Rightarrow> handler option \<Rightarrow> event_type \<Rightarrow>
    ('k, 'w) epoll_reactor \<Rightarrow> (int \<times> ('k, 'w) epoll_reactor) option" where
  "unregister_timeout ex h type r =
     (if h = None \<or> type \<noteq> TIMEOUT_EVENT then Some (- 1, r)
      else do {
        (_, d) \<leftarrow> unbind ex (demux_table r) INVALID_HANDLE type h;
        Some (0, r\<lparr>demux_table := d\<rparr>)
      })"

definition register_handler :: "(handler \<Rightarrow> int option) \<Rightarrow> 'k epoll_ctl \<Rightarrow> int \<Rightarrow> handler option \<Rightarrow> event_type \<Rightarrow>
    ('k, 'w) epoll_reactor \<Rightarrow> int \<times> ('k, 'w) epoll_reactor" where
  "register_handler ex ctl handle h type r =
     (if handle = INVALID_HANDLE \<or> h = None \<or> type = NONE then (- 1, r)
      else if getHandler (demux_table r) handle type \<noteq> None then (- 1, r)
      else
        let (ret, k, p) = add ctl (kernel r) (epoller_of r) handle
                            (reactor_event_to_poll_event type USING_EPOLL);
            r1 = r\<lparr>kernel := k, epoller_of := p\<rparr>
        in if ret < 0 then (- 1, r1)
           else
             let (ret1, d) = bindNew ex (demux_table r1) handle type h;
                 r2 = r1\<lparr>demux_table := d\<rparr>
             in (ret1, if ret1 = 0 then r2\<lparr>fd_count := fd_count r2 + 1\<rparr> else r2))"

definition unregister_handler :: "(handler \<Rightarrow> int option) \<Rightarrow> 'k epoll_ctl \<Rightarrow> int \<Rightarrow> handler option \<Rightarrow> event_type \<Rightarrow>
    ('k, 'w) epoll_reactor \<Rightarrow> (int \<times> ('k, 'w) epoll_reactor) option" where
  "unregister_handler ex ctl handle h type r =
     (if handle = INVALID_HANDLE \<or> h = None \<or> type = NONE then Some (- 1, r)
      else if getHandler (demux_table r) handle type = None then Some (- 1, r)
      else
        let (ret, k, p) = del ctl (kernel r) (epoller_of r) handle
                            (reactor_event_to_poll_event type USING_EPOLL);
            r1 = r\<lparr>kernel := k, epoller_of := p\<rparr>
        in if ret < 0 then Some (- 1, r1)
           else do {
             (ret1, d) \<leftarrow> unbind ex (demux_table r1) handle type h;
             let r2 = r1\<lparr>demux_table := d\<rparr>;
             Some (ret1, if ret1 = 0 then r2\<lparr>fd_count := fd_count r2 - 1\<rparr> else r2)
           })"

subsection \<open>Waiting\<close>

datatype wait_answer = Ready "(int \<times> 32 word) list" | Wait_error int

definition EINTR :: int where "EINTR = 4"
definition ERESTART :: int where "ERESTART = 85"

text \<open>\<open>wait\<close> gets the number of slots and the timeout in milliseconds, and fills the first slots.\<close>

definition epoll_wait :: "('k \<Rightarrow> int \<Rightarrow> int \<Rightarrow> wait_answer) \<Rightarrow> int \<Rightarrow> ('k, 'w) epoll_reactor \<Rightarrow>
    int \<times> ('k, 'w) epoll_reactor" where
  "epoll_wait wait milliseconds r =
     (let r1 = r\<lparr>ret_events := replicate (nat (fd_count r)) (0, 0)\<rparr>
      in if fd_count r1 = 1 then (- 2, r1)
         else case wait (kernel r1) (fd_count r1) (if milliseconds = 0 then - 1 else milliseconds) of
                Wait_error e \<Rightarrow> if e = ERESTART \<or> e = EINTR then (0, r1) else (- 1, r1)
              | Ready evs \<Rightarrow>
                  (int (length evs), r1\<lparr>ret_events := evs @ drop (length evs) (ret_events r1)\<rparr>))"

subsection \<open>Dispatching\<close>

fun dispatch_io_epoll_sets :: "('k, 'w) callbacks \<Rightarrow> int \<Rightarrow> event_type \<Rightarrow> callback \<Rightarrow> (int \<times> 32 word) list \<Rightarrow>
    int \<Rightarrow> ('k, 'w) epoll_reactor \<Rightarrow> int \<times> ('k, 'w) epoll_reactor" where
  "dispatch_io_epoll_sets cb active type c [] dispatched r = (active - dispatched, r)"
| "dispatch_io_epoll_sets cb active type c ((fd, evs) # es) dispatched r =
     (if active - dispatched \<le> 0 then (active - dispatched, r)
      else if evs AND type = 0 then dispatch_io_epoll_sets cb active type c es dispatched r
      else
        case getHandler (demux_table r) fd type of
          None \<Rightarrow> dispatch_io_epoll_sets cb active type c es (dispatched + 1) r
        | Some x \<Rightarrow>
            let (ret, r1) = cb c x fd r;
                r2 = (if ret < 0 then
                        if type = READ_EVENT then snd (cb Close_read x fd r1)
                        else if type = WRITE_EVENT then snd (cb Close_write x fd r1)
                        else r1
                      else r1);
                r3 = (if hasHandle (demux_table r2) fd then r2 else snd (cb Handle_close x fd r2))
            in dispatch_io_epoll_sets cb active type c es (dispatched + 1) r3)"

definition dispatch_io_handlers :: "('k, 'w) callbacks \<Rightarrow> int \<Rightarrow> ('k, 'w) epoll_reactor \<Rightarrow>
    int \<times> ('k, 'w) epoll_reactor" where
  "dispatch_io_handlers cb active r =
     (let (remain, r1) = dispatch_io_epoll_sets cb active EPOLLOUT Handle_output (ret_events r) 0 r;
          (remain, r2) = dispatch_io_epoll_sets cb remain EPOLLIN Handle_input (ret_events r) 0 r1
      in if remain > 0
         then dispatch_io_epoll_sets cb remain EPOLLERR Handle_output (ret_events r) 0 r2
         else (remain, r2))"

definition dispatch :: "('k, 'w) callbacks \<Rightarrow> int \<Rightarrow> ('k, 'w) epoll_reactor \<Rightarrow>
    int \<times> ('k, 'w) epoll_reactor" where
  "dispatch cb active r =
     (let (ret, r1) = dispatch_io_handlers cb active r in (if ret \<noteq> 0 then - 1 else 0, r1))"

text \<open>The handlers of one time point, which have been copied; \<open>ret\<close> is \<open>handle_timeout || ret\<close>.\<close>

fun call_timeouts :: "('k, 'w) callbacks \<Rightarrow> handler list \<Rightarrow> int \<Rightarrow> ('k, 'w) epoll_reactor \<Rightarrow>
    int \<times> ('k, 'w) epoll_reactor" where
  "call_timeouts cb [] ret r = (ret, r)"
| "call_timeouts cb (x # xs) ret r =
     (let (a, r1) = cb Handle_timeout x (- 1) r
      in call_timeouts cb xs (if a \<noteq> 0 \<or> ret \<noteq> 0 then 1 else 0) r1)"

partial_function (option) timeout_loop ::
  "('k, 'w) callbacks \<Rightarrow> int \<Rightarrow> int \<Rightarrow> ('k, 'w) epoll_reactor \<Rightarrow> (int \<times> ('k, 'w) epoll_reactor) option" where
  "timeout_loop cb latest ret r =
     (if latest < cached_now r then
        (case call_timeouts cb (getLatestTimeoutHandlers (demux_table r)) ret r of
           (ret1, r1) \<Rightarrow>
             (let r2 = r1\<lparr>demux_table := snd (unbindTimeoutHandlers (demux_table r1) latest)\<rparr>
              in timeout_loop cb (getLastestTimeoutPoint (demux_table r2)) ret1 r2))
      else Some (ret, r))"

declare timeout_loop.simps [code]

definition dispatch_timeout_events :: "('k, 'w) callbacks \<Rightarrow> ('k, 'w) epoll_reactor \<Rightarrow>
    (int \<times> ('k, 'w) epoll_reactor) option" where
  "dispatch_timeout_events cb r = timeout_loop cb (getLastestTimeoutPoint (demux_table r)) 1 r"

subsection \<open>One turn of the event loop\<close>

text \<open>
  \<open>timeout\<close> is in microseconds, \<open>None\<close> the null pointer; time points and durations count nanoseconds
  in 64 bits. \<open>duration_cast\<close> to milliseconds cuts the fraction off, and the count is passed on as an \<open>int\<close>.
\<close>

definition DURATION_MAX :: int where "DURATION_MAX = 9223372036854775807"

definition to_milliseconds :: "int \<Rightarrow> int" where
  "to_milliseconds d = (if d < 0 then - ((- d) div 1000000) else d div 1000000)"

definition next_timeout :: "int option \<Rightarrow> ('k, 'w) epoll_reactor \<Rightarrow> int" where
  "next_timeout timeout r =
     (let dura_of_timer = (if hasTimeoutHandler (demux_table r)
                           then i64 (getLastestTimeoutPoint (demux_table r) - cached_now r)
                           else DURATION_MAX)
      in min (case timeout of None \<Rightarrow> DURATION_MAX | Some us \<Rightarrow> i64 (us * 1000)) dura_of_timer)"

definition handle_events :: "('k, 'w) callbacks \<Rightarrow> ('k \<Rightarrow> int \<Rightarrow> int \<Rightarrow> wait_answer) \<Rightarrow> int \<Rightarrow> int option \<Rightarrow>
    ('k, 'w) epoll_reactor \<Rightarrow> (int \<times> ('k, 'w) epoll_reactor) option" where
  "handle_events cb wait now timeout r0 =
     (let r = r0\<lparr>cached_now := now\<rparr>;
          d = next_timeout timeout r;
          (only_timeout, n, r1) =
            (if timeout = None \<and> \<not> hasTimeoutHandler (demux_table r)
             then let (n, r1) = epoll_wait wait (- 1) r in (False, n, r1)
             else if 0 < d \<and> 0 < to_milliseconds d
                  then let (n, r1) = epoll_wait wait (i32 (to_milliseconds d)) r in (False, n, r1)
                  else (True, 0, r))
      in if only_timeout \<or> n = 0 then dispatch_timeout_events cb r1
         else if n < 0 then Some (if n = - 2 then - 2 else - 1, r1)
         else let (_, r2) = dispatch cb n r1 in Some (0, r2))"


subsection \<open>The events of one wait\<close>

text \<open>
  Handlers that keep their registrations: every callback leaves the reactor as it is, is logged in the
  world, and reports no error.
\<close>

type_synonym call = "callback \<times> handler \<times> int"

definition logging :: "('k, call list) callbacks \<Rightarrow> bool" where
  "logging cb \<longleftrightarrow>
     (\<forall>c x fd r. 0 \<le> fst (cb c x fd r) \<and> snd (cb c x fd r) = r\<lparr>world := world r @ [(c, x, fd)]\<rparr>)"

definition log_call :: "('k, call list) callbacks" where
  "log_call c x fd r = (0, r\<lparr>world := world r @ [(c, x, fd)]\<rparr>)"

lemma logging_log_call: "logging log_call"
  by (simp add: logging_def log_call_def)

lemma loggingD:
  assumes "logging cb"
  obtains a where "cb c x fd r = (a, r\<lparr>world := world r @ [(c, x, fd)]\<rparr>)" and "0 \<le> a"
  using assms unfolding logging_def by (metis prod.collapse)

definition ready :: "event_type \<Rightarrow> (int \<times> 32 word) list \<Rightarrow> (int \<times> 32 word) list" where
  "ready type es = filter (\<lambda>e. snd e AND type \<noteq> 0) es"

text \<open>The calls that are due for the given events: each handle with a handler gets one.\<close>

fun calls_for :: "event_repo \<Rightarrow> event_type \<Rightarrow> callback \<Rightarrow> (int \<times> 32 word) list \<Rightarrow> call list" where
  "calls_for d type c [] = []"
| "calls_for d type c ((fd, evs) # es) =
     (case getHandler d fd type of None \<Rightarrow> [] | Some x \<Rightarrow> [(c, x, fd)]) @ calls_for d type c es"

definition fds_known :: "event_repo \<Rightarrow> (int \<times> 32 word) list \<Rightarrow> bool" where
  "fds_known d es \<longleftrightarrow> (\<forall>(fd, evs) \<in> set es. \<forall>type. getHandler d fd type \<noteq> None \<longrightarrow> hasHandle d fd)"

lemma fds_known_repo_ok:
  assumes "repo_ok d" and "\<forall>(fd, evs) \<in> set es. kernel_handle fd"
  shows "fds_known d es"
proof -
  have "hasHandle d fd" if "getHandler d fd type = Some x" "kernel_handle fd" for fd type x
    using that assms(1)
    by (auto simp: getHandler_def hasHandle_def kernel_handle_def repo_ok_iff_handles Let_def
        split: if_splits)
  then show ?thesis using assms(2) by (fastforce simp: fds_known_def)
qed

lemma dispatch_sets_law:
  assumes l: "logging cb" and k: "fds_known (demux_table r) es" and d: "dispatched \<le> active"
  shows "dispatch_io_epoll_sets cb active type c es dispatched r =
    (let sel = take (nat (active - dispatched)) (ready type es)
     in (active - dispatched - int (length sel),
         r\<lparr>world := world r @ calls_for (demux_table r) type c sel\<rparr>))"
  using k d
proof (induction es arbitrary: dispatched r)
  case Nil
  then show ?case by (simp add: ready_def)
next
  case (Cons e es)
  obtain fd evs where e: "e = (fd, evs)" by (cases e)
  have known: "fds_known (demux_table r) es" using Cons.prems by (simp add: fds_known_def)
  consider "active - dispatched \<le> 0" | "0 < active - dispatched" "evs AND type = 0"
    | "0 < active - dispatched" "evs AND type \<noteq> 0" "getHandler (demux_table r) fd type = None"
    | x where "0 < active - dispatched" "evs AND type \<noteq> 0" "getHandler (demux_table r) fd type = Some x"
    by fastforce
  then show ?case
  proof cases
    case 1
    then show ?thesis using Cons.prems e by simp
  next
    case 2
    then show ?thesis using Cons.IH [OF known Cons.prems(2)] e by (simp add: ready_def)
  next
    case 3
    have "nat (active - dispatched) = Suc (nat (active - (dispatched + 1)))" using 3(1) by simp
    then show ?thesis using Cons.IH [OF known, of "dispatched + 1"] e 3
      by (simp add: ready_def Let_def)
  next
    case (4 x)
    obtain a where a: "cb c x fd r = (a, r\<lparr>world := world r @ [(c, x, fd)]\<rparr>)" "0 \<le> a"
      by (rule loggingD [OF l])
    have h: "hasHandle (demux_table r) fd" using Cons.prems(1) 4 e by (auto simp: fds_known_def)
    have n: "nat (active - dispatched) = Suc (nat (active - (dispatched + 1)))" using 4(1) by simp
    show ?thesis
      using Cons.IH [of "r\<lparr>world := world r @ [(c, x, fd)]\<rparr>" "dispatched + 1"] known e 4 a h
      by (simp add: ready_def Let_def n)
  qed
qed

lemma dispatch_sets_nat:
  assumes "logging cb" and "fds_known (demux_table r) es" and "sel = take m (ready type es)"
  shows "dispatch_io_epoll_sets cb (int m) type c es 0 r =
    (int (m - length sel), r\<lparr>world := world r @ calls_for (demux_table r) type c sel\<rparr>)"
proof -
  have "length sel \<le> m" using assms(3) by simp
  then show ?thesis using dispatch_sets_law [OF assms(1,2), of 0 "int m"] assms(3)
    by (simp add: Let_def)
qed

text \<open>All three passes over the array.\<close>

definition selected :: "nat \<Rightarrow> (int \<times> 32 word) list \<Rightarrow>
    (int \<times> 32 word) list \<times> (int \<times> 32 word) list \<times> (int \<times> 32 word) list" where
  "selected n es =
     (let outs = take n (ready EPOLLOUT es);
          ins = take (n - length outs) (ready EPOLLIN es);
          errs = take (n - length outs - length ins) (ready EPOLLERR es)
      in (outs, ins, errs))"

lemma dispatch_io_law:
  assumes l: "logging cb" and k: "fds_known (demux_table r) (ret_events r)"
    and s: "selected n (ret_events r) = (outs, ins, errs)"
  shows "dispatch_io_handlers cb (int n) r =
    (int n - int (length outs) - int (length ins) - int (length errs),
     r\<lparr>world := world r @ calls_for (demux_table r) EPOLLOUT Handle_output outs @
         calls_for (demux_table r) EPOLLIN Handle_input ins @
         calls_for (demux_table r) EPOLLERR Handle_output errs\<rparr>)"
proof -
  let ?d = "demux_table r" and ?es = "ret_events r"
  have o: "outs = take n (ready EPOLLOUT ?es)"
    and i: "ins = take (n - length outs) (ready EPOLLIN ?es)"
    and e: "errs = take (n - length outs - length ins) (ready EPOLLERR ?es)"
    using s by (auto simp: selected_def Let_def)
  define r1 where "r1 = r\<lparr>world := world r @ calls_for ?d EPOLLOUT Handle_output outs\<rparr>"
  define r2 where "r2 = r1\<lparr>world := world r1 @ calls_for ?d EPOLLIN Handle_input ins\<rparr>"
  have d: "demux_table r1 = ?d" "demux_table r2 = ?d" by (simp_all add: r1_def r2_def)
  have le: "length outs \<le> n" "length ins \<le> n - length outs" using o i by simp_all
  note 1 = dispatch_sets_nat [OF l k o, where c = Handle_output, folded r1_def]
  note 2 = dispatch_sets_nat [OF l _ i, where c = Handle_input and r = r1, unfolded d, OF k,
      folded r2_def]
  note 3 = dispatch_sets_nat [OF l _ e, where c = Handle_output and r = r2, unfolded d, OF k]
  have "length errs \<le> n - length outs - length ins" using e by simp
  then have 4: "int (n - length outs - length ins - length errs) =
      int n - int (length outs) - int (length ins) - int (length errs)"
    using le by simp
  have world: "r2\<lparr>world := world r2 @ ws\<rparr> = r\<lparr>world := world r @
      calls_for ?d EPOLLOUT Handle_output outs @ calls_for ?d EPOLLIN Handle_input ins @ ws\<rparr>" for ws
    by (simp add: r1_def r2_def)
  show ?thesis
  proof (cases "n - length outs - length ins = 0")
    case True
    then have "errs = []" using e by simp
    then show ?thesis using 1 2 world [of "[]"] True 4
      by (simp del: of_nat_diff add: dispatch_io_handlers_def)
  next
    case False
    then have "int (n - length outs - length ins) > 0" by simp
    then show ?thesis using 1 2 3 world 4
      by (simp only: dispatch_io_handlers_def Let_def case_prod_conv if_True)
  qed
qed


text \<open>Events that are ready for reading or for writing, but not for both, are all served.\<close>

definition one_way :: "(int \<times> 32 word) list \<Rightarrow> bool" where
  "one_way es \<longleftrightarrow> (\<forall>(fd, evs) \<in> set es. (evs AND EPOLLOUT \<noteq> 0) \<noteq> (evs AND EPOLLIN \<noteq> 0))"

lemma ready_append_free: "ready type (es @ replicate m (0, 0)) = ready type es"
  by (simp add: ready_def)

lemma one_way_lengths:
  "one_way es \<Longrightarrow> length (ready EPOLLOUT es) + length (ready EPOLLIN es) = length es"
  by (induction es) (auto simp: one_way_def ready_def)

lemma one_way_selected:
  assumes "one_way es"
  shows "selected (length es) (es @ replicate m (0, 0)) = (ready EPOLLOUT es, ready EPOLLIN es, [])"
  using one_way_lengths [OF assms] by (simp add: selected_def ready_append_free Let_def)

lemma dispatch_one_way:
  assumes "logging cb" and "repo_ok (demux_table r)" and "\<forall>(fd, evs) \<in> set es. kernel_handle fd"
    and "one_way es" and "ret_events r = es @ replicate m (0, 0)"
  shows "dispatch cb (int (length es)) r =
    (0, r\<lparr>world := world r @ calls_for (demux_table r) EPOLLOUT Handle_output (ready EPOLLOUT es) @
          calls_for (demux_table r) EPOLLIN Handle_input (ready EPOLLIN es)\<rparr>)"
proof -
  have "fds_known (demux_table r) (ret_events r)"
    by (rule fds_known_repo_ok) (use assms in \<open>auto simp: kernel_handle_def\<close>)
  from dispatch_io_law [OF assms(1) this, of "length es" "ready EPOLLOUT es" "ready EPOLLIN es" "[]"]
  show ?thesis using assms(5) one_way_selected [OF assms(4), of m] one_way_lengths [OF assms(4)]
    by (simp add: dispatch_def)
qed

text \<open>
  C4. One turn of the event loop without timers and without a timeout, for handlers that leave the reactor as it is and
  answer at least 0, on a reactor with \<open>fd_count_\<close> other than 1 (with 1 it does not wait and returns -2):
  when the kernel reports events that are each for reading
  or for writing but not both, every handle with a handler for its event gets exactly one callback, writers
  before readers and otherwise in the order of the report; nothing else is called. With a handle that is ready both ways
  a reader can be passed over (lemma \<open>dispatch_starves_reader\<close>).
\<close>

theorem event_loop_turn:
  assumes "logging cb" and "repo_ok (demux_table r)" and "\<not> hasTimeoutHandler (demux_table r)"
    and "wait (kernel r) (fd_count r) (- 1) = Ready es" and "es \<noteq> []"
    and "int (length es) \<le> fd_count r" and "fd_count r \<noteq> 1"
    and "\<forall>(fd, evs) \<in> set es. kernel_handle fd" and "one_way es"
  shows "\<exists>r'. handle_events cb wait now None r = Some (0, r') \<and> demux_table r' = demux_table r \<and>
    world r' = world r @ calls_for (demux_table r) EPOLLOUT Handle_output (ready EPOLLOUT es) @
      calls_for (demux_table r) EPOLLIN Handle_input (ready EPOLLIN es)"
proof -
  define r1 where "r1 = r\<lparr>cached_now := now,
    ret_events := es @ replicate (nat (fd_count r) - length es) (0, 0)\<rparr>"
  have "epoll_wait wait (- 1) (r\<lparr>cached_now := now\<rparr>) = (int (length es), r1)"
    using assms(4,7) by (simp add: epoll_wait_def r1_def Let_def)
  moreover have "dispatch cb (int (length es)) r1 = (0, r1\<lparr>world := world r1 @
      calls_for (demux_table r1) EPOLLOUT Handle_output (ready EPOLLOUT es) @
      calls_for (demux_table r1) EPOLLIN Handle_input (ready EPOLLIN es)\<rparr>)"
    by (rule dispatch_one_way [OF assms(1)]) (use assms in \<open>auto simp: r1_def\<close>)
  ultimately show ?thesis using assms(3,5) by (simp add: handle_events_def Let_def r1_def)
qed

definition sample_repo :: event_repo where
  "sample_repo = \<lparr>handle_set = {3, 4},
     events_table = [[], [], [], [(READ_EVENT, 30), (WRITE_EVENT, 31)], [(READ_EVENT, 40)]],
     timeout_handlers = []\<rparr>"

definition sample_reactor :: "(unit, call list) epoll_reactor" where
  "sample_reactor = \<lparr>fd_count = 3, ret_events = [], demux_table = sample_repo,
     epoller_of = new_epoller, cached_now = 0, kernel = (), world = []\<rparr>"

lemma sample_repo_ok: "repo_ok sample_repo"
proof -
  have "(h = 3 \<or> h = 4) = (0 \<le> h \<and> h < 5 \<and> events_table sample_repo ! nat h \<noteq> [])" for h :: int
  proof (cases "0 \<le> h \<and> h < 5")
    case True
    then have "h \<in> {0, 1, 2, 3, 4}" by auto
    then show ?thesis by (auto simp: sample_repo_def)
  qed auto
  then show ?thesis by (auto simp: repo_ok_iff_handles sample_repo_def event_defs)
qed

theorem event_loop_turn_witness:
  "\<exists>r'. handle_events log_call (\<lambda>_ _ _. Ready [(3, EPOLLIN), (4, EPOLLIN)]) 7 None sample_reactor =
      Some (0, r') \<and> world r' = [(Handle_input, 30, 3), (Handle_input, 40, 4)]"
  using event_loop_turn [OF logging_log_call, of sample_reactor "\<lambda>_ _ _. Ready [(3, EPOLLIN), (4, EPOLLIN)]"
      "[(3, EPOLLIN), (4, EPOLLIN)]" 7] sample_repo_ok
  by (auto simp: sample_reactor_def sample_repo_def hasTimeoutHandler_def kernel_handle_def one_way_def
      poll_defs ready_def getHandler_def INVALID_HANDLE_def event_defs)

text \<open>
  A handle that is ready in both directions counts twice against the number of ready handles, so that
  a later reader is passed over.
\<close>

lemma dispatch_starves_reader:
  "world (snd (dispatch log_call 2 (sample_reactor\<lparr>ret_events := [(3, EPOLLIN OR EPOLLOUT), (4, EPOLLIN)]\<rparr>))) =
     [(Handle_output, 31, 3), (Handle_input, 30, 3)]"
  by (simp add: dispatch_def dispatch_io_handlers_def sample_reactor_def sample_repo_def poll_defs
      getHandler_def INVALID_HANDLE_def event_defs log_call_def hasHandle_def)

subsection \<open>Timers\<close>

lemma call_timeouts_law:
  assumes "logging cb" and "ret \<noteq> 0"
  shows "call_timeouts cb xs ret r =
    (if xs = [] then ret else 1, r\<lparr>world := world r @ map (\<lambda>x. (Handle_timeout, x, - 1)) xs\<rparr>)"
  using assms(2)
proof (induction xs arbitrary: ret r)
  case (Cons x xs)
  obtain a where "cb Handle_timeout x (- 1) r = (a, r\<lparr>world := world r @ [(Handle_timeout, x, - 1)]\<rparr>)"
    by (rule loggingD [OF assms(1)])
  then show ?case using Cons by simp
qed simp

lemma timeout_loop_law:
  assumes l: "logging cb" and now: "cached_now r \<le> TIME_MAX"
    and s: "sorted_wrt (<) (map fst (timeout_handlers (demux_table r)))"
  shows "\<exists>r'. timeout_loop cb (getLastestTimeoutPoint (demux_table r)) 1 r = Some (1, r') \<and>
    world r' = world r @ map (\<lambda>x. (Handle_timeout, x, - 1))
      (concat (map snd (takeWhile (\<lambda>(t, xs). t < cached_now r) (timeout_handlers (demux_table r))))) \<and>
    demux_table r' = (demux_table r)\<lparr>timeout_handlers :=
      dropWhile (\<lambda>(t, xs). t < cached_now r) (timeout_handlers (demux_table r))\<rparr>"
  using now s
proof (induction "timeout_handlers (demux_table r)" arbitrary: r)
  case Nil
  then show ?case
    by (subst timeout_loop.simps) (simp add: getLastestTimeoutPoint_def)
next
  case (Cons e m)
  obtain t xs where e: "e = (t, xs)" by (cases e)
  have th: "timeout_handlers (demux_table r) = (t, xs) # m" using Cons.hyps(2) e by simp
  have sm: "sorted_wrt (<) (map fst m)" and gt: "\<forall>u \<in> fst ` set m. t < u"
    using Cons.prems(2) th by auto
  show ?case
  proof (cases "t < cached_now r")
    case False
    then show ?thesis using th
      by (subst timeout_loop.simps) (simp add: getLastestTimeoutPoint_def)
  next
    case True
    define r2 where "r2 = r\<lparr>world := world r @ map (\<lambda>x. (Handle_timeout, x, - 1)) xs,
      demux_table := (demux_table r)\<lparr>timeout_handlers := m\<rparr>\<rparr>"
    have del: "AList.delete t ((t, xs) # m) = m"
      using gt by (auto simp: AList.delete_eq intro!: filter_True)
    have step: "timeout_loop cb t 1 r =
        timeout_loop cb (getLastestTimeoutPoint (demux_table r2)) 1 r2"
      using True th del
      by (subst timeout_loop.simps)
        (simp add: getLatestTimeoutHandlers_def call_timeouts_law [OF l] unbindTimeoutHandlers_def r2_def)
    have "m = timeout_handlers (demux_table r2)" "cached_now r2 \<le> TIME_MAX"
      "sorted_wrt (<) (map fst (timeout_handlers (demux_table r2)))"
      using sm Cons.prems(1) by (simp_all add: r2_def)
    from Cons.hyps(1) [OF this] show ?thesis
      using th step True by (simp add: getLastestTimeoutPoint_def [of "demux_table r"])
        (simp add: r2_def)
  qed
qed

text \<open>
  Timeout handlers that may register again, as periodic ones do: a callback is logged, keeps the clock and the order of
  the time points, and touches no time point before \<open>now\<close>.
\<close>

abbreviation expired_before :: "int \<Rightarrow> (int \<times> handler list) list \<Rightarrow> (int \<times> handler list) list" where
  "expired_before now m \<equiv> takeWhile (\<lambda>(t, xs). t < now) m"

definition timers_forward :: "int \<Rightarrow> ('k, call list) callbacks \<Rightarrow> bool" where
  "timers_forward now cb \<longleftrightarrow>
     (\<forall>c x fd r. cached_now r = now \<longrightarrow> sorted_wrt (<) (map fst (timeout_handlers (demux_table r))) \<longrightarrow>
        (let r' = snd (cb c x fd r)
         in world r' = world r @ [(c, x, fd)] \<and> cached_now r' = now \<and>
            sorted_wrt (<) (map fst (timeout_handlers (demux_table r'))) \<and>
            expired_before now (timeout_handlers (demux_table r')) = expired_before now (timeout_handlers (demux_table r))))"

lemma logging_forward: "logging cb \<Longrightarrow> timers_forward now cb"
  by (simp add: logging_def timers_forward_def Let_def)

lemma forward_calls:
  assumes f: "timers_forward now cb" and "ret \<noteq> 0" and "cached_now r = now"
    and "sorted_wrt (<) (map fst (timeout_handlers (demux_table r)))"
  shows "\<exists>ret' r'. call_timeouts cb xs ret r = (ret', r') \<and> (ret = 1 \<longrightarrow> ret' = 1) \<and> ret' \<noteq> 0 \<and>
    world r' = world r @ map (\<lambda>x. (Handle_timeout, x, - 1)) xs \<and> cached_now r' = now \<and>
    sorted_wrt (<) (map fst (timeout_handlers (demux_table r'))) \<and>
    expired_before now (timeout_handlers (demux_table r')) = expired_before now (timeout_handlers (demux_table r))"
  using assms(2-)
proof (induction xs arbitrary: ret r)
  case (Cons x xs)
  obtain a r1 where cb: "cb Handle_timeout x (- 1) r = (a, r1)" by fastforce
  then have r1: "world r1 = world r @ [(Handle_timeout, x, - 1)]" "cached_now r1 = now"
      "sorted_wrt (<) (map fst (timeout_handlers (demux_table r1)))"
      "expired_before now (timeout_handlers (demux_table r1)) = expired_before now (timeout_handlers (demux_table r))"
    using f Cons.prems unfolding timers_forward_def Let_def by (metis snd_conv)+
  show ?case using Cons.IH [of 1 r1] Cons.prems(1) cb r1 by auto
qed simp

lemma expired_first:
  assumes "sorted_wrt (<) (map fst m)" and "expired_before now m = (t, xs) # ys"
  shows "expired_before now (AList.delete t m) = ys \<and> sorted_wrt (<) (map fst (AList.delete t m)) \<and>
    (\<exists>m'. m = (t, xs) # m') \<and> t < now"
proof -
  obtain m' where m: "m = (t, xs) # m'" using assms(2) by (cases m) (auto split: if_splits)
  have t: "t < now" using assms(2) unfolding m by (auto split: if_splits)
  have "AList.delete t m = m'" using assms(1) unfolding m by (auto simp: AList.delete_eq intro!: filter_True)
  then show ?thesis using assms m t by auto
qed

lemma forward_loop:
  assumes f: "timers_forward now cb" and now: "now \<le> TIME_MAX" "cached_now r = now"
    and s: "sorted_wrt (<) (map fst (timeout_handlers (demux_table r)))"
  shows "\<exists>r'. timeout_loop cb (getLastestTimeoutPoint (demux_table r)) 1 r = Some (1, r') \<and>
    world r' = world r @ map (\<lambda>x. (Handle_timeout, x, - 1))
      (concat (map snd (expired_before now (timeout_handlers (demux_table r))))) \<and>
    expired_before now (timeout_handlers (demux_table r')) = []"
  using now(2) s
proof (induction "expired_before now (timeout_handlers (demux_table r))" arbitrary: r)
  case Nil
  have "\<not> getLastestTimeoutPoint (demux_table r) < cached_now r"
    using Nil now(1) by (cases "timeout_handlers (demux_table r)")
      (auto simp: getLastestTimeoutPoint_def split: if_splits)
  then show ?case using Nil(1) by (subst timeout_loop.simps) (simp flip: Nil(1))
next
  case (Cons e ys)
  obtain t xs where e: "e = (t, xs)" by (cases e)
  note exp = Cons.hyps(2) [symmetric, unfolded e]
  obtain m' where m: "timeout_handlers (demux_table r) = (t, xs) # m'" and t: "t < now"
    using expired_first [OF Cons.prems(2) exp] by blast
  obtain r1 where r1: "call_timeouts cb xs 1 r = (1, r1)"
      "world r1 = world r @ map (\<lambda>x. (Handle_timeout, x, - 1)) xs" "cached_now r1 = now"
      "sorted_wrt (<) (map fst (timeout_handlers (demux_table r1)))"
      "expired_before now (timeout_handlers (demux_table r1)) = (t, xs) # ys"
    using forward_calls [OF f, of 1 r xs] Cons.prems exp by auto
  define r2 where "r2 = r1\<lparr>demux_table := snd (unbindTimeoutHandlers (demux_table r1) t)\<rparr>"
  obtain m1 where m1: "timeout_handlers (demux_table r1) = (t, xs) # m1"
    using expired_first [OF r1(4,5)] by blast
  have r2: "timeout_handlers (demux_table r2) = AList.delete t (timeout_handlers (demux_table r1))"
    by (simp add: r2_def unbindTimeoutHandlers_def m1)
  have "timeout_loop cb t 1 r = timeout_loop cb (getLastestTimeoutPoint (demux_table r2)) 1 r2"
    using t Cons.prems(1) r1(1) m
    by (subst timeout_loop.simps) (simp add: getLatestTimeoutHandlers_def r2_def)
  moreover have "getLastestTimeoutPoint (demux_table r) = t" by (simp add: getLastestTimeoutPoint_def m)
  moreover have "ys = expired_before now (timeout_handlers (demux_table r2))" "cached_now r2 = now"
      "sorted_wrt (<) (map fst (timeout_handlers (demux_table r2)))"
    using expired_first [OF r1(4,5)] r1(3) by (simp_all add: r2 r2_def [THEN arg_cong [of _ _ cached_now]])
  moreover have "world r2 = world r1" by (simp add: r2_def)
  ultimately show ?case using Cons.hyps(1) [of r2] r1(2) exp by auto
qed

text \<open>
  C16. The expired timers, for handlers whose callbacks may register again, for time points not before the current
  time, and otherwise leave the timers and the clock alone: the loop over the time points ends; every handler whose
  time point is before the current time is called exactly once, in the order of the time points, and no expired time
  point is left. When the callbacks leave the whole reactor alone, exactly the expired time points are unbound. (A handler
  that registers again for a time point before the current time is called again in the same dispatch.)
\<close>

theorem expired_timers_called:
  assumes "timers_forward (cached_now r) cb" and "repo_ok (demux_table r)" and "cached_now r \<le> TIME_MAX"
  shows "\<exists>r'. dispatch_timeout_events cb r = Some (1, r') \<and>
    world r' = world r @ map (\<lambda>x. (Handle_timeout, x, - 1))
      (concat (map snd (expired_before (cached_now r) (timeout_handlers (demux_table r))))) \<and>
    expired_before (cached_now r) (timeout_handlers (demux_table r')) = [] \<and>
    (logging cb \<longrightarrow> demux_table r' = (demux_table r)\<lparr>timeout_handlers :=
      dropWhile (\<lambda>(t, xs). t < cached_now r) (timeout_handlers (demux_table r))\<rparr>)"
proof -
  have s: "sorted_wrt (<) (map fst (timeout_handlers (demux_table r)))" using assms(2) by (simp add: repo_ok_def)
  show ?thesis
    using forward_loop [OF assms(1,3) refl s] timeout_loop_law [OF _ assms(3) s]
    by (fastforce simp: dispatch_timeout_events_def)
qed

text \<open>A handler that registers again for the time point 100, at time 10.\<close>

definition again_call :: "('k, call list) callbacks" where
  "again_call c x fd r =
     (let (a, r1) = register_timeout (\<lambda>_. Some 100) (Some x) TIMEOUT_EVENT r in (a, r1\<lparr>world := world r1 @ [(c, x, fd)]\<rparr>))"

lemma expired_update_time: "now \<le> t \<Longrightarrow> expired_before now (update_time t f m) = expired_before now m"
  by (induction t f m rule: update_time.induct) auto

lemma again_call_forward: "timers_forward 10 again_call"
  unfolding timers_forward_def
proof (intro allI impI)
  fix c x fd and r :: "('k, call list) epoll_reactor"
  assume now: "cached_now r = 10" and s: "sorted_wrt (<) (map fst (timeout_handlers (demux_table r)))"
  define d where "d = snd (bindNew (\<lambda>_. Some 100) (demux_table r) INVALID_HANDLE TIMEOUT_EVENT (Some x))"
  have r': "snd (again_call c x fd r) = r\<lparr>demux_table := d, world := world r @ [(c, x, fd)]\<rparr>"
    by (simp add: again_call_def register_timeout_def d_def)
  have "timeout_handlers d = timeout_handlers (demux_table r) \<or>
    timeout_handlers d = update_time 100 (insort x) (timeout_handlers (demux_table r))"
    by (simp add: d_def bindNew_def event_defs)
  then have "sorted_wrt (<) (map fst (timeout_handlers d)) \<and>
    expired_before 10 (timeout_handlers d) = expired_before 10 (timeout_handlers (demux_table r))"
    using s update_time_sorted [OF s, of 100 "insort x"] expired_update_time [of 10 100] by (elim disjE) simp_all
  then show "let r' = snd (again_call c x fd r)
    in world r' = world r @ [(c, x, fd)] \<and> cached_now r' = 10 \<and>
       sorted_wrt (<) (map fst (timeout_handlers (demux_table r'))) \<and>
       expired_before 10 (timeout_handlers (demux_table r')) = expired_before 10 (timeout_handlers (demux_table r))"
    using now unfolding r' Let_def by simp
qed

theorem expired_timers_called_witness:
  "\<exists>r'. dispatch_timeout_events again_call (sample_reactor\<lparr>cached_now := 10, demux_table :=
      new_repo\<lparr>timeout_handlers := [(5, [1, 2]), (10, [3])]\<rparr>\<rparr>) = Some (1, r') \<and>
    world r' = [(Handle_timeout, 1, - 1), (Handle_timeout, 2, - 1)] \<and>
    expired_before 10 (timeout_handlers (demux_table r')) = []"
  using expired_timers_called [of "sample_reactor\<lparr>cached_now := 10, demux_table :=
      new_repo\<lparr>timeout_handlers := [(5, [1, 2]), (10, [3])]\<rparr>\<rparr>" again_call] again_call_forward
  by (auto simp: sample_reactor_def repo_ok_def new_repo_def TIME_MAX_def)

subsection \<open>Registrations and the kernel\<close>

definition bound_events :: "event_repo \<Rightarrow> nat" where
  "bound_events d = sum_list (map length (events_table d))"

text \<open>
  The kernel watches exactly the events that have a handler, and \<open>fd_count_\<close> is the number of bound
  events.
\<close>

definition coherent :: "('k \<Rightarrow> int \<Rightarrow> 32 word option) \<Rightarrow> ('k, 'w) epoll_reactor \<Rightarrow> bool" where
  "coherent interest r \<longleftrightarrow>
     repo_ok (demux_table r) \<and> mirrors interest (kernel r) (epoller_of r) \<and>
     (\<forall>h. has (epoller_of r) h EPOLLIN \<longleftrightarrow> repo_lookup (demux_table r) h READ_EVENT \<noteq> None) \<and>
     (\<forall>h. has (epoller_of r) h EPOLLOUT \<longleftrightarrow> repo_lookup (demux_table r) h WRITE_EVENT \<noteq> None) \<and>
     (\<forall>h. repo_lookup (demux_table r) h ACCEPT_EVENT = None) \<and>
     fd_count r = int (bound_events (demux_table r))"

lemma sum_list_length_update:
  "n < length xss \<Longrightarrow>
     sum_list (map length (xss[n := ys])) + length (xss ! n) = sum_list (map length xss) + length ys"
  by (induction xss arbitrary: n) (auto split: nat.splits)

lemma length_update_new: "map_of al k = None \<Longrightarrow> length (AList.update k v al) = Suc (length al)"
  by (induction al) auto

lemma length_delete_one:
  "distinct (map fst al) \<Longrightarrow> map_of al k \<noteq> None \<Longrightarrow> Suc (length (AList.delete k al)) = length al"
proof (induction al)
  case (Cons a al)
  then show ?case
    by (cases a; cases "fst a = k") (simp_all add: AList.delete_id)
qed simp

lemma bind_count:
  assumes "repo_ok d" and "repo_valid h e" and "repo_lookup d h e = None"
  shows "bound_events (snd (bindNew ex d h e (Some x))) = Suc (bound_events d)"
proof -
  let ?tab = "grow (nat h + 1) [] (events_table d)"
  have h: "0 \<le> h" "h < 2147483648" "e \<noteq> NONE" "e \<noteq> TIMEOUT_EVENT" "e \<noteq> ACCEPT_EVENT"
    "h \<noteq> INVALID_HANDLE"
    using assms(2) by (auto simp: repo_valid_def INVALID_HANDLE_def)
  have len: "nat h < length ?tab" by simp
  have "map_of (?tab ! nat h) e = None"
    using assms(3) h by (auto simp: nth_grow repo_lookup_table split: if_splits)
  then have "sum_list (map length (?tab[nat h := AList.update e x (?tab ! nat h)])) =
      Suc (sum_list (map length ?tab))"
    using sum_list_length_update [OF len, of "AList.update e x (?tab ! nat h)"]
    by (simp add: length_update_new)
  moreover have "sum_list (map length ?tab) = sum_list (map length (events_table d))"
    by (simp add: grow_def sum_list_replicate)
  ultimately show ?thesis using h
    by (simp add: bound_events_def bindNew_def Let_def)
qed

lemma unbind_count:
  assumes ok: "repo_ok d" and "repo_valid h e" and "repo_lookup d h e = Some x"
    and "unbind ex d h e (Some x) = Some (c, d')"
  shows "Suc (bound_events d') = bound_events d"
proof -
  have h: "0 \<le> h" "h < 2147483648" "e \<noteq> NONE" "e \<noteq> TIMEOUT_EVENT" "nat h < length (events_table d)"
    "map_of (events_table d ! nat h) e = Some x"
    using assms(2,3) by (auto simp: repo_valid_def repo_lookup_table split: if_splits)
  have mem: "h \<in> handle_set d" using h ok by (auto simp: repo_ok_iff_handles)
  have "events_table d' = (events_table d)[nat h := AList.delete e (events_table d ! nat h)]"
    using assms(4) h mem repo_at [OF ok mem] by (auto simp: unbind_def Let_def split: if_splits)
  moreover have "Suc (length (AList.delete e (events_table d ! nat h))) = length (events_table d ! nat h)"
    by (rule length_delete_one) (use ok h in \<open>auto simp: repo_ok_def\<close>)
  ultimately show ?thesis
    using sum_list_length_update [OF h(5), of "AList.delete e (events_table d ! nat h)"]
    by (simp add: bound_events_def)
qed

text \<open>The bits for reading and for writing do not disturb each other.\<close>

lemma has_interest: "mirrors interest k p \<Longrightarrow>
  has p h e \<longleftrightarrow> (case interest k h of None \<Rightarrow> False | Some evs \<Rightarrow> evs AND e \<noteq> 0)"
  by (simp add: has_def mirrors_def)

lemma word_bits_1_4:
  fixes w :: "32 word"
  shows "(w OR 1) AND 1 \<noteq> 0" and "(w OR 4) AND 4 \<noteq> 0" and "(w OR 1) AND 4 = w AND 4"
    and "(w OR 4) AND 1 = w AND 1" and "(w AND NOT 1) AND 1 = 0" and "(w AND NOT 4) AND 4 = 0"
    and "(w AND NOT 1) AND 4 = w AND 4" and "(w AND NOT 4) AND 1 = w AND 1"
  by (simp_all add: and.assoc bit.conj_disj_distrib2 bit.conj_disj_distrib)


definition poll_bits :: "32 word \<Rightarrow> bool" where
  "poll_bits e \<longleftrightarrow> e = EPOLLIN \<or> e = EPOLLOUT"

lemma poll_bit_and: "poll_bits e \<Longrightarrow> poll_bits f \<Longrightarrow> e AND f \<noteq> 0 \<longleftrightarrow> f = e"
  by (auto simp: poll_bits_def poll_defs)

lemma poll_bit_or: "poll_bits e \<Longrightarrow> poll_bits f \<Longrightarrow> (w OR e) AND f \<noteq> 0 \<longleftrightarrow> f = e \<or> w AND f \<noteq> 0"
  using word_bits_1_4(1-4) [of w] by (auto simp: poll_bits_def poll_defs)

lemma poll_bit_clear:
  "poll_bits e \<Longrightarrow> poll_bits f \<Longrightarrow> (w AND NOT e) AND f \<noteq> 0 \<longleftrightarrow> f \<noteq> e \<and> w AND f \<noteq> 0"
  using word_bits_1_4(5-8) [of w] unfolding poll_bits_def poll_defs by (elim disjE) simp_all

lemma add_result: "add ctl k p h e = (r, k', p') \<Longrightarrow> r = 0 \<or> r = - 1"
  by (auto simp: add_def split_def Let_def split: option.splits if_splits)

lemma del_result: "del ctl k p h e = (r, k', p') \<Longrightarrow> r = 0 \<or> r = - 1"
  by (auto simp: del_def split_def Let_def split: option.splits if_splits)

lemma add_success:
  assumes spec: "epoll_ctl_spec interest ctl" and m: "mirrors interest k p" and e: "poll_bits e"
    and a: "add ctl k p h e = (0, k', p')"
  shows "mirrors interest k' p' \<and> \<not> has p h e \<and> (\<forall>g f. poll_bits f \<longrightarrow> has p' g f = (g = h \<and> f = e \<or> has p g f))"
proof -
  note a' = add_law(1,2) [OF spec m a refl]
  have new: "\<not> has p h e" using a by (auto simp: add_def has_def split: option.splits if_splits)
  have "has p' g f = (g = h \<and> f = e \<or> has p g f)" if f: "poll_bits f" for g f
  proof (cases "g = h")
    case False
    then show ?thesis using a'(2) by (auto simp: has_interest [OF a'(1)] has_interest [OF m])
  next
    case True
    have "interest k' h = Some (case interest k h of None \<Rightarrow> e | Some evs \<Rightarrow> evs OR e)"
      using a'(2) by simp
    then have "has p' h f \<longleftrightarrow> f = e \<or> has p h f"
      using poll_bit_and [OF e f] poll_bit_or [OF e f]
      unfolding has_interest [OF a'(1)] has_interest [OF m]
      by (cases "interest k h") (simp_all only: option.simps simp_thms)
    then show ?thesis using True by simp
  qed
  then show ?thesis using a'(1) new by (intro conjI allI impI) assumption+
qed

lemma del_success:
  assumes spec: "epoll_ctl_spec interest ctl" and m: "mirrors interest k p" and e: "poll_bits e"
    and a: "del ctl k p h e = (0, k', p')"
  shows "mirrors interest k' p' \<and> (\<forall>g f. poll_bits f \<longrightarrow> has p' g f = (\<not> (g = h \<and> f = e) \<and> has p g f))"
proof -
  note m' = del_law [OF spec m a]
  obtain evs where evs: "map_of (handle_event_map p) h = Some evs"
    using a by (auto simp: del_def split: option.splits)
  have p': "map_of (handle_event_map p') =
      (map_of (handle_event_map p))(h := if evs AND NOT e = 0 then None else Some (evs AND NOT e))"
    using a evs
    by (auto simp: del_def split_def Let_def AList.update_conv' AList.delete_conv' split: if_splits)
  have "has p' g f = (\<not> (g = h \<and> f = e) \<and> has p g f)" if f: "poll_bits f" for g f
    using evs poll_bit_clear [OF e f, of evs]
    by (cases "g = h"; cases "evs AND NOT e = 0") (simp_all add: has_def p')
  then show ?thesis using m' by (intro conjI allI impI) assumption+
qed

lemma del_has:
  assumes spec: "epoll_ctl_spec interest ctl" and acc: "epoll_ctl_accepts interest ctl"
    and m: "mirrors interest k p" and e: "poll_bits e" and h: "has p h e"
  shows "\<exists>k' p'. del ctl k p h e = (0, k', p') \<and> mirrors interest k' p' \<and>
    (\<forall>g f. poll_bits f \<longrightarrow> has p' g f = (\<not> (g = h \<and> f = e) \<and> has p g f))"
  using del_accepted [OF spec acc m, of h e] del_success [OF spec m e] h by auto

text \<open>The events that a stream or a listening socket registers.\<close>

definition io_event :: "event_type \<Rightarrow> bool" where
  "io_event e \<longleftrightarrow> e = READ_EVENT \<or> e = WRITE_EVENT \<or> e = ACCEPT_EVENT"

definition poll_bit :: "event_type \<Rightarrow> 32 word" where
  "poll_bit e = (if e = WRITE_EVENT then EPOLLOUT else EPOLLIN)"

definition table_event :: "event_type \<Rightarrow> event_type" where
  "table_event e = (if e = ACCEPT_EVENT then READ_EVENT else e)"

lemmas io_defs = io_event_def poll_bit_def table_event_def event_defs poll_defs

lemma io_event_bit: "io_event e \<Longrightarrow> reactor_event_to_poll_event e USING_EPOLL = poll_bit e"
  by (auto simp: reactor_event_to_poll_event_def io_defs)

lemma poll_bit_in: "poll_bits (poll_bit e)"
  by (simp add: poll_bits_def poll_bit_def)

lemma bindNew_table_event: "bindNew ex d h (table_event e) x = bindNew ex d h e x"
proof (cases "e = ACCEPT_EVENT")
  case True
  then show ?thesis by (simp add: bindNew_def table_event_def event_defs)
qed (simp add: table_event_def)

lemma coherentD:
  assumes "coherent interest r" and "io_event e"
  shows "has (epoller_of r) h (poll_bit e) \<longleftrightarrow> repo_lookup (demux_table r) h (table_event e) \<noteq> None"
  using assms by (auto simp: coherent_def io_defs)

lemma coherentI:
  assumes "repo_ok (demux_table r)" and "mirrors interest (kernel r) (epoller_of r)"
    and "\<And>h e. io_event e \<Longrightarrow>
      has (epoller_of r) h (poll_bit e) \<longleftrightarrow> repo_lookup (demux_table r) h (table_event e) \<noteq> None"
    and "\<And>h. repo_lookup (demux_table r) h ACCEPT_EVENT = None"
    and "fd_count r = int (bound_events (demux_table r))"
  shows "coherent interest r"
  using assms(1,2,4,5) assms(3) [of READ_EVENT] assms(3) [of WRITE_EVENT]
  by (simp add: coherent_def io_event_def poll_bit_def table_event_def event_defs)

lemma register_effect:
  assumes spec: "epoll_ctl_spec interest ctl"
    and c: "coherent interest r" and e: "io_event e" and h: "0 \<le> h" "h < 2147483648"
    and add: "add ctl (kernel r) (epoller_of r) h (poll_bit e) = (0, k, p)"
  shows "\<exists>r'. register_handler ex ctl h (Some x) e r = (0, r') \<and> coherent interest r' \<and>
    repo_lookup (demux_table r') h (table_event e) = Some x \<and> fd_count r' = fd_count r + 1"
proof -
  have m: "mirrors interest (kernel r) (epoller_of r)" and ok: "repo_ok (demux_table r)"
    using c by (simp_all add: coherent_def)
  let ?b = "poll_bit e"
  have a: "mirrors interest k p" "\<not> has (epoller_of r) h ?b"
    "\<And>g f. poll_bits f \<Longrightarrow> has p g f = (g = h \<and> f = ?b \<or> has (epoller_of r) g f)"
    using add_success [OF spec m poll_bit_in add] by simp_all
  have free: "repo_lookup (demux_table r) h (table_event e) = None" using coherentD [OF c e, of h] a(2) by simp
  have v: "repo_valid h (table_event e)" using e h by (auto simp: repo_valid_def io_defs)
  obtain d where d: "bindNew ex (demux_table r) h (table_event e) (Some x) = (0, d)" "repo_ok d"
    "\<And>h' e'. repo_lookup d h' e' =
      (if h' = h \<and> e' = table_event e then Some x else repo_lookup (demux_table r) h' e')"
    using repo_bind_law [OF ok v, of ex x] by blast
  have d': "bindNew ex (demux_table r) h e (Some x) = (0, d)"
    using d(1) by (simp add: bindNew_table_event)
  define r' where "r' = r\<lparr>kernel := k, epoller_of := p, demux_table := d, fd_count := fd_count r + 1\<rparr>"
  have "getHandler (demux_table r) h e = None"
    using free c h by (auto simp: repo_lookup_def coherent_def table_event_def split: if_splits)
  then have step: "register_handler ex ctl h (Some x) e r = (0, r')"
    using add d' h e
    by (auto simp: register_handler_def io_event_bit r'_def INVALID_HANDLE_def io_event_def event_defs)
  have "coherent interest r'"
  proof (rule coherentI)
    show "has (epoller_of r') g (poll_bit f) \<longleftrightarrow> repo_lookup (demux_table r') g (table_event f) \<noteq> None"
      if "io_event f" for g f
      using a(3) [OF poll_bit_in, of g f] d(3) coherentD [OF c that, of g] that e
      by (auto simp: r'_def io_defs)
    show "fd_count r' = int (bound_events (demux_table r'))"
      using bind_count [OF ok v free, of ex x] d(1) c by (simp add: r'_def coherent_def)
    show "repo_lookup (demux_table r') g ACCEPT_EVENT = None" for g
      using d(3) c by (auto simp: r'_def coherent_def table_event_def event_defs)
  qed (use a d in \<open>simp_all add: r'_def\<close>)
  then show ?thesis using step d(3) by (simp add: r'_def)
qed

lemma register_law:
  assumes spec: "epoll_ctl_spec interest ctl" and acc: "epoll_ctl_accepts interest ctl"
    and c: "coherent interest r" and e: "io_event e" and h: "0 \<le> h" "h < 2147483648"
    and free: "repo_lookup (demux_table r) h (table_event e) = None"
  shows "\<exists>r'. register_handler ex ctl h (Some x) e r = (0, r') \<and> coherent interest r' \<and>
    repo_lookup (demux_table r') h (table_event e) = Some x \<and> fd_count r' = fd_count r + 1"
proof -
  have m: "mirrors interest (kernel r) (epoller_of r)" using c by (simp add: coherent_def)
  obtain k p where "add ctl (kernel r) (epoller_of r) h (poll_bit e) = (0, k, p)"
    using add_accepted [OF spec acc m, of h "poll_bit e"] coherentD [OF c e, of h] free by auto
  then show ?thesis by (rule register_effect [OF spec c e h])
qed

text \<open>A second registration of the same event is refused without any effect.\<close>

lemma register_refused:
  assumes spec: "epoll_ctl_spec interest ctl" and acc: "epoll_ctl_accepts interest ctl"
    and c: "coherent interest r" and e: "io_event e" and h: "0 \<le> h" "h < 2147483648"
    and bound: "repo_lookup (demux_table r) h (table_event e) \<noteq> None"
  shows "register_handler ex ctl h (Some x) e r = (- 1, r)"
proof (cases "getHandler (demux_table r) h e = None")
  case False
  then show ?thesis by (auto simp: register_handler_def)
next
  case True
  have "has (epoller_of r) h (poll_bit e)" using coherentD [OF c e] bound by simp
  then have "add ctl (kernel r) (epoller_of r) h (poll_bit e) = (- 1, kernel r, epoller_of r)"
    by (auto simp: add_def has_def split: option.splits)
  then show ?thesis by (simp add: register_handler_def io_event_bit [OF e])
qed

lemma unregister_effect:
  assumes spec: "epoll_ctl_spec interest ctl"
    and c: "coherent interest r" and e: "e = READ_EVENT \<or> e = WRITE_EVENT"
    and h: "0 \<le> h" "h < 2147483648"
    and bound: "repo_lookup (demux_table r) h e = Some x"
    and del: "del ctl (kernel r) (epoller_of r) h (poll_bit e) = (0, k, p)"
  shows "\<exists>r'. unregister_handler ex ctl h (Some x) e r = Some (0, r') \<and> coherent interest r' \<and>
    repo_lookup (demux_table r') h e = None \<and> fd_count r' = fd_count r - 1"
proof -
  have m: "mirrors interest (kernel r) (epoller_of r)" and ok: "repo_ok (demux_table r)"
    using c by (simp_all add: coherent_def)
  have io: "io_event e" and te: "table_event e = e" using e by (auto simp: io_defs)
  have a: "mirrors interest k p"
    "\<And>g f. poll_bits f \<Longrightarrow> has p g f = (\<not> (g = h \<and> f = poll_bit e) \<and> has (epoller_of r) g f)"
    using del_success [OF spec m poll_bit_in del] by simp_all
  have v: "repo_valid h e" using e h by (auto simp: repo_valid_def io_defs)
  obtain d where d: "unbind ex (demux_table r) h e (Some x) = Some (0, d)" "repo_ok d"
    "\<And>h' e'. repo_lookup d h' e' = (if h' = h \<and> e' = e then None else repo_lookup (demux_table r) h' e')"
    using repo_unbind_law [OF ok v bound, of ex] by blast
  define r' where "r' = r\<lparr>kernel := k, epoller_of := p, demux_table := d, fd_count := fd_count r - 1\<rparr>"
  have "getHandler (demux_table r) h e = Some x" using bound h by (simp add: repo_lookup_def)
  then have step: "unregister_handler ex ctl h (Some x) e r = Some (0, r')"
    using del d(1) h e
    by (auto simp: unregister_handler_def io_event_bit [OF io] r'_def INVALID_HANDLE_def event_defs)
  have "coherent interest r'"
  proof (rule coherentI)
    show "has (epoller_of r') g (poll_bit f) \<longleftrightarrow> repo_lookup (demux_table r') g (table_event f) \<noteq> None"
      if "io_event f" for g f
      using a(2) [OF poll_bit_in, of g f] d(3) coherentD [OF c that, of g] that e
      by (auto simp: r'_def io_defs)
    show "fd_count r' = int (bound_events (demux_table r'))"
      using unbind_count [OF ok v bound d(1)] c by (simp add: r'_def coherent_def)
    show "repo_lookup (demux_table r') g ACCEPT_EVENT = None" for g
      using d(3) c by (simp add: r'_def coherent_def)
  qed (use a d in \<open>simp_all add: r'_def\<close>)
  then show ?thesis using step d(3) by (simp add: r'_def)
qed

lemma unregister_law:
  assumes spec: "epoll_ctl_spec interest ctl" and acc: "epoll_ctl_accepts interest ctl"
    and c: "coherent interest r" and e: "e = READ_EVENT \<or> e = WRITE_EVENT"
    and h: "0 \<le> h" "h < 2147483648"
    and bound: "repo_lookup (demux_table r) h e = Some x"
  shows "\<exists>r'. unregister_handler ex ctl h (Some x) e r = Some (0, r') \<and> coherent interest r' \<and>
    repo_lookup (demux_table r') h e = None \<and> fd_count r' = fd_count r - 1"
proof -
  have m: "mirrors interest (kernel r) (epoller_of r)" using c by (simp add: coherent_def)
  have io: "io_event e" and te: "table_event e = e" using e by (auto simp: io_defs)
  have "has (epoller_of r) h (poll_bit e)" using coherentD [OF c io] bound te by simp
  then obtain k p where "del ctl (kernel r) (epoller_of r) h (poll_bit e) = (0, k, p)"
    using del_has [OF spec acc m poll_bit_in, of h e] by blast
  then show ?thesis by (rule unregister_effect [OF spec c e h bound])
qed

lemma coherent_timeouts:
  assumes "coherent interest r" and "repo_ok d" and "events_table d = events_table (demux_table r)"
  shows "coherent interest (r\<lparr>demux_table := d\<rparr>)"
proof -
  have "repo_lookup d = repo_lookup (demux_table r)"
    using assms(3) by (intro ext) (simp add: repo_lookup_table)
  then show ?thesis using assms by (simp add: coherent_def bound_events_def)
qed

text \<open>
  The registrations of read, write and accept events and of timers, as long as each call succeeds or leaves the reactor
  as it was. The calls that do neither fail half way: the kernel has refused an \<open>epoll_ctl\<close>, or a handler other than the
  bound one has been unregistered.
\<close>

inductive reg_step :: "(handler \<Rightarrow> int option) \<Rightarrow> 'k epoll_ctl \<Rightarrow>
    ('k, 'w) epoll_reactor \<Rightarrow> ('k, 'w) epoll_reactor \<Rightarrow> bool" for ex ctl where
  register: "kernel_handle h \<Longrightarrow> io_event e \<Longrightarrow> register_handler ex ctl h x e r = (c, r') \<Longrightarrow> c = 0 \<or> r' = r \<Longrightarrow>
    reg_step ex ctl r r'"
| unregister: "kernel_handle h \<Longrightarrow> io_event e \<Longrightarrow> unregister_handler ex ctl h x e r = Some (c, r') \<Longrightarrow>
    c = 0 \<or> r' = r \<Longrightarrow> reg_step ex ctl r r'"
| register_timer: "reg_step ex ctl r (snd (register_timeout ex x e r))"
| unregister_timer: "unregister_timeout ex x e r = Some (c, r') \<Longrightarrow> reg_step ex ctl r r'"

lemma register_success:
  assumes spec: "epoll_ctl_spec interest ctl" and c: "coherent interest r"
    and e: "io_event e" and h: "kernel_handle h" and reg: "register_handler ex ctl h x e r = (0, r')"
  shows "coherent interest r'"
proof -
  obtain y where y: "x = Some y" "0 \<le> h" "h < 2147483648"
    using reg h by (auto simp: register_handler_def kernel_handle_def split: if_splits)
  obtain a k p where a: "add ctl (kernel r) (epoller_of r) h (poll_bit e) = (a, k, p)" by (metis prod_cases3)
  have "a = 0" using reg a add_result [OF a] by (auto simp: register_handler_def io_event_bit [OF e] split: if_splits)
  then show ?thesis using register_effect [OF spec c e y(2,3), of k p ex y] a reg y(1) by auto
qed

lemma unregister_success:
  assumes spec: "epoll_ctl_spec interest ctl" and c: "coherent interest r"
    and e: "io_event e" and h: "kernel_handle h" and unreg: "unregister_handler ex ctl h x e r = Some (0, r')"
  shows "coherent interest r'"
proof -
  obtain y z where y: "x = Some y" "0 \<le> h" "h < 2147483648" "getHandler (demux_table r) h e = Some z"
    using unreg h by (auto simp: unregister_handler_def kernel_handle_def split: if_splits)
  have l: "repo_lookup (demux_table r) h e = Some z" using y by (simp add: repo_lookup_def)
  have "e \<noteq> ACCEPT_EVENT" using l c by (auto simp: coherent_def)
  then have rw: "e = READ_EVENT \<or> e = WRITE_EVENT" using e by (simp add: io_event_def)
  obtain a k p where a: "del ctl (kernel r) (epoller_of r) h (poll_bit e) = (a, k, p)" by (metis prod_cases3)
  have a0: "a = 0"
    using unreg a del_result [OF a] by (auto simp: unregister_handler_def io_event_bit [OF e] split: if_splits)
  have "z = y"
  proof (rule ccontr)
    assume "z \<noteq> y"
    then have "unbind ex (demux_table r) h e (Some y) = Some (- 1, demux_table r)"
      by (intro repo_unbind_refused) (use c l y rw in \<open>auto simp: coherent_def repo_valid_def event_defs\<close>)
    then show False using unreg a a0 y
      by (auto simp: unregister_handler_def io_event_bit [OF e] split: if_splits)
  qed
  then show ?thesis using unregister_effect [OF spec c rw y(2,3), of y k p ex] l a a0 unreg y(1) by auto
qed

lemma reg_step_coherent:
  assumes spec: "epoll_ctl_spec interest ctl"
    and step: "reg_step ex ctl r r'" and c: "coherent interest r"
  shows "coherent interest r'"
  using step c
proof (induction rule: reg_step.induct)
  case (register h e x r c r')
  then show ?case using register_success [OF spec] by blast
next
  case (unregister h e x r c r')
  then show ?case using unregister_success [OF spec] by blast
next
  case (register_timer r x e)
  have ok: "repo_ok (demux_table r)" using register_timer.prems by (simp add: coherent_def)
  have "events_table (snd (bindNew ex (demux_table r) INVALID_HANDLE e x)) = events_table (demux_table r)"
    by (auto simp: bindNew_def Let_def split: option.splits)
  then show ?case
    using coherent_timeouts [OF register_timer.prems bindNew_ok [OF ok, of INVALID_HANDLE ex e x]]
      register_timer.prems
    by (auto simp: register_timeout_def kernel_handle_def)
next
  case (unregister_timer x e r c r')
  have ok: "repo_ok (demux_table r)" using unregister_timer.prems by (simp add: coherent_def)
  show ?case
  proof (cases "x = None \<or> e \<noteq> TIMEOUT_EVENT")
    case True
    then show ?thesis using unregister_timer by (auto simp: unregister_timeout_def)
  next
    case False
    obtain b d where d: "unbind ex (demux_table r) INVALID_HANDLE e x = Some (b, d)" "repo_ok d"
      using unbind_defined_ok [OF ok] by blast
    have "events_table d = events_table (demux_table r)"
      using d(1) False by (auto simp: unbind_def split: option.splits if_splits)
    then show ?thesis using coherent_timeouts [OF unregister_timer.prems d(2)] d(1) unregister_timer.hyps False
      by (simp add: unregister_timeout_def)
  qed
qed

lemma coherent_new:
  "interest k = (\<lambda>_. None) \<Longrightarrow> coherent interest (new_epoll_reactor n k w)"
  by (simp add: coherent_def new_epoll_reactor_def new_repo_ok mirrors_def open_epoller_def new_epoller_def
      has_def repo_lookup_table bound_events_def Let_def new_repo_def)
    (simp add: repo_ok_def)

text \<open>
  C3. The registrations and the kernel agree: after any sequence of registrations and unregistrations of read, write and
  accept events and of timers on a fresh reactor, in which every call succeeds or leaves the reactor as it was, the kernel
  watches a descriptor for reading exactly when a handler is bound to its read (or accept) event, for writing exactly
  when one is bound to its write event, and \<open>fd_count_\<close> is the number of bound events. A call that fails half way, after
  an \<open>epoll_ctl\<close> that the kernel refuses or for a handler that is not the bound one, is not covered. Of the kernel only the
  documented behaviour of \<open>epoll_ctl\<close> is used: a failing call changes nothing, a successful one has its effect.
\<close>

theorem registrations_coherent:
  assumes "epoll_ctl_spec interest ctl"
    and "interest k = (\<lambda>_. None)" and "(reg_step ex ctl)\<^sup>*\<^sup>* (new_epoll_reactor n k w) r"
  shows "coherent interest r"
  using assms(3)
proof (induction rule: rtranclp_induct)
  case base
  show ?case by (rule coherent_new) (rule assms(2))
next
  case (step r1 r2)
  show ?case by (rule reg_step_coherent [OF assms(1) step.hyps(2) step.IH])
qed

theorem registrations_coherent_witness:
  "coherent (\<lambda>k. k) (snd (register_handler (\<lambda>_. None) ideal_ctl 5 (Some 1) READ_EVENT
     (new_epoll_reactor 3 (\<lambda>_. None) ())))"
proof -
  let ?r = "new_epoll_reactor 3 (\<lambda>_. None :: 32 word option) ()"
  have "fst (register_handler (\<lambda>_. None) ideal_ctl 5 (Some 1) READ_EVENT ?r) = 0"
    by (simp add: register_handler_def new_epoll_reactor_def getHandler_def new_repo_def open_epoller_def new_epoller_def
        add_def ideal_ctl_def reactor_event_to_poll_event_def bindNew_def INVALID_HANDLE_def event_defs Let_def)
  then have "reg_step (\<lambda>_. None) ideal_ctl ?r
      (snd (register_handler (\<lambda>_. None) ideal_ctl 5 (Some 1) READ_EVENT ?r))"
    by (intro reg_step.register [of 5 READ_EVENT _ _ "Some 1" _ 0])
      (simp_all add: kernel_handle_def io_event_def prod_eq_iff)
  then show ?thesis
    by (intro registrations_coherent [OF ideal_ctl_spec]) auto
qed

text \<open>
  Unregistering with another handler than the bound one takes the descriptor out of the kernel's list before
  the table refuses: the handler stays bound and is never called again.
\<close>

lemma unregister_wrong_handler:
  assumes spec: "epoll_ctl_spec interest ctl" and acc: "epoll_ctl_accepts interest ctl"
    and c: "coherent interest r" and h: "0 \<le> h" "h < 2147483648"
    and bound: "repo_lookup (demux_table r) h READ_EVENT = Some x" and other: "y \<noteq> x"
  shows "\<exists>r'. unregister_handler ex ctl h (Some y) READ_EVENT r = Some (- 1, r') \<and>
    getHandler (demux_table r') h READ_EVENT = Some x \<and> \<not> has (epoller_of r') h EPOLLIN"
proof -
  have m: "mirrors interest (kernel r) (epoller_of r)" and ok: "repo_ok (demux_table r)"
    and e: "has (epoller_of r) h EPOLLIN"
    using c bound by (simp_all add: coherent_def)
  have b: "poll_bits EPOLLIN" by (simp add: poll_bits_def)
  obtain k p where "del ctl (kernel r) (epoller_of r) h EPOLLIN = (0, k, p)" "\<not> has p h EPOLLIN"
    using del_has [OF spec acc m b e] b by blast
  moreover have "unbind ex (demux_table r) h READ_EVENT (Some y) = Some (- 1, demux_table r)"
    by (rule repo_unbind_refused [OF ok]) (use h bound other in \<open>simp_all add: repo_valid_def event_defs\<close>)
  moreover have "getHandler (demux_table r) h READ_EVENT = Some x" using bound h by (simp add: repo_lookup_def)
  moreover have "reactor_event_to_poll_event READ_EVENT USING_EPOLL = EPOLLIN"
    by (simp add: reactor_event_to_poll_event_def event_defs)
  ultimately show ?thesis using h by (simp add: unregister_handler_def INVALID_HANDLE_def event_defs)
qed

text \<open>A listening socket cannot be unregistered: its event was filed as a read event.\<close>

lemma acceptor_never_unregistered:
  assumes "coherent interest r" and "0 \<le> h" and "h < 2147483648"
  shows "unregister_handler ex ctl h x ACCEPT_EVENT r = Some (- 1, r)"
proof -
  have "repo_lookup (demux_table r) h ACCEPT_EVENT = None" using assms(1) by (simp add: coherent_def)
  then have "getHandler (demux_table r) h ACCEPT_EVENT = None" using assms(2,3) by (simp add: repo_lookup_def)
  then show ?thesis by (simp add: unregister_handler_def)
qed

end
