(* ===== verification/Poll_Table.thy ===== *)
theory Poll_Table
  imports Handler_Table Socket Event_Repo
begin

text \<open>
  \<open>poll_event_repo\<close> and \<open>poll_demultiplex_table\<close> of \<open>src/reactor/poll_demultiplex_table.h\<close> and \<open>.cpp\<close>,
  the table of the poll reactor: a vector indexed by the handle, with a vector of events and handlers in each
  entry. An index out of range is undefined behaviour (\<open>None\<close>).
\<close>

subsection \<open>The events of one handle\<close>

type_synonym poll_event_repo = "(event_type \<times> handler) list"

text \<open>The test of \<open>find\<close>: which bound event is meant by a poll event.\<close>

definition poll_match :: "event_type \<Rightarrow> event_type \<Rightarrow> bool" where
  "poll_match type event \<longleftrightarrow>
     (event = READ_EVENT \<or> event = ACCEPT_EVENT) \<and> type = READ_EVENT \<or>
     (event = WRITE_EVENT \<or> event = CONNECT_EVENT) \<and> type = WRITE_EVENT \<or>
     event = EXCEPT_EVENT \<and> type = EXCEPT_EVENT"

definition poll_find :: "poll_event_repo \<Rightarrow> event_type \<Rightarrow> (event_type \<times> handler) option" where
  "poll_find evs type = List.find (\<lambda>p. poll_match type (fst p)) evs"

definition poll_bind_new :: "poll_event_repo \<Rightarrow> event_type \<Rightarrow> handler option \<Rightarrow> int \<times> poll_event_repo" where
  "poll_bind_new evs type h =
     (case h of
        None \<Rightarrow> (- 1, evs)
      | Some x \<Rightarrow> if type = NONE then (- 1, evs) else (0, evs @ [(type, x)]))"

text \<open>\<open>erase\<close> of the element that was found: the first one that matches.\<close>

fun erase_first :: "('a \<Rightarrow> bool) \<Rightarrow> 'a list \<Rightarrow> 'a list" where
  "erase_first p [] = []"
| "erase_first p (x # xs) = (if p x then xs else x # erase_first p xs)"

definition poll_unbind :: "poll_event_repo \<Rightarrow> event_type \<Rightarrow> handler option \<Rightarrow> int \<times> poll_event_repo" where
  "poll_unbind evs type h =
     (case h of
        None \<Rightarrow> (- 1, evs)
      | Some x \<Rightarrow>
          if type = NONE then (- 1, evs)
          else case poll_find evs type of
                 None \<Rightarrow> (- 1, evs)
               | Some (e, y) \<Rightarrow>
                   if y \<noteq> x then (- 1, evs)
                   else (0, erase_first (\<lambda>p. poll_match type (fst p)) evs))"

definition poll_get_handler :: "poll_event_repo \<Rightarrow> event_type \<Rightarrow> handler option" where
  "poll_get_handler evs type = map_option snd (poll_find evs type)"

subsection \<open>The table\<close>

record poll_table =
  rows :: "poll_event_repo list"
  table_size :: int

definition new_poll_table :: poll_table where
  "new_poll_table = \<lparr>rows = [], table_size = 0\<rparr>"

definition pt_getHandler :: "poll_table \<Rightarrow> int \<Rightarrow> event_type \<Rightarrow> handler option" where
  "pt_getHandler t handle type =
     (if int (length (rows t)) \<le> handle mod 2 ^ 64 then None
      else poll_get_handler (rows t ! nat handle) type)"

definition pt_hasHandle :: "poll_table \<Rightarrow> int \<Rightarrow> bool" where
  "pt_hasHandle t handle \<longleftrightarrow>
     int (length (rows t)) > handle mod 2 ^ 64 \<and> length (rows t ! nat handle) > 0"

definition pt_bindNew :: "poll_table \<Rightarrow> int \<Rightarrow> event_type \<Rightarrow> handler option \<Rightarrow> (int \<times> poll_table) option" where
  "pt_bindNew t handle type h =
     do {
       let tab = (if handle \<ge> int (length (rows t)) then grow (nat (handle + 4)) [] (rows t) else rows t);
       evs \<leftarrow> at tab handle;
       let (r, evs1) = poll_bind_new evs type h;
       Some (r, \<lparr>rows = tab[nat handle := evs1], table_size = table_size t + 1\<rparr>)
     }"

definition pt_unbind :: "poll_table \<Rightarrow> int \<Rightarrow> event_type \<Rightarrow> handler option \<Rightarrow> (int \<times> poll_table) option" where
  "pt_unbind t handle type h =
     do {
       evs \<leftarrow> at (rows t) handle;
       let (r, evs1) = poll_unbind evs type h;
       Some (r, \<lparr>rows = (rows t)[nat handle := evs1], table_size = table_size t - 1\<rparr>)
     }"

text \<open>\<open>unbind\<close> of all events of a handle.\<close>

definition pt_unbind_handle :: "poll_table \<Rightarrow> int \<Rightarrow> (int \<times> poll_table) option" where
  "pt_unbind_handle t handle =
     do {
       evs \<leftarrow> at (rows t) handle;
       if int (length evs) \<le> 0 then Some (- 1, t)
       else Some (0, \<lparr>rows = (rows t)[nat handle := []], table_size = table_size t - int (length evs)\<rparr>)
     }"

subsection \<open>Contract\<close>

definition poll_event :: "event_type \<Rightarrow> bool" where
  "poll_event e \<longleftrightarrow> e = READ_EVENT \<or> e = WRITE_EVENT \<or> e = EXCEPT_EVENT"

definition poll_ok :: "poll_table \<Rightarrow> bool" where
  "poll_ok t \<longleftrightarrow>
     (\<forall>evs \<in> set (rows t). distinct (map fst evs) \<and> (\<forall>p \<in> set evs. poll_event (fst p)))"

definition poll_valid :: "int \<Rightarrow> event_type \<Rightarrow> bool" where
  "poll_valid h e \<longleftrightarrow> 0 \<le> h \<and> h < 2147483644 \<and> poll_event e"

definition poll_lookup :: "poll_table \<Rightarrow> int \<Rightarrow> event_type \<Rightarrow> handler option" where
  "poll_lookup t h e = (if poll_valid h e then pt_getHandler t h e else None)"

text \<open>What the reactor asks of the table to unregister: the lookup comes first.\<close>

definition pt_unregister :: "poll_table \<Rightarrow> int \<Rightarrow> event_type \<Rightarrow> handler option \<Rightarrow> (int \<times> poll_table) option" where
  "pt_unregister t h e x = (if pt_getHandler t h e = None then Some (- 1, t) else pt_unbind t h e x)"

lemma poll_match_event: "poll_event e \<Longrightarrow> poll_event e' \<Longrightarrow> poll_match e e' \<longleftrightarrow> e' = e"
  by (auto simp: poll_event_def poll_match_def event_defs)

lemma get_handler_map_of:
  "\<forall>p \<in> set evs. poll_event (fst p) \<Longrightarrow> poll_event e \<Longrightarrow> poll_get_handler evs e = map_of evs e"
  by (induction evs) (auto simp: poll_get_handler_def poll_find_def poll_match_event)

lemma erase_first_delete:
  "distinct (map fst evs) \<Longrightarrow> \<forall>p \<in> set evs. poll_event (fst p) \<Longrightarrow> poll_event e \<Longrightarrow>
     erase_first (\<lambda>p. poll_match e (fst p)) evs = AList.delete e evs"
  by (induction evs) (auto simp: poll_match_event AList.delete_id)

lemma poll_lookup_table:
  assumes "poll_ok t"
  shows "poll_lookup t h e =
    (if poll_valid h e \<and> nat h < length (rows t) then map_of (rows t ! nat h) e else None)"
proof -
  have "h mod 2 ^ 64 = h" if "poll_valid h e" using that by (simp add: poll_valid_def)
  moreover have "poll_get_handler (rows t ! nat h) e = map_of (rows t ! nat h) e"
    if "nat h < length (rows t)" "poll_valid h e"
    using that assms by (intro get_handler_map_of) (auto simp: poll_ok_def poll_valid_def)
  ultimately show ?thesis
    by (auto simp: poll_lookup_def pt_getHandler_def poll_valid_def)
qed

lemma poll_row:
  "poll_ok t \<Longrightarrow> n < length (rows t) \<Longrightarrow>
     distinct (map fst (rows t ! n)) \<and> (\<forall>p \<in> set (rows t ! n). poll_event (fst p))"
  unfolding poll_ok_def by (blast dest: nth_mem)

lemma poll_ok_update:
  assumes "poll_ok t" and "distinct (map fst evs)" and "\<forall>p \<in> set evs. poll_event (fst p)"
  shows "poll_ok \<lparr>rows = (rows t)[n := evs], table_size = s\<rparr>"
  using assms set_update_subset_insert [of "rows t" n evs] by (auto simp: poll_ok_def)

lemma poll_bind_law:
  assumes ok: "poll_ok t" and v: "poll_valid h e" and free: "poll_lookup t h e = None"
  shows "\<exists>t'. pt_bindNew t h e (Some x) = Some (0, t') \<and> poll_ok t' \<and>
    (\<forall>h' e'. poll_lookup t' h' e' = (if h' = h \<and> e' = e then Some x else poll_lookup t h' e'))"
proof -
  have h: "0 \<le> h" "poll_event e" "e \<noteq> NONE" using v by (auto simp: poll_valid_def poll_event_def event_defs)
  define tab where "tab = (if h \<ge> int (length (rows t)) then grow (nat (h + 4)) [] (rows t) else rows t)"
  define s where "s = table_size t + 1"
  have len: "nat h < length tab" "length (rows t) \<le> length tab" using h by (auto simp: tab_def)
  have tab: "tab ! i = (if i < length (rows t) then rows t ! i else [])" if "i < length tab" for i
    using that by (auto simp: tab_def nth_grow split: if_splits)
  define t1 where "t1 = \<lparr>rows = tab, table_size = s\<rparr>"
  define t' where "t' = \<lparr>rows = tab[nat h := tab ! nat h @ [(e, x)]], table_size = s\<rparr>"
  have ok1: "poll_ok t1"
    using ok subsetD [OF set_grow [of "nat (h + 4)" "[]" "rows t"]]
    by (fastforce simp: poll_ok_def t1_def tab_def)
  have new: "map_of (tab ! nat h) e = None"
    using free v len tab [of "nat h"] by (auto simp: poll_lookup_table [OF ok] split: if_splits)
  have row: "distinct (map fst (tab ! nat h))" "\<forall>p \<in> set (tab ! nat h). poll_event (fst p)"
    using poll_row [OF ok1, of "nat h"] len by (simp_all add: t1_def)
  have ok': "poll_ok t'"
    using poll_ok_update [OF ok1, of "tab ! nat h @ [(e, x)]" "nat h" s] row new h
    by (auto simp: t1_def t'_def map_of_eq_None_iff)
  have step: "pt_bindNew t h e (Some x) = Some (0, t')"
    using len h by (simp add: pt_bindNew_def tab_def [symmetric] at_def poll_bind_new_def t'_def s_def)
  have "poll_lookup t' h' e' = (if h' = h \<and> e' = e then Some x else poll_lookup t h' e')" for h' e'
  proof (cases "h' = h")
    case True
    then show ?thesis using len tab [of "nat h"] new v
      unfolding poll_lookup_table [OF ok] poll_lookup_table [OF ok']
      by (auto simp: t'_def map_add_def split: option.splits)
  next
    case False
    then have "nat h' \<noteq> nat h" if "0 \<le> h'" using that h by auto
    then show ?thesis using False len tab [of "nat h'"]
      unfolding poll_lookup_table [OF ok] poll_lookup_table [OF ok']
      by (auto simp: t'_def poll_valid_def)
  qed
  then show ?thesis using step ok' by blast
qed

lemma poll_unbind_law:
  assumes ok: "poll_ok t" and v: "poll_valid h e" and l: "poll_lookup t h e = Some x"
  shows "\<exists>t'. pt_unregister t h e (Some x) = Some (0, t') \<and> poll_ok t' \<and>
    (\<forall>h' e'. poll_lookup t' h' e' = (if h' = h \<and> e' = e then None else poll_lookup t h' e'))"
proof -
  have h: "0 \<le> h" "poll_event e" "e \<noteq> NONE" using v by (auto simp: poll_valid_def poll_event_def event_defs)
  let ?evs = "rows t ! nat h"
  have len: "nat h < length (rows t)" and m: "map_of ?evs e = Some x"
    using l by (auto simp: poll_lookup_table [OF ok] split: if_splits)
  note row = poll_row [OF ok len]
  define t' where "t' = \<lparr>rows = (rows t)[nat h := AList.delete e ?evs], table_size = table_size t - 1\<rparr>"
  have ok': "poll_ok t'" unfolding t'_def
    by (rule poll_ok_update [OF ok])
      (use row in \<open>simp add: distinct_delete\<close>, use row in \<open>auto simp: AList.delete_eq\<close>)
  have g: "poll_get_handler ?evs e = Some x" using row h m by (simp add: get_handler_map_of)
  then obtain f where f: "poll_find ?evs e = Some (f, x)" by (auto simp: poll_get_handler_def)
  have "pt_getHandler t h e \<noteq> None" using l v by (simp add: poll_lookup_def)
  then have step: "pt_unregister t h e (Some x) = Some (0, t')"
    using len h row f
    by (simp add: pt_unregister_def pt_unbind_def at_def poll_unbind_def erase_first_delete t'_def)
  have "poll_lookup t' h' e' = (if h' = h \<and> e' = e then None else poll_lookup t h' e')" for h' e'
  proof (cases "h' = h")
    case True
    then show ?thesis using len v
      unfolding poll_lookup_table [OF ok] poll_lookup_table [OF ok']
      by (auto simp: t'_def AList.delete_conv')
  next
    case False
    then have "nat h' \<noteq> nat h" if "0 \<le> h'" using that h by auto
    then show ?thesis using False
      unfolding poll_lookup_table [OF ok] poll_lookup_table [OF ok']
      by (auto simp: t'_def poll_valid_def)
  qed
  then show ?thesis using step ok' by blast
qed

lemma poll_unbind_refused:
  assumes ok: "poll_ok t" and v: "poll_valid h e" and l: "poll_lookup t h e \<noteq> Some x"
  shows "\<exists>t'. pt_unregister t h e (Some x) = Some (- 1, t') \<and> poll_ok t' \<and> poll_lookup t' = poll_lookup t"
proof (cases "pt_getHandler t h e")
  case None
  then show ?thesis using ok by (simp add: pt_unregister_def)
next
  case (Some y)
  have h: "0 \<le> h" "poll_event e" "e \<noteq> NONE" "h mod 2 ^ 64 = h"
    using v by (auto simp: poll_valid_def poll_event_def event_defs)
  have len: "nat h < length (rows t)" and g: "poll_get_handler (rows t ! nat h) e = Some y"
    using Some h by (auto simp: pt_getHandler_def split: if_splits)
  obtain f where f: "poll_find (rows t ! nat h) e = Some (f, y)"
    using g by (auto simp: poll_get_handler_def)
  have "y \<noteq> x" using l Some v by (simp add: poll_lookup_def)
  then have "pt_unregister t h e (Some x) = Some (- 1, t\<lparr>table_size := table_size t - 1\<rparr>)"
    using Some len h f
    by (simp add: pt_unregister_def pt_unbind_def at_def poll_unbind_def)
  moreover have "poll_lookup (t\<lparr>table_size := table_size t - 1\<rparr>) = poll_lookup t"
    by (intro ext) (simp add: poll_lookup_def pt_getHandler_def)
  ultimately show ?thesis using ok by (simp add: poll_ok_def)
qed

interpretation poll: handler_table poll_ok poll_lookup poll_valid
  "\<lambda>t h e x. pt_bindNew t h e (Some x)" "\<lambda>t h e x. pt_unregister t h e (Some x)"
  by unfold_locales (use poll_bind_law poll_unbind_law poll_unbind_refused in \<open>blast+\<close>)

end
