(* ===== verification/Poll_Reactor.thy ===== *)
theory Poll_Reactor
  imports Poll_Table Epoll_Reactor
begin

unbundle bit_operations_syntax

text \<open>
  \<open>poll_reactor_impl\<close> of \<open>src/reactor/poll_reactor_impl.cpp\<close>. Every registration adds a \<open>pollfd\<close> of its own to
  the array that is given to \<open>::poll\<close>. The answer of \<open>::poll\<close> and the callbacks are parameters, as for
  the epoll reactor; a callback may change the array, and the dispatch loop, which goes over the array
  itself, continues with what it finds there.
\<close>

subsection \<open>State and registration\<close>

record pollfd =
  pfd_fd :: int
  pfd_events :: "32 word"
  pfd_revents :: "32 word"

record 'w poll_reactor =
  wait_pfds :: "pollfd list"
  poll_demux :: poll_table
  is_waiting :: bool
  poll_world :: 'w

type_synonym 'w poll_callbacks =
  "callback \<Rightarrow> handler \<Rightarrow> int \<Rightarrow> 'w poll_reactor \<Rightarrow> int \<times> 'w poll_reactor"

definition new_poll_reactor :: "'w \<Rightarrow> 'w poll_reactor" where
  "new_poll_reactor w =
     \<lparr>wait_pfds = [], poll_demux = new_poll_table, is_waiting = False, poll_world = w\<rparr>"

definition pr_register_handler :: "int \<Rightarrow> handler option \<Rightarrow> event_type \<Rightarrow> 'w poll_reactor \<Rightarrow>
    (int \<times> 'w poll_reactor) option" where
  "pr_register_handler handle h type r =
     (if handle = INVALID_HANDLE \<or> h = None \<or> type = NONE then Some (- 1, r)
      else if pt_getHandler (poll_demux r) handle type \<noteq> None then Some (- 1, r)
      else do {
        let pfd = \<lparr>pfd_fd = handle, pfd_events = 0 OR reactor_event_to_poll_event type USING_POLL,
                   pfd_revents = 0\<rparr>;
        let r1 = r\<lparr>wait_pfds := wait_pfds r @ [pfd]\<rparr>;
        (c, d) \<leftarrow> pt_bindNew (poll_demux r1) handle type h;
        Some (c, r1\<lparr>poll_demux := d\<rparr>)
      })"

definition pr_unregister_handler :: "int \<Rightarrow> handler option \<Rightarrow> event_type \<Rightarrow> 'w poll_reactor \<Rightarrow>
    (int \<times> 'w poll_reactor) option" where
  "pr_unregister_handler handle h type r =
     (if handle = INVALID_HANDLE \<or> h = None \<or> type = NONE then Some (- 1, r)
      else if pt_getHandler (poll_demux r) handle type = None then Some (- 1, r)
      else do {
        let r1 = r\<lparr>wait_pfds := erase_first (\<lambda>p. pfd_fd p = handle \<and>
                     pfd_events p AND reactor_event_to_poll_event type USING_POLL \<noteq> 0) (wait_pfds r)\<rparr>;
        (c, d) \<leftarrow> pt_unbind (poll_demux r1) handle type h;
        Some (c, r1\<lparr>poll_demux := d\<rparr>)
      })"

text \<open>Timeout handlers are accepted and dropped.\<close>

definition pr_register_timeout :: "handler option \<Rightarrow> event_type \<Rightarrow> 'w poll_reactor \<Rightarrow> int \<times> 'w poll_reactor" where
  "pr_register_timeout h type r = (0, r)"

definition pr_unregister_timeout :: "handler option \<Rightarrow> event_type \<Rightarrow> 'w poll_reactor \<Rightarrow> int \<times> 'w poll_reactor" where
  "pr_unregister_timeout h type r = (0, r)"

subsection \<open>Waiting and dispatching\<close>

text \<open>
  \<open>answer\<close> is \<open>::poll\<close>: from the array and the timeout to the result and the returned events. The
  count of microseconds is passed on as it is.
\<close>

fun set_revents :: "pollfd list \<Rightarrow> 32 word list \<Rightarrow> pollfd list" where
  "set_revents (p # ps) (e # es) = p\<lparr>pfd_revents := e\<rparr> # set_revents ps es"
| "set_revents ps es = ps"

definition pr_poll :: "((int \<times> 32 word) list \<Rightarrow> int \<Rightarrow> int \<times> 32 word list) \<Rightarrow> int option \<Rightarrow>
    'w poll_reactor \<Rightarrow> int \<times> 'w poll_reactor" where
  "pr_poll answer timeout r =
     (if wait_pfds r = [] then (- 1, r)
      else
        let (ret, revs) = answer (map (\<lambda>p. (pfd_fd p, pfd_events p)) (wait_pfds r))
                            (case timeout of None \<Rightarrow> - 1 | Some us \<Rightarrow> i32 us);
            r1 = r\<lparr>wait_pfds := set_revents (wait_pfds r) revs, is_waiting := False\<rparr>
        in (if ret < 0 then - 1 else ret, r1))"

function dispatch_io_sets :: "'w poll_callbacks \<Rightarrow> event_type \<Rightarrow> callback \<Rightarrow> nat \<Rightarrow> int \<Rightarrow>
    'w poll_reactor \<Rightarrow> int \<times> 'w poll_reactor" where
  "dispatch_io_sets cb type c i active r =
     (if i < length (wait_pfds r) \<and> 0 < active then
        if pfd_revents (wait_pfds r ! i) AND type = 0 then dispatch_io_sets cb type c (i + 1) active r
        else
          let fd = pfd_fd (wait_pfds r ! i)
          in case pt_getHandler (poll_demux r) fd type of
               None \<Rightarrow> dispatch_io_sets cb type c (i + 1) (active - 1) r
             | Some x \<Rightarrow>
                 let (ret, r1) = cb c x fd r;
                     r2 = (if ret < 0 then
                             if type = READ_EVENT then snd (cb Close_read x fd r1)
                             else if type = WRITE_EVENT then snd (cb Close_write x fd r1)
                             else r1
                           else r1);
                     r3 = (if \<exists>p \<in> set (wait_pfds r2). pfd_fd p = fd then r2
                           else snd (cb Handle_close x fd r2))
                 in dispatch_io_sets cb type c (i + 1) (active - 1) r3
      else (active, r))"
  by pat_completeness auto

text \<open>
  The loop ends whatever the callbacks do: each dispatched handle uses up one of the active ones, and in
  between the index moves towards the end of the array.
\<close>

termination
  by (relation "measures [\<lambda>(cb, type, c, i, active, r). nat active,
      \<lambda>(cb, type, c, i, active, r). length (wait_pfds r) - i]") auto

declare dispatch_io_sets.simps [simp del]

definition POLLERR :: "32 word" where "POLLERR = 8"

text \<open>\<open>ret && ...\<close> makes the result 0 or 1.\<close>

definition pr_dispatch_io_handlers :: "'w poll_callbacks \<Rightarrow> int \<Rightarrow> 'w poll_reactor \<Rightarrow> int \<times> 'w poll_reactor" where
  "pr_dispatch_io_handlers cb active r =
     (let (ret, r1) = dispatch_io_sets cb POLLIN Handle_input 0 active r;
          (ret, r2) = (if ret \<noteq> 0
                       then let (a, r2) = dispatch_io_sets cb POLLOUT Handle_output 0 ret r1
                            in (if a \<noteq> 0 then 1 else 0, r2)
                       else (0, r1))
      in if ret \<noteq> 0
         then let (a, r3) = dispatch_io_sets cb POLLERR Handle_output 0 ret r2
              in (if a \<noteq> 0 then 1 else 0, r3)
         else (0, r2))"

definition pr_dispatch :: "'w poll_callbacks \<Rightarrow> int \<Rightarrow> 'w poll_reactor \<Rightarrow> int \<times> 'w poll_reactor" where
  "pr_dispatch cb active r =
     (let (ret, r1) = pr_dispatch_io_handlers cb active r in (if ret \<noteq> 0 then - 1 else 0, r1))"

definition pr_handle_events :: "'w poll_callbacks \<Rightarrow> ((int \<times> 32 word) list \<Rightarrow> int \<Rightarrow> int \<times> 32 word list) \<Rightarrow>
    int option \<Rightarrow> 'w poll_reactor \<Rightarrow> int \<times> 'w poll_reactor" where
  "pr_handle_events cb answer timeout r =
     (let (n, r1) = pr_poll answer timeout r
      in if n < 0 then (- 1, r1)
         else if n > 0 then (0, snd (pr_dispatch cb n r1))
         else (0, r1))"

subsection \<open>The array and the table\<close>

text \<open>There is one \<open>pollfd\<close> for every bound event and no other.\<close>

definition pfd_key :: "pollfd \<Rightarrow> int \<times> 32 word" where
  "pfd_key p = (pfd_fd p, pfd_events p)"

definition poll_io :: "event_type \<Rightarrow> bool" where
  "poll_io e \<longleftrightarrow> e = READ_EVENT \<or> e = WRITE_EVENT"

definition poll_coherent :: "'w poll_reactor \<Rightarrow> bool" where
  "poll_coherent r \<longleftrightarrow>
     poll_ok (poll_demux r) \<and> distinct (map pfd_key (wait_pfds r)) \<and>
     (\<forall>h e. (h, e) \<in> pfd_key ` set (wait_pfds r) \<longleftrightarrow> poll_io e \<and> poll_lookup (poll_demux r) h e \<noteq> None)"

lemma poll_io_bits: "poll_io e \<Longrightarrow> 0 OR reactor_event_to_poll_event e USING_POLL = e"
  by (auto simp: poll_io_def reactor_event_to_poll_event_def event_defs poll_defs)

lemma poll_io_overlap: "poll_io e \<Longrightarrow> poll_io f \<Longrightarrow> f AND e \<noteq> 0 \<longleftrightarrow> f = e"
  by (auto simp: poll_io_def event_defs)

lemma poll_io_valid: "poll_io e \<Longrightarrow> 0 \<le> h \<Longrightarrow> h < 2147483644 \<Longrightarrow> poll_valid h e"
  by (auto simp: poll_io_def poll_valid_def poll_event_def)

lemma poll_new_coherent: "poll_coherent (new_poll_reactor w)"
  by (simp add: poll_coherent_def new_poll_reactor_def new_poll_table_def poll_ok_def poll_lookup_def
      pt_getHandler_def)

lemma erase_first_key:
  assumes "distinct (map f xs)" and "\<And>x. x \<in> set xs \<Longrightarrow> p x \<longleftrightarrow> f x = k"
  shows "distinct (map f (erase_first p xs))" and "f ` set (erase_first p xs) = f ` set xs - {k}"
proof -
  have "distinct (map f (erase_first p xs)) \<and> f ` set (erase_first p xs) = f ` set xs - {k}"
    using assms by (induction xs) (auto, metis image_eqI)
  then show "distinct (map f (erase_first p xs))" and "f ` set (erase_first p xs) = f ` set xs - {k}"
    by blast+
qed

lemma poll_register_law:
  assumes c: "poll_coherent r" and e: "poll_io e" and h: "0 \<le> h" "h < 2147483644"
    and free: "poll_lookup (poll_demux r) h e = None"
  shows "\<exists>r'. pr_register_handler h (Some x) e r = Some (0, r') \<and> poll_coherent r' \<and>
    poll_lookup (poll_demux r') h e = Some x"
proof -
  have ok: "poll_ok (poll_demux r)" using c by (simp add: poll_coherent_def)
  note v = poll_io_valid [OF e h]
  obtain d where d: "pt_bindNew (poll_demux r) h e (Some x) = Some (0, d)" "poll_ok d"
    "\<And>h' e'. poll_lookup d h' e' = (if h' = h \<and> e' = e then Some x else poll_lookup (poll_demux r) h' e')"
    using poll_bind_law [OF ok v free] by blast
  define pfd where "pfd = \<lparr>pfd_fd = h, pfd_events = e, pfd_revents = 0\<rparr>"
  define r' where "r' = r\<lparr>wait_pfds := wait_pfds r @ [pfd], poll_demux := d\<rparr>"
  have "pt_getHandler (poll_demux r) h e = None" using free v by (simp add: poll_lookup_def)
  then have step: "pr_register_handler h (Some x) e r = Some (0, r')"
    using d(1) h e poll_io_bits [OF e]
    by (auto simp: pr_register_handler_def r'_def pfd_def INVALID_HANDLE_def poll_io_def event_defs)
  have "(h, e) \<notin> pfd_key ` set (wait_pfds r)" using c free by (auto simp: poll_coherent_def)
  then have "poll_coherent r'"
    using c d(2,3) e free
    by (auto simp: poll_coherent_def r'_def pfd_def pfd_key_def image_iff)
  then show ?thesis using step d(3) by (simp add: r'_def)
qed

lemma poll_unregister_law:
  assumes c: "poll_coherent r" and e: "poll_io e" and h: "0 \<le> h" "h < 2147483644"
    and bound: "poll_lookup (poll_demux r) h e = Some x"
  shows "\<exists>r'. pr_unregister_handler h (Some x) e r = Some (0, r') \<and> poll_coherent r' \<and>
    poll_lookup (poll_demux r') h e = None"
proof -
  have ok: "poll_ok (poll_demux r)" and dist: "distinct (map pfd_key (wait_pfds r))"
    using c by (simp_all add: poll_coherent_def)
  note v = poll_io_valid [OF e h]
  obtain d where d: "pt_unregister (poll_demux r) h e (Some x) = Some (0, d)" "poll_ok d"
    "\<And>h' e'. poll_lookup d h' e' = (if h' = h \<and> e' = e then None else poll_lookup (poll_demux r) h' e')"
    using poll_unbind_law [OF ok v bound] by blast
  let ?p = "\<lambda>p. pfd_fd p = h \<and> pfd_events p AND reactor_event_to_poll_event e USING_POLL \<noteq> 0"
  define r' where "r' = r\<lparr>wait_pfds := erase_first ?p (wait_pfds r), poll_demux := d\<rparr>"
  have g: "pt_getHandler (poll_demux r) h e = Some x" using bound v by (simp add: poll_lookup_def)
  then have step: "pr_unregister_handler h (Some x) e r = Some (0, r')"
    using d(1) h e
    by (auto simp: pr_unregister_handler_def pt_unregister_def r'_def INVALID_HANDLE_def poll_io_def event_defs)
  have bits: "reactor_event_to_poll_event e USING_POLL = e" using poll_io_bits [OF e] by simp
  have "?p p \<longleftrightarrow> pfd_key p = (h, e)" if p: "p \<in> set (wait_pfds r)" for p
  proof -
    have "(pfd_fd p, pfd_events p) \<in> pfd_key ` set (wait_pfds r)"
      using p by (force simp: pfd_key_def)
    then have "poll_io (pfd_events p)" using c by (simp add: poll_coherent_def)
    then show ?thesis using poll_io_overlap [OF e, of "pfd_events p"] bits by (simp add: pfd_key_def)
  qed
  note k = erase_first_key [OF dist this]
  have "poll_coherent r'"
    using c d(2,3) k by (auto simp: poll_coherent_def r'_def)
  then show ?thesis using step d(3) by (simp add: r'_def)
qed


lemma poll_register_refused:
  assumes "poll_io e" and "0 \<le> h" and "h < 2147483644" and "poll_lookup (poll_demux r) h e \<noteq> None"
  shows "pr_register_handler h x e r = Some (- 1, r)"
  using assms poll_io_valid [OF assms(1-3)] by (auto simp: pr_register_handler_def poll_lookup_def)

inductive poll_step :: "'w poll_reactor \<Rightarrow> 'w poll_reactor \<Rightarrow> bool" where
  register: "0 \<le> h \<Longrightarrow> h < 2147483644 \<Longrightarrow> poll_io e \<Longrightarrow>
    pr_register_handler h x e r = Some (c, r') \<Longrightarrow> poll_step r r'"
| unregister: "0 \<le> h \<Longrightarrow> h < 2147483644 \<Longrightarrow> poll_io e \<Longrightarrow>
    pt_getHandler (poll_demux r) h e = None \<or> pt_getHandler (poll_demux r) h e = x \<Longrightarrow>
    pr_unregister_handler h x e r = Some (c, r') \<Longrightarrow> poll_step r r'"

lemma poll_step_coherent: "poll_step r r' \<Longrightarrow> poll_coherent r \<Longrightarrow> poll_coherent r'"
proof (induction rule: poll_step.induct)
  case (register h e x r c r')
  show ?case
  proof (cases "x = None \<or> poll_lookup (poll_demux r) h e \<noteq> None")
    case True
    then have "pr_register_handler h x e r = Some (- 1, r)"
      using poll_register_refused [OF register.hyps(3,1,2), of r x]
      by (cases "x = None") (simp add: pr_register_handler_def, blast)
    then show ?thesis using register by simp
  next
    case False
    then obtain y where "x = Some y" by auto
    then show ?thesis using poll_register_law [OF register.prems register.hyps(3,1,2), of y] False register
      by auto
  qed
next
  case (unregister h e r x c r')
  show ?case
  proof (cases "x = None \<or> pt_getHandler (poll_demux r) h e = None")
    case True
    then show ?thesis using unregister by (auto simp: pr_unregister_handler_def split: if_splits)
  next
    case False
    then obtain y where y: "x = Some y" "pt_getHandler (poll_demux r) h e = Some y"
      using unregister.hyps(4) by auto
    then have "poll_lookup (poll_demux r) h e = Some y"
      using poll_io_valid [OF unregister.hyps(3,1,2)] by (simp add: poll_lookup_def)
    then show ?thesis using poll_unregister_law [OF unregister.prems unregister.hyps(3,1,2)] y unregister
      by auto
  qed
qed

text \<open>
  C22. The array given to \<open>::poll\<close> and the table of the poll reactor agree after any sequence of
  registrations for reading or writing of handles from 0 to \<open>2^31 - 5\<close> and of unregistrations, each made with the handler
  that is bound or for an event that is not bound: the array has exactly one entry for every bound read or
  write event, and none without a handler. An unregistration with another handler than the bound one is left out, since it
  removes the entry and keeps the handler (lemma \<open>poll_unregister_wrong_handler\<close>).
\<close>

theorem poll_registrations_coherent:
  assumes "poll_step\<^sup>*\<^sup>* (new_poll_reactor w) r"
  shows "poll_coherent r"
  using assms by (induction rule: rtranclp_induct) (auto simp: poll_new_coherent intro: poll_step_coherent)

theorem poll_registrations_coherent_witness:
  "\<exists>r. pr_register_handler 1 (Some 9) READ_EVENT (new_poll_reactor ()) = Some (0, r) \<and> poll_coherent r"
proof -
  have "poll_lookup (poll_demux (new_poll_reactor ())) 1 READ_EVENT = None"
    by (simp add: new_poll_reactor_def new_poll_table_def poll_lookup_def pt_getHandler_def)
  then obtain r where r: "pr_register_handler 1 (Some 9) READ_EVENT (new_poll_reactor ()) = Some (0, r)"
    using poll_register_law [OF poll_new_coherent, of READ_EVENT 1 "()" 9] by (auto simp: poll_io_def)
  then have "poll_step (new_poll_reactor ()) r"
    by (intro poll_step.register [of 1 READ_EVENT "Some 9"]) (simp_all add: poll_io_def)
  then show ?thesis using r poll_registrations_coherent [of "()" r] by auto
qed

subsection \<open>One turn\<close>

definition poll_logging :: "call list poll_callbacks \<Rightarrow> bool" where
  "poll_logging cb \<longleftrightarrow> (\<forall>c x fd r. 0 \<le> fst (cb c x fd r) \<and>
     snd (cb c x fd r) = r\<lparr>poll_world := poll_world r @ [(c, x, fd)]\<rparr>)"

definition poll_log_call :: "call list poll_callbacks" where
  "poll_log_call c x fd r = (0, r\<lparr>poll_world := poll_world r @ [(c, x, fd)]\<rparr>)"

lemma poll_logging_log_call: "poll_logging poll_log_call"
  by (simp add: poll_logging_def poll_log_call_def)

lemma poll_loggingD:
  assumes "poll_logging cb"
  obtains a where "cb c x fd r = (a, r\<lparr>poll_world := poll_world r @ [(c, x, fd)]\<rparr>)" and "0 \<le> a"
  using assms unfolding poll_logging_def by (metis prod.collapse)

definition pfd_ready :: "event_type \<Rightarrow> pollfd list \<Rightarrow> pollfd list" where
  "pfd_ready type ps = filter (\<lambda>p. pfd_revents p AND type \<noteq> 0) ps"

fun poll_calls :: "poll_table \<Rightarrow> event_type \<Rightarrow> callback \<Rightarrow> pollfd list \<Rightarrow> call list" where
  "poll_calls d type c [] = []"
| "poll_calls d type c (p # ps) =
     (case pt_getHandler d (pfd_fd p) type of None \<Rightarrow> [] | Some x \<Rightarrow> [(c, x, pfd_fd p)]) @
     poll_calls d type c ps"

lemma poll_sets_law:
  assumes l: "poll_logging cb" and "0 \<le> active" and "i \<le> length (wait_pfds r)"
  shows "dispatch_io_sets cb type c i active r =
    (let sel = take (nat active) (pfd_ready type (drop i (wait_pfds r)))
     in (active - int (length sel), r\<lparr>poll_world := poll_world r @ poll_calls (poll_demux r) type c sel\<rparr>))"
  using assms(2,3)
proof (induction "length (wait_pfds r) - i" arbitrary: i active r)
  case 0
  then show ?case by (subst dispatch_io_sets.simps) (simp add: pfd_ready_def)
next
  case (Suc n)
  let ?p = "wait_pfds r ! i"
  have i: "i < length (wait_pfds r)" using Suc.hyps(2) by simp
  then have drop: "drop i (wait_pfds r) = ?p # drop (Suc i) (wait_pfds r)"
    by (simp add: Cons_nth_drop_Suc)
  consider "active = 0" | "0 < active" "pfd_revents ?p AND type = 0"
    | "0 < active" "pfd_revents ?p AND type \<noteq> 0" "pt_getHandler (poll_demux r) (pfd_fd ?p) type = None"
    | x where "0 < active" "pfd_revents ?p AND type \<noteq> 0"
        "pt_getHandler (poll_demux r) (pfd_fd ?p) type = Some x"
    using Suc.prems(1) by fastforce
  then show ?case
  proof cases
    case 1
    then show ?thesis by (subst dispatch_io_sets.simps) simp
  next
    case 2
    then show ?thesis using Suc.hyps(1) [of r "Suc i" active] Suc.hyps(2) Suc.prems i
      by (subst dispatch_io_sets.simps) (simp add: drop pfd_ready_def)
  next
    case 3
    have "nat active = Suc (nat (active - 1))" using 3(1) by simp
    then show ?thesis using Suc.hyps(1) [of r "Suc i" "active - 1"] Suc.hyps(2) Suc.prems i 3
      by (subst dispatch_io_sets.simps) (simp add: drop pfd_ready_def Let_def)
  next
    case (4 x)
    let ?fd = "pfd_fd ?p"
    obtain a where a: "cb c x ?fd r = (a, r\<lparr>poll_world := poll_world r @ [(c, x, ?fd)]\<rparr>)" "0 \<le> a"
      by (rule poll_loggingD [OF l])
    have n: "nat active = Suc (nat (active - 1))" using 4(1) by simp
    have "\<exists>p \<in> set (wait_pfds r). pfd_fd p = ?fd" using nth_mem [OF i] by blast
    then show ?thesis
      using Suc.hyps(1) [of "r\<lparr>poll_world := poll_world r @ [(c, x, ?fd)]\<rparr>" "Suc i" "active - 1"]
        Suc.hyps(2) Suc.prems i 4 a
      by (subst dispatch_io_sets.simps) (simp add: drop pfd_ready_def Let_def n)
  qed
qed


definition sample_poll_reactor :: "call list poll_reactor" where
  "sample_poll_reactor = \<lparr>wait_pfds = [\<lparr>pfd_fd = 0, pfd_events = 1, pfd_revents = 0\<rparr>,
       \<lparr>pfd_fd = 1, pfd_events = 1, pfd_revents = 0\<rparr>, \<lparr>pfd_fd = 1, pfd_events = 4, pfd_revents = 0\<rparr>],
     poll_demux = \<lparr>rows = [[(READ_EVENT, 10)], [(READ_EVENT, 20), (WRITE_EVENT, 21)]], table_size = 3\<rparr>,
     is_waiting = False, poll_world = []\<rparr>"


subsection \<open>Flaws\<close>

text \<open>
  A handler that unregisters itself in its callback shifts the array under the loop: the entry after it is
  passed over.
\<close>

definition leaving_call :: "call list poll_callbacks" where
  "leaving_call c x fd r =
     (if c = Handle_input \<and> x = 10
      then (case pr_unregister_handler fd (Some x) READ_EVENT r of
              Some (a, r1) \<Rightarrow> (a, r1\<lparr>poll_world := poll_world r1 @ [(c, x, fd)]\<rparr>)
            | None \<Rightarrow> (0, r))
      else poll_log_call c x fd r)"

definition left_reactor :: "call list poll_reactor" where
  "left_reactor = sample_poll_reactor\<lparr>
     wait_pfds := [\<lparr>pfd_fd = 1, pfd_events = 1, pfd_revents = 1\<rparr>, \<lparr>pfd_fd = 1, pfd_events = 4, pfd_revents = 0\<rparr>],
     poll_demux := \<lparr>rows = [[], [(READ_EVENT, 20), (WRITE_EVENT, 21)]], table_size = 2\<rparr>,
     poll_world := [(Handle_input, 10, 0)]\<rparr>"

lemma leaving_call_step:
  "leaving_call Handle_input 10 0 (sample_poll_reactor\<lparr>wait_pfds :=
     set_revents (wait_pfds sample_poll_reactor) [1, 1, 0]\<rparr>) = (0, left_reactor)"
proof -
  have "pr_unregister_handler 0 (Some 10) READ_EVENT (sample_poll_reactor\<lparr>wait_pfds :=
     set_revents (wait_pfds sample_poll_reactor) [1, 1, 0]\<rparr>) = Some (0, left_reactor\<lparr>poll_world := []\<rparr>)"
    by (simp add: left_reactor_def sample_poll_reactor_def pr_unregister_handler_def
      pt_unbind_def poll_unbind_def at_def INVALID_HANDLE_def reactor_event_to_poll_event_def poll_defs
      pt_getHandler_def poll_get_handler_def poll_find_def poll_match_def event_defs)
  then show ?thesis by (simp add: leaving_call_def) (simp add: left_reactor_def)
qed

lemma dispatch_skips_after_erase:
  "dispatch_io_sets leaving_call POLLIN Handle_input 0 2 (sample_poll_reactor\<lparr>wait_pfds :=
     set_revents (wait_pfds sample_poll_reactor) [1, 1, 0]\<rparr>) =
   (1, left_reactor\<lparr>poll_world := [(Handle_input, 10, 0), (Handle_close, 10, 0)]\<rparr>)"
proof -
  let ?r = "sample_poll_reactor\<lparr>wait_pfds := set_revents (wait_pfds sample_poll_reactor) [1, 1, 0]\<rparr>"
  define r' where "r' = left_reactor\<lparr>poll_world := [(Handle_input, 10, 0), (Handle_close, 10, 0)]\<rparr>"
  have g: "pt_getHandler (poll_demux ?r) 0 READ_EVENT = Some 10"
    by (simp add: sample_poll_reactor_def pt_getHandler_def poll_get_handler_def poll_find_def
        poll_match_def event_defs)
  have w: "wait_pfds ?r = [\<lparr>pfd_fd = 0, pfd_events = 1, pfd_revents = 1\<rparr>,
      \<lparr>pfd_fd = 1, pfd_events = 1, pfd_revents = 1\<rparr>, \<lparr>pfd_fd = 1, pfd_events = 4, pfd_revents = 0\<rparr>]"
    by (simp add: sample_poll_reactor_def)
  have in_read: "POLLIN = READ_EVENT" by (simp add: POLLIN_def READ_EVENT_def)
  have c: "leaving_call Handle_close 10 0 left_reactor = (0, r')"
    by (simp add: leaving_call_def poll_log_call_def left_reactor_def r'_def)
  have w1: "wait_pfds left_reactor = [\<lparr>pfd_fd = 1, pfd_events = 1, pfd_revents = 1\<rparr>,
      \<lparr>pfd_fd = 1, pfd_events = 4, pfd_revents = 0\<rparr>]"
    by (simp add: left_reactor_def)
  have "dispatch_io_sets leaving_call POLLIN Handle_input 0 2 ?r =
      dispatch_io_sets leaving_call POLLIN Handle_input 1 1 r'"
    using g w w1 c leaving_call_step
    by (subst dispatch_io_sets.simps) (simp add: in_read Let_def READ_EVENT_def)
  also have "\<dots> = dispatch_io_sets leaving_call POLLIN Handle_input 2 1 r'"
    by (subst dispatch_io_sets.simps) (simp add: r'_def w1 poll_defs numeral_2_eq_2)
  also have "\<dots> = (1, r')"
    by (subst dispatch_io_sets.simps) (simp add: r'_def w1)
  finally show ?thesis by (simp add: r'_def)
qed

text \<open>Unregistering with another handler takes the entry out of the array and leaves the handler bound.\<close>

lemma poll_unregister_wrong_handler:
  "\<exists>r'. pr_unregister_handler 0 (Some 99) READ_EVENT sample_poll_reactor = Some (- 1, r') \<and>
    pt_getHandler (poll_demux r') 0 READ_EVENT = Some 10 \<and> length (wait_pfds r') = 2"
  by (simp add: sample_poll_reactor_def pr_unregister_handler_def pt_unbind_def poll_unbind_def at_def
      INVALID_HANDLE_def reactor_event_to_poll_event_def poll_defs pt_getHandler_def poll_get_handler_def
      poll_find_def poll_match_def event_defs)

end
