(* ===== verification/Select_Table.thy ===== *)
theory Select_Table
  imports Handler_Table Socket Event_Repo "HOL-Library.Multiset"
begin

text \<open>
  \<open>select_event_tuple\<close> and \<open>select_demultiplex_table\<close> of \<open>src/reactor/select_reactor_impl.h\<close> and \<open>.cpp\<close>: a vector
  indexed by the handle, the largest handle with a handler plus one, and a heap of timeout handlers.
  Undefined behaviour (an index out of range, the element behind the end) and a failing
  \<open>resize\<close> are \<open>None\<close>. The heap is a list ordered by expiration time; handlers that expire at the same time stand in
  the order in which they were pushed.
\<close>

subsection \<open>The events of one handle\<close>

type_synonym select_tuple = "(event_type \<times> handler) list"

definition tuple_bind_new :: "select_tuple \<Rightarrow> event_type \<Rightarrow> handler option \<Rightarrow> int \<times> select_tuple" where
  "tuple_bind_new evs type h =
     (case h of
        None \<Rightarrow> (- 1, evs)
      | Some x \<Rightarrow> if type = NONE then (- 1, evs) else (0, evs @ [(type, x)]))"

fun erase_key :: "'a \<Rightarrow> ('a \<times> 'b) list \<Rightarrow> ('a \<times> 'b) list" where
  "erase_key k [] = []"
| "erase_key k (p # ps) = (if fst p = k then ps else p # erase_key k ps)"

definition tuple_unbind :: "select_tuple \<Rightarrow> event_type \<Rightarrow> handler option \<Rightarrow> int \<times> select_tuple" where
  "tuple_unbind evs type h =
     (case h of
        None \<Rightarrow> (- 1, evs)
      | Some x \<Rightarrow>
          if type = NONE then (- 1, evs)
          else case map_of evs type of
                 None \<Rightarrow> (- 1, evs)
               | Some y \<Rightarrow> if y \<noteq> x then (- 1, evs) else (0, erase_key type evs))"

text \<open>A missing event is the element behind the end, unless the read event falls back to the accept event.\<close>

definition tuple_get_handler :: "select_tuple \<Rightarrow> event_type \<Rightarrow> handler option" where
  "tuple_get_handler evs type =
     (case map_of evs type of
        Some x \<Rightarrow> Some x
      | None \<Rightarrow> if type = READ_EVENT then map_of evs ACCEPT_EVENT else None)"

subsection \<open>The table\<close>

definition MAX_NUMBER_OF_HANDLE :: int where "MAX_NUMBER_OF_HANDLE = 1024"

record select_table =
  event_vector :: "select_tuple list"
  max_handle_p_1 :: int
  timeout_heap :: "handler list"

definition new_select_table :: "nat \<Rightarrow> select_table" where
  "new_select_table n =
     \<lparr>event_vector = replicate (if int n > MAX_NUMBER_OF_HANDLE then nat MAX_NUMBER_OF_HANDLE else n) [],
      max_handle_p_1 = INVALID_HANDLE + 1, timeout_heap = []\<rparr>"

definition is_handle_in_range :: "select_table \<Rightarrow> int \<Rightarrow> bool" where
  "is_handle_in_range t handle \<longleftrightarrow> \<not> (handle < 0 \<or> handle + 1 > max_handle_p_1 t)"

definition is_valid_handle :: "int \<Rightarrow> bool" where
  "is_valid_handle handle \<longleftrightarrow> \<not> (handle = INVALID_HANDLE \<or> handle > MAX_NUMBER_OF_HANDLE)"

text \<open>The inner \<open>None\<close> is the null pointer.\<close>

definition st_get_handler :: "select_table \<Rightarrow> int \<Rightarrow> event_type \<Rightarrow> handler option option" where
  "st_get_handler t handle type =
     (if \<not> is_handle_in_range t handle then Some None
      else do {
        evs \<leftarrow> at (event_vector t) handle;
        x \<leftarrow> tuple_get_handler evs type;
        Some (Some x)
      })"

definition st_bind :: "select_table \<Rightarrow> int \<Rightarrow> handler option \<Rightarrow> event_type \<Rightarrow> (int \<times> select_table) option" where
  "st_bind t handle h type =
     (if \<not> is_valid_handle handle \<or> h = None then Some (- 1, t)
      else do {
        vec \<leftarrow> (if int (length (event_vector t)) \<le> handle mod 2 ^ 64
                then if handle < 0 then None
                     else Some (grow (nat (handle + handle div 2)) [] (event_vector t))
                else Some (event_vector t));
        evs \<leftarrow> at vec handle;
        let t1 = t\<lparr>event_vector := vec[nat handle := snd (tuple_bind_new evs type h)]\<rparr>;
        Some (0, if handle > max_handle_p_1 t1 - 1 then t1\<lparr>max_handle_p_1 := handle + 1\<rparr> else t1)
      })"

text \<open>\<open>while (--tmp != INVALID_HANDLE && event_vector_[tmp].handler_count() == 0)\<close>, on a natural number.\<close>

fun scan_down :: "select_tuple list \<Rightarrow> nat \<Rightarrow> int option" where
  "scan_down vec 0 = Some INVALID_HANDLE"
| "scan_down vec (Suc n) = do {
     evs \<leftarrow> at vec (int n);
     if length evs = 0 then scan_down vec n else Some (int n)
   }"

definition st_unbind_handle :: "select_table \<Rightarrow> int \<Rightarrow> (int \<times> select_table) option" where
  "st_unbind_handle t handle =
     (if \<not> is_handle_in_range t handle then Some (- 1, t)
      else do {
        evs \<leftarrow> at (event_vector t) handle;
        if length evs = 0 then Some (- 1, t)
        else do {
          t1 \<leftarrow> (if max_handle_p_1 t = handle + 1
                 then do { tmp \<leftarrow> scan_down (event_vector t) (nat handle); Some (t\<lparr>max_handle_p_1 := tmp + 1\<rparr>) }
                 else Some t);
          Some (0, t1\<lparr>event_vector := (event_vector t1)[nat handle := []]\<rparr>)
        }
      })"

text \<open>
  \<open>while (tmp-- != INVALID_HANDLE && event_vector_[tmp].handler_count() == 0)\<close>: the handle is compared
  before it is decremented, so that the element before the first one is read when no smaller handle has a
  handler.
\<close>

fun scan_down_late :: "select_tuple list \<Rightarrow> nat \<Rightarrow> int option" where
  "scan_down_late vec 0 = None"
| "scan_down_late vec (Suc n) = do {
     evs \<leftarrow> at vec (int n);
     if length evs = 0 then scan_down_late vec n else Some (int n)
   }"

definition st_unbind :: "select_table \<Rightarrow> int \<Rightarrow> handler option \<Rightarrow> event_type \<Rightarrow> (int \<times> select_table) option" where
  "st_unbind t handle h type =
     (if \<not> is_handle_in_range t handle then Some (- 1, t)
      else do {
        evs \<leftarrow> at (event_vector t) handle;
        _ \<leftarrow> tuple_get_handler evs type;
        let (ret, evs1) = tuple_unbind evs type h;
        let t1 = t\<lparr>event_vector := (event_vector t)[nat handle := evs1]\<rparr>;
        if length evs1 = 0 \<and> handle + 1 = max_handle_p_1 t1 then do {
          tmp \<leftarrow> scan_down_late (event_vector t1) (nat handle);
          Some (ret, t1\<lparr>max_handle_p_1 := tmp + 1\<rparr>)
        }
        else Some (ret, t1)
      })"

text \<open>The loop stops one handle short of the largest one.\<close>

fun has_event_loop :: "select_table \<Rightarrow> event_type \<Rightarrow> int \<Rightarrow> nat \<Rightarrow> bool option" where
  "has_event_loop t type handle 0 = Some False"
| "has_event_loop t type handle (Suc n) = do {
     h \<leftarrow> st_get_handler t handle type;
     if h \<noteq> None then Some True else has_event_loop t type (handle + 1) n
   }"

definition hasEventForeachHandle :: "select_table \<Rightarrow> event_type \<Rightarrow> bool option" where
  "hasEventForeachHandle t type = has_event_loop t type 0 (nat (max_handle_p_1 t - 1))"

definition st_hasEvent :: "select_table \<Rightarrow> event_type \<Rightarrow> bool option" where
  "st_hasEvent t type =
     (if type = TIMEOUT_EVENT then Some (timeout_heap t \<noteq> [])
      else if type = READ_EVENT \<or> type = WRITE_EVENT \<or> type = ACCEPT_EVENT \<or> type = CONNECT_EVENT
           then hasEventForeachHandle t type
      else Some False)"

subsection \<open>Timeout handlers\<close>

definition heap_push :: "(handler \<Rightarrow> int) \<Rightarrow> handler \<Rightarrow> handler list \<Rightarrow> handler list" where
  "heap_push ex x heap = takeWhile (\<lambda>y. ex y \<le> ex x) heap @ x # dropWhile (\<lambda>y. ex y \<le> ex x) heap"

definition bindTimeoutEvent :: "(handler \<Rightarrow> int) \<Rightarrow> handler \<Rightarrow> select_table \<Rightarrow> int \<times> select_table" where
  "bindTimeoutEvent ex x t = (0, t\<lparr>timeout_heap := heap_push ex x (timeout_heap t)\<rparr>)"

text \<open>The handlers before the one that is taken out are set aside and pushed back in reverse order.\<close>

definition unbindTimeoutEvent :: "(handler \<Rightarrow> int) \<Rightarrow> handler \<Rightarrow> select_table \<Rightarrow> int \<times> select_table" where
  "unbindTimeoutEvent ex x t =
     (case timeout_heap t of
        [] \<Rightarrow> (- 1, t)
      | y # ys \<Rightarrow>
          if y = x then (0, t\<lparr>timeout_heap := ys\<rparr>)
          else
            let aside = takeWhile (\<lambda>z. z \<noteq> x) (y # ys); rest = dropWhile (\<lambda>z. z \<noteq> x) (y # ys)
            in case rest of
                 [] \<Rightarrow> (- 1, t\<lparr>timeout_heap := []\<rparr>)
               | _ # rest1 \<Rightarrow> (0, t\<lparr>timeout_heap := foldr (heap_push ex) aside rest1\<rparr>))"

definition getTimeoutHandler :: "select_table \<Rightarrow> handler option" where
  "getTimeoutHandler t = (case timeout_heap t of [] \<Rightarrow> None | x # xs \<Rightarrow> Some x)"

definition cancelTimeEvent :: "select_table \<Rightarrow> select_table" where
  "cancelTimeEvent t = t\<lparr>timeout_heap := []\<rparr>"


subsection \<open>Contract\<close>

text \<open>
  The vector is long enough, no event is bound twice to a handle, and \<open>current_max_handle_p_1_\<close> is the largest
  handle with a handler plus one.
\<close>

definition sel_ok :: "select_table \<Rightarrow> bool" where
  "sel_ok t \<longleftrightarrow>
     8 \<le> length (event_vector t) \<and> 0 \<le> max_handle_p_1 t \<and> max_handle_p_1 t \<le> int (length (event_vector t)) \<and>
     (\<forall>evs \<in> set (event_vector t). distinct (map fst evs)) \<and>
     (\<forall>n < length (event_vector t). max_handle_p_1 t \<le> int n \<longrightarrow> event_vector t ! n = []) \<and>
     (0 < max_handle_p_1 t \<longrightarrow> event_vector t ! nat (max_handle_p_1 t - 1) \<noteq> [])"

definition sel_valid :: "int \<Rightarrow> event_type \<Rightarrow> bool" where
  "sel_valid h e \<longleftrightarrow> 0 \<le> h \<and> h < MAX_NUMBER_OF_HANDLE \<and> e \<noteq> NONE"

definition sel_lookup :: "select_table \<Rightarrow> int \<Rightarrow> event_type \<Rightarrow> handler option" where
  "sel_lookup t h e =
     (if sel_valid h e \<and> nat h < length (event_vector t) then map_of (event_vector t ! nat h) e else None)"

lemma new_select_table_ok: "8 \<le> n \<Longrightarrow> n \<le> 1024 \<Longrightarrow> sel_ok (new_select_table n)"
  by (simp add: sel_ok_def new_select_table_def MAX_NUMBER_OF_HANDLE_def INVALID_HANDLE_def)

text \<open>A handle with a handler is in range, and a registered event is found.\<close>

lemma sel_lookup_get:
  assumes ok: "sel_ok t" and l: "sel_lookup t h e = Some x"
  shows "is_handle_in_range t h" and "st_get_handler t h e = Some (Some x)"
proof -
  have h: "0 \<le> h" "nat h < length (event_vector t)" "map_of (event_vector t ! nat h) e = Some x"
    using l by (auto simp: sel_lookup_def sel_valid_def split: if_splits)
  then have "event_vector t ! nat h \<noteq> []" by auto
  then show r: "is_handle_in_range t h"
    using ok h by (force simp: sel_ok_def is_handle_in_range_def)
  then show "st_get_handler t h e = Some (Some x)"
    using h by (simp add: st_get_handler_def at_def tuple_get_handler_def)
qed

lemma sel_bind_law:
  assumes ok: "sel_ok t" and v: "sel_valid h e" and free: "sel_lookup t h e = None"
  shows "\<exists>t'. st_bind t h (Some x) e = Some (0, t') \<and> sel_ok t' \<and>
    (\<forall>h' e'. sel_lookup t' h' e' = (if h' = h \<and> e' = e then Some x else sel_lookup t h' e'))"
proof -
  let ?v = "event_vector t"
  have h: "0 \<le> h" "h < 1024" "e \<noteq> NONE" "h mod 2 ^ 64 = h" "is_valid_handle h"
    using v by (auto simp: sel_valid_def MAX_NUMBER_OF_HANDLE_def is_valid_handle_def INVALID_HANDLE_def)
  define vec where "vec = (if int (length ?v) \<le> h then grow (nat (h + h div 2)) [] ?v else ?v)"
  have len: "nat h < length vec" "length ?v \<le> length vec"
    using h ok by (auto simp: vec_def sel_ok_def)
  have vec: "vec ! i = (if i < length ?v then ?v ! i else [])" if "i < length vec" for i
    using that by (auto simp: vec_def nth_grow split: if_splits)
  have dist: "\<forall>evs \<in> set vec. distinct (map fst evs)"
  proof
    fix evs assume "evs \<in> set vec"
    then have "evs = [] \<or> evs \<in> set ?v"
      using set_grow [of "nat (h + h div 2)" "[]" ?v] by (auto simp: vec_def split: if_splits)
    then show "distinct (map fst evs)" using ok by (auto simp: sel_ok_def)
  qed
  define row where "row = vec ! nat h @ [(e, x)]"
  define p1 where "p1 = (if h > max_handle_p_1 t - 1 then h + 1 else max_handle_p_1 t)"
  define t1 where "t1 = t\<lparr>event_vector := vec[nat h := row]\<rparr>"
  define t' where "t' = (if h > max_handle_p_1 t1 - 1 then t1\<lparr>max_handle_p_1 := h + 1\<rparr> else t1)"
  have t': "event_vector t' = vec[nat h := row]" "max_handle_p_1 t' = p1"
    by (simp_all add: t'_def t1_def p1_def)
  have new: "map_of (vec ! nat h) e = None"
    using free v vec [OF len(1)] by (auto simp: sel_lookup_def split: if_splits)
  have row: "distinct (map fst row)" using dist len(1) new by (auto simp: row_def map_of_eq_None_iff)
  have step: "st_bind t h (Some x) e = Some (0, t')"
  proof -
    have "(if int (length ?v) \<le> h mod 2 ^ 64 then if h < 0 then None else Some (grow (nat (h + h div 2)) [] ?v)
        else Some ?v) = Some vec"
      using h by (simp add: vec_def)
    then show ?thesis unfolding st_bind_def
      using h len by (simp add: at_def tuple_bind_new_def t'_def t1_def row_def)
  qed
  have dist': "\<forall>evs \<in> set (vec[nat h := row]). distinct (map fst evs)"
    by (rule distinct_keys_update [OF dist row])
  have "vec[nat h := row] ! n = []" if "n < length vec" "p1 \<le> int n" for n
    using that ok vec [of n] h by (auto simp: p1_def sel_ok_def nth_list_update split: if_splits)
  moreover have "vec[nat h := row] ! nat (p1 - 1) \<noteq> []"
  proof (cases "h > max_handle_p_1 t - 1")
    case True
    then show ?thesis using len by (simp add: p1_def row_def)
  next
    case False
    then have n: "nat (max_handle_p_1 t - 1) < length ?v" "?v ! nat (max_handle_p_1 t - 1) \<noteq> []"
      using ok h by (auto simp: sel_ok_def nat_less_iff)
    then show ?thesis using False vec [of "nat (max_handle_p_1 t - 1)"] len
      by (cases "nat (max_handle_p_1 t - 1) = nat h") (auto simp: p1_def row_def)
  qed
  ultimately have ok': "sel_ok t'"
    using ok dist' len h by (auto simp: sel_ok_def t' p1_def)
  have "sel_lookup t' h' e' = (if h' = h \<and> e' = e then Some x else sel_lookup t h' e')" for h' e'
  proof (cases "h' = h")
    case True
    then show ?thesis using len vec [OF len(1)] new v
      by (auto simp: sel_lookup_def t' row_def map_add_def split: option.splits)
  next
    case False
    then have "nat h' \<noteq> nat h" if "0 \<le> h'" using that h by auto
    then show ?thesis using False len vec [of "nat h'"] by (auto simp: sel_lookup_def t' sel_valid_def)
  qed
  then show ?thesis using step ok' by blast
qed

interpretation sel: binding_table sel_ok sel_lookup sel_valid "\<lambda>t h e x. st_bind t h (Some x) e"
  by unfold_locales (use sel_bind_law in blast)


subsection \<open>Unbinding\<close>

lemma erase_key_delete: "distinct (map fst evs) \<Longrightarrow> erase_key k evs = AList.delete k evs"
proof (induction evs)
  case (Cons p evs)
  then show ?case by (cases p) (auto simp: AList.delete_id)
qed simp

lemma scan_down_late_finds:
  assumes "m < n" and "n \<le> length vec" and "vec ! m \<noteq> []"
  shows "\<exists>k. scan_down_late vec n = Some (int k) \<and> k < n \<and> vec ! k \<noteq> [] \<and> (\<forall>i. k < i \<and> i < n \<longrightarrow> vec ! i = [])"
  using assms
proof (induction n)
  case (Suc n)
  show ?case
  proof (cases "vec ! n = []")
    case True
    then have "m < n" using Suc.prems by (metis less_SucE)
    then show ?thesis using Suc True by (auto simp: at_nat less_Suc_eq)
  next
    case False
    then show ?thesis using Suc.prems by (auto simp: at_nat)
  qed
qed simp

lemma scan_down_late_none:
  "n \<le> length vec \<Longrightarrow> \<forall>i < n. vec ! i = [] \<Longrightarrow> scan_down_late vec n = None"
  by (induction n) (auto simp: at_nat)

text \<open>An event is unbound as long as a smaller handle, or the handle itself, keeps a handler.\<close>

lemma sel_unbind_law:
  assumes ok: "sel_ok t" and v: "sel_valid h e" and l: "sel_lookup t h e = Some x"
    and other: "sel_lookup t g f = Some y" "g < h \<or> g = h \<and> f \<noteq> e"
  shows "\<exists>t'. st_unbind t h (Some x) e = Some (0, t') \<and> sel_ok t' \<and>
    (\<forall>h' e'. sel_lookup t' h' e' = (if h' = h \<and> e' = e then None else sel_lookup t h' e'))"
proof -
  let ?v = "event_vector t" and ?p = "max_handle_p_1 t"
  have h: "0 \<le> h" "nat h < length ?v" "map_of (?v ! nat h) e = Some x" "e \<noteq> NONE"
    using l by (auto simp: sel_lookup_def sel_valid_def split: if_splits)
  have g: "0 \<le> g" "nat g < length ?v" "map_of (?v ! nat g) f = Some y"
    using other by (auto simp: sel_lookup_def sel_valid_def split: if_splits)
  have dist: "\<forall>evs \<in> set ?v. distinct (map fst evs)" using ok by (simp add: sel_ok_def)
  then have d: "distinct (map fst (?v ! nat h))" using h by simp
  define row where "row = AList.delete e (?v ! nat h)"
  define vec where "vec = ?v[nat h := row]"
  have inr: "is_handle_in_range t h" using sel_lookup_get [OF ok l] by simp
  have hp: "h + 1 \<le> ?p" using inr by (simp add: is_handle_in_range_def)
  have p: "?p \<le> int (length ?v)" "\<And>n. n < length ?v \<Longrightarrow> ?p \<le> int n \<Longrightarrow> ?v ! n = []"
    "?v ! nat (?p - 1) \<noteq> []" using ok hp h by (auto simp: sel_ok_def)
  have dist': "\<forall>evs \<in> set vec. distinct (map fst evs)"
    unfolding vec_def by (rule distinct_keys_update [OF dist]) (simp add: row_def d distinct_delete)
  have below: "vec ! nat g \<noteq> []"
  proof (cases "g = h")
    case True
    then have "map_of row f = Some y" using other(2) g by (simp add: row_def AList.delete_conv')
    then show ?thesis using True h by (auto simp: vec_def)
  next
    case False
    then have "nat g \<noteq> nat h" using g(1) h(1) by simp
    then show ?thesis using g(3) by (auto simp: vec_def)
  qed
  have "\<exists>p1. st_unbind t h (Some x) e = Some (0, t\<lparr>event_vector := vec, max_handle_p_1 := p1\<rparr>) \<and>
    0 \<le> p1 \<and> p1 \<le> int (length vec) \<and> (\<forall>n < length vec. p1 \<le> int n \<longrightarrow> vec ! n = []) \<and>
    (0 < p1 \<longrightarrow> vec ! nat (p1 - 1) \<noteq> [])"
  proof (cases "row = [] \<and> h + 1 = ?p")
    case True
    have "g < h" using other(2) below True h by (auto simp: vec_def)
    then have "nat g < nat h" using g(1) by simp
    then obtain k where k: "scan_down_late vec (nat h) = Some (int k)" "k < nat h" "vec ! k \<noteq> []"
      "\<forall>i. k < i \<and> i < nat h \<longrightarrow> vec ! i = []"
      using scan_down_late_finds [of "nat g" "nat h" vec] h below by (auto simp: vec_def)
    have "st_unbind t h (Some x) e = Some (0, t\<lparr>event_vector := vec, max_handle_p_1 := int k + 1\<rparr>)"
      using inr h d True k(1)
      by (simp add: st_unbind_def at_def tuple_get_handler_def tuple_unbind_def erase_key_delete row_def vec_def)
    moreover have "vec ! n = []" if "n < length vec" "int k + 1 \<le> int n" for n
    proof (cases "n < nat h")
      case True
      then show ?thesis using that k(4) by auto
    next
      case False
      then show ?thesis using that True p(2) [of n] h
        by (cases "n = nat h") (auto simp: vec_def)
    qed
    ultimately show ?thesis using k h by (intro exI [of _ "int k + 1"]) (auto simp: vec_def)
  next
    case False
    have "st_unbind t h (Some x) e = Some (0, t\<lparr>event_vector := vec\<rparr>)"
      using inr h d False
      by (auto simp: st_unbind_def at_def tuple_get_handler_def tuple_unbind_def erase_key_delete row_def vec_def)
    moreover have "vec ! n = []" if "n < length vec" "?p \<le> int n" for n
      using that p(2) [of n] hp h by (cases "n = nat h") (auto simp: vec_def)
    moreover have "vec ! nat (?p - 1) \<noteq> []"
      using p(3) False h hp by (cases "nat (?p - 1) = nat h") (auto simp: vec_def)
    moreover have "t\<lparr>event_vector := vec\<rparr> = t\<lparr>event_vector := vec, max_handle_p_1 := ?p\<rparr>" by simp
    ultimately show ?thesis using p(1) hp h by (intro exI [of _ ?p]) (auto simp: vec_def)
  qed
  then obtain p1 where p1: "st_unbind t h (Some x) e = Some (0, t\<lparr>event_vector := vec, max_handle_p_1 := p1\<rparr>)"
    "0 \<le> p1" "p1 \<le> int (length vec)" "\<forall>n < length vec. p1 \<le> int n \<longrightarrow> vec ! n = []"
    "0 < p1 \<longrightarrow> vec ! nat (p1 - 1) \<noteq> []" by blast
  let ?t = "t\<lparr>event_vector := vec, max_handle_p_1 := p1\<rparr>"
  have "sel_ok ?t" using ok dist' p1 by (auto simp: sel_ok_def vec_def)
  moreover have "sel_lookup ?t h' e' = (if h' = h \<and> e' = e then None else sel_lookup t h' e')" for h' e'
  proof (cases "h' = h")
    case True
    then show ?thesis using h v by (auto simp: sel_lookup_def vec_def row_def AList.delete_conv')
  next
    case False
    then have "nat h' \<noteq> nat h" if "0 \<le> h'" using that h by auto
    then show ?thesis using False by (auto simp: sel_lookup_def vec_def sel_valid_def)
  qed
  ultimately show ?thesis using p1(1) by blast
qed

text \<open>When it is the last one, the element before the vector is read.\<close>

lemma sel_unbind_last:
  assumes ok: "sel_ok t" and l: "sel_lookup t h e = Some x"
    and last: "\<And>g f. sel_lookup t g f \<noteq> None \<Longrightarrow> g = h \<and> f = e"
    and rows: "\<forall>evs \<in> set (event_vector t). \<forall>p \<in> set evs. fst p \<noteq> NONE" and len: "length (event_vector t) \<le> 1024"
  shows "st_unbind t h (Some x) e = None"
proof -
  let ?v = "event_vector t" and ?p = "max_handle_p_1 t"
  have h: "0 \<le> h" "nat h < length ?v" "map_of (?v ! nat h) e = Some x" "e \<noteq> NONE"
    using l by (auto simp: sel_lookup_def sel_valid_def split: if_splits)
  have d: "distinct (map fst (?v ! nat h))" using ok h by (simp add: sel_ok_def)
  have only: "int n = h \<and> fst p = e" if "n < length ?v" "p \<in> set (?v ! n)" for n p
  proof -
    have dn: "distinct (map fst (?v ! n))" using ok that by (simp add: sel_ok_def)
    have "fst p \<noteq> NONE" using rows that by (meson nth_mem)
    then have "sel_lookup t (int n) (fst p) = Some (snd p)"
      using that dn len by (simp add: sel_lookup_def sel_valid_def MAX_NUMBER_OF_HANDLE_def)
    then show ?thesis using last by (metis option.simps(3))
  qed
  have inr: "is_handle_in_range t h" using sel_lookup_get [OF ok l] by simp
  have row: "AList.delete e (?v ! nat h) = []"
    using only [OF h(2)] by (force simp: AList.delete_eq filter_empty_conv)
  have pp: "0 < ?p" "?p \<le> int (length ?v)" "?v ! nat (?p - 1) \<noteq> []"
    using ok inr h by (auto simp: sel_ok_def is_handle_in_range_def)
  then obtain q where "q \<in> set (?v ! nat (?p - 1))" by (meson list.set_sel(1))
  then have "int (nat (?p - 1)) = h" using only [of "nat (?p - 1)" q] pp by auto
  then have p: "h + 1 = ?p" using pp by simp
  have "?v ! i = []" if "i < nat h" for i
  proof (rule ccontr)
    assume "?v ! i \<noteq> []"
    then have "hd (?v ! i) \<in> set (?v ! i)" by simp
    then have "int i = h" using only [of i "hd (?v ! i)"] that h by simp
    then show False using that by simp
  qed
  then have "scan_down_late (?v[nat h := []]) (nat h) = None"
    using h by (intro scan_down_late_none) auto
  then show ?thesis using inr h d row p
    by (simp add: st_unbind_def at_def tuple_get_handler_def tuple_unbind_def erase_key_delete)
qed


subsection \<open>The heap\<close>

definition heap_ok :: "(handler \<Rightarrow> int) \<Rightarrow> select_table \<Rightarrow> bool" where
  "heap_ok ex t \<longleftrightarrow> sorted (map ex (timeout_heap t))"

lemma heap_push_sorted: "sorted (map ex heap) \<Longrightarrow> sorted (map ex (heap_push ex x heap))"
proof (induction heap)
  case (Cons y ys)
  then show ?case by (auto simp: heap_push_def dest!: set_takeWhileD set_dropWhileD)
qed (simp add: heap_push_def)

lemma mset_heap_push: "mset (heap_push ex x heap) = add_mset x (mset heap)"
proof -
  have "mset (takeWhile P heap) + mset (dropWhile P heap) = mset heap" for P
    by (metis mset_append takeWhile_dropWhile_id)
  then show ?thesis by (simp add: heap_push_def)
qed

lemma foldr_push:
  assumes "sorted (map ex heap)"
  shows "sorted (map ex (foldr (heap_push ex) xs heap)) \<and>
    mset (foldr (heap_push ex) xs heap) = mset xs + mset heap"
  using assms by (induction xs) (auto simp: heap_push_sorted mset_heap_push)

lemma unbindTimeout_law:
  assumes ok: "heap_ok ex t" and x: "x \<in> set (timeout_heap t)"
  shows "\<exists>t'. unbindTimeoutEvent ex x t = (0, t') \<and> heap_ok ex t' \<and>
    mset (timeout_heap t') = mset (timeout_heap t) - {#x#}"
proof -
  obtain y ys where h: "timeout_heap t = y # ys" using x by (cases "timeout_heap t") auto
  show ?thesis
  proof (cases "y = x")
    case True
    then show ?thesis using ok h by (simp add: unbindTimeoutEvent_def heap_ok_def)
  next
    case False
    let ?P = "\<lambda>z. z \<noteq> x"
    obtain rest where rest: "dropWhile ?P (y # ys) = x # rest"
      using x h by (metis (mono_tags, lifting) dropWhile_eq_Nil_conv hd_dropWhile list.collapse)
    have split: "y # ys = takeWhile ?P (y # ys) @ x # rest" using rest by (metis takeWhile_dropWhile_id)
    have "sorted (map ex rest)"
      using ok h split by (metis (no_types, lifting) heap_ok_def list.simps(9) map_append sorted_append sorted_wrt.simps(2))
    note f = foldr_push [OF this, of "takeWhile ?P (y # ys)"]
    define t' where "t' = t\<lparr>timeout_heap := foldr (heap_push ex) (takeWhile ?P (y # ys)) rest\<rparr>"
    have "unbindTimeoutEvent ex x t = (0, t')"
      using h False rest unfolding unbindTimeoutEvent_def t'_def by (simp only: list.simps if_False Let_def)
    moreover have "mset (y # ys) = mset (takeWhile ?P (y # ys)) + add_mset x (mset rest)"
      using arg_cong [OF split, of mset] by simp
    then have "mset (takeWhile ?P (y # ys)) + mset rest = mset (y # ys) - {#x#}" by simp
    ultimately show ?thesis using f h by (auto simp: heap_ok_def t'_def)
  qed
qed

subsection \<open>Properties\<close>

text \<open>
  Events of handles below 1024 that are still free can be bound one after the other; each is then found under its
  handle and event, and the largest handle is kept up to date.
\<close>

theorem select_bind_all:
  assumes "sel_ok t" and "distinct (map (\<lambda>b. (fst b, fst (snd b))) bs)"
    and "\<forall>b \<in> set bs. sel_valid (fst b) (fst (snd b)) \<and> sel_lookup t (fst b) (fst (snd b)) = None"
  shows "\<exists>t'. bind_all (\<lambda>t h e x. st_bind t h (Some x) e) bs t = Some t' \<and> sel_ok t' \<and>
    (\<forall>h e x. (h, e, x) \<in> set bs \<longrightarrow> st_get_handler t' h e = Some (Some x))"
  using sel.bind_all_lookup [OF assms] sel_lookup_get(2) by blast

theorem select_bind_all_witness:
  "\<exists>t'. bind_all (\<lambda>t h e x. st_bind t h (Some x) e) [(3, READ_EVENT, 7), (20, WRITE_EVENT, 8)]
      (new_select_table 8) = Some t' \<and> sel_ok t' \<and> st_get_handler t' 20 WRITE_EVENT = Some (Some 8)"
  using select_bind_all [OF new_select_table_ok, of 8 "[(3, READ_EVENT, 7), (20, WRITE_EVENT, 8)]"]
  by (auto simp: sel_valid_def sel_lookup_def new_select_table_def MAX_NUMBER_OF_HANDLE_def event_defs)

text \<open>
  The timers of the select reactor: binding keeps the heap ordered and adds the handler, unbinding a bound
  handler takes out exactly that one, and the handler at the top expires first.
\<close>

theorem timeout_heap_ordered:
  assumes "heap_ok ex t"
  shows "(\<exists>t'. bindTimeoutEvent ex x t = (0, t') \<and> heap_ok ex t' \<and>
      mset (timeout_heap t') = add_mset x (mset (timeout_heap t))) \<and>
    (x \<in> set (timeout_heap t) \<longrightarrow> (\<exists>t'. unbindTimeoutEvent ex x t = (0, t') \<and> heap_ok ex t' \<and>
      mset (timeout_heap t') = mset (timeout_heap t) - {#x#})) \<and>
    (\<forall>y. getTimeoutHandler t = Some y \<longrightarrow> (\<forall>z \<in> set (timeout_heap t). ex y \<le> ex z))"
proof (intro conjI impI allI)
  show "\<exists>t'. bindTimeoutEvent ex x t = (0, t') \<and> heap_ok ex t' \<and>
      mset (timeout_heap t') = add_mset x (mset (timeout_heap t))"
    using assms by (simp add: bindTimeoutEvent_def heap_ok_def heap_push_sorted mset_heap_push)
  show "\<forall>z \<in> set (timeout_heap t). ex y \<le> ex z" if "getTimeoutHandler t = Some y" for y
    using that assms by (auto simp: getTimeoutHandler_def heap_ok_def split: list.splits)
qed (rule unbindTimeout_law [OF assms])

theorem timeout_heap_ordered_witness:
  "\<exists>t'. unbindTimeoutEvent int 5 (new_select_table 8\<lparr>timeout_heap := [2, 5, 9]\<rparr>) = (0, t') \<and> heap_ok int t' \<and>
    mset (timeout_heap t') = {#2, 9#}"
  using timeout_heap_ordered [of int "new_select_table 8\<lparr>timeout_heap := [2, 5, 9]\<rparr>" 5]
  by (simp add: heap_ok_def add_mset_commute)

text \<open>Unbinding a handler that is not bound loses all the others.\<close>

lemma unbind_unknown_timeout:
  "x \<notin> set (timeout_heap t) \<Longrightarrow> timeout_heap t \<noteq> [] \<Longrightarrow>
     unbindTimeoutEvent ex x t = (- 1, t\<lparr>timeout_heap := []\<rparr>)"
proof -
  assume a: "x \<notin> set (timeout_heap t)" "timeout_heap t \<noteq> []"
  then obtain y ys where h: "timeout_heap t = y # ys" by (cases "timeout_heap t") auto
  have "dropWhile (\<lambda>z. z \<noteq> x) ys = []" "y \<noteq> x"
    using a h by (simp_all only: dropWhile_eq_Nil_conv) auto
  then show ?thesis using h by (simp del: dropWhile_eq_Nil_conv add: unbindTimeoutEvent_def)
qed

end
