(* ===== verification/Handle_Set.thy ===== *)
theory Handle_Set
  imports Socket
begin

text \<open>
  \<open>unp::handle_set\<close> of \<open>src/net/handle_set.h\<close>: an \<open>fd_set\<close> with the number of its handles and the largest one. The
  bits are the set of the handles whose bit is set; testing or changing a bit outside
  \<open>0 .. FD_SETSIZE - 1\<close> is undefined behaviour (\<open>None\<close>). \<open>::select\<close> changes the bits of a set behind the back
  of the other two fields.
\<close>

subsection \<open>Operations\<close>

definition FD_SETSIZE :: int where "FD_SETSIZE = 1024"

record handle_set =
  hs_size :: int
  max_handle :: int
  hs_bits :: "int set"

definition hs_reset :: handle_set where
  "hs_reset = \<lparr>hs_size = 0, max_handle = INVALID_HANDLE, hs_bits = {}\<rparr>"

definition is_set :: "handle_set \<Rightarrow> int \<Rightarrow> bool option" where
  "is_set s handle = (if 0 \<le> handle \<and> handle < FD_SETSIZE then Some (handle \<in> hs_bits s) else None)"

definition set_bit :: "int \<Rightarrow> handle_set \<Rightarrow> handle_set option" where
  "set_bit handle s =
     (if handle = INVALID_HANDLE then Some s
      else do {
        b \<leftarrow> is_set s handle;
        Some (if b then s
              else s\<lparr>hs_bits := insert handle (hs_bits s), hs_size := hs_size s + 1,
                     max_handle := (if handle > max_handle s then handle else max_handle s)\<rparr>)
      })"

text \<open>\<open>while (!is_set(--tmp))\<close>: downwards from \<open>tmp\<close> to the next bit that is set.\<close>

function prev_set :: "handle_set \<Rightarrow> int \<Rightarrow> int option" where
  "prev_set s tmp =
     (case is_set s (tmp - 1) of
        None \<Rightarrow> None
      | Some True \<Rightarrow> Some (tmp - 1)
      | Some False \<Rightarrow> prev_set s (tmp - 1))"
  by pat_completeness auto

termination
  by (relation "measure (\<lambda>(s, tmp). nat tmp)") (auto simp: is_set_def split: if_splits)

definition unset_bit :: "int \<Rightarrow> handle_set \<Rightarrow> handle_set option" where
  "unset_bit handle s =
     (if handle = INVALID_HANDLE \<or> FD_SETSIZE \<le> handle then Some s
      else do {
        b \<leftarrow> is_set s handle;
        if \<not> b then Some s
        else do {
          let s1 = s\<lparr>hs_bits := hs_bits s - {handle}, hs_size := hs_size s - 1\<rparr>;
          if handle = max_handle s1 then do {
            m \<leftarrow> prev_set s1 (handle + 1);
            Some (s1\<lparr>max_handle := m\<rparr>)
          }
          else Some s1
        }
      })"

definition handles_count :: "handle_set \<Rightarrow> int" where
  "handles_count s = hs_size s"

text \<open>\<open>while (!is_set(++handle))\<close>.\<close>

function next_set :: "handle_set \<Rightarrow> int \<Rightarrow> int option" where
  "next_set s handle =
     (case is_set s (handle + 1) of
        None \<Rightarrow> None
      | Some True \<Rightarrow> Some (handle + 1)
      | Some False \<Rightarrow> next_set s (handle + 1))"
  by pat_completeness auto

termination
  by (relation "measure (\<lambda>(s, handle). nat (FD_SETSIZE - handle))")
    (auto simp: is_set_def FD_SETSIZE_def split: if_splits)

definition first_handle :: "handle_set \<Rightarrow> int option" where
  "first_handle s = (if hs_size s \<le> 0 then Some INVALID_HANDLE else next_set s (- 1))"

definition is_last_handle :: "handle_set \<Rightarrow> int \<Rightarrow> bool" where
  "is_last_handle s handle \<longleftrightarrow> handle = max_handle s"

text \<open>\<open>while (!is_set(++current_handle) && current_handle < max_handle_)\<close>.\<close>

function next_below :: "handle_set \<Rightarrow> int \<Rightarrow> int option" where
  "next_below s handle =
     (case is_set s (handle + 1) of
        None \<Rightarrow> None
      | Some b \<Rightarrow> if \<not> b \<and> handle + 1 < max_handle s then next_below s (handle + 1) else Some (handle + 1))"
  by pat_completeness auto

termination
  by (relation "measure (\<lambda>(s, handle). nat (max_handle s - handle))") auto

declare prev_set.simps [simp del] next_set.simps [simp del] next_below.simps [simp del]

definition next_handle :: "handle_set \<Rightarrow> int \<Rightarrow> int option" where
  "next_handle s current =
     (if hs_size s = 0 then Some INVALID_HANDLE
      else do {
        (if current \<noteq> INVALID_HANDLE then map_option (\<lambda>_. ()) (is_set s current) else Some ());
        if is_last_handle s current then Some INVALID_HANDLE
        else do {
          c \<leftarrow> next_below s current;
          b \<leftarrow> is_set s c;
          Some (if b then c else INVALID_HANDLE)
        }
      })"

subsection \<open>Invariant\<close>

definition hs_ok :: "handle_set \<Rightarrow> bool" where
  "hs_ok s \<longleftrightarrow> hs_bits s \<subseteq> {0 ..< FD_SETSIZE} \<and> hs_size s = int (card (hs_bits s)) \<and>
     max_handle s = (if hs_bits s = {} then INVALID_HANDLE else Max (hs_bits s))"

lemma hs_finite: "hs_bits s \<subseteq> {0 ..< FD_SETSIZE} \<Longrightarrow> finite (hs_bits s)"
  by (rule finite_subset) auto

lemma hs_reset_ok: "hs_ok hs_reset"
  by (simp add: hs_ok_def hs_reset_def)

lemma set_bit_law:
  assumes ok: "hs_ok s" and h: "0 \<le> h" "h < FD_SETSIZE"
  shows "\<exists>s'. set_bit h s = Some s' \<and> hs_ok s' \<and> hs_bits s' = insert h (hs_bits s)"
proof (cases "h \<in> hs_bits s")
  case True
  then show ?thesis using ok h by (auto simp: set_bit_def is_set_def)
next
  case False
  have fin: "finite (hs_bits s)" using ok by (auto simp: hs_ok_def intro: hs_finite)
  define m where "m = (if h > max_handle s then h else max_handle s)"
  have "m = Max (insert h (hs_bits s))"
    using ok fin h Max_insert [OF fin, of h]
    by (cases "hs_bits s = {}")
      (simp_all add: m_def hs_ok_def INVALID_HANDLE_def max_def del: Max_less_iff)
  then show ?thesis using False ok h fin
    by (auto simp: set_bit_def is_set_def hs_ok_def INVALID_HANDLE_def m_def)
qed

text \<open>The search downwards finds the largest smaller handle, and leaves the array when there is none.\<close>

lemma prev_set_finds:
  assumes "0 \<le> x" and "x < tmp" and "tmp \<le> FD_SETSIZE" and "x \<in> hs_bits s"
    and "\<forall>y. x < y \<and> y < tmp \<longrightarrow> y \<notin> hs_bits s"
  shows "prev_set s tmp = Some x"
  using assms
proof (induction s tmp rule: prev_set.induct)
  case (1 s tmp)
  have sb: "is_set s (tmp - 1) = Some (tmp - 1 \<in> hs_bits s)"
    using "1.prems" by (simp add: is_set_def)
  show ?case
  proof (cases "tmp - 1 = x")
    case True
    then show ?thesis using "1.prems" sb by (subst prev_set.simps) simp
  next
    case False
    then have "x < tmp - 1" using "1.prems" by simp
    moreover from this have "tmp - 1 \<notin> hs_bits s" using "1.prems" by simp
    ultimately show ?thesis using "1.IH" [of False] "1.prems" sb by (subst prev_set.simps) simp
  qed
qed

lemma prev_set_none:
  assumes "tmp \<le> FD_SETSIZE" and "\<forall>y. 0 \<le> y \<and> y < tmp \<longrightarrow> y \<notin> hs_bits s"
  shows "prev_set s tmp = None"
  using assms
proof (induction s tmp rule: prev_set.induct)
  case (1 s tmp)
  show ?case
  proof (cases "0 < tmp")
    case True
    then have "is_set s (tmp - 1) = Some False" using "1.prems" by (simp add: is_set_def)
    then show ?thesis using "1.IH" [of False] "1.prems" by (subst prev_set.simps) simp
  next
    case False
    then show ?thesis by (subst prev_set.simps) (simp add: is_set_def)
  qed
qed

lemma unset_bit_law:
  assumes ok: "hs_ok s" and h: "h \<in> hs_bits s" and more: "hs_bits s \<noteq> {h}"
  shows "\<exists>s'. unset_bit h s = Some s' \<and> hs_ok s' \<and> hs_bits s' = hs_bits s - {h}"
proof -
  let ?B = "hs_bits s - {h}"
  have fin: "finite (hs_bits s)" and sub: "hs_bits s \<subseteq> {0 ..< FD_SETSIZE}" and ne: "?B \<noteq> {}"
    using ok h more by (auto simp: hs_ok_def intro: hs_finite)
  have hr: "0 \<le> h" "h < FD_SETSIZE" using sub h by auto
  have max: "max_handle s = Max (hs_bits s)" using ok h by (auto simp: hs_ok_def)
  have size: "hs_size s - 1 = int (card ?B)"
    using ok card_Suc_Diff1 [OF fin h] by (simp add: hs_ok_def del: card_Diff_insert)
  define s1 where "s1 = s\<lparr>hs_bits := ?B, hs_size := hs_size s - 1\<rparr>"
  show ?thesis
  proof (cases "h = max_handle s")
    case True
    have m: "Max ?B \<in> ?B" using fin ne by (intro Max_in) auto
    have "Max ?B < h" using m True max fin by (metis DiffE Max_ge insertI1 order_le_less)
    moreover have "y \<notin> ?B" if "Max ?B < y" for y
      using that fin Max_ge [of ?B y] by (meson finite_Diff not_le)
    ultimately have "prev_set s1 (h + 1) = Some (Max ?B)"
      using m sub hr by (intro prev_set_finds) (auto simp: s1_def)
    then show ?thesis using True h hr ne size sub
      by (auto simp: unset_bit_def is_set_def INVALID_HANDLE_def s1_def hs_ok_def)
  next
    case False
    moreover have "Max (hs_bits s) \<in> hs_bits s" using fin h by (intro Max_in) auto
    ultimately have "Max ?B = Max (hs_bits s)"
      using max fin by (intro Max_eqI) auto
    then show ?thesis using False h hr ne size sub max
      by (auto simp: unset_bit_def is_set_def INVALID_HANDLE_def hs_ok_def)
  qed
qed

text \<open>Taking out the only handle runs off the array.\<close>

lemma unset_only_undefined:
  assumes "hs_ok s" and "hs_bits s = {h}"
  shows "unset_bit h s = None"
proof -
  have hr: "0 \<le> h" "h < FD_SETSIZE" "max_handle s = h" using assms by (auto simp: hs_ok_def)
  have "prev_set (s\<lparr>hs_bits := {}, hs_size := hs_size s - 1\<rparr>) (h + 1) = None"
    using hr by (intro prev_set_none) auto
  then show ?thesis using assms(2) hr by (simp add: unset_bit_def is_set_def INVALID_HANDLE_def)
qed


subsection \<open>Enumeration\<close>

text \<open>
  What the loop over a set relies on, also after \<open>::select\<close> has cleared bits: no handle is above
  \<open>max_handle_\<close>.
\<close>

definition hs_bounded :: "handle_set \<Rightarrow> bool" where
  "hs_bounded s \<longleftrightarrow> hs_bits s \<subseteq> {0 ..< FD_SETSIZE} \<and> max_handle s < FD_SETSIZE \<and>
     (\<forall>x \<in> hs_bits s. x \<le> max_handle s)"

lemma hs_ok_bounded: "hs_ok s \<Longrightarrow> hs_bounded s"
  using Max_in [of "hs_bits s"] hs_finite [of s]
  by (auto simp: hs_ok_def hs_bounded_def INVALID_HANDLE_def FD_SETSIZE_def)

lemma hs_bounded_select: "hs_bounded s \<Longrightarrow> B \<subseteq> hs_bits s \<Longrightarrow> hs_bounded (s\<lparr>hs_bits := B\<rparr>)"
  by (auto simp: hs_bounded_def)

lemma next_below_law:
  assumes "hs_bounded s" and "- 1 \<le> cur" and "cur < max_handle s"
  shows "\<exists>c. next_below s cur = Some c \<and> cur < c \<and> c \<le> max_handle s \<and>
    (\<forall>y. cur < y \<and> y < c \<longrightarrow> y \<notin> hs_bits s) \<and> (c \<in> hs_bits s \<or> c = max_handle s)"
  using assms
proof (induction s cur rule: next_below.induct)
  case (1 s cur)
  have b: "is_set s (cur + 1) = Some (cur + 1 \<in> hs_bits s)"
    using "1.prems" by (simp add: is_set_def hs_bounded_def)
  show ?case
  proof (cases "cur + 1 \<notin> hs_bits s \<and> cur + 1 < max_handle s")
    case True
    then obtain c where c: "next_below s (cur + 1) = Some c" "cur + 1 < c" "c \<le> max_handle s"
      "\<forall>y. cur + 1 < y \<and> y < c \<longrightarrow> y \<notin> hs_bits s" "c \<in> hs_bits s \<or> c = max_handle s"
      using "1.IH" [OF b] "1.prems" by auto
    have "y \<notin> hs_bits s" if "cur < y" "y < c" for y
      using that True c(4) by (cases "y = cur + 1") auto
    then show ?thesis using c True b by (subst next_below.simps) auto
  next
    case False
    then show ?thesis using b "1.prems" by (subst next_below.simps) auto
  qed
qed

lemma next_handle_law:
  assumes b: "hs_bounded s" and n: "hs_size s \<noteq> 0" and c: "- 1 \<le> cur" "cur \<le> max_handle s"
  shows "\<exists>c. next_handle s cur = Some c \<and>
    (if c = INVALID_HANDLE then \<forall>y \<in> hs_bits s. y \<le> cur
     else c \<in> hs_bits s \<and> cur < c \<and> (\<forall>y \<in> hs_bits s. cur < y \<longrightarrow> c \<le> y))"
proof -
  have cur: "(if cur \<noteq> INVALID_HANDLE then map_option (\<lambda>_. ()) (is_set s cur) else Some ()) = Some ()"
    using b c by (auto simp: is_set_def hs_bounded_def INVALID_HANDLE_def)
  show ?thesis
  proof (cases "cur = max_handle s")
    case True
    then have "next_handle s cur = Some INVALID_HANDLE"
      unfolding next_handle_def cur using n by (simp add: is_last_handle_def)
    then show ?thesis using b True by (auto simp: hs_bounded_def)
  next
    case False
    then obtain x where x: "next_below s cur = Some x" "cur < x" "x \<le> max_handle s"
      "\<forall>y. cur < y \<and> y < x \<longrightarrow> y \<notin> hs_bits s" "x \<in> hs_bits s \<or> x = max_handle s"
      using next_below_law [OF b c(1)] c(2) by auto
    have i: "is_set s x = Some (x \<in> hs_bits s)" using x c b by (simp add: is_set_def hs_bounded_def)
    have nh: "next_handle s cur = Some (if x \<in> hs_bits s then x else INVALID_HANDLE)"
      unfolding next_handle_def cur using n False x(1) i by (simp add: is_last_handle_def)
    show ?thesis
    proof (cases "x \<in> hs_bits s")
      case True
      then show ?thesis using nh x c by (auto simp: INVALID_HANDLE_def not_less [symmetric])
    next
      case False
      then have "x = max_handle s" using x by simp
      then have "y < x" if "y \<in> hs_bits s" for y
        using that False b by (metis hs_bounded_def order_le_less)
      then have "\<forall>y \<in> hs_bits s. y \<le> cur" using x(4) not_le by blast
      then show ?thesis using nh False by simp
    qed
  qed
qed

subsection \<open>Properties\<close>

text \<open>
  C25. What \<open>set_bit\<close> and \<open>unset_bit\<close> do to a set whose count and largest handle are right, for a handle within
  \<open>FD_SETSIZE\<close>. \<open>set_bit\<close> adds the handle and keeps both right. \<open>unset_bit\<close> changes nothing when the handle is not in
  the set, and takes it out and keeps both right as long as another handle remains; for the only handle of the set it is
  undefined, as its search for the new largest handle leaves the array.
\<close>

theorem handle_set_invariant:
  assumes "hs_ok s" and "0 \<le> h" and "h < FD_SETSIZE"
  shows "(\<exists>s'. set_bit h s = Some s' \<and> hs_ok s' \<and> hs_bits s' = insert h (hs_bits s)) \<and>
    (if h \<notin> hs_bits s then unset_bit h s = Some s
     else if hs_bits s = {h} then unset_bit h s = None
     else \<exists>s'. unset_bit h s = Some s' \<and> hs_ok s' \<and> hs_bits s' = hs_bits s - {h})"
proof -
  have "unset_bit h s = Some s" if "h \<notin> hs_bits s" using that assms(2,3) by (simp add: unset_bit_def is_set_def)
  then show ?thesis
    using set_bit_law [OF assms] unset_bit_law [OF assms(1)] unset_only_undefined [OF assms(1)] by presburger
qed

theorem handle_set_invariant_witness:
  "\<exists>s'. set_bit 5 hs_reset = Some s' \<and> hs_ok s' \<and> hs_bits s' = {5}"
  using handle_set_invariant [OF hs_reset_ok, of 5] by (simp add: FD_SETSIZE_def hs_reset_def)

text \<open>
  \<open>next_handle\<close> enumerates a set, also one in which \<open>::select\<close> has left only some of the bits: it gives the
  smallest handle above the current one, and \<open>INVALID_HANDLE\<close> when there is none.
\<close>

theorem next_handle_enumerates:
  assumes "hs_ok s" and "B \<subseteq> hs_bits s" and "hs_bits s \<noteq> {}" and "- 1 \<le> cur" and "cur \<le> max_handle s"
  shows "\<exists>c. next_handle (s\<lparr>hs_bits := B\<rparr>) cur = Some c \<and>
    (if c = INVALID_HANDLE then \<forall>y \<in> B. y \<le> cur
     else c \<in> B \<and> cur < c \<and> (\<forall>y \<in> B. cur < y \<longrightarrow> c \<le> y))"
proof -
  have "finite (hs_bits s)" using assms(1) by (auto simp: hs_ok_def intro: hs_finite)
  then have "hs_size s \<noteq> 0" using assms(1,3) by (simp add: hs_ok_def)
  then show ?thesis
    using next_handle_law [OF hs_bounded_select [OF hs_ok_bounded [OF assms(1)] assms(2)], of cur] assms(4,5)
    by (auto cong: if_cong)
qed

theorem next_handle_enumerates_witness:
  "\<exists>c. next_handle (\<lparr>hs_size = 2, max_handle = 7, hs_bits = {3, 7}\<rparr>\<lparr>hs_bits := {7}\<rparr>) (- 1) = Some c \<and> c = 7"
  using next_handle_enumerates [of "\<lparr>hs_size = 2, max_handle = 7, hs_bits = {3, 7}\<rparr>" "{7}" "- 1"]
  by (auto simp: hs_ok_def FD_SETSIZE_def INVALID_HANDLE_def split: if_splits)

text \<open>
  Clearing the only bit of a set is undefined: the search for the next smaller handle has no lower
  end.
\<close>

theorem unset_only_handle_undefined:
  assumes "hs_ok s" and "hs_bits s = {h}"
  shows "unset_bit h s = None"
  by (rule unset_only_undefined [OF assms])

theorem unset_only_handle_undefined_witness:
  "unset_bit 3 \<lparr>hs_size = 1, max_handle = 3, hs_bits = {3}\<rparr> = None"
  by (rule unset_only_handle_undefined) (simp_all add: hs_ok_def FD_SETSIZE_def)

end
