(* ===== verification/Select_Reactor.thy ===== *)
theory Select_Reactor
  imports Select_Table Handle_Set Epoll_Reactor
begin

text \<open>
  \<open>select_reactor_impl\<close> of \<open>src/reactor/select_reactor_impl.cpp\<close>, with \<open>duration_to_timeval\<close> of
  \<open>src/util/unp_time.h\<close>: three handle sets that are waited for, a copy of them that \<open>::select\<close> changes and that is
  dispatched, and the table of handlers. The answer of \<open>::select\<close>, the clock and the callbacks are
  parameters; the callbacks may change registrations but not the sets being dispatched. Undefined
  behaviour of the sets and of the table is \<open>None\<close>.
\<close>

subsection \<open>State and registration\<close>

record handle_sets =
  read_set :: handle_set
  write_set :: handle_set
  exception_set :: handle_set

definition new_handle_sets :: handle_sets where
  "new_handle_sets = \<lparr>read_set = hs_reset, write_set = hs_reset, exception_set = hs_reset\<rparr>"

record 'w select_reactor =
  dispatch_sets :: handle_sets
  wait_sets :: handle_sets
  ready_sets :: handle_sets
  sel_demux :: select_table
  sel_errno :: int
  sel_world :: 'w

type_synonym 'w select_callbacks =
  "callback \<Rightarrow> handler \<Rightarrow> int \<Rightarrow> 'w select_reactor \<Rightarrow> int \<times> 'w select_reactor"

definition new_select_reactor :: "'w \<Rightarrow> 'w select_reactor" where
  "new_select_reactor w =
     \<lparr>dispatch_sets = new_handle_sets, wait_sets = new_handle_sets, ready_sets = new_handle_sets,
      sel_demux = new_select_table 8, sel_errno = 0, sel_world = w\<rparr>"

text \<open>The set of an event type; the accept event belongs to the set for reading.\<close>

definition get_set :: "event_type \<Rightarrow> handle_sets \<Rightarrow> handle_set" where
  "get_set type s =
     (if type = WRITE_EVENT then write_set s else if type = EXCEPT_EVENT then exception_set s else read_set s)"

definition put_set :: "event_type \<Rightarrow> handle_set \<Rightarrow> handle_sets \<Rightarrow> handle_sets" where
  "put_set type x s =
     (if type = WRITE_EVENT then s\<lparr>write_set := x\<rparr>
      else if type = EXCEPT_EVENT then s\<lparr>exception_set := x\<rparr> else s\<lparr>read_set := x\<rparr>)"

definition select_event :: "event_type \<Rightarrow> bool" where
  "select_event e \<longleftrightarrow> e = READ_EVENT \<or> e = ACCEPT_EVENT \<or> e = WRITE_EVENT \<or> e = EXCEPT_EVENT"

definition sr_register_handler :: "int \<Rightarrow> handler option \<Rightarrow> event_type \<Rightarrow> 'w select_reactor \<Rightarrow>
    (int \<times> 'w select_reactor) option" where
  "sr_register_handler handle h type r =
     (if handle = INVALID_HANDLE \<or> h = None \<or> type = NONE then Some (- 1, r)
      else if \<not> select_event type then Some (- 1, r)
      else do {
        s \<leftarrow> set_bit handle (get_set type (wait_sets r));
        let r1 = r\<lparr>wait_sets := put_set type s (wait_sets r)\<rparr>;
        (c, t) \<leftarrow> st_bind (sel_demux r1) handle h type;
        Some (c, r1\<lparr>sel_demux := t\<rparr>)
      })"

definition sr_unregister_handler :: "int \<Rightarrow> handler option \<Rightarrow> event_type \<Rightarrow> 'w select_reactor \<Rightarrow>
    (int \<times> 'w select_reactor) option" where
  "sr_unregister_handler handle h type r =
     (if handle = INVALID_HANDLE \<or> h = None \<or> type = NONE then Some (- 1, r)
      else if \<not> select_event type then Some (- 1, r)
      else do {
        s \<leftarrow> unset_bit handle (get_set type (wait_sets r));
        let r1 = r\<lparr>wait_sets := put_set type s (wait_sets r)\<rparr>;
        (c, t) \<leftarrow> st_unbind (sel_demux r1) handle h type;
        Some (c, r1\<lparr>sel_demux := t\<rparr>)
      })"

text \<open>
  Timeout handlers. A null handler cancels all timers and then fails: either nothing is bound any more, or
  the null pointer is dereferenced.
\<close>

definition sr_register_timeout :: "(handler \<Rightarrow> int) \<Rightarrow> handler option \<Rightarrow> event_type \<Rightarrow> 'w select_reactor \<Rightarrow>
    int \<times> 'w select_reactor" where
  "sr_register_timeout ex h type r =
     (case h of
        None \<Rightarrow> (- 1, r)
      | Some x \<Rightarrow>
          if type \<noteq> TIMEOUT_EVENT then (- 1, r)
          else let (c, t) = bindTimeoutEvent ex x (sel_demux r) in (c, r\<lparr>sel_demux := t\<rparr>))"

definition sr_unregister_timeout :: "(handler \<Rightarrow> int) \<Rightarrow> handler option \<Rightarrow> event_type \<Rightarrow> 'w select_reactor \<Rightarrow>
    (int \<times> 'w select_reactor) option" where
  "sr_unregister_timeout ex h type r =
     (let r1 = (if h = None then r\<lparr>sel_demux := cancelTimeEvent (sel_demux r)\<rparr> else r)
      in if type \<noteq> TIMEOUT_EVENT then Some (- 1, r1)
         else do {
           b \<leftarrow> st_hasEvent (sel_demux r1) type;
           if \<not> b then Some (- 1, r1)
           else case h of
                  None \<Rightarrow> None
                | Some x \<Rightarrow> let (c, t) = unbindTimeoutEvent ex x (sel_demux r1) in Some (c, r1\<lparr>sel_demux := t\<rparr>)
         })"

subsection \<open>Waiting\<close>

text \<open>Seconds and microseconds of a duration in microseconds, cut off towards zero.\<close>

definition to_seconds :: "int \<Rightarrow> int" where
  "to_seconds us = (if us < 0 then - ((- us) div 1000000) else us div 1000000)"

definition duration_to_timeval :: "int \<Rightarrow> int \<times> int" where
  "duration_to_timeval us =
     (let s = to_seconds us in (if s < 0 then 0 else s, if us < 0 then 0 else us - s * 1000000))"

definition to_microseconds :: "int \<Rightarrow> int" where
  "to_microseconds ns = (if ns < 0 then - ((- ns) div 1000) else ns div 1000)"

definition get_select_fd_set_ptr :: "handle_set \<Rightarrow> int set option" where
  "get_select_fd_set_ptr s = (if hs_size s > 0 then Some (hs_bits s) else None)"

datatype select_answer = Sel_ready int "int set" "int set" "int set" | Sel_error int

definition select_set :: "int set \<Rightarrow> handle_set \<Rightarrow> handle_set" where
  "select_set B s = (if hs_size s > 0 then s\<lparr>hs_bits := B\<rparr> else s)"

definition ETIMEDOUT :: int where "ETIMEDOUT = 110"

definition sr_select :: "(handler \<Rightarrow> int) \<Rightarrow>
    (int \<Rightarrow> int set option \<Rightarrow> int set option \<Rightarrow> int set option \<Rightarrow> int \<times> int \<Rightarrow> select_answer) \<Rightarrow> int \<Rightarrow> int \<Rightarrow>
    'w select_reactor \<Rightarrow> int \<times> 'w select_reactor" where
  "sr_select ex answer now timeout0 r =
     (let width = max_handle_p_1 (sel_demux r);
          ds = wait_sets r;
          r1 = r\<lparr>dispatch_sets := ds\<rparr>;
          timeout = (case timeout_heap (sel_demux r1) of
                       [] \<Rightarrow> timeout0
                     | x # _ \<Rightarrow> to_microseconds (ex x - now))
      in if handles_count (read_set ds) + handles_count (write_set ds) + handles_count (exception_set ds) = 0
         then (- 1, r1)
         else
           case answer width (get_select_fd_set_ptr (read_set ds)) (get_select_fd_set_ptr (write_set ds))
                  (get_select_fd_set_ptr (exception_set ds)) (duration_to_timeval timeout) of
             Sel_error e \<Rightarrow> (- 1, r1\<lparr>sel_errno := e\<rparr>)
           | Sel_ready n R W E \<Rightarrow>
               let r2 = r1\<lparr>dispatch_sets := \<lparr>read_set = select_set R (read_set ds),
                             write_set = select_set W (write_set ds),
                             exception_set = select_set E (exception_set ds)\<rparr>\<rparr>
               in if n < 0 then (- 1, r2)
                  else if n = 0 \<and> timeout \<noteq> 0 then (0, r2\<lparr>sel_errno := ETIMEDOUT\<rparr>)
                  else (n, r2))"

subsection \<open>Dispatching\<close>

partial_function (option) io_set_loop :: "'w select_callbacks \<Rightarrow> int \<Rightarrow> event_type \<Rightarrow> callback \<Rightarrow>
    int \<Rightarrow> int \<Rightarrow> int list \<Rightarrow> 'w select_reactor \<Rightarrow> (int \<times> int list \<times> 'w select_reactor) option" where
  "io_set_loop cb active type c current dispatched closing r =
     (if handles_count (get_set type (dispatch_sets r)) > 0 then do {
        cur \<leftarrow> next_handle (get_set type (dispatch_sets r)) current;
        if cur \<noteq> INVALID_HANDLE \<and> dispatched < active then do {
          h \<leftarrow> st_get_handler (sel_demux r) cur type;
          (case h of
             None \<Rightarrow> io_set_loop cb active type c cur dispatched closing r
           | Some x \<Rightarrow>
               (case cb c x cur r of
                  (ret, r1) \<Rightarrow>
                    if ret < 0 then do {
                      d \<leftarrow> unset_bit cur (get_set type (dispatch_sets r1));
                      e \<leftarrow> unset_bit cur (get_set type (ready_sets r1));
                      io_set_loop cb active type c cur (dispatched + 1) (closing @ [cur])
                        (r1\<lparr>dispatch_sets := put_set type d (dispatch_sets r1),
                            ready_sets := put_set type e (ready_sets r1)\<rparr>)
                    }
                    else io_set_loop cb active type c cur (dispatched + 1) closing r1))
        }
        else Some (dispatched, closing, r)
      }
      else Some (dispatched, closing, r))"

declare io_set_loop.simps [code]

fun close_handles :: "'w select_callbacks \<Rightarrow> event_type \<Rightarrow> int list \<Rightarrow> 'w select_reactor \<Rightarrow>
    'w select_reactor option" where
  "close_handles cb type [] r = Some r"
| "close_handles cb type (h # hs) r = do {
     x \<leftarrow> st_get_handler (sel_demux r) h type;
     case x of
       None \<Rightarrow> close_handles cb type hs r
     | Some y \<Rightarrow> do {
         let r1 = snd (cb Handle_close y h r);
         (_, t) \<leftarrow> st_unbind_handle (sel_demux r1) h;
         close_handles cb type hs (r1\<lparr>sel_demux := t\<rparr>)
       }
   }"

definition dispatch_io_set :: "'w select_callbacks \<Rightarrow> int \<Rightarrow> int \<Rightarrow> event_type \<Rightarrow> callback \<Rightarrow>
    'w select_reactor \<Rightarrow> (int \<times> 'w select_reactor) option" where
  "dispatch_io_set cb active dispatched type c r = do {
     (n, closing, r1) \<leftarrow> io_set_loop cb active type c (- 1) dispatched [] r;
     r2 \<leftarrow> close_handles cb type closing r1;
     Some (n, r2)
   }"

definition sr_dispatch_io_handlers :: "'w select_callbacks \<Rightarrow> int \<Rightarrow> 'w select_reactor \<Rightarrow>
    (int \<times> 'w select_reactor) option" where
  "sr_dispatch_io_handlers cb active r = do {
     (n1, r1) \<leftarrow> dispatch_io_set cb active 0 READ_EVENT Handle_input r;
     (n2, r2) \<leftarrow> dispatch_io_set cb active n1 WRITE_EVENT Handle_output r1;
     dispatch_io_set cb active n2 EXCEPT_EVENT Handle_output r2
   }"

text \<open>One timer per turn: the top of the heap.\<close>

definition dispatchTimeoutHandlers :: "'w select_callbacks \<Rightarrow> 'w select_reactor \<Rightarrow> int \<times> 'w select_reactor" where
  "dispatchTimeoutHandlers cb r =
     (case timeout_heap (sel_demux r) of
        [] \<Rightarrow> (0, r)
      | x # xs \<Rightarrow> (0, snd (cb Handle_timeout x 0 (r\<lparr>sel_demux := (sel_demux r)\<lparr>timeout_heap := xs\<rparr>\<rparr>))))"

definition sr_dispatch :: "'w select_callbacks \<Rightarrow> int \<Rightarrow> 'w select_reactor \<Rightarrow> (int \<times> 'w select_reactor) option" where
  "sr_dispatch cb active r =
     (if active = 0 then Some (dispatchTimeoutHandlers cb r)
      else do {
        (n, r1) \<leftarrow> sr_dispatch_io_handlers cb active r;
        Some (active - n, r1)
      })"

definition sr_handle_events :: "(handler \<Rightarrow> int) \<Rightarrow> 'w select_callbacks \<Rightarrow>
    (int \<Rightarrow> int set option \<Rightarrow> int set option \<Rightarrow> int set option \<Rightarrow> int \<times> int \<Rightarrow> select_answer) \<Rightarrow> int \<Rightarrow> int option \<Rightarrow>
    'w select_reactor \<Rightarrow> (int \<times> 'w select_reactor) option" where
  "sr_handle_events ex cb answer now timeout r =
     (let t = (case timeout of None \<Rightarrow> DURATION_MAX | Some us \<Rightarrow> us);
          (n, r1) = sr_select ex answer now t r
      in if n \<le> 0 \<and> sel_errno r1 \<noteq> ETIMEDOUT then Some (- 1, r1) else sr_dispatch cb n r1)"


subsection \<open>Dispatching in the order of the handles\<close>

definition select_logging :: "call list select_callbacks \<Rightarrow> bool" where
  "select_logging cb \<longleftrightarrow> (\<forall>c x fd r. 0 \<le> fst (cb c x fd r) \<and>
     snd (cb c x fd r) = r\<lparr>sel_world := sel_world r @ [(c, x, fd)]\<rparr>)"

definition select_log_call :: "call list select_callbacks" where
  "select_log_call c x fd r = (0, r\<lparr>sel_world := sel_world r @ [(c, x, fd)]\<rparr>)"

lemma select_logging_log_call: "select_logging select_log_call"
  by (simp add: select_logging_def select_log_call_def)

lemma select_loggingD:
  assumes "select_logging cb"
  obtains a where "cb c x fd r = (a, r\<lparr>sel_world := sel_world r @ [(c, x, fd)]\<rparr>)" and "0 \<le> a"
  using assms unfolding select_logging_def by (metis prod.collapse)

text \<open>What \<open>::select\<close> leaves of a well-formed set.\<close>

definition usable :: "handle_set \<Rightarrow> bool" where
  "usable s \<longleftrightarrow> hs_bounded s \<and> - 1 \<le> max_handle s \<and> (hs_size s \<le> 0 \<longrightarrow> hs_bits s = {})"

lemma usable_select_set:
  assumes "hs_ok s" and "B \<subseteq> hs_bits s"
  shows "usable (select_set B s)"
proof -
  have fin: "finite (hs_bits s)" using assms(1) by (auto simp: hs_ok_def intro: hs_finite)
  have "- 1 \<le> max_handle s"
  proof (cases "hs_bits s = {}")
    case False
    then have "Max (hs_bits s) \<in> {0 ..< FD_SETSIZE}" using assms(1) Max_in [OF fin] by (auto simp: hs_ok_def)
    then show ?thesis using False assms(1) by (simp add: hs_ok_def)
  qed (use assms(1) in \<open>simp add: hs_ok_def INVALID_HANDLE_def\<close>)
  then show ?thesis
    using assms fin hs_bounded_select [OF hs_ok_bounded [OF assms(1)] assms(2)] hs_ok_bounded [OF assms(1)]
    by (auto simp: usable_def select_set_def hs_ok_def)
qed

lemma sorted_list_above:
  assumes "finite B" and "x \<in> B" and "cur < x" and "\<forall>y \<in> B. cur < y \<longrightarrow> x \<le> y"
  shows "sorted_list_of_set {y \<in> B. cur < y} = x # sorted_list_of_set {y \<in> B. x < y}"
    and "card {y \<in> B. x < y} < card {y \<in> B. cur < y}"
proof -
  have e: "{y \<in> B. cur < y} = insert x {y \<in> B. x < y}" using assms by auto
  have "Min {y \<in> B. cur < y} = x" using assms by (intro Min_eqI) auto
  then show "sorted_list_of_set {y \<in> B. cur < y} = x # sorted_list_of_set {y \<in> B. x < y}"
    using e assms sorted_list_of_set_nonempty [of "{y \<in> B. cur < y}"] by (auto simp: insert_Diff_if)
  show "card {y \<in> B. x < y} < card {y \<in> B. cur < y}" unfolding e using assms(1) by simp
qed

lemma io_set_loop_law:
  assumes l: "select_logging cb"
    and "usable s" and "s = get_set type (dispatch_sets r)"
    and "\<And>y. y \<in> hs_bits s \<Longrightarrow> st_get_handler (sel_demux r) y type = Some (Some (H y))"
    and "- 1 \<le> cur" and "cur \<le> max_handle s" and "d \<le> active"
  shows "io_set_loop cb active type c cur d closing r =
    (let sel = take (nat (active - d)) (sorted_list_of_set {y \<in> hs_bits s. cur < y})
     in Some (d + int (length sel), closing, r\<lparr>sel_world := sel_world r @ map (\<lambda>y. (c, H y, y)) sel\<rparr>))"
  using assms(2-)
proof (induction "card {y \<in> hs_bits s. cur < y}" arbitrary: cur d r rule: less_induct)
  case less
  have b: "hs_bounded s" and fin: "finite (hs_bits s)"
    using less.prems(1) hs_finite [of s] by (auto simp: usable_def hs_bounded_def)
  show ?case
  proof (cases "hs_size s \<le> 0")
    case True
    then show ?thesis using less.prems(1,2)
      by (subst io_set_loop.simps) (simp add: usable_def handles_count_def)
  next
    case False
    obtain x where x: "next_handle s cur = Some x"
      "if x = INVALID_HANDLE then \<forall>y \<in> hs_bits s. y \<le> cur
       else x \<in> hs_bits s \<and> cur < x \<and> (\<forall>y \<in> hs_bits s. cur < y \<longrightarrow> x \<le> y)"
      using next_handle_law [OF b _ less.prems(4,5)] False by auto
    show ?thesis
    proof (cases "x = INVALID_HANDLE")
      case True
      then have none: "{y \<in> hs_bits s. cur < y} = {}" using x(2) by auto
      show ?thesis unfolding none using less.prems(2) x(1) True False
        by (subst io_set_loop.simps) (simp add: handles_count_def)
    next
      case ne: False
      then have m: "x \<in> hs_bits s" "cur < x" "\<forall>y \<in> hs_bits s. cur < y \<longrightarrow> x \<le> y" using x(2) by auto
      note above = sorted_list_above [OF fin m]
      show ?thesis
      proof (cases "d < active")
        case False
        then have "d = active" using less.prems(6) by simp
        then show ?thesis using less.prems(2) x(1) \<open>\<not> hs_size s \<le> 0\<close>
          by (subst io_set_loop.simps) (simp add: handles_count_def)
      next
        case True
        obtain a where a: "cb c (H x) x r = (a, r\<lparr>sel_world := sel_world r @ [(c, H x, x)]\<rparr>)" "0 \<le> a"
          by (rule select_loggingD [OF l])
        let ?r1 = "r\<lparr>sel_world := sel_world r @ [(c, H x, x)]\<rparr>"
        have "x \<le> max_handle s" using m(1) b by (simp add: hs_bounded_def)
        then have ih: "io_set_loop cb active type c x (d + 1) closing ?r1 =
          (let sel = take (nat (active - (d + 1))) (sorted_list_of_set {y \<in> hs_bits s. x < y})
           in Some (d + 1 + int (length sel), closing, ?r1\<lparr>sel_world := sel_world ?r1 @ map (\<lambda>y. (c, H y, y)) sel\<rparr>))"
          using less.prems m True by (intro less.hyps [OF above(2)]) simp_all
        have step: "io_set_loop cb active type c cur d closing r =
            io_set_loop cb active type c x (d + 1) closing ?r1"
          using less.prems(2,3) x(1) \<open>\<not> hs_size s \<le> 0\<close> ne True a m(1)
          by (subst io_set_loop.simps) (simp add: handles_count_def)
        have "nat (active - d) = Suc (nat (active - (d + 1)))" using True by simp
        then show ?thesis unfolding step ih above(1) by (simp add: Let_def)
      qed
    qed
  qed
qed

lemma dispatch_io_set_law:
  assumes "select_logging cb" and "usable s" and "s = get_set type (dispatch_sets r)"
    and "\<And>y. y \<in> hs_bits s \<Longrightarrow> st_get_handler (sel_demux r) y type = Some (Some (H y))"
    and "d + int (card (hs_bits s)) \<le> active"
  shows "dispatch_io_set cb active d type c r =
    Some (d + int (card (hs_bits s)),
      r\<lparr>sel_world := sel_world r @ map (\<lambda>y. (c, H y, y)) (sorted_list_of_set (hs_bits s))\<rparr>)"
proof -
  have fin: "finite (hs_bits s)" and pos: "\<forall>y \<in> hs_bits s. - 1 < y"
    using assms(2) hs_finite [of s] by (auto simp: usable_def hs_bounded_def)
  have all: "{y \<in> hs_bits s. - 1 < y} = hs_bits s" using pos by auto
  have n: "card (hs_bits s) \<le> nat (active - d)" using assms(5) by simp
  show ?thesis
    using io_set_loop_law [where H = H, OF assms(1-4), of "- 1" d active c "[]"] assms(2,5) fin n
    by (simp add: all dispatch_io_set_def usable_def Let_def)
qed

text \<open>
  C24. The handles that \<open>::select\<close> reports, when all of them have a handler and the handlers leave the reactor as it is and
  answer at least 0, so that no handle is closed: each gets exactly one callback, first
  the readers, then the writers, then the exceptional ones, in the order of the handles within each set, and
  all of them are counted as dispatched. A handler that fails can make the loop read outside the \<open>fd_set\<close>
  (lemma \<open>failing_reader_undefined\<close>).
\<close>

theorem select_turn:
  assumes "select_logging cb"
    and "usable (read_set (dispatch_sets r))" and "usable (write_set (dispatch_sets r))"
    and "usable (exception_set (dispatch_sets r))"
    and "\<And>y. y \<in> hs_bits (read_set (dispatch_sets r)) \<Longrightarrow>
      st_get_handler (sel_demux r) y READ_EVENT = Some (Some (HR y))"
    and "\<And>y. y \<in> hs_bits (write_set (dispatch_sets r)) \<Longrightarrow>
      st_get_handler (sel_demux r) y WRITE_EVENT = Some (Some (HW y))"
    and "\<And>y. y \<in> hs_bits (exception_set (dispatch_sets r)) \<Longrightarrow>
      st_get_handler (sel_demux r) y EXCEPT_EVENT = Some (Some (HE y))"
    and "n = card (hs_bits (read_set (dispatch_sets r))) + card (hs_bits (write_set (dispatch_sets r))) +
      card (hs_bits (exception_set (dispatch_sets r)))"
  shows "sr_dispatch_io_handlers cb (int n) r = Some (int n, r\<lparr>sel_world := sel_world r @
    map (\<lambda>y. (Handle_input, HR y, y)) (sorted_list_of_set (hs_bits (read_set (dispatch_sets r)))) @
    map (\<lambda>y. (Handle_output, HW y, y)) (sorted_list_of_set (hs_bits (write_set (dispatch_sets r)))) @
    map (\<lambda>y. (Handle_output, HE y, y)) (sorted_list_of_set (hs_bits (exception_set (dispatch_sets r))))\<rparr>)"
proof -
  let ?R = "read_set (dispatch_sets r)" and ?W = "write_set (dispatch_sets r)"
    and ?E = "exception_set (dispatch_sets r)"
  define r1 where "r1 = r\<lparr>sel_world := sel_world r @
    map (\<lambda>y. (Handle_input, HR y, y)) (sorted_list_of_set (hs_bits ?R))\<rparr>"
  define r2 where "r2 = r1\<lparr>sel_world := sel_world r1 @
    map (\<lambda>y. (Handle_output, HW y, y)) (sorted_list_of_set (hs_bits ?W))\<rparr>"
  have 1: "dispatch_io_set cb (int n) 0 READ_EVENT Handle_input r = Some (int (card (hs_bits ?R)), r1)"
    using dispatch_io_set_law [where H = HR and r = r and d = 0, OF assms(1,2) _ assms(5)] assms(8)
    by (simp add: get_set_def event_defs r1_def)
  have 2: "dispatch_io_set cb (int n) (int (card (hs_bits ?R))) WRITE_EVENT Handle_output r1 =
      Some (int (card (hs_bits ?R)) + int (card (hs_bits ?W)), r2)"
    using dispatch_io_set_law [where H = HW and r = r1, OF assms(1,3)] assms(6,8)
    by (simp add: get_set_def event_defs r1_def r2_def)
  have 3: "dispatch_io_set cb (int n) (int (card (hs_bits ?R)) + int (card (hs_bits ?W))) EXCEPT_EVENT
      Handle_output r2 = Some (int n, r2\<lparr>sel_world := sel_world r2 @
        map (\<lambda>y. (Handle_output, HE y, y)) (sorted_list_of_set (hs_bits ?E))\<rparr>)"
    using dispatch_io_set_law [where H = HE and r = r2, OF assms(1,4)] assms(7,8)
    by (simp add: get_set_def event_defs r1_def r2_def)
  show ?thesis using 1 2 3 by (simp add: sr_dispatch_io_handlers_def) (simp add: r1_def r2_def)
qed


definition sample_select_reactor :: "call list select_reactor" where
  "sample_select_reactor = \<lparr>dispatch_sets = \<lparr>read_set = \<lparr>hs_size = 2, max_handle = 2, hs_bits = {2}\<rparr>,
       write_set = hs_reset, exception_set = hs_reset\<rparr>,
     wait_sets = \<lparr>read_set = \<lparr>hs_size = 2, max_handle = 2, hs_bits = {0, 2}\<rparr>, write_set = hs_reset,
       exception_set = hs_reset\<rparr>,
     ready_sets = new_handle_sets,
     sel_demux = \<lparr>event_vector = [[(READ_EVENT, 10)], [], [(READ_EVENT, 20)], [], [], [], [], []],
       max_handle_p_1 = 3, timeout_heap = []\<rparr>,
     sel_errno = 0, sel_world = []\<rparr>"

theorem select_turn_witness:
  "\<exists>r'. sr_dispatch_io_handlers select_log_call 1 sample_select_reactor = Some (1, r') \<and>
    sel_world r' = [(Handle_input, 20, 2)]"
proof -
  have "sr_dispatch_io_handlers select_log_call (int 1) sample_select_reactor =
    Some (int 1, sample_select_reactor\<lparr>sel_world := sel_world sample_select_reactor @
    map (\<lambda>y. (Handle_input, 20, y)) (sorted_list_of_set (hs_bits (read_set (dispatch_sets sample_select_reactor)))) @
    map (\<lambda>y. (Handle_output, 0, y)) (sorted_list_of_set (hs_bits (write_set (dispatch_sets sample_select_reactor)))) @
    map (\<lambda>y. (Handle_output, 0, y))
      (sorted_list_of_set (hs_bits (exception_set (dispatch_sets sample_select_reactor))))\<rparr>)"
    by (rule select_turn [OF select_logging_log_call])
      (auto simp: sample_select_reactor_def usable_def hs_bounded_def FD_SETSIZE_def hs_reset_def
        INVALID_HANDLE_def st_get_handler_def is_handle_in_range_def at_def tuple_get_handler_def)
  then show ?thesis by (simp add: sample_select_reactor_def hs_reset_def)
qed

subsection \<open>Registrations and the wait sets\<close>

text \<open>
  The sets that are waited for are well formed, and a handle is in the set of an event exactly when a handler is
  bound to it.
\<close>

definition sel_coherent :: "'w select_reactor \<Rightarrow> bool" where
  "sel_coherent r \<longleftrightarrow> sel_ok (sel_demux r) \<and>
     (\<forall>e \<in> {READ_EVENT, WRITE_EVENT, EXCEPT_EVENT}. hs_ok (get_set e (wait_sets r)) \<and>
        (\<forall>h. h \<in> hs_bits (get_set e (wait_sets r)) \<longleftrightarrow> sel_lookup (sel_demux r) h e \<noteq> None))"

lemma new_select_coherent: "sel_coherent (new_select_reactor w)"
  by (auto simp: sel_coherent_def new_select_reactor_def new_select_table_ok get_set_def new_handle_sets_def
      hs_reset_ok sel_lookup_def event_defs)
    (auto simp: hs_reset_def new_select_table_def MAX_NUMBER_OF_HANDLE_def)

lemma get_put_set:
  "e \<in> {READ_EVENT, WRITE_EVENT, EXCEPT_EVENT} \<Longrightarrow> f \<in> {READ_EVENT, WRITE_EVENT, EXCEPT_EVENT} \<Longrightarrow>
     get_set f (put_set e x s) = (if f = e then x else get_set f s)"
  by (auto simp: get_set_def put_set_def event_defs)

text \<open>
  Registering a free event of a handle below 1024 with the select reactor succeeds, and the wait sets and the
  table agree afterwards. Unregistering it does so too, as long as the set keeps another handle and the table a
  handler for the same or a smaller handle.
\<close>

theorem select_registrations_coherent:
  assumes c: "sel_coherent r" and e: "e \<in> {READ_EVENT, WRITE_EVENT, EXCEPT_EVENT}"
    and h: "0 \<le> h" "h < 1024"
  shows "(sel_lookup (sel_demux r) h e = None \<longrightarrow>
      (\<exists>r'. sr_register_handler h (Some x) e r = Some (0, r') \<and> sel_coherent r' \<and>
        sel_lookup (sel_demux r') h e = Some x)) \<and>
    (sel_lookup (sel_demux r) h e = Some x \<longrightarrow> hs_bits (get_set e (wait_sets r)) \<noteq> {h} \<longrightarrow>
      sel_lookup (sel_demux r) g f = Some y \<longrightarrow> g < h \<or> g = h \<and> f \<noteq> e \<longrightarrow>
      (\<exists>r'. sr_unregister_handler h (Some x) e r = Some (0, r') \<and> sel_coherent r' \<and>
        sel_lookup (sel_demux r') h e = None))"
proof -
  have ok: "sel_ok (sel_demux r)" and hok: "hs_ok (get_set e (wait_sets r))"
    and bits: "\<And>g. g \<in> hs_bits (get_set e (wait_sets r)) \<longleftrightarrow> sel_lookup (sel_demux r) g e \<noteq> None"
    using c e by (auto simp: sel_coherent_def)
  have v: "sel_valid h e" using h e by (auto simp: sel_valid_def MAX_NUMBER_OF_HANDLE_def event_defs)
  have se: "select_event e" "e \<noteq> NONE" "h \<noteq> INVALID_HANDLE"
    using e h by (auto simp: select_event_def event_defs INVALID_HANDLE_def)
  have keep: "sel_coherent (r\<lparr>wait_sets := put_set e s (wait_sets r), sel_demux := t\<rparr>)"
    if "sel_ok t" "hs_ok s" "\<And>g. g \<in> hs_bits s \<longleftrightarrow> sel_lookup t g e \<noteq> None"
      "\<And>g f. f \<noteq> e \<Longrightarrow> sel_lookup t g f = sel_lookup (sel_demux r) g f" for s t
    using that c e by (auto simp: sel_coherent_def get_put_set)
  have reg: "\<exists>r'. sr_register_handler h (Some x) e r = Some (0, r') \<and> sel_coherent r' \<and>
        sel_lookup (sel_demux r') h e = Some x" if free: "sel_lookup (sel_demux r) h e = None"
  proof -
    obtain s where s: "set_bit h (get_set e (wait_sets r)) = Some s" "hs_ok s"
      "hs_bits s = insert h (hs_bits (get_set e (wait_sets r)))"
      using set_bit_law [OF hok] h by (auto simp: FD_SETSIZE_def)
    obtain t where t: "st_bind (sel_demux r) h (Some x) e = Some (0, t)" "sel_ok t"
      "\<And>h' e'. sel_lookup t h' e' = (if h' = h \<and> e' = e then Some x else sel_lookup (sel_demux r) h' e')"
      using sel_bind_law [OF ok v free] by blast
    have "sel_coherent (r\<lparr>wait_sets := put_set e s (wait_sets r), sel_demux := t\<rparr>)"
      by (rule keep) (use s t bits in \<open>auto split: if_splits\<close>)
    then show ?thesis using s(1) t se by (auto simp: sr_register_handler_def)
  qed
  have unreg: "\<exists>r'. sr_unregister_handler h (Some x) e r = Some (0, r') \<and> sel_coherent r' \<and>
        sel_lookup (sel_demux r') h e = None"
    if bound: "sel_lookup (sel_demux r) h e = Some x" and more: "hs_bits (get_set e (wait_sets r)) \<noteq> {h}"
      and other: "sel_lookup (sel_demux r) g f = Some y" "g < h \<or> g = h \<and> f \<noteq> e"
  proof -
    obtain s where s: "unset_bit h (get_set e (wait_sets r)) = Some s" "hs_ok s"
      "hs_bits s = hs_bits (get_set e (wait_sets r)) - {h}"
      using unset_bit_law [OF hok _ more] bits [of h] bound by auto
    obtain t where t: "st_unbind (sel_demux r) h (Some x) e = Some (0, t)" "sel_ok t"
      "\<And>h' e'. sel_lookup t h' e' = (if h' = h \<and> e' = e then None else sel_lookup (sel_demux r) h' e')"
      using sel_unbind_law [OF ok v bound other] by blast
    have "sel_coherent (r\<lparr>wait_sets := put_set e s (wait_sets r), sel_demux := t\<rparr>)"
      by (rule keep) (use s t bits in \<open>auto split: if_splits\<close>)
    then show ?thesis using s(1) t se by (auto simp: sr_unregister_handler_def)
  qed
  show ?thesis using reg unreg by blast
qed

theorem select_registrations_coherent_witness:
  "\<exists>r'. sr_register_handler 4 (Some 7) READ_EVENT (new_select_reactor ()) = Some (0, r') \<and> sel_coherent r' \<and>
    sel_lookup (sel_demux r') 4 READ_EVENT = Some 7"
  using select_registrations_coherent [OF new_select_coherent [of "()"], of READ_EVENT 4 7 0 READ_EVENT 0]
  by (simp add: new_select_reactor_def new_select_table_def sel_lookup_def sel_valid_def
      MAX_NUMBER_OF_HANDLE_def)

text \<open>Unregistering the only reader is undefined, whatever the table holds.\<close>

lemma unregister_only_reader:
  assumes "sel_coherent r" and "hs_bits (get_set READ_EVENT (wait_sets r)) = {h}"
  shows "sr_unregister_handler h (Some x) READ_EVENT r = None"
proof -
  have "hs_ok (get_set READ_EVENT (wait_sets r))" using assms(1) by (simp add: sel_coherent_def)
  then have "unset_bit h (get_set READ_EVENT (wait_sets r)) = None" and "0 \<le> h"
    using unset_only_undefined [OF _ assms(2)] assms(2) by (auto simp: hs_ok_def)
  then show ?thesis
    by (simp add: sr_unregister_handler_def select_event_def INVALID_HANDLE_def event_defs)
qed

text \<open>
  A handler that reports an error on the largest handle of the set, when no smaller one is ready: the loop
  clears the bit in the set being dispatched and runs off the array.
\<close>

definition failing_call :: "call list select_callbacks" where
  "failing_call c x fd r = (if c = Handle_input then - 1 else 0, r\<lparr>sel_world := sel_world r @ [(c, x, fd)]\<rparr>)"

lemma failing_reader_undefined: "dispatch_io_set failing_call 1 0 READ_EVENT Handle_input sample_select_reactor = None"
proof -
  let ?s = "\<lparr>hs_size = 2, max_handle = 2, hs_bits = {2}\<rparr>"
  have s: "get_set READ_EVENT (dispatch_sets sample_select_reactor) = ?s"
    by (simp add: get_set_def sample_select_reactor_def event_defs)
  have n: "next_handle ?s (- 1) = Some 2"
    by (simp add: next_handle_def INVALID_HANDLE_def is_last_handle_def next_below.simps is_set_def FD_SETSIZE_def)
  have g: "st_get_handler (sel_demux sample_select_reactor) 2 READ_EVENT = Some (Some 20)"
    by (simp add: sample_select_reactor_def st_get_handler_def is_handle_in_range_def at_def
        tuple_get_handler_def)
  have "prev_set (?s\<lparr>hs_bits := {}, hs_size := 1\<rparr>) (2 + 1) = None"
    by (rule prev_set_none) (simp_all add: FD_SETSIZE_def)
  then have u: "unset_bit 2 ?s = None"
    by (simp add: unset_bit_def INVALID_HANDLE_def is_set_def FD_SETSIZE_def)
  have "get_set READ_EVENT (dispatch_sets (snd (failing_call Handle_input 20 2 sample_select_reactor))) = ?s"
    using s by (simp add: failing_call_def)
  then have "io_set_loop failing_call 1 READ_EVENT Handle_input (- 1) 0 [] sample_select_reactor = None"
    using s n g u by (subst io_set_loop.simps) (simp add: handles_count_def INVALID_HANDLE_def failing_call_def)
  then show ?thesis by (simp add: dispatch_io_set_def)
qed

end
