(* ===== verification/String_Piece.thy ===== *)
theory String_Piece
  imports Kmp
begin

text \<open>
  C strings and \<open>string_piece::Range<const char*>\<close> of \<open>src/util/string_piece/string_piece.h\<close>. A pointer
  into a block of memory is the list of bytes from there to the end of its block, so that a read behind the
  block is \<open>None\<close>. A range keeps its block and the positions of its two pointers in it, as integers: the
  code of the cookie parser makes ranges whose end lies before their beginning.
\<close>

unbundle bit_operations_syntax

subsection \<open>C strings\<close>

definition cstr :: "bytes \<Rightarrow> bytes" where
  "cstr s = s @ [NUL]"

text \<open>
  \<open>strcmp\<close> and \<open>strncmp\<close>: the sign of the difference of the first bytes that differ, taken as
  \<open>unsigned char\<close>; both stop behind a NUL.
\<close>

fun strcmp :: "bytes \<Rightarrow> bytes \<Rightarrow> int option" where
  "strcmp (a # as) (b # bs) =
     (if a \<noteq> b then Some (sgn (int (of_char a) - int (of_char b)))
      else if a = NUL then Some 0 else strcmp as bs)"
| "strcmp _ _ = None"

fun strncmp :: "nat \<Rightarrow> bytes \<Rightarrow> bytes \<Rightarrow> int option" where
  "strncmp 0 as bs = Some 0"
| "strncmp (Suc n) (a # as) (b # bs) =
     (if a \<noteq> b then Some (sgn (int (of_char a) - int (of_char b)))
      else if a = NUL then Some 0 else strncmp n as bs)"
| "strncmp (Suc n) _ _ = None"

subsection \<open>Characters\<close>

text \<open>
  The comparison works on \<open>char\<close>s; the model on their unsigned values, which for the bounds \<open>'a'\<close> and
  \<open>'z'\<close> makes no difference: a negative \<open>char\<close> is below the one and its unsigned value above the other.
\<close>

definition AsciiCaseInsensitiveEqual :: "char \<Rightarrow> char \<Rightarrow> bool" where
  "AsciiCaseInsensitiveEqual lhs rhs =
     (let k = (of_char lhs :: nat) XOR of_char rhs in
      if k = 0 then True
      else if k \<noteq> 32 then False
      else let k = (of_char lhs :: nat) OR of_char rhs in k \<ge> 97 \<and> k \<le> 122)"

definition tolower :: "char \<Rightarrow> char" where
  "tolower c = (if 65 \<le> (of_char c :: nat) \<and> (of_char c :: nat) \<le> 90 then char_of (of_char c + 32 :: nat) else c)"

definition toupper :: "char \<Rightarrow> char" where
  "toupper c = (if 97 \<le> (of_char c :: nat) \<and> (of_char c :: nat) \<le> 122 then char_of (of_char c - 32 :: nat) else c)"

subsection \<open>Ranges\<close>

record Range =
  block :: bytes
  range_begin :: int
  range_end :: int

text \<open>The constructors: two null pointers, two pointers, a pointer with a length, a \<open>std::string\<close>, a C string.\<close>

definition null_range :: Range where
  "null_range = \<lparr>block = [], range_begin = 0, range_end = 0\<rparr>"

definition range_len :: "bytes \<Rightarrow> int \<Rightarrow> nat \<Rightarrow> Range" where
  "range_len blk b n = \<lparr>block = blk, range_begin = b, range_end = b + int n\<rparr>"

definition range_of_string :: "bytes \<Rightarrow> Range" where
  "range_of_string s = \<lparr>block = cstr s, range_begin = 0, range_end = int (length s)\<rparr>"

definition range_of_cstr :: "bytes \<Rightarrow> Range" where
  "range_of_cstr p = \<lparr>block = p, range_begin = 0, range_end = int (strlen p)\<rparr>"

definition range_size :: "Range \<Rightarrow> nat" where
  "range_size r = nat ((range_end r - range_begin r) mod 2 ^ 64)"

text \<open>The memory that \<open>range_begin\<close> points to, and the bytes of the range.\<close>

definition range_mem :: "Range \<Rightarrow> bytes option" where
  "range_mem r = (if 0 \<le> range_begin r \<and> range_begin r \<le> int (length (block r))
                  then Some (drop (nat (range_begin r)) (block r)) else None)"

definition range_read :: "Range \<Rightarrow> bytes option" where
  "range_read r = do { m \<leftarrow> range_mem r; memread m 0 (range_size r) }"

definition range_eq :: "Range \<Rightarrow> Range \<Rightarrow> bool option" where
  "range_eq r s =
     (if range_size r \<noteq> range_size s then Some False
      else do { m \<leftarrow> range_mem r; m' \<leftarrow> range_mem s; c \<leftarrow> strncmp (range_size r) m m'; Some (c = 0) })"

definition range_compare :: "Range \<Rightarrow> Range \<Rightarrow> int option" where
  "range_compare r s = do {
     eq \<leftarrow> range_eq r s;
     if eq then Some 0
     else do {
       let minSize = min (range_size r) (range_size s);
       m \<leftarrow> range_mem r;
       m' \<leftarrow> range_mem s;
       ret \<leftarrow> strncmp minSize m m';
       Some (if ret \<noteq> 0 then ret else if minSize = range_size r then - 1 else 1)
     }
   }"

definition range_less :: "Range \<Rightarrow> Range \<Rightarrow> bool option" where
  "range_less r s = do { c \<leftarrow> range_compare r s; Some (c < 0) }"

text \<open>\<open>operator[]\<close> returns a pointer, null behind the end: its position in the block.\<close>

definition range_index :: "Range \<Rightarrow> nat \<Rightarrow> int option" where
  "range_index r pos = (if pos > range_size r then None else Some (range_begin r + int pos))"

definition reset_to :: "int \<Rightarrow> int \<Rightarrow> Range \<Rightarrow> Range" where
  "reset_to b e r = r\<lparr>range_begin := b, range_end := e\<rparr>"

text \<open>\<open>std::string::npos\<close>.\<close>

definition npos :: nat where
  "npos = 2 ^ 64 - 1"

primrec find_from :: "char \<Rightarrow> nat \<Rightarrow> bytes \<Rightarrow> nat" where
  "find_from v i [] = npos"
| "find_from v i (c # cs) = (if c = v then i else find_from v (Suc i) cs)"

definition find_char :: "Range \<Rightarrow> char \<Rightarrow> nat option" where
  "find_char r v = do { t \<leftarrow> range_read r; Some (find_from v 0 t) }"

definition find_range :: "Range \<Rightarrow> Range \<Rightarrow> int option" where
  "find_range r s = do { t \<leftarrow> range_read r; p \<leftarrow> range_read s; kmp_search_len (Some t) (Some p) }"

text \<open>\<open>sub_string\<close> throws when the position is behind the end; \<open>Inl\<close> is the exception.\<close>

datatype piece_error = out_of_range

definition sub_string :: "Range \<Rightarrow> nat \<Rightarrow> nat \<Rightarrow> piece_error + Range" where
  "sub_string r first len =
     (if first > range_size r then Inl out_of_range
      else Inr (range_len (block r) (range_begin r + int first) (min len (range_size r - first))))"

definition caseInsensitiveEqual :: "Range \<Rightarrow> bytes \<Rightarrow> bool option" where
  "caseInsensitiveEqual r str =
     (let s = range_of_cstr str in
      if range_size s \<noteq> range_size r then Some False
      else do { t \<leftarrow> range_read r; u \<leftarrow> range_read s; Some (list_all2 AsciiCaseInsensitiveEqual t u) })"

text \<open>\<open>copy\<close> allocates a zeroed block one byte longer; the null pointer of an empty range is \<open>Some None\<close>.\<close>

definition range_copy :: "Range \<Rightarrow> bytes option option" where
  "range_copy r =
     (if range_size r = 0 then Some None
      else do { t \<leftarrow> range_read r; d \<leftarrow> memcpy (calloc (range_size r + 1)) 0 t; Some (Some d) })"

subsection \<open>C string facts\<close>

lemma sgn_char_diff: "sgn (int (of_char a) - int (of_char b)) = 0 \<longleftrightarrow> a = b"
  by (simp add: sgn_if)

lemma of_char_pos: "NUL \<noteq> a \<Longrightarrow> 0 < (of_char a :: nat)"
proof (rule ccontr)
  assume "NUL \<noteq> a" and "\<not> 0 < (of_char a :: nat)"
  then have "(of_char a :: nat) = of_char NUL" by simp
  with \<open>NUL \<noteq> a\<close> show False unfolding of_char_eq_iff by simp
qed

lemma of_char_pos': "a \<noteq> NUL \<Longrightarrow> 0 < (of_char a :: nat)"
  by (rule of_char_pos) simp

lemma strcmp_cstr:
  "NUL \<notin> set a \<Longrightarrow> NUL \<notin> set b \<Longrightarrow> \<exists>c. strcmp (cstr a) (cstr b) = Some c \<and> (c = 0 \<longleftrightarrow> a = b)"
proof (induction a arbitrary: b)
  case Nil
  then show ?case by (cases b) (auto simp: cstr_def sgn_char_diff dest: of_char_pos of_char_pos')
next
  case (Cons x a)
  then show ?case by (cases b) (auto simp: cstr_def sgn_char_diff dest: of_char_pos of_char_pos')
qed

lemma strncmp_le:
  assumes "n \<le> length a" and "n \<le> length b"
  shows "\<exists>c. strncmp n a b = Some c"
  using assms
proof (induction n arbitrary: a b)
  case (Suc n)
  then show ?case by (cases a; cases b) auto
qed simp

lemma strncmp_text:
  assumes "length s = length t" and "NUL \<notin> set s" and "NUL \<notin> set t"
  shows "\<exists>c. strncmp (length s) (s @ u) (t @ v) = Some c \<and> (c = 0 \<longleftrightarrow> s = t)"
  using assms by (induction s t rule: list_induct2) (auto simp: sgn_char_diff)

lemma strlen_cstr: "NUL \<notin> set s \<Longrightarrow> strlen (cstr s) = length s"
  by (auto simp: strlen_def cstr_def takeWhile_append)

subsection \<open>Case-insensitive comparison\<close>

lemma xor_32_cancel: "(m::nat) XOR n = 32 \<Longrightarrow> n = flip_bit 5 m \<and> m OR n = set_bit 5 m"
proof -
  assume eq: "m XOR n = 32"
  then have "m XOR (m XOR n) = m XOR 32" by simp
  then have n: "n = m XOR 32" by (simp add: xor.assoc [symmetric])
  have "m OR (m XOR 32) = m OR 32"
    by (rule bit_eqI) (auto simp: bit_or_iff bit_xor_iff)
  with n show "n = flip_bit 5 m \<and> m OR n = set_bit 5 m"
    by (simp add: flip_bit_eq_xor set_bit_eq_or)
qed

lemma of_char_less_256: "(of_char c :: nat) < 256"
  using of_char_mod_256 [of c, where 'a = nat] by (metis mod_less_divisor zero_less_numeral)

lemma tolower_code: "(of_char (tolower c) :: nat) = (if 65 \<le> (of_char c :: nat) \<and> (of_char c :: nat) \<le> 90 then of_char c + 32 else of_char c)"
  by (simp add: tolower_def)

lemma toupper_no_nul: "toupper c = NUL \<longleftrightarrow> c = NUL"
proof -
  have "toupper c \<noteq> NUL" if "97 \<le> (of_char c :: nat)" and "(of_char c :: nat) \<le> 122"
  proof
    assume "toupper c = NUL"
    then have "(of_char (toupper c) :: nat) = 0" by simp
    then show False using that by (simp add: toupper_def)
  qed
  moreover have "c \<noteq> NUL" if "97 \<le> (of_char c :: nat)" using that by auto
  ultimately show ?thesis by (auto simp: toupper_def)
qed

text \<open>The bit trick compares up to the case of ASCII letters, and of nothing else.\<close>

lemma xor_32_add:
  assumes "(m::nat) XOR n = 32" and "\<not> bit m 5"
  shows "n = m + 32 \<and> m OR n = m + 32"
proof -
  from xor_32_cancel [OF assms(1)] have n: "n = flip_bit 5 m" and o: "m OR n = set_bit 5 m" by blast+
  show ?thesis unfolding o using assms(2) by (simp add: n flip_bit_eq_if set_bit_eq)
qed

lemma upper_xor_32: "65 \<le> m \<Longrightarrow> m \<le> 90 \<Longrightarrow> m XOR (m + 32) = (32::nat) \<and> m OR (m + 32) = m + 32"
proof -
  assume "65 \<le> m" and "m \<le> 90"
  then have "m div 32 = 2" by arith
  then have "\<not> bit m 5" by (simp add: bit_iff_odd)
  then have f: "m + 32 = m XOR 32" and st: "set_bit 5 m = m + 32"
    by (simp_all add: flip_bit_eq_xor [of 5 m, simplified, symmetric] flip_bit_eq_if set_bit_eq)
  have "m XOR (m + 32) = 32" unfolding f by (simp add: xor.assoc [symmetric])
  then show ?thesis using xor_32_cancel st by simp
qed

lemma ascii_equal_lower: "AsciiCaseInsensitiveEqual a b \<longleftrightarrow> tolower a = tolower b"
proof -
  define m n where mn: "m = (of_char a :: nat)" "n = (of_char b :: nat)"
  define L where "L x = (if 65 \<le> x \<and> x \<le> 90 then x + 32 else x)" for x :: nat
  define near where "near x y \<longleftrightarrow> x XOR y = 32 \<and> 97 \<le> x OR y \<and> x OR y \<le> 122" for x y :: nat
  have eq: "tolower a = tolower b \<longleftrightarrow> L m = L n"
    unfolding mn L_def tolower_code [symmetric] by simp
  have "m XOR n = 0 \<longleftrightarrow> m = n" by (metis xor_self_eq xor.assoc xor.right_neutral)
  then have ascii: "AsciiCaseInsensitiveEqual a b \<longleftrightarrow> m = n \<or> near m n"
    unfolding AsciiCaseInsensitiveEqual_def Let_def mn [symmetric] near_def by auto
  have near_sym: "near x y = near y x" for x y
    unfolding near_def by (simp only: xor.commute or.commute)
  have low: "L x = L y" if "near x y" and "\<not> bit x 5" for x y
  proof -
    from that have k: "x XOR y = 32" "97 \<le> x OR y" "x OR y \<le> 122" by (simp_all only: near_def)
    from xor_32_add [OF k(1) that(2)] have y: "y = x + 32" and o: "x OR y = x + 32" by blast+
    from k(2,3) show ?thesis unfolding o by (simp add: L_def y)
  qed
  have near_low: "L m = L n" if "near m n"
  proof (cases "bit m 5")
    case True
    have "bit (m XOR n) 5" using that by (simp add: near_def bit_iff_odd)
    with True have "\<not> bit n 5" by (simp add: bit_xor_iff)
    then show ?thesis using low [of n m] that near_sym by simp
  qed (use low that in blast)
  have up: "near x (x + 32)" if "65 \<le> x" "x \<le> 90" for x
    using upper_xor_32 [OF that] that by (simp add: near_def)
  have low_near: "m = n \<or> near m n" if "L m = L n"
  proof -
    have "m = n \<or> (65 \<le> m \<and> m \<le> 90) \<and> n = m + 32 \<or> (65 \<le> n \<and> n \<le> 90) \<and> m = n + 32"
      using that unfolding L_def by presburger
    then consider "m = n" | "65 \<le> m" "m \<le> 90" "n = m + 32" | "65 \<le> n" "n \<le> 90" "m = n + 32"
      by blast
    then show ?thesis
    proof cases
      case 2
      then have "near m n" using up [of m] by simp
      then show ?thesis by (rule disjI2)
    next
      case 3
      then have "near n m" using up [of n] by simp
      then show ?thesis unfolding near_sym [of m n] by (rule disjI2)
    qed blast
  qed
  show ?thesis unfolding ascii eq using near_low low_near by (intro iffI) auto
qed

lemma ascii_text_equal_lower:
  "list_all2 AsciiCaseInsensitiveEqual s t \<longleftrightarrow> map tolower s = map tolower t"
proof -
  have "AsciiCaseInsensitiveEqual = (\<lambda>a b. tolower a = tolower b)"
    by (intro ext) (rule ascii_equal_lower)
  then show ?thesis
    using list.rel_map(1) [of "(=)" tolower s "map tolower t"] list.rel_map(2) [of "\<lambda>a b. tolower a = b" s tolower t]
    by (simp add: list.rel_eq)
qed

subsection \<open>Ranges over strings\<close>

text \<open>A range that lies in its block.\<close>

definition range_ok :: "Range \<Rightarrow> bool" where
  "range_ok r \<longleftrightarrow> 0 \<le> range_begin r \<and> range_begin r \<le> range_end r \<and>
     range_end r \<le> int (length (block r)) \<and> length (block r) < 2 ^ 64"

definition range_text :: "Range \<Rightarrow> bytes" where
  "range_text r = take (nat (range_end r - range_begin r)) (drop (nat (range_begin r)) (block r))"

lemma range_size_ok: "range_ok r \<Longrightarrow> range_size r = length (range_text r)"
  by (auto simp: range_ok_def range_size_def range_text_def)

lemma range_read_ok: "range_ok r \<Longrightarrow> range_read r = Some (range_text r)"
  by (auto simp: range_ok_def range_read_def range_mem_def range_size_def range_text_def memread_def)

lemma range_of_string_ok:
  "length s < 2 ^ 63 \<Longrightarrow> range_ok (range_of_string s)" "range_text (range_of_string s) = s"
  by (simp_all add: range_ok_def range_of_string_def range_text_def cstr_def)

lemma range_of_cstr_string: "NUL \<notin> set s \<Longrightarrow> range_of_cstr (cstr s) = range_of_string s"
  by (simp add: range_of_cstr_def range_of_string_def strlen_cstr)

lemma sub_string_ok:
  assumes "range_ok r" and "first \<le> range_size r"
  shows "\<exists>s. sub_string r first len = Inr s \<and> range_ok s \<and> range_text s = take len (drop first (range_text r))"
  using assms
  by (auto simp: sub_string_def range_ok_def range_len_def range_text_def range_size_def min_def
      nat_add_distrib take_drop add.commute)

end

