(* ===== verification/Http_Header_Code.thy ===== *)
theory Http_Header_Code
  imports String_Piece
begin

text \<open>
  The common HTTP header names: the codes of \<open>src/http/gperf/HttpHeaderCode.h\<close>, the perfect hash table that gperf
  generated for them (\<open>HttpCommomHeadersHash.h\<close> and \<open>.cpp\<close>) and its users \<open>getHeaderCode\<close> and
  \<open>getPointerWithHeaderCode\<close> of \<open>src/http/HttpCommomHeaders.cpp\<close>. The lemmas show that the hash table is a
  perfect one: for every C string it answers like a search through the list of words.
\<close>

subsection \<open>The codes\<close>

text \<open>\<open>enum class HttpHeaderCode : uint8_t\<close>, with the numbers of its enumerators.\<close>

type_synonym HttpHeaderCode = nat

abbreviation (input) HTTP_HEADER_NONE :: HttpHeaderCode where "HTTP_HEADER_NONE \<equiv> 0"
abbreviation (input) HTTP_HEADER_OTHER :: HttpHeaderCode where "HTTP_HEADER_OTHER \<equiv> 1"
abbreviation (input) HTTP_HEADER_COLON_AUTHORITY :: HttpHeaderCode where "HTTP_HEADER_COLON_AUTHORITY \<equiv> 2"
abbreviation (input) HTTP_HEADER_COLON_METHOD :: HttpHeaderCode where "HTTP_HEADER_COLON_METHOD \<equiv> 3"
abbreviation (input) HTTP_HEADER_COLON_PATH :: HttpHeaderCode where "HTTP_HEADER_COLON_PATH \<equiv> 4"
abbreviation (input) HTTP_HEADER_COLON_PROTOCOL :: HttpHeaderCode where "HTTP_HEADER_COLON_PROTOCOL \<equiv> 5"
abbreviation (input) HTTP_HEADER_COLON_SCHEME :: HttpHeaderCode where "HTTP_HEADER_COLON_SCHEME \<equiv> 6"
abbreviation (input) HTTP_HEADER_COLON_STATUS :: HttpHeaderCode where "HTTP_HEADER_COLON_STATUS \<equiv> 7"
abbreviation (input) HTTP_HEADER_ACCEPT :: HttpHeaderCode where "HTTP_HEADER_ACCEPT \<equiv> 8"
abbreviation (input) HTTP_HEADER_ACCEPT_CHARSET :: HttpHeaderCode where "HTTP_HEADER_ACCEPT_CHARSET \<equiv> 9"
abbreviation (input) HTTP_HEADER_ACCEPT_DATETIME :: HttpHeaderCode where "HTTP_HEADER_ACCEPT_DATETIME \<equiv> 10"
abbreviation (input) HTTP_HEADER_ACCEPT_ENCODING :: HttpHeaderCode where "HTTP_HEADER_ACCEPT_ENCODING \<equiv> 11"
abbreviation (input) HTTP_HEADER_ACCEPT_LANGUAGE :: HttpHeaderCode where "HTTP_HEADER_ACCEPT_LANGUAGE \<equiv> 12"
abbreviation (input) HTTP_HEADER_ACCEPT_RANGES :: HttpHeaderCode where "HTTP_HEADER_ACCEPT_RANGES \<equiv> 13"
abbreviation (input) HTTP_HEADER_ACCESS_CONTROL_REQUEST_METHOD :: HttpHeaderCode where "HTTP_HEADER_ACCESS_CONTROL_REQUEST_METHOD \<equiv> 21"
abbreviation (input) HTTP_HEADER_ACCESS_CONTROL_ALLOW_CREDENTIALS :: HttpHeaderCode where "HTTP_HEADER_ACCESS_CONTROL_ALLOW_CREDENTIALS \<equiv> 14"
abbreviation (input) HTTP_HEADER_AGE :: HttpHeaderCode where "HTTP_HEADER_AGE \<equiv> 22"
abbreviation (input) HTTP_HEADER_ACCESS_CONTROL_ALLOW_HEADERS :: HttpHeaderCode where "HTTP_HEADER_ACCESS_CONTROL_ALLOW_HEADERS \<equiv> 15"
abbreviation (input) HTTP_HEADER_ALLOW :: HttpHeaderCode where "HTTP_HEADER_ALLOW \<equiv> 23"
abbreviation (input) HTTP_HEADER_ACCESS_CONTROL_ALLOW_METHODS :: HttpHeaderCode where "HTTP_HEADER_ACCESS_CONTROL_ALLOW_METHODS \<equiv> 16"
abbreviation (input) HTTP_HEADER_CONTENT_LENGTH :: HttpHeaderCode where "HTTP_HEADER_CONTENT_LENGTH \<equiv> 31"
abbreviation (input) HTTP_HEADER_ALT_SVC :: HttpHeaderCode where "HTTP_HEADER_ALT_SVC \<equiv> 24"
abbreviation (input) HTTP_HEADER_ACCESS_CONTROL_ALLOW_ORIGIN :: HttpHeaderCode where "HTTP_HEADER_ACCESS_CONTROL_ALLOW_ORIGIN \<equiv> 17"
abbreviation (input) HTTP_HEADER_CONTENT_LOCATION :: HttpHeaderCode where "HTTP_HEADER_CONTENT_LOCATION \<equiv> 32"
abbreviation (input) HTTP_HEADER_AUTHORIZATION :: HttpHeaderCode where "HTTP_HEADER_AUTHORIZATION \<equiv> 25"
abbreviation (input) HTTP_HEADER_ACCESS_CONTROL_EXPOSE_HEADERS :: HttpHeaderCode where "HTTP_HEADER_ACCESS_CONTROL_EXPOSE_HEADERS \<equiv> 18"
abbreviation (input) HTTP_HEADER_CONTENT_MD5 :: HttpHeaderCode where "HTTP_HEADER_CONTENT_MD5 \<equiv> 33"
abbreviation (input) HTTP_HEADER_CACHE_CONTROL :: HttpHeaderCode where "HTTP_HEADER_CACHE_CONTROL \<equiv> 26"
abbreviation (input) HTTP_HEADER_ACCESS_CONTROL_MAX_AGE :: HttpHeaderCode where "HTTP_HEADER_ACCESS_CONTROL_MAX_AGE \<equiv> 19"
abbreviation (input) HTTP_HEADER_EXPIRES :: HttpHeaderCode where "HTTP_HEADER_EXPIRES \<equiv> 41"
abbreviation (input) HTTP_HEADER_CONTENT_RANGE :: HttpHeaderCode where "HTTP_HEADER_CONTENT_RANGE \<equiv> 34"
abbreviation (input) HTTP_HEADER_CONNECTION :: HttpHeaderCode where "HTTP_HEADER_CONNECTION \<equiv> 27"
abbreviation (input) HTTP_HEADER_ACCESS_CONTROL_REQUEST_HEADERS :: HttpHeaderCode where "HTTP_HEADER_ACCESS_CONTROL_REQUEST_HEADERS \<equiv> 20"
abbreviation (input) HTTP_HEADER_FROM :: HttpHeaderCode where "HTTP_HEADER_FROM \<equiv> 42"
abbreviation (input) HTTP_HEADER_CONTENT_TYPE :: HttpHeaderCode where "HTTP_HEADER_CONTENT_TYPE \<equiv> 35"
abbreviation (input) HTTP_HEADER_CONTENT_DISPOSITION :: HttpHeaderCode where "HTTP_HEADER_CONTENT_DISPOSITION \<equiv> 28"
abbreviation (input) HTTP_HEADER_FRONT_END_HTTPS :: HttpHeaderCode where "HTTP_HEADER_FRONT_END_HTTPS \<equiv> 43"
abbreviation (input) HTTP_HEADER_COOKIE :: HttpHeaderCode where "HTTP_HEADER_COOKIE \<equiv> 36"
abbreviation (input) HTTP_HEADER_CONTENT_ENCODING :: HttpHeaderCode where "HTTP_HEADER_CONTENT_ENCODING \<equiv> 29"
abbreviation (input) HTTP_HEADER_LAST_MODIFIED :: HttpHeaderCode where "HTTP_HEADER_LAST_MODIFIED \<equiv> 51"
abbreviation (input) HTTP_HEADER_HOST :: HttpHeaderCode where "HTTP_HEADER_HOST \<equiv> 44"
abbreviation (input) HTTP_HEADER_DNT :: HttpHeaderCode where "HTTP_HEADER_DNT \<equiv> 37"
abbreviation (input) HTTP_HEADER_CONTENT_LANGUAGE :: HttpHeaderCode where "HTTP_HEADER_CONTENT_LANGUAGE \<equiv> 30"
abbreviation (input) HTTP_HEADER_LINK :: HttpHeaderCode where "HTTP_HEADER_LINK \<equiv> 52"
abbreviation (input) HTTP_HEADER_IF_MATCH :: HttpHeaderCode where "HTTP_HEADER_IF_MATCH \<equiv> 45"
abbreviation (input) HTTP_HEADER_DATE :: HttpHeaderCode where "HTTP_HEADER_DATE \<equiv> 38"
abbreviation (input) HTTP_HEADER_LOCATION :: HttpHeaderCode where "HTTP_HEADER_LOCATION \<equiv> 53"
abbreviation (input) HTTP_HEADER_IF_MODIFIED_SINCE :: HttpHeaderCode where "HTTP_HEADER_IF_MODIFIED_SINCE \<equiv> 46"
abbreviation (input) HTTP_HEADER_ETAG :: HttpHeaderCode where "HTTP_HEADER_ETAG \<equiv> 39"
abbreviation (input) HTTP_HEADER_RANGE :: HttpHeaderCode where "HTTP_HEADER_RANGE \<equiv> 61"
abbreviation (input) HTTP_HEADER_MAX_FORWARDS :: HttpHeaderCode where "HTTP_HEADER_MAX_FORWARDS \<equiv> 54"
abbreviation (input) HTTP_HEADER_IF_NONE_MATCH :: HttpHeaderCode where "HTTP_HEADER_IF_NONE_MATCH \<equiv> 47"
abbreviation (input) HTTP_HEADER_EXPECT :: HttpHeaderCode where "HTTP_HEADER_EXPECT \<equiv> 40"
abbreviation (input) HTTP_HEADER_REFERER :: HttpHeaderCode where "HTTP_HEADER_REFERER \<equiv> 62"
abbreviation (input) HTTP_HEADER_ORIGIN :: HttpHeaderCode where "HTTP_HEADER_ORIGIN \<equiv> 55"
abbreviation (input) HTTP_HEADER_IF_RANGE :: HttpHeaderCode where "HTTP_HEADER_IF_RANGE \<equiv> 48"
abbreviation (input) HTTP_HEADER_REFRESH :: HttpHeaderCode where "HTTP_HEADER_REFRESH \<equiv> 63"
abbreviation (input) HTTP_HEADER_P3P :: HttpHeaderCode where "HTTP_HEADER_P3P \<equiv> 56"
abbreviation (input) HTTP_HEADER_IF_UNMODIFIED_SINCE :: HttpHeaderCode where "HTTP_HEADER_IF_UNMODIFIED_SINCE \<equiv> 49"
abbreviation (input) HTTP_HEADER_RETRY_AFTER :: HttpHeaderCode where "HTTP_HEADER_RETRY_AFTER \<equiv> 64"
abbreviation (input) HTTP_HEADER_PRAGMA :: HttpHeaderCode where "HTTP_HEADER_PRAGMA \<equiv> 57"
abbreviation (input) HTTP_HEADER_KEEP_ALIVE :: HttpHeaderCode where "HTTP_HEADER_KEEP_ALIVE \<equiv> 50"
abbreviation (input) HTTP_HEADER_TE :: HttpHeaderCode where "HTTP_HEADER_TE \<equiv> 71"
abbreviation (input) HTTP_HEADER_PROXY_AUTHENTICATE :: HttpHeaderCode where "HTTP_HEADER_PROXY_AUTHENTICATE \<equiv> 58"
abbreviation (input) HTTP_HEADER_TIMESTAMP :: HttpHeaderCode where "HTTP_HEADER_TIMESTAMP \<equiv> 72"
abbreviation (input) HTTP_HEADER_SEC_TOKEN_BINDING :: HttpHeaderCode where "HTTP_HEADER_SEC_TOKEN_BINDING \<equiv> 65"
abbreviation (input) HTTP_HEADER_PROXY_AUTHORIZATION :: HttpHeaderCode where "HTTP_HEADER_PROXY_AUTHORIZATION \<equiv> 59"
abbreviation (input) HTTP_HEADER_TRAILER :: HttpHeaderCode where "HTTP_HEADER_TRAILER \<equiv> 73"
abbreviation (input) HTTP_HEADER_SEC_WEBSOCKET_ACCEPT :: HttpHeaderCode where "HTTP_HEADER_SEC_WEBSOCKET_ACCEPT \<equiv> 66"
abbreviation (input) HTTP_HEADER_PROXY_CONNECTION :: HttpHeaderCode where "HTTP_HEADER_PROXY_CONNECTION \<equiv> 60"
abbreviation (input) HTTP_HEADER_WARNING :: HttpHeaderCode where "HTTP_HEADER_WARNING \<equiv> 81"
abbreviation (input) HTTP_HEADER_TRANSFER_ENCODING :: HttpHeaderCode where "HTTP_HEADER_TRANSFER_ENCODING \<equiv> 74"
abbreviation (input) HTTP_HEADER_SEC_WEBSOCKET_KEY :: HttpHeaderCode where "HTTP_HEADER_SEC_WEBSOCKET_KEY \<equiv> 67"
abbreviation (input) HTTP_HEADER_X_ACCEL_REDIRECT :: HttpHeaderCode where "HTTP_HEADER_X_ACCEL_REDIRECT \<equiv> 82"
abbreviation (input) HTTP_HEADER_UPGRADE :: HttpHeaderCode where "HTTP_HEADER_UPGRADE \<equiv> 75"
abbreviation (input) HTTP_HEADER_SERVER :: HttpHeaderCode where "HTTP_HEADER_SERVER \<equiv> 68"
abbreviation (input) HTTP_HEADER_X_CONTENT_SECURITY_POLICY_REPORT_ONLY :: HttpHeaderCode where "HTTP_HEADER_X_CONTENT_SECURITY_POLICY_REPORT_ONLY \<equiv> 83"
abbreviation (input) HTTP_HEADER_USER_AGENT :: HttpHeaderCode where "HTTP_HEADER_USER_AGENT \<equiv> 76"
abbreviation (input) HTTP_HEADER_SET_COOKIE :: HttpHeaderCode where "HTTP_HEADER_SET_COOKIE \<equiv> 69"
abbreviation (input) HTTP_HEADER_X_THRIFT_PROTOCOL :: HttpHeaderCode where "HTTP_HEADER_X_THRIFT_PROTOCOL \<equiv> 91"
abbreviation (input) HTTP_HEADER_X_CONTENT_TYPE_OPTIONS :: HttpHeaderCode where "HTTP_HEADER_X_CONTENT_TYPE_OPTIONS \<equiv> 84"
abbreviation (input) HTTP_HEADER_VIP :: HttpHeaderCode where "HTTP_HEADER_VIP \<equiv> 77"
abbreviation (input) HTTP_HEADER_STRICT_TRANSPORT_SECURITY :: HttpHeaderCode where "HTTP_HEADER_STRICT_TRANSPORT_SECURITY \<equiv> 70"
abbreviation (input) HTTP_HEADER_X_UA_COMPATIBLE :: HttpHeaderCode where "HTTP_HEADER_X_UA_COMPATIBLE \<equiv> 92"
abbreviation (input) HTTP_HEADER_X_FORWARDED_FOR :: HttpHeaderCode where "HTTP_HEADER_X_FORWARDED_FOR \<equiv> 85"
abbreviation (input) HTTP_HEADER_VARY :: HttpHeaderCode where "HTTP_HEADER_VARY \<equiv> 78"
abbreviation (input) HTTP_HEADER_X_WAP_PROFILE :: HttpHeaderCode where "HTTP_HEADER_X_WAP_PROFILE \<equiv> 93"
abbreviation (input) HTTP_HEADER_X_FORWARDED_PROTO :: HttpHeaderCode where "HTTP_HEADER_X_FORWARDED_PROTO \<equiv> 86"
abbreviation (input) HTTP_HEADER_VIA :: HttpHeaderCode where "HTTP_HEADER_VIA \<equiv> 79"
abbreviation (input) HTTP_HEADER_X_XSS_PROTECTION :: HttpHeaderCode where "HTTP_HEADER_X_XSS_PROTECTION \<equiv> 94"
abbreviation (input) HTTP_HEADER_X_FRAME_OPTIONS :: HttpHeaderCode where "HTTP_HEADER_X_FRAME_OPTIONS \<equiv> 87"
abbreviation (input) HTTP_HEADER_WWW_AUTHENTICATE :: HttpHeaderCode where "HTTP_HEADER_WWW_AUTHENTICATE \<equiv> 80"
abbreviation (input) HTTP_HEADER_X_POWERED_BY :: HttpHeaderCode where "HTTP_HEADER_X_POWERED_BY \<equiv> 88"
abbreviation (input) HTTP_HEADER_X_REAL_IP :: HttpHeaderCode where "HTTP_HEADER_X_REAL_IP \<equiv> 89"
abbreviation (input) HTTP_HEADER_X_REQUESTED_WITH :: HttpHeaderCode where "HTTP_HEADER_X_REQUESTED_WITH \<equiv> 90"

subsection \<open>The hash table\<close>

definition TOTAL_KEYWORDS :: nat where "TOTAL_KEYWORDS = 93"
definition MIN_WORD_LENGTH :: nat where "MIN_WORD_LENGTH = 2"
definition MAX_WORD_LENGTH :: nat where "MAX_WORD_LENGTH = 37"
definition MAX_HASH_VALUE :: nat where "MAX_HASH_VALUE = 148"

definition wordlist :: "(string \<times> HttpHeaderCode) list" where
  "wordlist = [
    (''P3P'', HTTP_HEADER_P3P),
    (''Host'', HTTP_HEADER_HOST),
    (''Allow'', HTTP_HEADER_ALLOW),
    (''Accept'', HTTP_HEADER_ACCEPT),
    (''Alt-Svc'', HTTP_HEADER_ALT_SVC),
    (''Expect'', HTTP_HEADER_EXPECT),
    (''Expires'', HTTP_HEADER_EXPIRES),
    (''Age'', HTTP_HEADER_AGE),
    (''Accept-Charset'', HTTP_HEADER_ACCEPT_CHARSET),
    (''Connection'', HTTP_HEADER_CONNECTION),
    (''Cookie'', HTTP_HEADER_COOKIE),
    (''Referer'', HTTP_HEADER_REFERER),
    (''Accept-Ranges'', HTTP_HEADER_ACCEPT_RANGES),
    (''Range'', HTTP_HEADER_RANGE),
    (''Content-Location'', HTTP_HEADER_CONTENT_LOCATION),
    (''Content-Type'', HTTP_HEADER_CONTENT_TYPE),
    (''Content-Range'', HTTP_HEADER_CONTENT_RANGE),
    (''Content-Disposition'', HTTP_HEADER_CONTENT_DISPOSITION),
    (''Keep-Alive'', HTTP_HEADER_KEEP_ALIVE),
    (''Content-Language'', HTTP_HEADER_CONTENT_LANGUAGE),
    (''Access-Control-Allow-Headers'', HTTP_HEADER_ACCESS_CONTROL_ALLOW_HEADERS),
    (''Access-Control-Expose-Headers'', HTTP_HEADER_ACCESS_CONTROL_EXPOSE_HEADERS),
    (''Access-Control-Request-Headers'', HTTP_HEADER_ACCESS_CONTROL_REQUEST_HEADERS),
    (''Server'', HTTP_HEADER_SERVER),
    (''Access-Control-Allow-Credentials'', HTTP_HEADER_ACCESS_CONTROL_ALLOW_CREDENTIALS),
    (''If-Range'', HTTP_HEADER_IF_RANGE),
    (''X-Real-IP'', HTTP_HEADER_X_REAL_IP),
    (''X-Frame-Options'', HTTP_HEADER_X_FRAME_OPTIONS),
    (''X-Accel-Redirect'', HTTP_HEADER_X_ACCEL_REDIRECT),
    (''Refresh'', HTTP_HEADER_REFRESH),
    (''VIP'', HTTP_HEADER_VIP),
    (''Content-Length'', HTTP_HEADER_CONTENT_LENGTH),
    (''Pragma'', HTTP_HEADER_PRAGMA),
    (''Access-Control-Max-Age'', HTTP_HEADER_ACCESS_CONTROL_MAX_AGE),
    (''If-None-Match'', HTTP_HEADER_IF_NONE_MATCH),
    (''ETag'', HTTP_HEADER_ETAG),
    (''X-Forwarded-For'', HTTP_HEADER_X_FORWARDED_FOR),
    (''X-XSS-Protection'', HTTP_HEADER_X_XSS_PROTECTION),
    (''X-Content-Type-Options'', HTTP_HEADER_X_CONTENT_TYPE_OPTIONS),
    (''X-Wap-Profile'', HTTP_HEADER_X_WAP_PROFILE),
    (''Proxy-Authorization'', HTTP_HEADER_PROXY_AUTHORIZATION),
    (''Set-Cookie'', HTTP_HEADER_SET_COOKIE),
    (''Content-Encoding'', HTTP_HEADER_CONTENT_ENCODING),
    (''TE'', HTTP_HEADER_TE),
    (''Proxy-Authenticate'', HTTP_HEADER_PROXY_AUTHENTICATE),
    (''Link'', HTTP_HEADER_LINK),
    (''Accept-Encoding'', HTTP_HEADER_ACCEPT_ENCODING),
    (''Content-MD5'', HTTP_HEADER_CONTENT_MD5),
    (''Trailer'', HTTP_HEADER_TRAILER),
    (''Location'', HTTP_HEADER_LOCATION),
    (''Date'', HTTP_HEADER_DATE),
    (''Sec-WebSocket-Accept'', HTTP_HEADER_SEC_WEBSOCKET_ACCEPT),
    (''X-Requested-With'', HTTP_HEADER_X_REQUESTED_WITH),
    ('':Status'', HTTP_HEADER_COLON_STATUS),
    (''If-Match'', HTTP_HEADER_IF_MATCH),
    (''Access-Control-Request-Method'', HTTP_HEADER_ACCESS_CONTROL_REQUEST_METHOD),
    (''Accept-Language'', HTTP_HEADER_ACCEPT_LANGUAGE),
    (''Proxy-Connection'', HTTP_HEADER_PROXY_CONNECTION),
    (''X-Thrift-Protocol'', HTTP_HEADER_X_THRIFT_PROTOCOL),
    (''Authorization'', HTTP_HEADER_AUTHORIZATION),
    (''If-Unmodified-Since'', HTTP_HEADER_IF_UNMODIFIED_SINCE),
    (''Accept-Datetime'', HTTP_HEADER_ACCEPT_DATETIME),
    ('':Scheme'', HTTP_HEADER_COLON_SCHEME),
    (''Via'', HTTP_HEADER_VIA),
    (''Vary'', HTTP_HEADER_VARY),
    (''X-UA-Compatible'', HTTP_HEADER_X_UA_COMPATIBLE),
    (''X-Powered-By'', HTTP_HEADER_X_POWERED_BY),
    (''Front-End-Https'', HTTP_HEADER_FRONT_END_HTTPS),
    (''Sec-Token-Binding'', HTTP_HEADER_SEC_TOKEN_BINDING),
    (''Timestamp'', HTTP_HEADER_TIMESTAMP),
    ('':Path'', HTTP_HEADER_COLON_PATH),
    (''X-Forwarded-Proto'', HTTP_HEADER_X_FORWARDED_PROTO),
    (''Cache-Control'', HTTP_HEADER_CACHE_CONTROL),
    (''Sec-WebSocket-Key'', HTTP_HEADER_SEC_WEBSOCKET_KEY),
    (''DNT'', HTTP_HEADER_DNT),
    (''From'', HTTP_HEADER_FROM),
    (''Retry-After'', HTTP_HEADER_RETRY_AFTER),
    ('':Method'', HTTP_HEADER_COLON_METHOD),
    ('':Authority'', HTTP_HEADER_COLON_AUTHORITY),
    (''Origin'', HTTP_HEADER_ORIGIN),
    (''Transfer-Encoding'', HTTP_HEADER_TRANSFER_ENCODING),
    (''If-Modified-Since'', HTTP_HEADER_IF_MODIFIED_SINCE),
    (''Warning'', HTTP_HEADER_WARNING),
    (''Upgrade'', HTTP_HEADER_UPGRADE),
    (''User-Agent'', HTTP_HEADER_USER_AGENT),
    (''WWW-Authenticate'', HTTP_HEADER_WWW_AUTHENTICATE),
    (''Access-Control-Allow-Origin'', HTTP_HEADER_ACCESS_CONTROL_ALLOW_ORIGIN),
    (''Last-Modified'', HTTP_HEADER_LAST_MODIFIED),
    (''X-Content-Security-Policy-Report-Only'', HTTP_HEADER_X_CONTENT_SECURITY_POLICY_REPORT_ONLY),
    (''Strict-Transport-Security'', HTTP_HEADER_STRICT_TRANSPORT_SECURITY),
    (''Max-Forwards'', HTTP_HEADER_MAX_FORWARDS),
    ('':Protocol'', HTTP_HEADER_COLON_PROTOCOL),
    (''Access-Control-Allow-Methods'', HTTP_HEADER_ACCESS_CONTROL_ALLOW_METHODS)]"

definition asso_values :: "nat list" where
  "asso_values = [
    149, 149, 149, 149, 149, 149, 149, 149, 149, 149, 149, 149, 149, 149, 149, 149,
    149, 149, 149, 149, 149, 149, 149, 149, 149, 149, 149, 149, 149, 149, 149, 149,
    149, 149, 149, 149, 149, 149, 149, 149, 149, 149, 149, 149, 149, 0, 149, 149,
    149, 149, 149, 149, 149, 45, 149, 149, 149, 149, 55, 149, 149, 149, 149, 149,
    149, 0, 149, 0, 45, 5, 60, 149, 0, 5, 149, 5, 40, 120, 149, 90,
    0, 149, 5, 20, 45, 100, 35, 70, 20, 149, 149, 149, 149, 149, 149, 149,
    149, 35, 149, 0, 35, 10, 75, 35, 25, 0, 149, 10, 30, 30, 5, 45,
    0, 149, 5, 0, 0, 25, 149, 0, 149, 35, 50, 149, 149, 149, 149, 149,
    149, 149, 149, 149, 149, 149, 149, 149, 149, 149, 149, 149, 149, 149, 149, 149,
    149, 149, 149, 149, 149, 149, 149, 149, 149, 149, 149, 149, 149, 149, 149, 149,
    149, 149, 149, 149, 149, 149, 149, 149, 149, 149, 149, 149, 149, 149, 149, 149,
    149, 149, 149, 149, 149, 149, 149, 149, 149, 149, 149, 149, 149, 149, 149, 149,
    149, 149, 149, 149, 149, 149, 149, 149, 149, 149, 149, 149, 149, 149, 149, 149,
    149, 149, 149, 149, 149, 149, 149, 149, 149, 149, 149, 149, 149, 149, 149, 149,
    149, 149, 149, 149, 149, 149, 149, 149, 149, 149, 149, 149, 149, 149, 149, 149,
    149, 149, 149, 149, 149, 149, 149, 149, 149, 149, 149, 149, 149, 149, 149, 149]"

definition asso :: "char \<Rightarrow> nat" where
  "asso c = asso_values ! of_char c"

text \<open>
  The \<open>switch\<close> of \<open>hash\<close> falls through: a length other than 1 to 21 adds the value of \<open>str[21]\<close>, one other than
  1 to 7 that of \<open>str[7]\<close>, and all of them that of \<open>str[0]\<close>.
\<close>

definition hash :: "bytes \<Rightarrow> nat \<Rightarrow> nat option" where
  "hash str len = do {
     let hval = u32 len;
     h1 \<leftarrow> (if 1 \<le> hval \<and> hval \<le> 21 then Some hval
            else do { c \<leftarrow> at str 21; Some (u32 (hval + asso c)) });
     h2 \<leftarrow> (if 1 \<le> hval \<and> hval \<le> 7 then Some h1
            else do { c \<leftarrow> at str 7; Some (u32 (h1 + asso c)) });
     c \<leftarrow> at str 0;
     let h3 = u32 (h2 + asso c);
     c \<leftarrow> at str (int (u64_sub len 1));
     Some (u32 (h3 + asso c))
   }"

definition lookup :: "int list" where
  "lookup = [
    - 1, - 1, - 1, 0, 1, 2, 3, 4, - 1, - 1, - 1, 5, 6, 7,
    8, 9, 10, 11, 12, - 1, 13, 14, 15, 16, 17, 18, 19, - 1,
    20, 21, 22, 23, 24, 25, 26, 27, 28, 29, 30, 31, - 1, 32,
    33, 34, 35, 36, 37, 38, 39, 40, 41, 42, 43, 44, 45, 46,
    47, 48, 49, 50, 51, 52, 53, 54, 55, 56, 57, 58, 59, 60,
    61, - 1, 62, 63, 64, 65, - 1, 66, - 1, - 1, 67, - 1, 68, - 1,
    69, 70, - 1, 71, 72, - 1, - 1, - 1, 73, 74, 75, - 1, 76, 77,
    - 1, - 1, 78, 79, 80, - 1, - 1, - 1, - 1, 81, - 1, - 1, - 1, - 1,
    82, - 1, - 1, - 1, - 1, 83, - 1, - 1, 84, 85, 86, 87, - 1, - 1,
    - 1, 88, - 1, - 1, 89, - 1, 90, - 1, - 1, - 1, - 1, - 1, - 1, 91,
    - 1, - 1, - 1, - 1, - 1, - 1, - 1, - 1, 92]"

text \<open>The inner \<open>None\<close> is the null pointer; a result is the entry of \<open>wordlist\<close>.\<close>

definition isValidHttpHeader :: "bytes \<Rightarrow> nat \<Rightarrow> (string \<times> HttpHeaderCode) option option" where
  "isValidHttpHeader str len =
     (if len \<le> MAX_WORD_LENGTH \<and> len \<ge> MIN_WORD_LENGTH then do {
        key \<leftarrow> hash str len;
        if key \<le> MAX_HASH_VALUE then do {
          index \<leftarrow> at lookup (int key);
          if index \<ge> 0 then do {
            w \<leftarrow> at wordlist index;
            let s = cstr (fst w);
            c \<leftarrow> at str 0;
            d \<leftarrow> at s 0;
            if c = d then do {
              cmp \<leftarrow> strcmp (drop 1 str) (drop 1 s);
              Some (if cmp = 0 then Some w else None)
            } else Some None
          } else Some None
        } else Some None
      } else Some None)"

subsection \<open>HttpCommomHeaders\<close>

text \<open>
  \<open>std::string header_name = headerName\<close> copies up to the NUL; \<open>header_name[0]\<close> of an empty string is its
  terminator, which \<open>toupper\<close> leaves alone.
\<close>

definition upper_first :: "bytes \<Rightarrow> bytes" where
  "upper_first s = (case s of [] \<Rightarrow> [] | c # cs \<Rightarrow> toupper c # cs)"

definition getHeaderCode :: "bytes \<Rightarrow> nat \<Rightarrow> HttpHeaderCode option" where
  "getHeaderCode headerName len = do {
     header \<leftarrow> isValidHttpHeader headerName len;
     header \<leftarrow> (case header of
         Some w \<Rightarrow> Some (Some w)
       | None \<Rightarrow>
           if NUL \<notin> set headerName then None
           else isValidHttpHeader (cstr (upper_first (takeWhile (\<lambda>c. c \<noteq> NUL) headerName))) len);
     Some (case header of None \<Rightarrow> HTTP_HEADER_OTHER | Some w \<Rightarrow> snd w)
   }"

definition getHeaderCode_string :: "bytes \<Rightarrow> HttpHeaderCode option" where
  "getHeaderCode_string headerName = getHeaderCode (cstr headerName) (length headerName)"

text \<open>The table of names by code; an entry that is not set is a null pointer. The \<open>assert\<close> bounds the code.\<close>

fun init_loop :: "(string \<times> HttpHeaderCode) list \<Rightarrow> string option list \<Rightarrow> string option list option" where
  "init_loop [] headerTable = Some headerTable"
| "init_loop ((n, codeIndex) # ws) headerTable =
     (if codeIndex < TOTAL_KEYWORDS + 2 then init_loop ws (headerTable[codeIndex := Some n]) else None)"

definition initHeaderTable :: "string option list option" where
  "initHeaderTable =
     init_loop wordlist ((replicate (TOTAL_KEYWORDS + 2) None)[0 := Some [], 1 := Some []])"

definition getPointerWithHeaderCode :: "HttpHeaderCode \<Rightarrow> string option" where
  "getPointerWithHeaderCode code = do {
     headerTable \<leftarrow> initHeaderTable;
     s \<leftarrow> at headerTable (int code);
     s
   }"

subsection \<open>Evaluation of the tables\<close>

lemma asso_simps:
  "asso (CHR ''-'') = 0"
  "asso (CHR ''5'') = 45"
  "asso (CHR '':'') = 55"
  "asso (CHR ''A'') = 0"
  "asso (CHR ''C'') = 0"
  "asso (CHR ''D'') = 45"
  "asso (CHR ''E'') = 5"
  "asso (CHR ''F'') = 60"
  "asso (CHR ''H'') = 0"
  "asso (CHR ''I'') = 5"
  "asso (CHR ''K'') = 5"
  "asso (CHR ''L'') = 40"
  "asso (CHR ''M'') = 120"
  "asso (CHR ''O'') = 90"
  "asso (CHR ''P'') = 0"
  "asso (CHR ''R'') = 5"
  "asso (CHR ''S'') = 20"
  "asso (CHR ''T'') = 45"
  "asso (CHR ''U'') = 100"
  "asso (CHR ''V'') = 35"
  "asso (CHR ''W'') = 70"
  "asso (CHR ''X'') = 20"
  "asso (CHR ''a'') = 35"
  "asso (CHR ''c'') = 0"
  "asso (CHR ''d'') = 35"
  "asso (CHR ''e'') = 10"
  "asso (CHR ''f'') = 75"
  "asso (CHR ''g'') = 35"
  "asso (CHR ''h'') = 25"
  "asso (CHR ''i'') = 0"
  "asso (CHR ''k'') = 10"
  "asso (CHR ''l'') = 30"
  "asso (CHR ''m'') = 30"
  "asso (CHR ''n'') = 5"
  "asso (CHR ''o'') = 45"
  "asso (CHR ''p'') = 0"
  "asso (CHR ''r'') = 5"
  "asso (CHR ''s'') = 0"
  "asso (CHR ''t'') = 0"
  "asso (CHR ''u'') = 25"
  "asso (CHR ''w'') = 0"
  "asso (CHR ''y'') = 35"
  "asso (CHR ''z'') = 50"
  by (simp_all add: asso_def asso_values_def)

text \<open>The hash value of a C string of the right length, as a function of its characters.\<close>

definition hash_of :: "string \<Rightarrow> nat" where
  "hash_of s = length s + (if length s > 21 then asso (s ! 21) else 0) +
     (if length s > 7 then asso (s ! 7) else 0) + asso (s ! 0) + asso (s ! (length s - 1))"

lemma word_keys: "map (\<lambda>w. hash_of (fst w)) wordlist =
      [3, 4, 5, 6, 7, 11, 12, 13, 14, 15, 16, 17, 18, 20, 21, 22, 23, 24, 25, 26,
       28, 29, 30, 31, 32, 33, 34, 35, 36, 37, 38, 39, 41, 42, 43, 44, 45, 46, 47, 48,
       49, 50, 51, 52, 53, 54, 55, 56, 57, 58, 59, 60, 61, 62, 63, 64, 65, 66, 67, 68,
       69, 70, 72, 73, 74, 75, 77, 80, 82, 84, 85, 87, 88, 92, 93, 94, 96, 97, 100, 101,
       102, 107, 112, 117, 120, 121, 122, 123, 127, 130, 132, 139, 148]"
  by (simp add: wordlist_def hash_of_def asso_simps)

lemma lookup_keys:
  "filter (\<lambda>(k, i). 0 \<le> i) (zip [0..<149] lookup) =
     zip [3, 4, 5, 6, 7, 11, 12, 13, 14, 15, 16, 17, 18, 20, 21, 22, 23, 24, 25, 26,
       28, 29, 30, 31, 32, 33, 34, 35, 36, 37, 38, 39, 41, 42, 43, 44, 45, 46, 47, 48,
       49, 50, 51, 52, 53, 54, 55, 56, 57, 58, 59, 60, 61, 62, 63, 64, 65, 66, 67, 68,
       69, 70, 72, 73, 74, 75, 77, 80, 82, 84, 85, 87, 88, 92, 93, 94, 96, 97, 100, 101,
       102, 107, 112, 117, 120, 121, 122, 123, 127, 130, 132, 139, 148]
       (map int [0..<93])"
  by (simp add: lookup_def upt_conv_Cons)

lemma asso_values_bounded: "list_all (\<lambda>n. n \<le> 149) asso_values" "length asso_values = 256"
  by (simp_all add: asso_values_def)

lemma lookup_length: "length lookup = 149" "list_all (\<lambda>i. i < 93) lookup"
  by (simp_all add: lookup_def)

lemma wordlist_length: "length wordlist = 93"
  by (simp add: wordlist_def)

lemma wordlist_words:
  "list_all (\<lambda>(n, c). 2 \<le> length n \<and> length n \<le> 37 \<and> NUL \<notin> set n \<and> 2 \<le> c \<and> c < 95) wordlist"
  by (simp add: wordlist_def)

subsection \<open>The hash table is perfect\<close>

text \<open>The position of a word in the list is the value of \<open>lookup\<close> at its hash value.\<close>

lemma lookup_word:
  assumes "i < 93"
  shows "hash_of (fst (wordlist ! i)) < 149 \<and> lookup ! hash_of (fst (wordlist ! i)) = int i"
proof -
  define ks where "ks = map (\<lambda>w. hash_of (fst w)) wordlist"
  have len: "length ks = 93" by (simp add: ks_def wordlist_length)
  have "filter (\<lambda>(k, i). 0 \<le> i) (zip [0..<149] lookup) = zip ks (map int [0..<93])"
    unfolding ks_def word_keys by (rule lookup_keys)
  moreover have "(ks ! i, int i) \<in> set (zip ks (map int [0..<93]))"
    using assms len by (auto simp: set_zip intro!: exI [of _ i])
  ultimately have "(ks ! i, int i) \<in> set (zip [0..<149] lookup)"
    by (metis (no_types, lifting) filter_is_subset subsetD)
  then obtain j where "j < 149" and "ks ! i = j" and "lookup ! j = int i"
    by (auto simp: set_zip lookup_length)
  moreover have "ks ! i = hash_of (fst (wordlist ! i))"
    using assms by (simp add: ks_def wordlist_length)
  ultimately show ?thesis by simp
qed

lemma wordlist_nth:
  assumes "i < 93"
  shows "2 \<le> length (fst (wordlist ! i)) \<and> length (fst (wordlist ! i)) \<le> 37 \<and>
    NUL \<notin> set (fst (wordlist ! i)) \<and> 2 \<le> snd (wordlist ! i) \<and> snd (wordlist ! i) < 95"
  using wordlist_words assms by (auto simp: list_all_length wordlist_length split_beta)

lemma wordlist_distinct: "distinct (map fst wordlist)"
proof -
  have "i = j" if "i < 93" "j < 93" "fst (wordlist ! i) = fst (wordlist ! j)" for i j
  proof -
    have "int i = lookup ! hash_of (fst (wordlist ! i))" using lookup_word [OF that(1)] by simp
    also have "\<dots> = lookup ! hash_of (fst (wordlist ! j))" by (simp only: that(3))
    also have "\<dots> = int j" using lookup_word [OF that(2)] by simp
    finally show ?thesis by simp
  qed
  then have "map fst wordlist ! i \<noteq> map fst wordlist ! j" if "i < 93" "j < 93" "i \<noteq> j" for i j
    using that by (simp add: wordlist_length) blast
  then show ?thesis unfolding distinct_conv_nth length_map wordlist_length by blast
qed

lemma asso_less: "asso c \<le> 149"
  using asso_values_bounded of_char_less_256 [of c] by (simp add: asso_def list_all_length)

lemma hash_cstr:
  assumes "2 \<le> length name" and "length name \<le> 37"
  shows "hash (cstr name) (length name) = Some (hash_of name)"
proof -
  have a: "at (cstr name) (int i) = Some (name ! i)" if "i < length name" for i
    using that by (simp add: at_def cstr_def nth_append)
  have "name \<noteq> []" using assms by auto
  then have "at (cstr name) 0 = Some (name ! 0)" using a [of 0] by simp
  moreover have "length name > 7 \<Longrightarrow> at (cstr name) 7 = Some (name ! 7)" using a [of 7] by simp
  moreover have "length name > 21 \<Longrightarrow> at (cstr name) 21 = Some (name ! 21)" using a [of 21] by simp
  moreover have "at (cstr name) (int (u64_sub (length name) 1)) = Some (name ! (length name - 1))"
    using a [of "length name - 1"] assms by (simp add: uint_simps)
  moreover note asso_less [of "name ! 0"] asso_less [of "name ! 7"] asso_less [of "name ! 21"]
    asso_less [of "name ! (length name - 1)"]
  ultimately show ?thesis
    using assms by (cases "length name > 21"; cases "length name > 7")
      (simp_all add: hash_def hash_of_def Let_def uint_simps)
qed

text \<open>For a C string of any length the hash table answers like a search through the words.\<close>

lemma isValidHttpHeader_cstr:
  assumes "NUL \<notin> set name"
  shows "isValidHttpHeader (cstr name) (length name) =
    Some (map_option (Pair name) (map_of wordlist name))"
proof (cases "2 \<le> length name \<and> length name \<le> 37")
  case False
  then have "map_of wordlist name = None"
    using wordlist_nth by (force simp: map_of_eq_None_iff in_set_conv_nth wordlist_length)
  with False show ?thesis by (auto simp: isValidHttpHeader_def MAX_WORD_LENGTH_def MIN_WORD_LENGTH_def)
next
  case True
  define key where "key = hash_of name"
  have word: "key < 149 \<and> lookup ! key = int i" if "i < 93" "fst (wordlist ! i) = name" for i
    using lookup_word [OF that(1)] that(2) by (simp add: key_def)
  show ?thesis
  proof (cases "key < 149 \<and> 0 \<le> lookup ! key")
    case False
    then have "map_of wordlist name = None"
      using word by (force simp: map_of_eq_None_iff in_set_conv_nth wordlist_length)
    moreover have "key \<le> 148 \<Longrightarrow> at lookup (int key) = Some (lookup ! key)"
      by (simp add: at_def lookup_length)
    ultimately show ?thesis using True False hash_cstr [of name]
      by (auto simp: isValidHttpHeader_def MAX_WORD_LENGTH_def MIN_WORD_LENGTH_def MAX_HASH_VALUE_def
          key_def [symmetric])
  next
    case hit: True
    define i where "i = nat (lookup ! key)"
    have i: "i < 93" "lookup ! key = int i" "at lookup (int key) = Some (int i)"
      using hit lookup_length by (auto simp: i_def at_def list_all_length)
    obtain n c where w: "wordlist ! i = (n, c)" by (cases "wordlist ! i")
    have n: "2 \<le> length n" "NUL \<notin> set n" using wordlist_nth [OF i(1)] w by simp_all
    obtain x xs y ys where xy: "name = x # xs" "n = y # ys"
      using True n by (cases name; cases n) auto
    obtain cmp where cmp: "strcmp (cstr xs) (cstr ys) = Some cmp" "cmp = 0 \<longleftrightarrow> xs = ys"
      using strcmp_cstr [of xs ys] assms n xy by auto
    have "map_of wordlist name = (if name = n then Some c else None)"
    proof (cases "name = n")
      case True
      then show ?thesis
        using i(1) w by (auto intro!: map_of_is_SomeI wordlist_distinct simp: in_set_conv_nth wordlist_length)
    next
      case False
      have "fst (wordlist ! j) \<noteq> name" if "j < 93" for j
        using word [OF that] i w False by auto
      then have "name \<notin> set (map fst wordlist)"
        by (force simp: in_set_conv_nth wordlist_length)
      then show ?thesis using False by (simp add: map_of_eq_None_iff)
    qed
    moreover have "at wordlist (int i) = Some (n, c)"
      using i(1) w by (simp add: at_def wordlist_length)
    moreover have "at (cstr name) 0 = Some x" "at (cstr n) 0 = Some y"
      "drop 1 (cstr name) = cstr xs" "drop 1 (cstr n) = cstr ys"
      by (simp_all add: xy cstr_def at_def)
    moreover have "hash (cstr name) (length name) = Some key"
      using hash_cstr [of name] True by (simp add: key_def)
    moreover have "name = n \<longleftrightarrow> x = y \<and> xs = ys" by (simp add: xy)
    ultimately show ?thesis using True hit i(3) cmp
      by (auto simp add: isValidHttpHeader_def MAX_WORD_LENGTH_def MIN_WORD_LENGTH_def MAX_HASH_VALUE_def)
  qed
qed

lemma upper_first_no_nul: "NUL \<notin> set s \<Longrightarrow> NUL \<notin> set (upper_first s)"
proof (cases s)
  case (Cons c cs)
  moreover assume "NUL \<notin> set s"
  ultimately show ?thesis using toupper_no_nul [of c] by (simp add: upper_first_def) metis
qed (simp add: upper_first_def)

lemma length_upper_first [simp]: "length (upper_first s) = length s"
  by (cases s) (simp_all add: upper_first_def)

text \<open>What \<open>getHeaderCode\<close> promises: the code of the name, or of the name with its first letter in upper case.\<close>

definition header_code :: "string \<Rightarrow> HttpHeaderCode" where
  "header_code name =
     (case map_of wordlist name of
        Some c \<Rightarrow> c
      | None \<Rightarrow> (case map_of wordlist (upper_first name) of Some c \<Rightarrow> c | None \<Rightarrow> HTTP_HEADER_OTHER))"

lemma getHeaderCode_law:
  assumes "NUL \<notin> set name"
  shows "getHeaderCode_string name = Some (header_code name)"
proof -
  have "takeWhile (\<lambda>c. c \<noteq> NUL) (cstr name) = name"
    using assms by (auto simp: cstr_def takeWhile_append)
  moreover have "NUL \<in> set (cstr name)" by (simp add: cstr_def)
  moreover note isValidHttpHeader_cstr [OF assms]
    isValidHttpHeader_cstr [OF upper_first_no_nul [OF assms]]
  ultimately show ?thesis
    by (simp add: getHeaderCode_string_def getHeaderCode_def header_code_def split: option.splits)
qed

lemma header_code_range: "1 \<le> header_code name \<and> header_code name < 95"
proof -
  have "2 \<le> c \<and> c < 95" if "map_of wordlist n = Some c" for n c
    using map_of_SomeD [OF that] wordlist_words by (auto simp: list_all_iff)
  then show ?thesis by (fastforce simp: header_code_def split: option.splits)
qed

text \<open>The table of names: every code has its name.\<close>

lemma wordlist_codes: "sort (map snd wordlist) = [2..<95]"
  by (simp add: wordlist_def upt_conv_Cons)

lemma init_loop_fold:
  "list_all (\<lambda>w. snd w < 95) ws \<Longrightarrow>
     init_loop ws t = Some (fold (\<lambda>w t. t[snd w := Some (fst w)]) ws t)"
  by (induction ws t rule: init_loop.induct) (auto simp: TOTAL_KEYWORDS_def)

lemma fold_update_nth:
  assumes "distinct (map snd ws)" and "list_all (\<lambda>w. snd w < length t) ws" and "i < length t"
  shows "fold (\<lambda>w t. t[snd w := Some (fst w)]) ws t ! i =
    (case map_of (map (\<lambda>w. (snd w, fst w)) ws) i of Some n \<Rightarrow> Some n | None \<Rightarrow> t ! i)"
  using assms
proof (induction ws arbitrary: t)
  case (Cons w ws)
  have "map_of (map (\<lambda>w. (snd w, fst w)) ws) (snd w) = None"
    using Cons.prems(1) by (simp add: map_of_eq_None_iff image_image)
  then show ?case using Cons by (auto simp: nth_list_update split: option.splits)
qed simp

lemma codes_distinct: "distinct (map snd wordlist)"
  using wordlist_codes by (metis distinct_sort distinct_upt)

text \<open>The name of a code: empty for the two codes that stand for no common header.\<close>

definition header_name :: "HttpHeaderCode \<Rightarrow> string" where
  "header_name c = (if c < 2 then [] else the (map_of (map (\<lambda>w. (snd w, fst w)) wordlist) c))"

lemma header_table: "initHeaderTable = Some t \<Longrightarrow> length t = 95 \<and> (\<forall>i < 95. t ! i = Some (header_name i))"
  "\<exists>t. initHeaderTable = Some t"
proof -
  define t0 :: "string option list" where
    "t0 = (replicate (TOTAL_KEYWORDS + 2) None)[0 := Some [], 1 := Some []]"
  define u where "u = fold (\<lambda>w t. t[snd w := Some (fst w)]) wordlist t0"
  have small: "list_all (\<lambda>w. snd w < 95) wordlist"
    using wordlist_words by (auto simp: list_all_iff)
  have len0: "length t0 = 95" by (simp add: t0_def TOTAL_KEYWORDS_def)
  have init: "initHeaderTable = Some u"
    using init_loop_fold [OF small] by (simp add: initHeaderTable_def u_def t0_def)
  have "length (fold (\<lambda>w t. t[snd w := Some (fst w)]) ws v) = length v" for ws and v :: "string option list"
    by (induction ws arbitrary: v) auto
  with len0 have len: "length u = 95" by (simp only: u_def)
  have codes: "snd ` set wordlist = {2..<95}"
    using wordlist_codes by (metis atLeastLessThan_upt list.set_map set_sort)
  have img: "fst ` set (map (\<lambda>w. (snd w, fst w)) wordlist) = snd ` set wordlist"
    by (simp add: image_image)
  have "u ! i = Some (header_name i)" if "i < 95" for i
  proof (cases "i < 2")
    case True
    then have "map_of (map (\<lambda>w. (snd w, fst w)) wordlist) i = None"
      unfolding map_of_eq_None_iff img codes by simp
    moreover have "t0 ! i = Some []" using True by (auto simp: t0_def TOTAL_KEYWORDS_def nth_list_update less_2_cases_iff)
    ultimately show ?thesis
      using fold_update_nth [OF codes_distinct, of t0 i] small len0 that True by (simp add: u_def header_name_def)
  next
    case False
    then have "map_of (map (\<lambda>w. (snd w, fst w)) wordlist) i \<noteq> None"
      unfolding map_of_eq_None_iff img codes using that by simp
    then show ?thesis
      using fold_update_nth [OF codes_distinct, of t0 i] small len0 that False
      by (auto simp: u_def header_name_def)
  qed
  then have "length u = 95 \<and> (\<forall>i < 95. u ! i = Some (header_name i))" using len by blast
  moreover have "t = u" if "initHeaderTable = Some t" using that unfolding init by (rule option.inject [THEN iffD1, symmetric])
  ultimately show "initHeaderTable = Some t \<Longrightarrow> length t = 95 \<and> (\<forall>i < 95. t ! i = Some (header_name i))"
    by blast
  show "\<exists>t. initHeaderTable = Some t" using init by blast
qed

lemma getPointer_law: "c < 95 \<Longrightarrow> getPointerWithHeaderCode c = Some (header_name c)"
proof -
  assume c: "c < 95"
  obtain t where t: "initHeaderTable = Some t" using header_table(2) by blast
  show ?thesis unfolding getPointerWithHeaderCode_def t using header_table(1) [OF t] c by (simp add: at_def)
qed

lemma header_name_word:
  assumes "(n, c) \<in> set wordlist"
  shows "header_name c = n" and "2 \<le> c" and "c < 95"
proof -
  show c: "2 \<le> c" "c < 95" using wordlist_words assms by (auto simp: list_all_iff)
  have "map_of (map (\<lambda>w. (snd w, fst w)) wordlist) c = Some n"
    using assms codes_distinct by (intro map_of_is_SomeI) (force simp: comp_def)+
  with c show "header_name c = n" by (simp add: header_name_def)
qed

lemma header_name_no_nul: "c < 95 \<Longrightarrow> NUL \<notin> set (header_name c)"
proof (cases "c < 2")
  case False
  assume "c < 95"
  with False have "c \<in> set (sort (map snd wordlist))" unfolding wordlist_codes set_upt by simp
  then obtain n where "(n, c) \<in> set wordlist" by force
  with header_name_word [OF this] wordlist_words show ?thesis by (auto simp: list_all_iff)
qed (simp add: header_name_def)

lemma header_name_length: "c < 95 \<Longrightarrow> length (header_name c) \<le> 37"
proof (cases "c < 2")
  case False
  assume "c < 95"
  with False have "c \<in> set (sort (map snd wordlist))" unfolding wordlist_codes set_upt by simp
  then obtain n where "(n, c) \<in> set wordlist" by force
  with header_name_word [OF this] wordlist_words show ?thesis by (auto simp: list_all_iff)
qed (simp add: header_name_def)

text \<open>
  C39. The table of common headers. For every C string the perfect hash finds exactly what a search through
  the list of words finds, without a read outside of the string or the tables: \<open>getHeaderCode\<close> answers the code
  of the name, failing that the code of the name with its first letter in upper case, failing that
  \<open>HTTP_HEADER_OTHER\<close>. For every one of the words \<open>getPointerWithHeaderCode\<close> leads back to the word.
\<close>

theorem header_codes_correct:
  assumes "NUL \<notin> set name"
  shows "isValidHttpHeader (cstr name) (length name) = Some (map_option (Pair name) (map_of wordlist name)) \<and>
    getHeaderCode_string name = Some (header_code name) \<and>
    (\<forall>c. (name, c) \<in> set wordlist \<longrightarrow>
       getHeaderCode_string name = Some c \<and> getPointerWithHeaderCode c = Some name)"
proof (intro conjI allI impI)
  show "isValidHttpHeader (cstr name) (length name) = Some (map_option (Pair name) (map_of wordlist name))"
    by (rule isValidHttpHeader_cstr [OF assms])
  show code: "getHeaderCode_string name = Some (header_code name)"
    by (rule getHeaderCode_law [OF assms])
  fix c assume w: "(name, c) \<in> set wordlist"
  then have "map_of wordlist name = Some c" by (simp add: wordlist_distinct)
  with code show "getHeaderCode_string name = Some c" by (simp add: header_code_def)
  show "getPointerWithHeaderCode c = Some name"
    using getPointer_law header_name_word [OF w] by simp
qed

theorem header_codes_correct_witness:
  "getHeaderCode_string ''Host'' = Some HTTP_HEADER_HOST \<and> getPointerWithHeaderCode HTTP_HEADER_HOST = Some ''Host''"
proof -
  have "(''Host'', HTTP_HEADER_HOST) \<in> set wordlist" by (simp add: wordlist_def)
  moreover have "NUL \<notin> set ''Host''" by simp
  ultimately show ?thesis using header_codes_correct [of "''Host''"] by blast
qed

text \<open>
  The comparison runs to the end of the C string and not to the given length, so that the name of a header that
  is a piece of a longer text is not recognised.
\<close>

lemma piece_of_text_not_recognised:
  "getHeaderCode (cstr ''Host: a'') 4 = Some HTTP_HEADER_OTHER"
proof -
  have "hash (cstr ''Host: a'') 4 = Some (hash_of ''Host'')"
    by (simp add: hash_def hash_of_def at_def cstr_def asso_simps uint_simps Let_def)
  moreover have "hash_of ''Host'' = 4" by (simp add: hash_of_def asso_simps)
  moreover have "at lookup 4 = Some 1" "at wordlist 1 = Some (''Host'', HTTP_HEADER_HOST)"
    by (simp_all add: at_def lookup_def wordlist_def)
  moreover have "at (cstr ''Host: a'') 0 = Some (CHR ''H'')" "at (cstr ''Host'') 0 = Some (CHR ''H'')"
    "strcmp (drop 1 (cstr ''Host: a'')) (drop 1 (cstr ''Host'')) = Some 1"
    by (simp_all add: at_def cstr_def sgn_if)
  ultimately have "isValidHttpHeader (cstr ''Host: a'') 4 = Some None"
    by (simp add: isValidHttpHeader_def MAX_WORD_LENGTH_def MIN_WORD_LENGTH_def MAX_HASH_VALUE_def)
  then show ?thesis by (simp add: getHeaderCode_def cstr_def upper_first_def toupper_def)
qed

end
