(* ===== verification/Op_Refinement.thy ===== *)
theory Op_Refinement
  imports Unp_Prelude
begin

text \<open>
  Functional refinement of a component by its operations, as a locale: \<open>step\<close> runs one operation of the detailed
  model (\<open>None\<close> is undefined behaviour), \<open>spec\<close> runs it on the abstract value and gives the answer. The invariant
  has a budget, the number of operations that it still allows, for components whose counters have a fixed width.
  The laws are about one operation; the lemmas of the locale carry them over to any sequence of operations.
\<close>

primrec run_ops :: "('op \<Rightarrow> 's \<Rightarrow> ('s \<times> 'out) option) \<Rightarrow> 'op list \<Rightarrow> 's \<Rightarrow> ('s \<times> 'out list) option" where
  "run_ops step [] s = Some (s, [])"
| "run_ops step (a # as) s = do { (s1, x) \<leftarrow> step a s; (s2, xs) \<leftarrow> run_ops step as s1; Some (s2, x # xs) }"

primrec run_spec :: "('op \<Rightarrow> 'a \<Rightarrow> 'a \<times> 'out) \<Rightarrow> 'op list \<Rightarrow> 'a \<Rightarrow> 'a \<times> 'out list" where
  "run_spec spec [] v = (v, [])"
| "run_spec spec (a # as) v =
     (fst (run_spec spec as (fst (spec a v))), snd (spec a v) # snd (run_spec spec as (fst (spec a v))))"

locale op_refinement =
  fixes step :: "'op \<Rightarrow> 's \<Rightarrow> ('s \<times> 'out) option"
    and spec :: "'op \<Rightarrow> 'a \<Rightarrow> 'a \<times> 'out"
    and inv :: "nat \<Rightarrow> 's \<Rightarrow> bool"
    and abs :: "'s \<Rightarrow> 'a"
    and op_ok :: "'op \<Rightarrow> bool"
  assumes simulates: "inv (Suc k) s \<Longrightarrow> op_ok a \<Longrightarrow>
    \<exists>s'. step a s = Some (s', snd (spec a (abs s))) \<and> inv k s' \<and> abs s' = fst (spec a (abs s))"
begin

lemma run_refines:
  "inv (length as + k) s \<Longrightarrow> list_all op_ok as \<Longrightarrow>
     \<exists>s'. run_ops step as s = Some (s', snd (run_spec spec as (abs s))) \<and> inv k s' \<and> abs s' = fst (run_spec spec as (abs s))"
proof (induction as arbitrary: s)
  case (Cons a as)
  then obtain s1 where s1: "step a s = Some (s1, snd (spec a (abs s)))" "inv (length as + k) s1"
    "abs s1 = fst (spec a (abs s))"
    using simulates [of "length as + k" s a] by auto
  with Cons.IH [OF s1(2)] Cons.prems(2) show ?case by (auto simp: split_def)
qed simp

end

end
