(* ===== verification/Http_Headers.thy ===== *)
theory Http_Headers
  imports Http_Header_Code Op_Refinement
begin

text \<open>
  \<open>HttpHeaders\<close> of \<open>src/http/HttpHeaders.h\<close> and \<open>.cpp\<close>: three vectors side by side with the codes, the names and
  the values of the headers. The name of a common header points into the table of names, any other name is a
  block of its own that the object has to free. Removing a header only sets its code to \<open>HTTP_HEADER_NONE\<close>.
  The blocks are kept in an explicit heap, so that ownership, double frees and dangling names can be stated.
\<close>

subsection \<open>The heap of names\<close>

record heap =
  live :: "addr \<rightharpoonup> bytes"
  fresh :: addr

definition heap_alloc :: "bytes \<Rightarrow> heap \<Rightarrow> addr \<times> heap" where
  "heap_alloc d hp = (fresh hp, hp\<lparr>live := (live hp)(fresh hp \<mapsto> d), fresh := Suc (fresh hp)\<rparr>)"

text \<open>\<open>free\<close> of a block that is not allocated is undefined.\<close>

definition heap_free :: "addr \<Rightarrow> heap \<Rightarrow> heap option" where
  "heap_free a hp = (if a \<in> dom (live hp) then Some (hp\<lparr>live := (live hp)(a := None)\<rparr>) else None)"

definition heap_ok :: "heap \<Rightarrow> bool" where
  "heap_ok hp \<longleftrightarrow> (\<forall>a \<in> dom (live hp). a < fresh hp)"

datatype name_ptr = Common HttpHeaderCode | Heap addr | NullName

definition deref_name :: "heap \<Rightarrow> name_ptr \<Rightarrow> bytes option" where
  "deref_name hp p = (case p of
      Common c \<Rightarrow> map_option cstr (getPointerWithHeaderCode c)
    | Heap a \<Rightarrow> live hp a
    | NullName \<Rightarrow> None)"

definition free_name :: "name_ptr \<Rightarrow> heap \<Rightarrow> heap option" where
  "free_name p hp = (case p of Common c \<Rightarrow> None | Heap a \<Rightarrow> heap_free a hp | NullName \<Rightarrow> Some hp)"

subsection \<open>The object\<close>

record HttpHeaders =
  codes :: "HttpHeaderCode list"
  headerNames :: "name_ptr list"
  headerValues :: "string list"
  codes_deleted :: nat

definition new_headers :: HttpHeaders where
  "new_headers = \<lparr>codes = [], headerNames = [], headerValues = [], codes_deleted = 0\<rparr>"

definition headers_size :: "HttpHeaders \<Rightarrow> nat" where
  "headers_size h = u64_sub (length (codes h)) (codes_deleted h)"

text \<open>\<open>operator[]\<close>: the value at the first position with the code, or null.\<close>

definition header_at :: "HttpHeaders \<Rightarrow> HttpHeaderCode \<Rightarrow> string option option" where
  "header_at h code =
     (let i = length (takeWhile (\<lambda>c. c \<noteq> code) (codes h)) in
      if i = length (codes h) then Some None
      else map_option Some (at (headerValues h) (int i)))"

definition copyFrom_piece :: "Range \<Rightarrow> heap \<Rightarrow> (name_ptr \<times> heap) option" where
  "copyFrom_piece str hp = do {
     d \<leftarrow> range_copy str;
     Some (case d of None \<Rightarrow> (NullName, hp) | Some d \<Rightarrow> apfst Heap (heap_alloc d hp))
   }"

definition copyFrom :: "string \<Rightarrow> heap \<Rightarrow> (name_ptr \<times> heap) option" where
  "copyFrom str hp =
     (if length str = 0 then Some (NullName, hp)
      else do { d \<leftarrow> memcpy (calloc (length str + 1)) 0 str; Some (apfst Heap (heap_alloc d hp)) })"

text \<open>\<open>getPointerWithHeaderCode\<close> as a pointer into the table.\<close>

definition common_name :: "HttpHeaderCode \<Rightarrow> name_ptr option" where
  "common_name code = do { _ \<leftarrow> getPointerWithHeaderCode code; Some (Common code) }"

definition push_header :: "HttpHeaderCode \<Rightarrow> name_ptr \<Rightarrow> string \<Rightarrow> HttpHeaders \<Rightarrow> HttpHeaders" where
  "push_header code p v h =
     h\<lparr>codes := codes h @ [code], headerNames := headerNames h @ [p], headerValues := headerValues h @ [v]\<rparr>"

subsection \<open>Adding\<close>

definition add_piece :: "Range \<Rightarrow> Range \<Rightarrow> heap \<times> HttpHeaders \<Rightarrow> (heap \<times> HttpHeaders) option" where
  "add_piece headerName headerValue = (\<lambda>(hp, h).
     if range_size headerName = 0 then Some (hp, h)
     else do {
       m \<leftarrow> range_mem headerName;
       code \<leftarrow> getHeaderCode m (range_size headerName);
       (p, hp1) \<leftarrow> (if code = HTTP_HEADER_OTHER then copyFrom_piece headerName hp
                    else do { p \<leftarrow> common_name code; Some (p, hp) });
       v \<leftarrow> range_read headerValue;
       Some (hp1, push_header code p v h)
     })"

definition add_string :: "string \<Rightarrow> string \<Rightarrow> heap \<times> HttpHeaders \<Rightarrow> (heap \<times> HttpHeaders) option" where
  "add_string headerName headerValue = (\<lambda>(hp, h).
     if length headerName = 0 then Some (hp, h)
     else do {
       code \<leftarrow> getHeaderCode_string headerName;
       (p, hp1) \<leftarrow> (if code = HTTP_HEADER_OTHER then copyFrom headerName hp
                    else do { p \<leftarrow> common_name code; Some (p, hp) });
       Some (hp1, push_header code p headerValue h)
     })"

text \<open>The overload that takes the value by move stores the same string.\<close>

definition add_string_move :: "string \<Rightarrow> string \<Rightarrow> heap \<times> HttpHeaders \<Rightarrow> (heap \<times> HttpHeaders) option" where
  "add_string_move headerName headerValue = (\<lambda>(hp, h).
     if length headerName = 0 then Some (hp, h)
     else do {
       code \<leftarrow> getHeaderCode_string headerName;
       (p, hp1) \<leftarrow> (if code = HTTP_HEADER_OTHER then copyFrom headerName hp
                    else do { p \<leftarrow> common_name code; Some (p, hp) });
       Some (hp1, push_header code p headerValue h)
     })"

definition add_code :: "HttpHeaderCode \<Rightarrow> string \<Rightarrow> heap \<times> HttpHeaders \<Rightarrow> (heap \<times> HttpHeaders) option" where
  "add_code code headerValue = (\<lambda>(hp, h).
     if code = HTTP_HEADER_NONE \<or> code = HTTP_HEADER_OTHER then Some (hp, h)
     else do { p \<leftarrow> common_name code; Some (hp, push_header code p headerValue h) })"

definition add_code_piece :: "HttpHeaderCode \<Rightarrow> Range \<Rightarrow> heap \<times> HttpHeaders \<Rightarrow> (heap \<times> HttpHeaders) option" where
  "add_code_piece code headerValue = (\<lambda>(hp, h).
     if code = HTTP_HEADER_NONE \<or> code = HTTP_HEADER_OTHER then Some (hp, h)
     else do {
       value \<leftarrow> range_read headerValue;
       p \<leftarrow> common_name code;
       Some (hp, push_header code p value h)
     })"

subsection \<open>Removing\<close>

text \<open>\<open>memchr\<close> on the codes, from a position on.\<close>

definition memchr :: "HttpHeaderCode list \<Rightarrow> nat \<Rightarrow> HttpHeaderCode \<Rightarrow> nat option" where
  "memchr cs from c = List.find (\<lambda>i. cs ! i = c) [from..<length cs]"

partial_function (option) iterateOverCodes ::
  "HttpHeaderCode \<Rightarrow> (HttpHeaders \<times> bool \<Rightarrow> nat \<Rightarrow> (HttpHeaders \<times> bool) option) \<Rightarrow> nat \<Rightarrow>
   HttpHeaders \<times> bool \<Rightarrow> (HttpHeaders \<times> bool) option" where
  "iterateOverCodes code func ptr st =
     (case memchr (codes (fst st)) ptr code of
        None \<Rightarrow> Some st
      | Some pos \<Rightarrow> do { st1 \<leftarrow> func st pos; iterateOverCodes code func (Suc pos) st1 })"

definition iterateOverOtherHeaderNames ::
  "heap \<Rightarrow> Range \<Rightarrow> (HttpHeaders \<times> bool \<Rightarrow> nat \<Rightarrow> (HttpHeaders \<times> bool) option) \<Rightarrow>
   HttpHeaders \<times> bool \<Rightarrow> (HttpHeaders \<times> bool) option" where
  "iterateOverOtherHeaderNames hp headerName func st =
     iterateOverCodes HTTP_HEADER_OTHER
       (\<lambda>st pos. do {
          p \<leftarrow> at (headerNames (fst st)) (int pos);
          s \<leftarrow> deref_name hp p;
          eq \<leftarrow> caseInsensitiveEqual headerName s;
          if eq then func st pos else Some st
        }) 0 st"

text \<open>The lambda of both \<open>remove\<close> functions; the flag is the captured \<open>removed\<close>.\<close>

definition mark_removed :: "HttpHeaders \<times> bool \<Rightarrow> nat \<Rightarrow> (HttpHeaders \<times> bool) option" where
  "mark_removed st pos =
     (if pos < length (codes (fst st))
      then Some ((fst st)\<lparr>codes := (codes (fst st))[pos := HTTP_HEADER_NONE],
                          codes_deleted := u64 (codes_deleted (fst st) + 1)\<rparr>, True)
      else None)"

definition remove_code :: "HttpHeaderCode \<Rightarrow> HttpHeaders \<Rightarrow> (HttpHeaders \<times> bool) option" where
  "remove_code code h = iterateOverCodes code mark_removed 0 (h, False)"

definition remove_name :: "heap \<Rightarrow> Range \<Rightarrow> HttpHeaders \<Rightarrow> (HttpHeaders \<times> bool) option" where
  "remove_name hp headerName h =
     (if range_size headerName = 0 then Some (h, False)
      else do {
        m \<leftarrow> range_mem headerName;
        code \<leftarrow> getHeaderCode m (range_size headerName);
        if code \<noteq> HTTP_HEADER_OTHER then remove_code code h
        else iterateOverOtherHeaderNames hp headerName mark_removed (h, False)
      })"

definition removeWithStdString :: "heap \<Rightarrow> string \<Rightarrow> HttpHeaders \<Rightarrow> (HttpHeaders \<times> bool) option" where
  "removeWithStdString hp headerName h = remove_name hp (range_of_string headerName) h"

subsection \<open>Destruction, copies, moves\<close>

fun dispose_loop :: "HttpHeaderCode list \<Rightarrow> name_ptr list \<Rightarrow> heap \<Rightarrow> heap option" where
  "dispose_loop [] ns hp = Some hp"
| "dispose_loop (c # cs) (n # ns) hp =
     do { hp1 \<leftarrow> (if c = HTTP_HEADER_OTHER then free_name n hp else Some hp); dispose_loop cs ns hp1 }"
| "dispose_loop (c # cs) [] hp = (if c = HTTP_HEADER_OTHER then None else dispose_loop cs [] hp)"

definition disposeHeaderNames :: "HttpHeaders \<Rightarrow> heap \<Rightarrow> heap option" where
  "disposeHeaderNames h hp = dispose_loop (codes h) (headerNames h) hp"

definition clearAll :: "HttpHeaders \<Rightarrow> heap \<Rightarrow> (heap \<times> HttpHeaders) option" where
  "clearAll h hp = do { hp1 \<leftarrow> disposeHeaderNames h hp; Some (hp1, new_headers) }"

text \<open>
  The copy constructor copies every name into a block of its own, and uses that block only for the names that
  are not common ones.
\<close>

fun copy_loop :: "HttpHeaderCode list \<Rightarrow> name_ptr list \<Rightarrow> heap \<Rightarrow> (heap \<times> name_ptr list) option" where
  "copy_loop [] ns hp = Some (hp, ns)"
| "copy_loop (c # cs) (n # ns) hp = do {
     s \<leftarrow> deref_name hp n;
     t \<leftarrow> memread s 0 (strlen s);
     d \<leftarrow> memcpy (calloc (strlen s + 1)) 0 t;
     let (p, hp1) = heap_alloc d hp;
     (hp2, ms) \<leftarrow> copy_loop cs ns hp1;
     Some (hp2, (if c = HTTP_HEADER_OTHER then Heap p else n) # ms)
   }"
| "copy_loop (c # cs) [] hp = None"

definition copy_headers :: "HttpHeaders \<Rightarrow> heap \<Rightarrow> (heap \<times> HttpHeaders) option" where
  "copy_headers h hp = do {
     (hp1, ns) \<leftarrow> copy_loop (codes h) (headerNames h) hp;
     Some (hp1, h\<lparr>headerNames := ns\<rparr>)
   }"

text \<open>The move constructor leaves empty vectors behind, which \<open>clearAll\<close> then clears; first the new object.\<close>

definition move_headers :: "HttpHeaders \<Rightarrow> heap \<Rightarrow> (heap \<times> HttpHeaders \<times> HttpHeaders) option" where
  "move_headers h hp = do {
     (hp1, old) \<leftarrow> clearAll (h\<lparr>codes := [], headerNames := [], headerValues := []\<rparr>) hp;
     Some (hp1, h, old)
   }"

subsection \<open>Printing\<close>

fun dump_loop :: "heap \<Rightarrow> name_ptr list \<Rightarrow> string list \<Rightarrow> string option" where
  "dump_loop hp (n # ns) (v # vs) = do {
     s \<leftarrow> deref_name hp n;
     t \<leftarrow> memread s 0 (strlen s);
     r \<leftarrow> dump_loop hp ns vs;
     Some (t @ '': '' @ v @ [CHR 0x0D, CHR 0x0A] @ r)
   }"
| "dump_loop hp _ _ = Some []"

definition dump :: "heap \<Rightarrow> HttpHeaders \<Rightarrow> string option" where
  "dump hp h =
     (if length (headerNames h) = 0 then Some []
      else if length (headerNames h) \<noteq> length (headerValues h) then Some []
      else do { r \<leftarrow> dump_loop hp (headerNames h) (headerValues h); Some (r @ [CHR 0x0D, CHR 0x0A]) })"

subsection \<open>What the loops do\<close>

lemma memchr_step:
  "memchr cs i c = (if i < length cs then if cs ! i = c then Some i else memchr cs (Suc i) c else None)"
  by (simp add: memchr_def upt_conv_Cons)

lemma iterateOverCodes_step:
  "iterateOverCodes code func i st =
     (if i < length (codes (fst st)) then
        if codes (fst st) ! i = code
        then do { st1 \<leftarrow> func st i; iterateOverCodes code func (Suc i) st1 }
        else iterateOverCodes code func (Suc i) st
      else Some st)"
  unfolding iterateOverCodes.simps [of code func i st]
  by (subst memchr_step) (simp add: iterateOverCodes.simps [of code func "Suc i" st])

text \<open>
  The positions from \<open>i\<close> on whose code is \<open>code\<close> and whose name satisfies \<open>Q\<close> are marked as removed, and they are
  counted.
\<close>

definition mark :: "HttpHeaderCode \<Rightarrow> (name_ptr \<Rightarrow> bool) \<Rightarrow> HttpHeaderCode list \<Rightarrow> name_ptr list \<Rightarrow> HttpHeaderCode list" where
  "mark code Q cs ns = map2 (\<lambda>c p. if c = code \<and> Q p then HTTP_HEADER_NONE else c) cs ns"

definition hits :: "HttpHeaderCode \<Rightarrow> (name_ptr \<Rightarrow> bool) \<Rightarrow> HttpHeaderCode list \<Rightarrow> name_ptr list \<Rightarrow> nat" where
  "hits code Q cs ns = length (filter (\<lambda>(c, p). c = code \<and> Q p) (zip cs ns))"

lemma mark_simps [simp]:
  "mark code Q [] ns = []"
  "mark code Q (c # cs) (n # ns) = (if c = code \<and> Q n then HTTP_HEADER_NONE else c) # mark code Q cs ns"
  by (simp_all add: mark_def)

lemma hits_simps [simp]:
  "hits code Q [] ns = 0"
  "hits code Q (c # cs) (n # ns) = (if c = code \<and> Q n then Suc (hits code Q cs ns) else hits code Q cs ns)"
  by (simp_all add: hits_def)

lemma length_mark [simp]: "length (mark code Q cs ns) = min (length cs) (length ns)"
  by (simp add: mark_def)

lemma iterate_marks:
  assumes func: "\<And>g b i. i < length (codes g) \<Longrightarrow> headerNames g = ns \<Longrightarrow>
      length (codes g) = length ns \<Longrightarrow> codes g ! i = code \<Longrightarrow>
      func (g, b) i = (if Q (ns ! i) then mark_removed (g, b) i else Some (g, b))"
    and "code \<noteq> HTTP_HEADER_NONE"
  shows "headerNames g = ns \<Longrightarrow> length (codes g) = length ns \<Longrightarrow> i \<le> length ns \<Longrightarrow>
    codes_deleted g + hits code Q (drop i (codes g)) (drop i ns) < 2 ^ 64 \<Longrightarrow>
    iterateOverCodes code func i (g, b) =
      Some (g\<lparr>codes := take i (codes g) @ mark code Q (drop i (codes g)) (drop i ns),
              codes_deleted := codes_deleted g + hits code Q (drop i (codes g)) (drop i ns)\<rparr>,
            b \<or> hits code Q (drop i (codes g)) (drop i ns) > 0)"
proof (induction "length ns - i" arbitrary: i g b)
  case 0
  then show ?case by (subst iterateOverCodes_step) simp
next
  case (Suc n)
  then have i: "i < length ns" and n: "n = length ns - Suc i" by simp_all
  define c where "c = codes g ! i"
  have dc: "drop i (codes g) = c # drop (Suc i) (codes g)" and dn: "drop i ns = ns ! i # drop (Suc i) ns"
    using i Suc.prems(2) by (simp_all add: Cons_nth_drop_Suc c_def)
  have tk: "take (Suc i) (codes g) = take i (codes g) @ [c]"
    using i Suc.prems(2) by (simp add: take_Suc_conv_app_nth c_def)
  show ?case
  proof (cases "c = code \<and> Q (ns ! i)")
    case True
    define g1 where "g1 = g\<lparr>codes := (codes g)[i := HTTP_HEADER_NONE], codes_deleted := codes_deleted g + 1\<rparr>"
    have lt: "codes_deleted g + 1 < 2 ^ 64" using Suc.prems(4) True unfolding dc dn by simp
    have f: "func (g, b) i = Some (g1, True)"
      using func [of i g b] True i Suc.prems(1,2) lt
      by (simp add: mark_removed_def g1_def c_def uint_simps)
    have drop1: "drop (Suc i) (codes g1) = drop (Suc i) (codes g)"
      and take1: "take (Suc i) (codes g1) = take i (codes g) @ [HTTP_HEADER_NONE]"
      using i Suc.prems(2) by (simp_all add: g1_def take_Suc_conv_app_nth)
    have "iterateOverCodes code func i (g, b) = iterateOverCodes code func (Suc i) (g1, True)"
      using f i Suc.prems(2) True by (subst iterateOverCodes_step) (simp add: c_def)
    also have "\<dots> = Some (g1\<lparr>codes := take (Suc i) (codes g1) @ mark code Q (drop (Suc i) (codes g1)) (drop (Suc i) ns),
        codes_deleted := codes_deleted g1 + hits code Q (drop (Suc i) (codes g1)) (drop (Suc i) ns)\<rparr>,
      True \<or> hits code Q (drop (Suc i) (codes g1)) (drop (Suc i) ns) > 0)"
      using Suc.prems i True unfolding dc dn
      by (intro Suc.hyps(1) [OF n]) (simp_all add: g1_def)
    finally show ?thesis unfolding drop1 take1 dc dn using True by (simp add: g1_def)
  next
    case False
    have "iterateOverCodes code func i (g, b) = iterateOverCodes code func (Suc i) (g, b)"
      using func [of i g b] i Suc.prems(1,2) False
      by (subst iterateOverCodes_step) (simp add: c_def)
    also have "\<dots> = Some (g\<lparr>codes := take (Suc i) (codes g) @ mark code Q (drop (Suc i) (codes g)) (drop (Suc i) ns),
        codes_deleted := codes_deleted g + hits code Q (drop (Suc i) (codes g)) (drop (Suc i) ns)\<rparr>,
      b \<or> hits code Q (drop (Suc i) (codes g)) (drop (Suc i) ns) > 0)"
      using Suc.prems i unfolding dc dn mark_simps hits_simps if_not_P [OF False]
      by (intro Suc.hyps(1) [OF n]) simp_all
    finally show ?thesis unfolding tk dc dn mark_simps hits_simps if_not_P [OF False] by simp
  qed
qed

subsection \<open>Well-formed headers\<close>

text \<open>
  A name that can be read; a common header has the name of its code and another header a block of its own.
\<close>

definition ptr_ok :: "heap \<Rightarrow> name_ptr \<Rightarrow> bool" where
  "ptr_ok hp p \<longleftrightarrow> (\<exists>s. deref_name hp p = Some (cstr s) \<and> NUL \<notin> set s \<and> length s < 2 ^ 63)"

definition name_ok :: "heap \<Rightarrow> HttpHeaderCode \<Rightarrow> name_ptr \<Rightarrow> bool" where
  "name_ok hp c p \<longleftrightarrow> c < 95 \<and> ptr_ok hp p \<and> (2 \<le> c \<longrightarrow> p = Common c) \<and>
     (c = HTTP_HEADER_OTHER \<longrightarrow> (\<exists>a. p = Heap a))"

fun heap_addrs :: "name_ptr list \<Rightarrow> addr list" where
  "heap_addrs [] = []"
| "heap_addrs (Heap a # ps) = a # heap_addrs ps"
| "heap_addrs (p # ps) = heap_addrs ps"

definition headers_wf :: "heap \<Rightarrow> HttpHeaders \<Rightarrow> bool" where
  "headers_wf hp h \<longleftrightarrow> list_all2 (name_ok hp) (codes h) (headerNames h) \<and>
     length (headerValues h) = length (codes h) \<and> codes_deleted h = count_list (codes h) HTTP_HEADER_NONE \<and>
     length (codes h) < 2 ^ 64 \<and> distinct (heap_addrs (headerNames h))"

text \<open>The abstract value: the headers that are not removed, in order, with their names spelled out.\<close>

definition name_text :: "heap \<Rightarrow> name_ptr \<Rightarrow> string" where
  "name_text hp p = (case deref_name hp p of Some s \<Rightarrow> takeWhile (\<lambda>c. c \<noteq> NUL) s | None \<Rightarrow> [])"

type_synonym entry = "HttpHeaderCode \<times> string \<times> string"

definition entries_of :: "heap \<Rightarrow> HttpHeaderCode list \<Rightarrow> name_ptr list \<Rightarrow> string list \<Rightarrow> entry list" where
  "entries_of hp cs ns vs =
     map (\<lambda>(c, p, v). (c, name_text hp p, v)) (filter (\<lambda>(c, _). c \<noteq> HTTP_HEADER_NONE) (zip cs (zip ns vs)))"

definition entries :: "heap \<Rightarrow> HttpHeaders \<Rightarrow> entry list" where
  "entries hp h = entries_of hp (codes h) (headerNames h) (headerValues h)"

lemma entries_of_simps [simp]:
  "entries_of hp [] ns vs = []"
  "entries_of hp (c # cs) (n # ns) (v # vs) =
     (if c \<noteq> HTTP_HEADER_NONE then [(c, name_text hp n, v)] else []) @ entries_of hp cs ns vs"
  by (simp_all add: entries_of_def)

lemma heap_addrs_append [simp]: "heap_addrs (ps @ qs) = heap_addrs ps @ heap_addrs qs"
  by (induction ps rule: heap_addrs.induct) simp_all

lemma heap_addrs_iff: "a \<in> set (heap_addrs ps) \<longleftrightarrow> Heap a \<in> set ps"
  by (induction ps rule: heap_addrs.induct) auto

lemma takeWhile_cstr [simp]: "NUL \<notin> set s \<Longrightarrow> takeWhile (\<lambda>c. c \<noteq> NUL) (cstr s) = s"
  by (auto simp: cstr_def takeWhile_append)

lemma name_text_ok: "deref_name hp p = Some (cstr s) \<Longrightarrow> NUL \<notin> set s \<Longrightarrow> name_text hp p = s"
  by (simp add: name_text_def)

lemma deref_mono:
  "deref_name hp p = Some s \<Longrightarrow> live hp \<subseteq>\<^sub>m live hp' \<Longrightarrow> deref_name hp' p = Some s"
  by (auto simp: deref_name_def map_le_def dom_def split: name_ptr.splits)

lemma ptr_ok_mono: "ptr_ok hp p \<Longrightarrow> live hp \<subseteq>\<^sub>m live hp' \<Longrightarrow> ptr_ok hp' p \<and> name_text hp' p = name_text hp p"
proof -
  assume "ptr_ok hp p" and le: "live hp \<subseteq>\<^sub>m live hp'"
  then obtain s where s: "deref_name hp p = Some (cstr s)" "NUL \<notin> set s" "length s < 2 ^ 63" by (auto simp: ptr_ok_def)
  with deref_mono [OF s(1) le] show ?thesis by (auto simp: ptr_ok_def name_text_ok)
qed

lemma name_ok_mono: "name_ok hp c p \<Longrightarrow> live hp \<subseteq>\<^sub>m live hp' \<Longrightarrow> name_ok hp' c p"
  by (auto simp: name_ok_def dest: ptr_ok_mono)

lemma entries_of_cong:
  assumes "\<And>p. p \<in> set ns \<Longrightarrow> name_text hp' p = name_text hp p"
  shows "entries_of hp' cs ns vs = entries_of hp cs ns vs"
proof -
  have eq: "name_text hp' p = name_text hp p" if "(c, p, v) \<in> set (zip cs (zip ns vs))" for c p v
    using assms that by (metis set_zip_leftD set_zip_rightD)
  show ?thesis unfolding entries_of_def
    by (intro map_cong refl) (auto simp: eq)
qed

lemma entries_of_mono:
  assumes "list_all2 (name_ok hp) cs ns" and "live hp \<subseteq>\<^sub>m live hp'"
  shows "entries_of hp' cs ns vs = entries_of hp cs ns vs"
proof (rule entries_of_cong)
  show "name_text hp' p = name_text hp p" if "p \<in> set ns" for p
    using assms that ptr_ok_mono by (auto simp: list_all2_conv_all_nth in_set_conv_nth name_ok_def)
qed

lemma headers_wf_mono:
  assumes "headers_wf hp h" and "live hp \<subseteq>\<^sub>m live hp'"
  shows "headers_wf hp' h \<and> entries hp' h = entries hp h"
  using assms entries_of_mono
  by (auto simp: headers_wf_def entries_def intro: list_all2_mono name_ok_mono)

lemma heap_alloc_le: "heap_ok hp \<Longrightarrow> live hp \<subseteq>\<^sub>m live (snd (heap_alloc d hp))"
  by (auto simp: heap_alloc_def map_le_def heap_ok_def)

lemma heap_alloc_ok: "heap_ok hp \<Longrightarrow> heap_ok (snd (heap_alloc d hp))"
  by (auto simp: heap_alloc_def heap_ok_def less_Suc_eq)

lemma heap_addr_live:
  assumes "headers_wf hp h" and "a \<in> set (heap_addrs (headerNames h))"
  shows "a \<in> dom (live hp)"
proof -
  from assms(2) obtain i where "i < length (headerNames h)" "headerNames h ! i = Heap a"
    unfolding heap_addrs_iff by (auto simp: in_set_conv_nth)
  with assms(1) have "ptr_ok hp (Heap a)"
    by (auto simp: headers_wf_def list_all2_conv_all_nth name_ok_def)
  then show ?thesis by (auto simp: ptr_ok_def deref_name_def)
qed

lemma common_name_ok: "2 \<le> c \<Longrightarrow> c < 95 \<Longrightarrow> common_name c = Some (Common c) \<and> name_ok hp c (Common c) \<and>
    name_text hp (Common c) = header_name c"
  using getPointer_law header_name_no_nul header_name_length [of c]
  by (auto simp: common_name_def name_ok_def ptr_ok_def deref_name_def name_text_def)

subsection \<open>Adding\<close>

lemma entries_of_snoc:
  assumes "length ns = length cs" and "length vs = length cs"
  shows "entries_of hp (cs @ [c]) (ns @ [p]) (vs @ [v]) =
    entries_of hp cs ns vs @ (if c \<noteq> HTTP_HEADER_NONE then [(c, name_text hp p, v)] else [])"
  using assms by (simp add: entries_of_def)

lemma push_header_ok:
  assumes "headers_wf hp h" and "name_ok hp c p" and "c \<noteq> HTTP_HEADER_NONE" and "length (codes h) + 1 < 2 ^ 64"
    and "\<And>a. p = Heap a \<Longrightarrow> a \<notin> set (heap_addrs (headerNames h))"
  shows "headers_wf hp (push_header c p v h) \<and>
    entries hp (push_header c p v h) = entries hp h @ [(c, name_text hp p, v)] \<and>
    length (codes (push_header c p v h)) = length (codes h) + 1"
proof -
  have len: "length (headerNames h) = length (codes h)" "length (headerValues h) = length (codes h)"
    using assms(1) by (auto simp: headers_wf_def dest: list_all2_lengthD)
  have "heap_addrs [p] = (case p of Heap a \<Rightarrow> [a] | _ \<Rightarrow> [])" by (cases p) simp_all
  then have "distinct (heap_addrs (headerNames h @ [p]))"
    using assms(1,5) by (cases p) (simp_all add: headers_wf_def)
  with assms len show ?thesis
    by (simp add: headers_wf_def push_header_def entries_def entries_of_snoc list_all2_appendI)
qed

lemma copyFrom_ok:
  assumes "name \<noteq> []" and "NUL \<notin> set name" and "heap_ok hp"
  shows "\<exists>hp1. copyFrom name hp = Some (Heap (fresh hp), hp1) \<and> heap_ok hp1 \<and> live hp \<subseteq>\<^sub>m live hp1 \<and>
    live hp1 (fresh hp) = Some (cstr name)"
proof -
  have "memcpy (calloc (length name + 1)) 0 name = Some (cstr name)"
    by (simp add: memcpy_def cstr_def calloc_def replicate_append_same [symmetric])
  then show ?thesis
    using assms heap_alloc_le [OF assms(3)] heap_alloc_ok [OF assms(3)]
    by (simp add: copyFrom_def heap_alloc_def)
qed

text \<open>The state of the heap and one object, and the effect of an addition on the abstract value.\<close>

definition state_ok :: "heap \<times> HttpHeaders \<Rightarrow> bool" where
  "state_ok = (\<lambda>(hp, h). heap_ok hp \<and> headers_wf hp h)"

definition state_entries :: "heap \<times> HttpHeaders \<Rightarrow> entry list" where
  "state_entries = (\<lambda>(hp, h). entries hp h)"

definition new_entry :: "string \<Rightarrow> string \<Rightarrow> entry" where
  "new_entry name value =
     (header_code name, if header_code name = HTTP_HEADER_OTHER then name else header_name (header_code name), value)"

text \<open>
  What an addition does: it succeeds and appends the entry. The lemmas on the overloads say that they do this.
\<close>

definition adds :: "heap \<times> HttpHeaders \<Rightarrow> entry list \<Rightarrow> (heap \<times> HttpHeaders) option \<Rightarrow> bool" where
  "adds st es r \<longleftrightarrow> (\<exists>st'. r = Some st' \<and> state_ok st' \<and> state_entries st' = state_entries st @ es \<and>
     live (fst st) \<subseteq>\<^sub>m live (fst st') \<and> length (codes (snd st')) = length (codes (snd st)) + length es)"

lemma adds_none: "state_ok st \<Longrightarrow> adds st [] (Some st)"
  by (simp add: adds_def)

lemma adds_common:
  assumes "state_ok (hp, h)" and "2 \<le> c" and "c < 95" and "length (codes h) + 1 < 2 ^ 64"
  shows "common_name c = Some (Common c) \<and>
    adds (hp, h) [(c, header_name c, v)] (Some (hp, push_header c (Common c) v h))"
  using assms push_header_ok [of hp h c "Common c" v] common_name_ok [OF assms(2,3), of hp]
  by (auto simp: adds_def state_ok_def state_entries_def)

lemma adds_other:
  assumes "state_ok (hp, h)" and "NUL \<notin> set name" "length name < 2 ^ 63" and "heap_ok hp1" and "live hp \<subseteq>\<^sub>m live hp1"
    and "live hp1 (fresh hp) = Some (cstr name)" and "length (codes h) + 1 < 2 ^ 64"
  shows "adds (hp, h) [(HTTP_HEADER_OTHER, name, v)]
    (Some (hp1, push_header HTTP_HEADER_OTHER (Heap (fresh hp)) v h))"
proof -
  have ok: "heap_ok hp" "headers_wf hp h" using assms(1) by (simp_all add: state_ok_def)
  have wf1: "headers_wf hp1 h" "entries hp1 h = entries hp h"
    using headers_wf_mono [OF ok(2) assms(5)] by simp_all
  have d: "deref_name hp1 (Heap (fresh hp)) = Some (cstr name)" by (simp add: deref_name_def assms(6))
  then have name: "name_ok hp1 HTTP_HEADER_OTHER (Heap (fresh hp))" "name_text hp1 (Heap (fresh hp)) = name"
    using assms(2,3) by (auto simp: name_ok_def ptr_ok_def name_text_ok)
  have "fresh hp \<notin> set (heap_addrs (headerNames h))"
    using heap_addr_live [OF ok(2)] ok(1) by (auto simp: heap_ok_def)
  then show ?thesis
    using push_header_ok [OF wf1(1) name(1), of v] wf1(2) name(2) assms(4,5,7)
    by (auto simp: adds_def state_ok_def state_entries_def)
qed

lemma add_string_ok:
  assumes "state_ok (hp, h)" and "NUL \<notin> set name" and "length (codes h) + 1 < 2 ^ 64" and "length name < 2 ^ 63"
  shows "adds (hp, h) (if name = [] then [] else [new_entry name v]) (add_string name v (hp, h))"
proof (cases "name = []")
  case False
  show ?thesis
  proof (cases "header_code name = HTTP_HEADER_OTHER")
    case True
    obtain hp1 where c: "copyFrom name hp = Some (Heap (fresh hp), hp1)" "heap_ok hp1" "live hp \<subseteq>\<^sub>m live hp1"
      "live hp1 (fresh hp) = Some (cstr name)"
      using copyFrom_ok [OF False assms(2)] assms(1) by (auto simp: state_ok_def)
    show ?thesis
      using adds_other [OF assms(1,2,4) c(2,3,4) assms(3), of v] c(1) True False getHeaderCode_law [OF assms(2)]
      by (simp add: add_string_def new_entry_def)
  next
    case other: False
    then show ?thesis
      using adds_common [OF assms(1), of "header_code name" v] header_code_range [of name] assms(3) False
        getHeaderCode_law [OF assms(2)]
      by (simp add: add_string_def new_entry_def)
  qed
qed (use adds_none [OF assms(1)] in \<open>simp add: add_string_def\<close>)

lemma add_string_move_eq: "add_string_move = add_string"
  by (intro ext) (simp add: add_string_move_def add_string_def)

lemma range_copy_string:
  "name \<noteq> [] \<Longrightarrow> length name < 2 ^ 63 \<Longrightarrow> copyFrom_piece (range_of_string name) hp = copyFrom name hp"
  using range_size_ok [of "range_of_string name"] range_read_ok [of "range_of_string name"] range_of_string_ok [of name]
  by (simp add: copyFrom_piece_def copyFrom_def range_copy_def Option.bind_map_option split: bind_splits)

text \<open>
  The overload for pieces does the same as the one for strings, when the piece of the name is a whole string and the
  piece of the value lies in its block.
\<close>

lemma add_piece_string:
  assumes "length name < 2 ^ 63" and "range_ok value"
  shows "add_piece (range_of_string name) value st = add_string name (range_text value) st"
proof -
  have s: "range_size (range_of_string name) = length name"
    using range_size_ok [of "range_of_string name"] range_of_string_ok [of name] assms(1) by simp
  have m: "range_mem (range_of_string name) = Some (cstr name)"
    by (simp add: range_mem_def range_of_string_def)
  show ?thesis
    using s m range_copy_string [of name] assms range_read_ok [OF assms(2)]
    by (cases st; cases "name = []") (simp_all add: add_piece_def add_string_def getHeaderCode_string_def
        split: bind_splits)
qed

lemma add_code_ok:
  assumes "state_ok (hp, h)" and "c < 95" and "length (codes h) + 1 < 2 ^ 64"
  shows "adds (hp, h) (if c < 2 then [] else [(c, header_name c, v)]) (add_code c v (hp, h))"
  using adds_none [OF assms(1)] adds_common [OF assms(1) _ assms(2,3)]
  by (auto simp: add_code_def)

lemma add_code_piece_eq: "range_ok value \<Longrightarrow> add_code_piece c value st = add_code c (range_text value) st"
  by (cases st) (simp add: add_code_piece_def add_code_def range_read_ok)

subsection \<open>Removing\<close>

lemma count_mark:
  assumes "length cs = length ns" and "code \<noteq> HTTP_HEADER_NONE"
  shows "count_list (mark code Q cs ns) HTTP_HEADER_NONE = count_list cs HTTP_HEADER_NONE + hits code Q cs ns"
    and "count_list cs HTTP_HEADER_NONE + hits code Q cs ns \<le> length cs"
  using assms by (induction cs ns rule: list_induct2) auto

lemma name_ok_none: "name_ok hp c p \<Longrightarrow> name_ok hp HTTP_HEADER_NONE p"
  by (simp add: name_ok_def)

lemma mark_names:
  "list_all2 (name_ok hp) cs ns \<Longrightarrow> list_all2 (name_ok hp) (mark code Q cs ns) ns"
  by (induction rule: list_all2_induct) (auto intro: name_ok_none)

lemma entries_mark:
  assumes "length cs = length ns" and "length ns = length vs" and "code \<noteq> HTTP_HEADER_NONE"
    and "\<And>c p. (c, p) \<in> set (zip cs ns) \<Longrightarrow> c = code \<Longrightarrow> Q p = R (name_text hp p)"
  shows "entries_of hp (mark code Q cs ns) ns vs =
      filter (\<lambda>(c, n, v). \<not> (c = code \<and> R n)) (entries_of hp cs ns vs)"
    and "hits code Q cs ns > 0 \<longleftrightarrow> (\<exists>(c, n, v) \<in> set (entries_of hp cs ns vs). c = code \<and> R n)"
  using assms by (induction cs ns vs rule: list_induct3) auto

text \<open>What a removal does: the entries that satisfy \<open>P\<close> are gone, and the answer says whether there was one.\<close>

definition removes :: "heap \<Rightarrow> HttpHeaders \<Rightarrow> (entry \<Rightarrow> bool) \<Rightarrow> (HttpHeaders \<times> bool) option \<Rightarrow> bool" where
  "removes hp h P r \<longleftrightarrow> (\<exists>h' b. r = Some (h', b) \<and> headers_wf hp h' \<and>
     entries hp h' = filter (\<lambda>e. \<not> P e) (entries hp h) \<and> b = (\<exists>e \<in> set (entries hp h). P e) \<and>
     length (codes h') = length (codes h))"

lemma removes_mark:
  assumes wf: "headers_wf hp h" and code: "code \<noteq> HTTP_HEADER_NONE"
    and Q: "\<And>c p. (c, p) \<in> set (zip (codes h) (headerNames h)) \<Longrightarrow> c = code \<Longrightarrow> Q p = R (name_text hp p)"
    and func: "\<And>g b i. i < length (codes g) \<Longrightarrow> headerNames g = headerNames h \<Longrightarrow>
      length (codes g) = length (headerNames h) \<Longrightarrow> codes g ! i = code \<Longrightarrow>
      func (g, b) i = (if Q (headerNames h ! i) then mark_removed (g, b) i else Some (g, b))"
  shows "removes hp h (\<lambda>(c, n, v). c = code \<and> R n) (iterateOverCodes code func 0 (h, False))"
proof -
  have len: "length (codes h) = length (headerNames h)" "length (headerNames h) = length (headerValues h)"
    using wf by (auto simp: headers_wf_def dest: list_all2_lengthD)
  define k where "k = hits code Q (codes h) (headerNames h)"
  have bound: "codes_deleted h + k < 2 ^ 64"
    using count_mark(2) [OF len(1) code, of Q] wf unfolding k_def headers_wf_def by linarith
  note cnt = count_mark(1) [OF len(1) code, of Q]
  note ent = entries_mark [where Q = Q and R = R and hp = hp, OF len code Q]
  have "iterateOverCodes code func 0 (h, False) =
      Some (h\<lparr>codes := mark code Q (codes h) (headerNames h), codes_deleted := codes_deleted h + k\<rparr>, k > 0)"
    using iterate_marks [where func = func and Q = Q and ns = "headerNames h" and g = h and i = 0 and b = False,
        OF func code refl len(1) le0] bound
    unfolding drop0 take0 append_Nil k_def by (simp only: simp_thms)
  moreover define h' where
    "h' = h\<lparr>codes := mark code Q (codes h) (headerNames h), codes_deleted := codes_deleted h + k\<rparr>"
  have "headers_wf hp h'"
    using wf cnt len mark_names [of hp "codes h" "headerNames h" code Q]
    by (simp add: headers_wf_def h'_def k_def)
  moreover have "entries hp h' = filter (\<lambda>e. \<not> (case e of (c, n, v) \<Rightarrow> c = code \<and> R n)) (entries hp h)"
    unfolding entries_def h'_def using ent(1) by (simp add: split_def)
  moreover have "(k > 0) = (\<exists>e \<in> set (entries hp h). case e of (c, n, v) \<Rightarrow> c = code \<and> R n)"
    unfolding entries_def k_def by (rule ent(2))
  moreover have "length (codes h') = length (codes h)" using len by (simp add: h'_def)
  ultimately show ?thesis unfolding removes_def h'_def [symmetric] by blast
qed

lemma remove_code_ok:
  assumes "headers_wf hp h" and "code \<noteq> HTTP_HEADER_NONE"
  shows "removes hp h (\<lambda>(c, n, v). c = code) (remove_code code h)"
  using removes_mark [OF assms, of "\<lambda>_. True" "\<lambda>_. True" mark_removed] by (simp add: remove_code_def)

lemma caseInsensitiveEqual_ok:
  assumes "length name < 2 ^ 63" and "NUL \<notin> set s" and "length s < 2 ^ 63"
  shows "caseInsensitiveEqual (range_of_string name) (cstr s) = Some (map tolower name = map tolower s)"
proof -
  have whole: "range_size (range_of_string t) = length t" "range_read (range_of_string t) = Some t"
    if "length t < 2 ^ 63" for t
    using range_size_ok [of "range_of_string t"] range_read_ok [of "range_of_string t"] range_of_string_ok [of t] that
    by simp_all
  have "length s \<noteq> length name \<Longrightarrow> map tolower name \<noteq> map tolower s" by (metis length_map)
  then show ?thesis
    using whole [OF assms(1)] whole [OF assms(3)] range_of_cstr_string [OF assms(2)]
    by (auto simp: caseInsensitiveEqual_def ascii_text_equal_lower)
qed

text \<open>Which entries \<open>remove\<close> with a name takes: those with the code of the name, or those with the name up to case.\<close>

definition named :: "string \<Rightarrow> entry \<Rightarrow> bool" where
  "named name = (\<lambda>(c, n, v). name \<noteq> [] \<and> c = header_code name \<and>
     (c = HTTP_HEADER_OTHER \<longrightarrow> map tolower n = map tolower name))"

lemma remove_name_ok:
  assumes "headers_wf hp h" and "NUL \<notin> set name" and "length name < 2 ^ 63"
  shows "removes hp h (named name) (remove_name hp (range_of_string name) h)"
proof -
  have s: "range_size (range_of_string name) = length name"
    using range_size_ok [of "range_of_string name"] range_of_string_ok [of name] assms(3) by simp
  have m: "range_mem (range_of_string name) = Some (cstr name)"
    by (simp add: range_mem_def range_of_string_def)
  have code: "getHeaderCode (cstr name) (length name) = Some (header_code name)"
    using getHeaderCode_law [OF assms(2)] by (simp add: getHeaderCode_string_def)
  consider "name = []" | "name \<noteq> []" "header_code name \<noteq> HTTP_HEADER_OTHER"
    | "name \<noteq> []" "header_code name = HTTP_HEADER_OTHER" by blast
  then show ?thesis
  proof cases
    case 1
    then have "remove_name hp (range_of_string name) h = Some (h, False)" using s by (simp add: remove_name_def)
    moreover have "filter (\<lambda>e. \<not> named name e) (entries hp h) = entries hp h"
      using 1 by (simp add: named_def split_def)
    ultimately show ?thesis unfolding removes_def using assms(1) 1
      by (intro exI [of _ h] exI [of _ False]) (simp add: named_def split_def)
  next
    case 2
    have "named name = (\<lambda>(c, n, v). c = header_code name)" using 2 by (auto simp: named_def)
    then show ?thesis
      using remove_code_ok [OF assms(1), of "header_code name"] header_code_range [of name] 2 s m code
      by (simp add: remove_name_def)
  next
    case 3
    define Q where "Q p \<longleftrightarrow> map tolower name = map tolower (name_text hp p)" for p
    define func where "func = (\<lambda>st pos. do {
          p \<leftarrow> at (headerNames (fst st)) (int pos);
          t \<leftarrow> deref_name hp p;
          eq \<leftarrow> caseInsensitiveEqual (range_of_string name) t;
          if eq then mark_removed st pos else Some st
        })"
    have ok: "ptr_ok hp p" if "p \<in> set (headerNames h)" for p
      using assms(1) that by (auto simp: headers_wf_def list_all2_conv_all_nth in_set_conv_nth name_ok_def)
    have f: "func (g, b) i = (if Q (headerNames h ! i) then mark_removed (g, b) i else Some (g, b))"
      if "i < length (codes g)" "headerNames g = headerNames h" "length (codes g) = length (headerNames h)" for g b i
    proof -
      have "ptr_ok hp (headerNames h ! i)" using ok that by simp
      then obtain t where t: "deref_name hp (headerNames h ! i) = Some (cstr t)" "NUL \<notin> set t" "length t < 2 ^ 63"
        by (auto simp: ptr_ok_def)
      then show ?thesis
        using that caseInsensitiveEqual_ok [OF assms(3) t(2,3)] name_text_ok [OF t(1,2)]
        by (simp add: func_def at_def Q_def)
    qed
    have "removes hp h (\<lambda>(c, n, v). c = HTTP_HEADER_OTHER \<and> map tolower name = map tolower n)
        (iterateOverCodes HTTP_HEADER_OTHER func 0 (h, False))"
      by (rule removes_mark [where Q = Q, OF assms(1)]) (simp_all add: Q_def f)
    moreover have "named name = (\<lambda>(c, n, v). c = HTTP_HEADER_OTHER \<and> map tolower name = map tolower n)"
      using 3 by (auto simp: named_def)
    ultimately show ?thesis
      using 3 s m code by (simp add: remove_name_def iterateOverOtherHeaderNames_def func_def)
  qed
qed

subsection \<open>Any sequence of operations\<close>

text \<open>The operations of the class on one object; the pieces are those of whole strings, as in \<open>HttpMessage\<close>.\<close>

datatype header_op =
    Add_piece string string
  | Add_string string string
  | Add_string_move string string
  | Add_code HttpHeaderCode string
  | Add_code_piece HttpHeaderCode string
  | Remove string
  | Remove_std string
  | Remove_code HttpHeaderCode

definition header_step :: "header_op \<Rightarrow> heap \<times> HttpHeaders \<Rightarrow> ((heap \<times> HttpHeaders) \<times> bool) option" where
  "header_step a st = (case a of
      Add_piece n v \<Rightarrow> map_option (\<lambda>s. (s, False)) (add_piece (range_of_string n) (range_of_string v) st)
    | Add_string n v \<Rightarrow> map_option (\<lambda>s. (s, False)) (add_string n v st)
    | Add_string_move n v \<Rightarrow> map_option (\<lambda>s. (s, False)) (add_string_move n v st)
    | Add_code c v \<Rightarrow> map_option (\<lambda>s. (s, False)) (add_code c v st)
    | Add_code_piece c v \<Rightarrow> map_option (\<lambda>s. (s, False)) (add_code_piece c (range_of_string v) st)
    | Remove n \<Rightarrow> map_option (apfst (Pair (fst st))) (remove_name (fst st) (range_of_string n) (snd st))
    | Remove_std n \<Rightarrow> map_option (apfst (Pair (fst st))) (removeWithStdString (fst st) n (snd st))
    | Remove_code c \<Rightarrow> map_option (apfst (Pair (fst st))) (remove_code c (snd st)))"

text \<open>What they do to the list of headers.\<close>

definition spec_add :: "string \<Rightarrow> string \<Rightarrow> entry list \<Rightarrow> entry list \<times> bool" where
  "spec_add n v es = (es @ (if n = [] then [] else [new_entry n v]), False)"

definition spec_add_code :: "HttpHeaderCode \<Rightarrow> string \<Rightarrow> entry list \<Rightarrow> entry list \<times> bool" where
  "spec_add_code c v es = (es @ (if c < 2 then [] else [(c, header_name c, v)]), False)"

definition spec_remove :: "(entry \<Rightarrow> bool) \<Rightarrow> entry list \<Rightarrow> entry list \<times> bool" where
  "spec_remove P es = (filter (\<lambda>e. \<not> P e) es, \<exists>e \<in> set es. P e)"

definition header_spec :: "header_op \<Rightarrow> entry list \<Rightarrow> entry list \<times> bool" where
  "header_spec a es = (case a of
      Add_piece n v \<Rightarrow> spec_add n v es
    | Add_string n v \<Rightarrow> spec_add n v es
    | Add_string_move n v \<Rightarrow> spec_add n v es
    | Add_code c v \<Rightarrow> spec_add_code c v es
    | Add_code_piece c v \<Rightarrow> spec_add_code c v es
    | Remove n \<Rightarrow> spec_remove (named n) es
    | Remove_std n \<Rightarrow> spec_remove (named n) es
    | Remove_code c \<Rightarrow> spec_remove (\<lambda>e. fst e = c) es)"

text \<open>
  The arguments: names without NUL, strings that fit in memory, codes of the enumeration, and not
  \<open>HTTP_HEADER_NONE\<close> for a removal.
\<close>

definition string_ok :: "string \<Rightarrow> bool" where
  "string_ok s \<longleftrightarrow> NUL \<notin> set s \<and> length s < 2 ^ 63"

definition header_op_ok :: "header_op \<Rightarrow> bool" where
  "header_op_ok a = (case a of
      Add_piece n v \<Rightarrow> string_ok n \<and> string_ok v
    | Add_string n v \<Rightarrow> string_ok n
    | Add_string_move n v \<Rightarrow> string_ok n
    | Add_code c v \<Rightarrow> c < 95
    | Add_code_piece c v \<Rightarrow> c < 95 \<and> string_ok v
    | Remove n \<Rightarrow> string_ok n
    | Remove_std n \<Rightarrow> string_ok n
    | Remove_code c \<Rightarrow> c < 95 \<and> c \<noteq> HTTP_HEADER_NONE)"

definition header_inv :: "nat \<Rightarrow> heap \<times> HttpHeaders \<Rightarrow> bool" where
  "header_inv k st \<longleftrightarrow> state_ok st \<and> length (codes (snd st)) + k < 2 ^ 64"

lemma adds_step:
  assumes "adds st es r" and "header_inv (Suc k) st" and "length es \<le> 1"
  shows "\<exists>s'. map_option (\<lambda>s. (s, False)) r = Some (s', False) \<and> header_inv k s' \<and> state_entries s' = state_entries st @ es"
  using assms by (auto simp: adds_def header_inv_def)

lemma removes_step:
  assumes "removes (fst st) (snd st) P r" and "header_inv (Suc k) st"
  shows "\<exists>s'. map_option (apfst (Pair (fst st))) r = Some (s', snd (spec_remove P (state_entries st))) \<and>
    header_inv k s' \<and> state_entries s' = fst (spec_remove P (state_entries st))"
proof -
  obtain hp h where st: "st = (hp, h)" by (cases st)
  obtain h' where "r = Some (h', \<exists>e \<in> set (entries hp h). P e)" "headers_wf hp h'"
    "entries hp h' = filter (\<lambda>e. \<not> P e) (entries hp h)" "length (codes h') = length (codes h)"
    using assms(1) unfolding removes_def st by auto
  then show ?thesis
    using assms(2) by (simp add: spec_remove_def header_inv_def state_ok_def state_entries_def st)
qed

lemma header_step_simulates:
  assumes inv: "header_inv (Suc k) st" and ok: "header_op_ok a"
  shows "\<exists>s'. header_step a st = Some (s', snd (header_spec a (state_entries st))) \<and> header_inv k s' \<and>
    state_entries s' = fst (header_spec a (state_entries st))"
proof -
  obtain hp h where st: "st = (hp, h)" by (cases st)
  have s: "state_ok (hp, h)" "headers_wf hp h" "length (codes h) + 1 < 2 ^ 64"
    using inv by (auto simp: header_inv_def st state_ok_def)
  have piece: "range_ok (range_of_string v)" "range_text (range_of_string v) = v" if "string_ok v" for v
    using that range_of_string_ok by (simp_all add: string_ok_def)
  have str: "\<exists>s'. map_option (\<lambda>s. (s, False)) (add_string n v st) = Some (s', False) \<and> header_inv k s' \<and>
      state_entries s' = fst (spec_add n v (state_entries st))" if "string_ok n" for n v
    using adds_step [OF _ inv] add_string_ok [OF s(1) _ s(3), of n v] that
    by (simp add: st string_ok_def spec_add_def)
  have code: "\<exists>s'. map_option (\<lambda>s. (s, False)) (add_code c v st) = Some (s', False) \<and> header_inv k s' \<and>
      state_entries s' = fst (spec_add_code c v (state_entries st))" if "c < 95" for c v
    using adds_step [OF _ inv] add_code_ok [OF s(1) that s(3), of v] by (simp add: st spec_add_code_def)
  have rem: "removes (fst st) (snd st) (named n) (remove_name (fst st) (range_of_string n) (snd st))"
    if "string_ok n" for n
    using remove_name_ok [OF s(2)] that by (simp add: st string_ok_def)
  have remc: "removes (fst st) (snd st) (\<lambda>e. fst e = c) (remove_code c (snd st))" if "c \<noteq> HTTP_HEADER_NONE" for c
    using remove_code_ok [OF s(2) that] by (simp add: st split_def)
  show ?thesis
  proof (cases a)
    case (Add_piece n v)
    then have "string_ok n" "string_ok v" using ok by (simp_all add: header_op_ok_def)
    then show ?thesis
      using str [of n v] add_piece_string [of n "range_of_string v" st] piece [of v]
      by (simp add: Add_piece header_step_def header_spec_def spec_add_def string_ok_def)
  next
    case (Add_string n v)
    then show ?thesis using ok str [of n v] by (simp add: header_step_def header_spec_def header_op_ok_def spec_add_def)
  next
    case (Add_string_move n v)
    then show ?thesis
      using ok str [of n v]
      by (simp add: header_step_def header_spec_def header_op_ok_def spec_add_def add_string_move_eq)
  next
    case (Add_code c v)
    then show ?thesis
      using ok code [of c v] by (simp add: header_step_def header_spec_def header_op_ok_def spec_add_code_def)
  next
    case (Add_code_piece c v)
    then show ?thesis
      using ok code [of c v] piece [of v] add_code_piece_eq [of "range_of_string v" c st]
      by (simp add: header_step_def header_spec_def header_op_ok_def spec_add_code_def)
  next
    case (Remove n)
    then show ?thesis
      using ok removes_step [OF rem inv, of n] by (simp add: header_step_def header_spec_def header_op_ok_def)
  next
    case (Remove_std n)
    then show ?thesis
      using ok removes_step [OF rem inv, of n]
      by (simp add: header_step_def header_spec_def header_op_ok_def removeWithStdString_def)
  next
    case (Remove_code c)
    then show ?thesis
      using ok removes_step [OF remc inv, of c] by (simp add: header_step_def header_spec_def header_op_ok_def)
  qed
qed

interpretation hdr: op_refinement header_step header_spec header_inv state_entries header_op_ok
  by unfold_locales (rule header_step_simulates)

subsection \<open>Looking up and counting\<close>

definition first_value :: "HttpHeaderCode \<Rightarrow> entry list \<Rightarrow> string option" where
  "first_value code es = map_option (\<lambda>(c, n, v). v) (List.find (\<lambda>e. fst e = code) es)"

lemma header_at_entries:
  assumes "length cs = length ns" and "length ns = length vs" and "code \<noteq> HTTP_HEADER_NONE"
  shows "(let i = length (takeWhile (\<lambda>c. c \<noteq> code) cs) in
      if i = length cs then Some None else map_option Some (at vs (int i))) =
    Some (first_value code (entries_of hp cs ns vs))"
  using assms
proof (induction cs ns vs rule: list_induct3)
  case (Cons c cs n ns v vs)
  have "at (v # vs) (1 + int i) = at vs (int i)" for i
    by (auto simp: at_def nat_add_distrib)
  moreover have "at (v # vs) 0 = Some v" by (simp add: at_def)
  ultimately show ?case using Cons by (auto simp: first_value_def Let_def split: if_splits)
qed (simp add: first_value_def)

lemma header_at_ok:
  assumes "headers_wf hp h" and "code \<noteq> HTTP_HEADER_NONE"
  shows "header_at h code = Some (first_value code (entries hp h))"
proof -
  have "length (codes h) = length (headerNames h)" "length (headerNames h) = length (headerValues h)"
    using assms(1) by (auto simp: headers_wf_def dest: list_all2_lengthD)
  then show ?thesis
    using header_at_entries [OF _ _ assms(2)] by (simp add: header_at_def entries_def Let_def)
qed

lemma headers_size_ok:
  assumes "headers_wf hp h"
  shows "headers_size h = length (entries hp h)"
proof -
  have len: "length (codes h) = length (headerNames h)" "length (headerNames h) = length (headerValues h)"
    using assms by (auto simp: headers_wf_def dest: list_all2_lengthD)
  have "length (entries_of hp cs ns vs) + count_list cs HTTP_HEADER_NONE = length cs"
    if "length cs = length ns" "length ns = length vs" for cs ns vs
    using that by (induction cs ns vs rule: list_induct3) simp_all
  from this [OF len] assms show ?thesis by (simp add: headers_size_def headers_wf_def entries_def uint_simps)
qed


definition empty_heap :: heap where
  "empty_heap = \<lparr>live = Map.empty, fresh = 1\<rparr>"


subsection \<open>Ownership of the names\<close>

text \<open>The blocks that an object frees: those of the names that are not common and not removed.\<close>

fun owned :: "HttpHeaderCode list \<Rightarrow> name_ptr list \<Rightarrow> addr list" where
  "owned (c # cs) (Heap a # ns) = (if c = HTTP_HEADER_OTHER then [a] else []) @ owned cs ns"
| "owned (c # cs) (n # ns) = owned cs ns"
| "owned _ _ = []"

lemma owned_addrs: "set (owned cs ns) \<subseteq> set (heap_addrs ns)"
  by (induction cs ns rule: owned.induct) auto

lemma dispose_loop_ok:
  assumes "list_all2 (name_ok hp) cs ns" and "distinct (heap_addrs ns)"
    and "\<And>a. a \<in> set (heap_addrs ns) \<Longrightarrow> live g a = live hp a"
  shows "\<exists>g'. dispose_loop cs ns g = Some g' \<and> live g' = live g |` (- set (owned cs ns)) \<and> fresh g' = fresh g"
  using assms
proof (induction cs ns arbitrary: g rule: list_all2_induct)
  case Nil
  show ?case by (auto simp: restrict_map_def)
next
  case (Cons c cs n ns)
  show ?case
  proof (cases "c = HTTP_HEADER_OTHER")
    case True
    then obtain a where n: "n = Heap a" and l: "live hp a \<noteq> None"
      using Cons.hyps(1) by (auto simp: name_ok_def ptr_ok_def deref_name_def)
    define g1 where "g1 = g\<lparr>live := (live g)(a := None)\<rparr>"
    have free: "free_name n g = Some g1"
      using l Cons.prems(2) [of a] by (auto simp: n free_name_def heap_free_def g1_def)
    have "live g1 b = live hp b" if "b \<in> set (heap_addrs ns)" for b
      using Cons.prems that by (auto simp: g1_def n)
    then obtain g' where "dispose_loop cs ns g1 = Some g'" "live g' = live g1 |` (- set (owned cs ns))" "fresh g' = fresh g1"
      using Cons.IH [of g1] Cons.prems(1) n by auto
    then show ?thesis using True free
      by (auto simp: n g1_def restrict_map_def fun_eq_iff)
  next
    case False
    have "distinct (heap_addrs ns)" "set (heap_addrs ns) \<subseteq> set (heap_addrs (n # ns))" "owned (c # cs) (n # ns) = owned cs ns"
      using Cons.prems(1) False by (cases n; auto)+
    with Cons.IH [of g] Cons.prems(2) False show ?thesis by auto
  qed
qed

lemma dispose_ok:
  assumes "headers_wf hp h"
  shows "\<exists>hp'. disposeHeaderNames h hp = Some hp' \<and>
    live hp' = live hp |` (- set (owned (codes h) (headerNames h))) \<and> fresh hp' = fresh hp"
  using dispose_loop_ok [of hp "codes h" "headerNames h" hp] assms by (simp add: headers_wf_def disposeHeaderNames_def)

text \<open>An object is not touched when blocks are freed that it has no name in.\<close>

lemma headers_wf_restrict:
  assumes wf: "headers_wf hp h" and live: "live hp' = live hp |` (- X)" and X: "X \<inter> set (heap_addrs (headerNames h)) = {}"
  shows "headers_wf hp' h \<and> entries hp' h = entries hp h"
proof -
  have deref: "deref_name hp' p = deref_name hp p" if "p \<in> set (headerNames h)" for p
  proof (cases p)
    case (Heap a)
    then have "a \<notin> X" using X that heap_addrs_iff by blast
    then show ?thesis by (simp add: Heap deref_name_def live restrict_map_def)
  qed (simp_all add: deref_name_def)
  have "list_all2 (name_ok hp') (codes h) (headerNames h)"
    using wf deref by (simp add: headers_wf_def list_all2_conv_all_nth name_ok_def ptr_ok_def)
  moreover have "name_text hp' p = name_text hp p" if "p \<in> set (headerNames h)" for p
    using deref [OF that] by (simp add: name_text_def)
  then have "entries hp' h = entries hp h" unfolding entries_def by (rule entries_of_cong)
  ultimately show ?thesis using wf by (simp add: headers_wf_def)
qed

lemma entries_of_names:
  "length cs = length ns \<Longrightarrow> length ns = length vs \<Longrightarrow> map (name_text hp') ms = map (name_text hp) ns \<Longrightarrow>
     entries_of hp' cs ms vs = entries_of hp cs ns vs"
proof (induction cs ns vs arbitrary: ms rule: list_induct3)
  case (Cons c cs n ns v vs)
  then show ?case by (cases ms) auto
qed simp

lemma copy_step:
  assumes "ptr_ok hp n"
  shows "\<exists>s. deref_name hp n = Some (cstr s) \<and> NUL \<notin> set s \<and> length s < 2 ^ 63 \<and> name_text hp n = s \<and>
    memread (cstr s) 0 (strlen (cstr s)) = Some s \<and> memcpy (calloc (strlen (cstr s) + 1)) 0 s = Some (cstr s)"
proof -
  obtain s where s: "deref_name hp n = Some (cstr s)" "NUL \<notin> set s" "length s < 2 ^ 63"
    using assms by (auto simp: ptr_ok_def)
  then show ?thesis
    using strlen_cstr [OF s(2)] name_text_ok [OF s(1,2)]
    by (simp add: memread_def memcpy_def calloc_def cstr_def replicate_append_same [symmetric])
qed

text \<open>
  The names of a copy: the same texts, and for the names that are not common a new block each, so that neither
  object frees a block that the other one has a name in.
\<close>

lemma copy_loop_ok:
  assumes "list_all2 (name_ok hp) cs ns" and "distinct (heap_addrs ns)" and "heap_ok hp"
  shows "\<exists>hp' ms. copy_loop cs ns hp = Some (hp', ms) \<and> heap_ok hp' \<and> live hp \<subseteq>\<^sub>m live hp' \<and> fresh hp \<le> fresh hp' \<and>
    list_all2 (name_ok hp') cs ms \<and> map (name_text hp') ms = map (name_text hp) ns \<and> distinct (heap_addrs ms) \<and>
    set (heap_addrs ms) \<subseteq> set (heap_addrs ns) \<union> {fresh hp..} \<and>
    set (heap_addrs ms) \<inter> set (owned cs ns) = {} \<and> set (owned cs ms) \<subseteq> {fresh hp..}"
  using list_all2_lengthD [OF assms(1)] assms
proof (induction cs ns arbitrary: hp rule: list_induct2)
  case Nil
  then show ?case by simp
next
  case (Cons c cs n ns)
  have n: "name_ok hp c n" and ns: "list_all2 (name_ok hp) cs ns" using Cons.prems(1) by simp_all
  then obtain s where s: "deref_name hp n = Some (cstr s)" "NUL \<notin> set s" "length s < 2 ^ 63" "name_text hp n = s"
    and m: "memread (cstr s) 0 (strlen (cstr s)) = Some s" "memcpy (calloc (strlen (cstr s) + 1)) 0 s = Some (cstr s)"
    using copy_step [of hp n] by (auto simp: name_ok_def)
  define hp1 where "hp1 = snd (heap_alloc (cstr s) hp)"
  have alloc: "heap_alloc (cstr s) hp = (fresh hp, hp1)" by (simp add: hp1_def heap_alloc_def)
  have hp1: "heap_ok hp1" "live hp \<subseteq>\<^sub>m live hp1" "fresh hp1 = Suc (fresh hp)" "live hp1 (fresh hp) = Some (cstr s)"
    using heap_alloc_ok [OF Cons.prems(3)] heap_alloc_le [OF Cons.prems(3)]
    by (simp_all add: hp1_def heap_alloc_def)
  have ns1: "list_all2 (name_ok hp1) cs ns" by (rule list_all2_mono [OF ns]) (rule name_ok_mono [OF _ hp1(2)])
  have texts: "map (name_text hp1) ns = map (name_text hp) ns"
    using ns ptr_ok_mono [OF _ hp1(2)] by (auto simp: list_all2_conv_all_nth name_ok_def in_set_conv_nth)
  have old: "a < fresh hp" if "a \<in> set (heap_addrs (n # ns))" for a
  proof -
    from that have "Heap a \<in> set (n # ns)" unfolding heap_addrs_iff .
    then have "ptr_ok hp (Heap a)" using n ns by (auto simp: list_all2_conv_all_nth name_ok_def in_set_conv_nth)
    then show ?thesis using Cons.prems(3) by (auto simp: ptr_ok_def deref_name_def heap_ok_def)
  qed
  have dist: "distinct (heap_addrs ns)" using Cons.prems(2) by (cases n) auto
  obtain hp' ms where IH: "copy_loop cs ns hp1 = Some (hp', ms)" "heap_ok hp'" "live hp1 \<subseteq>\<^sub>m live hp'"
    "fresh hp1 \<le> fresh hp'" "list_all2 (name_ok hp') cs ms" "map (name_text hp') ms = map (name_text hp1) ns"
    "distinct (heap_addrs ms)" "set (heap_addrs ms) \<subseteq> set (heap_addrs ns) \<union> {fresh hp1..}"
    "set (heap_addrs ms) \<inter> set (owned cs ns) = {}" "set (owned cs ms) \<subseteq> {fresh hp1..}"
    using Cons.IH [OF ns1 dist hp1(1)] by blast
  define m' where "m' = (if c = HTTP_HEADER_OTHER then Heap (fresh hp) else n)"
  have loop: "copy_loop (c # cs) (n # ns) hp = Some (hp', m' # ms)"
    using s m alloc IH(1) by (simp add: m'_def)
  have le: "live hp \<subseteq>\<^sub>m live hp'" using hp1(2) IH(3) by (rule map_le_trans)
  have m'_ok: "name_ok hp' c m'" and m'_text: "name_text hp' m' = name_text hp n"
  proof -
    have "deref_name hp1 (Heap (fresh hp)) = Some (cstr s)" using hp1(4) by (simp add: deref_name_def)
    from deref_mono [OF this IH(3)] have d: "deref_name hp' (Heap (fresh hp)) = Some (cstr s)" .
    show "name_ok hp' c m'" using d s n name_ok_mono [OF n le] by (auto simp: m'_def name_ok_def ptr_ok_def)
    show "name_text hp' m' = name_text hp n"
      using name_text_ok [OF d s(2)] s(4) ptr_ok_mono [OF _ le, of n] n by (simp add: m'_def name_ok_def)
  qed
  have addrs: "set (heap_addrs ms) \<subseteq> set (heap_addrs ns) \<union> {Suc (fresh hp)..}" using IH(8) hp1(3) by simp
  have new: "fresh hp \<notin> set (heap_addrs ms)" using addrs old by (cases n) fastforce+
  have head: "a \<notin> set (heap_addrs ms)" "a \<notin> set (owned cs ns)" "a < fresh hp" if "n = Heap a" for a
    using that addrs old [of a] Cons.prems(2) owned_addrs [of cs ns] by auto
  have own: "set (owned cs ns) \<subseteq> {..<fresh hp}" "set (owned cs ms) \<subseteq> {fresh hp..}"
    using owned_addrs [of cs ns] old IH(10) hp1(3) by (cases n; fastforce)+
  have "distinct (heap_addrs (m' # ms)) \<and> set (heap_addrs (m' # ms)) \<subseteq> set (heap_addrs (n # ns)) \<union> {fresh hp..} \<and>
    set (heap_addrs (m' # ms)) \<inter> set (owned (c # cs) (n # ns)) = {} \<and> set (owned (c # cs) (m' # ms)) \<subseteq> {fresh hp..}"
  proof (cases "c = HTTP_HEADER_OTHER")
    case True
    then obtain a where a: "n = Heap a" using n by (auto simp: name_ok_def)
    show ?thesis using True new head [OF a] own IH(7,9) addrs by (auto simp: m'_def a)
  next
    case False
    then show ?thesis using head own IH(7,9) addrs by (cases n) (auto simp: m'_def)
  qed
  with loop le IH(2,4,5,6) hp1(3) m'_ok m'_text texts show ?case by simp
qed

text \<open>
  C40. Copies are independent. Copying well-formed headers succeeds and gives well-formed headers with the same
  contents. After that either of the two objects can be destroyed: the destructor frees only blocks that are
  allocated, and the other object is still well formed and still holds the same headers.
\<close>

theorem copies_independent:
  assumes "headers_wf hp h" and "heap_ok hp"
  shows "\<exists>hp1 h1 hp2 hp3. copy_headers h hp = Some (hp1, h1) \<and> headers_wf hp1 h1 \<and> entries hp1 h1 = entries hp h \<and>
    disposeHeaderNames h1 hp1 = Some hp2 \<and> headers_wf hp2 h \<and> entries hp2 h = entries hp h \<and>
    disposeHeaderNames h hp1 = Some hp3 \<and> headers_wf hp3 h1 \<and> entries hp3 h1 = entries hp h"
proof -
  have len: "length (codes h) = length (headerNames h)" "length (headerNames h) = length (headerValues h)"
    and names: "list_all2 (name_ok hp) (codes h) (headerNames h)" "distinct (heap_addrs (headerNames h))"
    using assms(1) by (auto simp: headers_wf_def dest: list_all2_lengthD)
  obtain hp1 ms where loop: "copy_loop (codes h) (headerNames h) hp = Some (hp1, ms)" "live hp \<subseteq>\<^sub>m live hp1"
    and ms: "list_all2 (name_ok hp1) (codes h) ms" "map (name_text hp1) ms = map (name_text hp) (headerNames h)"
      "distinct (heap_addrs ms)"
    and disj: "set (heap_addrs ms) \<inter> set (owned (codes h) (headerNames h)) = {}" "set (owned (codes h) ms) \<subseteq> {fresh hp..}"
    using copy_loop_ok [OF names assms(2)] by blast
  define h1 where "h1 = h\<lparr>headerNames := ms\<rparr>"
  have copy: "copy_headers h hp = Some (hp1, h1)" using loop(1) by (simp add: copy_headers_def h1_def)
  have wf1: "headers_wf hp1 h1" using assms(1) ms by (simp add: headers_wf_def h1_def)
  have ent1: "entries hp1 h1 = entries hp h"
    unfolding entries_def h1_def using entries_of_names [OF len ms(2)] by simp
  have wf: "headers_wf hp1 h" "entries hp1 h = entries hp h"
    using headers_wf_mono [OF assms(1) loop(2)] by simp_all
  obtain hp2 where hp2: "disposeHeaderNames h1 hp1 = Some hp2" "live hp2 = live hp1 |` (- set (owned (codes h) ms))"
    using dispose_ok [OF wf1] by (auto simp: h1_def)
  have "set (owned (codes h) ms) \<inter> set (heap_addrs (headerNames h)) = {}"
  proof -
    have "a < fresh hp" if "a \<in> set (heap_addrs (headerNames h))" for a
      using heap_addr_live [OF assms(1) that] assms(2) by (auto simp: heap_ok_def)
    then show ?thesis using disj(2) by fastforce
  qed
  from headers_wf_restrict [OF wf(1) hp2(2) this] have rest: "headers_wf hp2 h" "entries hp2 h = entries hp h"
    using wf(2) by simp_all
  obtain hp3 where hp3: "disposeHeaderNames h hp1 = Some hp3"
    "live hp3 = live hp1 |` (- set (owned (codes h) (headerNames h)))"
    using dispose_ok [OF wf(1)] by blast
  have "set (owned (codes h) (headerNames h)) \<inter> set (heap_addrs (headerNames h1)) = {}"
    using disj(1) by (auto simp: h1_def)
  from headers_wf_restrict [OF wf1 hp3(2) this] have "headers_wf hp3 h1" "entries hp3 h1 = entries hp h"
    using ent1 by simp_all
  with copy wf1 ent1 hp2(1) rest hp3(1) show ?thesis by blast
qed

definition sample_heap :: heap where
  "sample_heap = \<lparr>live = [0 \<mapsto> cstr ''X-A''], fresh = 1\<rparr>"

definition sample_headers :: HttpHeaders where
  "sample_headers = \<lparr>codes = [HTTP_HEADER_OTHER, HTTP_HEADER_HOST], headerNames = [Heap 0, Common HTTP_HEADER_HOST],
     headerValues = [''1'', ''2''], codes_deleted = 0\<rparr>"

lemma sample_ok: "heap_ok sample_heap" "headers_wf sample_heap sample_headers"
  "entries sample_heap sample_headers = [(HTTP_HEADER_OTHER, ''X-A'', ''1''), (HTTP_HEADER_HOST, header_name HTTP_HEADER_HOST, ''2'')]"
proof -
  have "deref_name sample_heap (Heap 0) = Some (cstr ''X-A'')" by (simp add: deref_name_def sample_heap_def)
  then have x: "name_ok sample_heap HTTP_HEADER_OTHER (Heap 0)" "name_text sample_heap (Heap 0) = ''X-A''"
    by (auto simp: name_ok_def ptr_ok_def name_text_ok)
  have "common_name HTTP_HEADER_HOST = Some (Common HTTP_HEADER_HOST) \<and>
      name_ok sample_heap HTTP_HEADER_HOST (Common HTTP_HEADER_HOST) \<and>
      name_text sample_heap (Common HTTP_HEADER_HOST) = header_name HTTP_HEADER_HOST"
    by (rule common_name_ok) simp_all
  with x show "headers_wf sample_heap sample_headers"
    "entries sample_heap sample_headers = [(HTTP_HEADER_OTHER, ''X-A'', ''1''), (HTTP_HEADER_HOST, header_name HTTP_HEADER_HOST, ''2'')]"
    by (simp_all add: headers_wf_def sample_headers_def entries_def)
  show "heap_ok sample_heap" by (simp add: heap_ok_def sample_heap_def)
qed

theorem copies_independent_witness:
  "\<exists>hp1 h1 hp2. copy_headers sample_headers sample_heap = Some (hp1, h1) \<and>
    disposeHeaderNames h1 hp1 = Some hp2 \<and>
    entries hp2 sample_headers = [(HTTP_HEADER_OTHER, ''X-A'', ''1''), (HTTP_HEADER_HOST, header_name HTTP_HEADER_HOST, ''2'')]"
  using copies_independent [OF sample_ok(2,1)] unfolding sample_ok(3) by blast

text \<open>The move constructor hands the vectors over and leaves an empty object, without touching the heap.\<close>

lemma move_headers_ok: "move_headers h hp = Some (hp, h, new_headers)"
  by (simp add: move_headers_def clearAll_def disposeHeaderNames_def)

subsection \<open>Printing\<close>

definition header_line :: "string \<Rightarrow> string \<Rightarrow> string" where
  "header_line n v = n @ '': '' @ v @ [CHR 0x0D, CHR 0x0A]"

lemma dump_loop_ok:
  assumes "length ns = length vs" and "\<And>p. p \<in> set ns \<Longrightarrow> ptr_ok hp p"
  shows "dump_loop hp ns vs = Some (concat (map2 (\<lambda>p v. header_line (name_text hp p) v) ns vs))"
  using assms
proof (induction ns vs rule: list_induct2)
  case (Cons n ns v vs)
  obtain s where "deref_name hp n = Some (cstr s)" "name_text hp n = s" "memread (cstr s) 0 (strlen (cstr s)) = Some s"
    using copy_step [of hp n] Cons.prems by auto
  with Cons show ?case by (simp add: header_line_def)
qed simp

text \<open>
  With no removed header \<open>dump\<close> prints the headers line by line and an empty line; with no headers at all it prints
  nothing.
\<close>

lemma dump_ok:
  assumes wf: "headers_wf hp h" and "codes h \<noteq> []" and "codes_deleted h = 0"
  shows "dump hp h = Some (concat (map (\<lambda>(c, n, v). header_line n v) (entries hp h)) @ [CHR 0x0D, CHR 0x0A])"
proof -
  have len: "length (codes h) = length (headerNames h)" "length (headerNames h) = length (headerValues h)"
    and names: "list_all2 (name_ok hp) (codes h) (headerNames h)"
    using wf by (auto simp: headers_wf_def dest: list_all2_lengthD)
  have ok: "ptr_ok hp p" if "p \<in> set (headerNames h)" for p
    using names that by (auto simp: list_all2_conv_all_nth in_set_conv_nth name_ok_def)
  have "HTTP_HEADER_NONE \<notin> set (codes h)"
    using wf assms(3) by (simp add: headers_wf_def count_list_0_iff)
  moreover have "map (\<lambda>(c, n, v). header_line n v) (entries_of hp cs ns vs) =
      map2 (\<lambda>p v. header_line (name_text hp p) v) ns vs"
    if "length cs = length ns" "length ns = length vs" "HTTP_HEADER_NONE \<notin> set cs" for cs ns vs
    using that by (induction cs ns vs rule: list_induct3) auto
  ultimately have "map (\<lambda>(c, n, v). header_line n v) (entries_of hp (codes h) (headerNames h) (headerValues h)) =
      map2 (\<lambda>p v. header_line (name_text hp p) v) (headerNames h) (headerValues h)"
    using len by blast
  then show ?thesis
    using dump_loop_ok [OF len(2) ok] assms(2) len by (auto simp: dump_def entries_def)
qed

text \<open>
  Two ways in which removal and the rest of the class disagree: \<open>dump\<close> still prints a removed header, and removing
  \<open>HTTP_HEADER_NONE\<close> counts the removed headers once more.
\<close>

lemma iterateOverCodes_end: "length (codes (fst st)) \<le> i \<Longrightarrow> iterateOverCodes code func i st = Some st"
  by (subst iterateOverCodes_step) simp

lemma remove_host_sample:
  "remove_code HTTP_HEADER_HOST sample_headers =
     Some (sample_headers\<lparr>codes := [HTTP_HEADER_OTHER, HTTP_HEADER_NONE], codes_deleted := 1\<rparr>, True)"
  unfolding remove_code_def
  by (subst iterateOverCodes_step, subst iterateOverCodes_step)
    (simp add: sample_headers_def mark_removed_def uint_simps iterateOverCodes_end)

lemma dump_prints_removed:
  "\<exists>h'. remove_code HTTP_HEADER_HOST sample_headers = Some (h', True) \<and> headers_size h' = 1 \<and>
     dump sample_heap h' = dump sample_heap sample_headers"
  by (intro exI conjI, rule remove_host_sample) (simp_all add: headers_size_def dump_def uint_simps)

lemma remove_none_miscounts:
  "\<exists>h1 h2. remove_code HTTP_HEADER_HOST sample_headers = Some (h1, True) \<and>
     remove_code HTTP_HEADER_NONE h1 = Some (h2, True) \<and> headers_size h1 = 1 \<and> headers_size h2 = 0"
proof -
  define h1 where "h1 = sample_headers\<lparr>codes := [HTTP_HEADER_OTHER, HTTP_HEADER_NONE], codes_deleted := 1\<rparr>"
  have "remove_code HTTP_HEADER_NONE h1 = Some (h1\<lparr>codes_deleted := 2\<rparr>, True)"
    unfolding remove_code_def
    by (subst iterateOverCodes_step, subst iterateOverCodes_step)
      (simp add: h1_def sample_headers_def mark_removed_def uint_simps iterateOverCodes_end)
  then show ?thesis
    using remove_host_sample by (simp add: h1_def headers_size_def sample_headers_def uint_simps)
qed

end
