(* ===== verification/Thread_Pool.thy ===== *)
theory Thread_Pool
  imports Unp_Prelude "HOL-Library.Multiset"
begin

text \<open>
  \<open>thread_pool\<close> of \<open>src/thread/thread_pool.cpp\<close>: clients put tasks into a bounded deque, worker threads take them out
  and run them, under one mutex with two condition variables. The threads are modelled with a program counter each,
  one step per statement that touches shared state, in any interleaving; a condition variable is the set of threads
  whose program counter says that they wait for it, notification wakes any one of them, and spurious wake-ups are
  allowed. A task is opaque; running it has no effect on the pool.
\<close>

subsection \<open>State\<close>

text \<open>
  Program counters: outside of the pool, in \<open>add_task\<close>, in \<open>default_routine\<close>. The argument is the local copy of the
  task.
\<close>

datatype 'a pc =
    Client
  | Add_lock 'a | Add_check 'a | Add_waiting 'a | Add_woken 'a | Add_push 'a | Add_notify | Add_unlock
  | W_loop | W_lock | W_check | W_waiting | W_woken | W_front | W_pop 'a | W_notify 'a | W_unlock 'a | W_run 'a
  | W_test | W_end

text \<open>
  The last three fields are the history that the properties speak about: the tasks put into the deque, taken out of
  it, and run to their end.
\<close>

record 'a thread_pool =
  n_of_threads :: nat
  running :: bool
  mutex :: "nat option"
  tasks :: "'a list"
  threads :: "nat list"
  canceled :: "nat set"
  pcs :: "'a pc list"
  pushed :: "'a list"
  popped :: "'a list"
  finished :: "'a list"

definition new_pool :: "nat \<Rightarrow> 'a pc list \<Rightarrow> 'a thread_pool" where
  "new_pool number_of_threads clients =
     \<lparr>n_of_threads = number_of_threads, running = False, mutex = None, tasks = [], threads = [], canceled = {},
      pcs = clients, pushed = [], popped = [], finished = []\<rparr>"

definition has_task :: "'a thread_pool \<Rightarrow> bool" where
  "has_task s \<longleftrightarrow> tasks s \<noteq> []"

definition deque_full :: "'a thread_pool \<Rightarrow> bool" where
  "deque_full s \<longleftrightarrow> length (tasks s) > 1000"

definition goto :: "nat \<Rightarrow> 'a pc \<Rightarrow> 'a thread_pool \<Rightarrow> 'a thread_pool" where
  "goto i p s = s\<lparr>pcs := (pcs s)[i := p]\<rparr>"

definition lock_as :: "nat option \<Rightarrow> 'a thread_pool \<Rightarrow> 'a thread_pool" where
  "lock_as m s = s\<lparr>mutex := m\<rparr>"

definition at_pc :: "'a thread_pool \<Rightarrow> nat \<Rightarrow> 'a pc \<Rightarrow> bool" where
  "at_pc s i p \<longleftrightarrow> i < length (pcs s) \<and> pcs s ! i = p"

subsection \<open>Clients: \<open>add_task\<close>\<close>

inductive add_task :: "nat \<Rightarrow> 'a thread_pool \<Rightarrow> 'a thread_pool \<Rightarrow> bool" where
  call: "at_pc s i Client \<Longrightarrow> add_task i s (goto i (Add_lock t) s)"
| lock: "at_pc s i (Add_lock t) \<Longrightarrow> mutex s = None \<Longrightarrow> add_task i s (lock_as (Some i) (goto i (Add_check t) s))"
| full: "at_pc s i (Add_check t) \<Longrightarrow> deque_full s \<Longrightarrow> add_task i s (lock_as None (goto i (Add_waiting t) s))"
| spurious: "at_pc s i (Add_waiting t) \<Longrightarrow> add_task i s (goto i (Add_woken t) s)"
| relock: "at_pc s i (Add_woken t) \<Longrightarrow> mutex s = None \<Longrightarrow> add_task i s (lock_as (Some i) (goto i (Add_check t) s))"
| space: "at_pc s i (Add_check t) \<Longrightarrow> \<not> deque_full s \<Longrightarrow> add_task i s (goto i (Add_push t) s)"
| push: "at_pc s i (Add_push t) \<Longrightarrow>
    add_task i s ((goto i Add_notify s)\<lparr>tasks := tasks s @ [t], pushed := pushed s @ [t]\<rparr>)"
| notify_one: "at_pc s i Add_notify \<Longrightarrow> at_pc s j W_waiting \<Longrightarrow> add_task i s (goto i Add_unlock (goto j W_woken s))"
| notify_none: "at_pc s i Add_notify \<Longrightarrow> \<forall>j. \<not> at_pc s j W_waiting \<Longrightarrow> add_task i s (goto i Add_unlock s)"
| unlock: "at_pc s i Add_unlock \<Longrightarrow> add_task i s (lock_as None (goto i Client s))"

subsection \<open>Workers: \<open>default_routine\<close>\<close>

text \<open>
  Cancellation is disabled from before the task is taken until after it has run. A thread that waits for a task can
  be cancelled: it gets the mutex back and the clean-up handler releases it again, in one step here.
\<close>

inductive default_routine :: "nat \<Rightarrow> 'a thread_pool \<Rightarrow> 'a thread_pool \<Rightarrow> bool" where
  go_on: "at_pc s i W_loop \<Longrightarrow> running s \<Longrightarrow> default_routine i s (goto i W_lock s)"
| leave: "at_pc s i W_loop \<Longrightarrow> \<not> running s \<Longrightarrow> default_routine i s (goto i W_end s)"
| lock: "at_pc s i W_lock \<Longrightarrow> mutex s = None \<Longrightarrow> default_routine i s (lock_as (Some i) (goto i W_check s))"
| no_task: "at_pc s i W_check \<Longrightarrow> \<not> has_task s \<Longrightarrow> default_routine i s (lock_as None (goto i W_waiting s))"
| spurious: "at_pc s i W_waiting \<Longrightarrow> default_routine i s (goto i W_woken s)"
| relock: "at_pc s i W_woken \<Longrightarrow> mutex s = None \<Longrightarrow> default_routine i s (lock_as (Some i) (goto i W_check s))"
| cancel_wait: "at_pc s i W_waiting \<or> at_pc s i W_woken \<Longrightarrow> i \<in> canceled s \<Longrightarrow> mutex s = None \<Longrightarrow>
    default_routine i s (goto i W_end s)"
| task: "at_pc s i W_check \<Longrightarrow> has_task s \<Longrightarrow> default_routine i s (goto i W_front s)"
| front: "at_pc s i W_front \<Longrightarrow> tasks s = t # ts \<Longrightarrow> default_routine i s (goto i (W_pop t) s)"
| pop: "at_pc s i (W_pop t) \<Longrightarrow> tasks s = u # ts \<Longrightarrow>
    default_routine i s ((goto i (W_notify t) s)\<lparr>tasks := ts, popped := popped s @ [t]\<rparr>)"
| notify_one: "at_pc s i (W_notify t) \<Longrightarrow> at_pc s j (Add_waiting u) \<Longrightarrow>
    default_routine i s (goto i (W_unlock t) (goto j (Add_woken u) s))"
| notify_none: "at_pc s i (W_notify t) \<Longrightarrow> \<forall>j u. \<not> at_pc s j (Add_waiting u) \<Longrightarrow>
    default_routine i s (goto i (W_unlock t) s)"
| unlock: "at_pc s i (W_unlock t) \<Longrightarrow> default_routine i s (lock_as None (goto i (W_run t) s))"
| run: "at_pc s i (W_run t) \<Longrightarrow> default_routine i s ((goto i W_test s)\<lparr>finished := finished s @ [t]\<rparr>)"
| test_cancel: "at_pc s i W_test \<Longrightarrow> i \<in> canceled s \<Longrightarrow> default_routine i s (goto i W_end s)"
| again: "at_pc s i W_test \<Longrightarrow> i \<notin> canceled s \<Longrightarrow> default_routine i s (goto i W_loop s)"

subsection \<open>Control\<close>

text \<open>\<open>start\<close> creates the threads.\<close>

definition initialize :: "'a thread_pool \<Rightarrow> 'a thread_pool" where
  "initialize s = s\<lparr>pcs := pcs s @ replicate (n_of_threads s) W_loop,
     threads := threads s @ [length (pcs s)..<length (pcs s) + n_of_threads s]\<rparr>"

definition start :: "'a thread_pool \<Rightarrow> 'a thread_pool" where
  "start s = initialize (s\<lparr>running := True\<rparr>)"

text \<open>\<open>notify_all\<close> on both condition variables.\<close>

definition wake :: "'a pc \<Rightarrow> 'a pc" where
  "wake p = (case p of W_waiting \<Rightarrow> W_woken | Add_waiting t \<Rightarrow> Add_woken t | _ \<Rightarrow> p)"

definition stop :: "'a thread_pool \<Rightarrow> 'a thread_pool" where
  "stop s = s\<lparr>running := False, pcs := map wake (pcs s)\<rparr>"

definition cancel :: "'a thread_pool \<Rightarrow> 'a thread_pool" where
  "cancel s = (if running s then s\<lparr>canceled := canceled s \<union> set (threads s)\<rparr> else s)"

text \<open>\<open>wait\<close> without a timeout returns when all threads have ended; with a timeout it stops the pool.\<close>

definition joined :: "'a thread_pool \<Rightarrow> bool" where
  "joined s \<longleftrightarrow> list_all (\<lambda>i. at_pc s i W_end) (threads s)"

definition set_num_of_threads :: "nat \<Rightarrow> 'a thread_pool \<Rightarrow> 'a thread_pool" where
  "set_num_of_threads n s = s\<lparr>n_of_threads := n\<rparr>"

inductive pool_step :: "'a thread_pool \<Rightarrow> 'a thread_pool \<Rightarrow> bool" where
  "add_task i s s' \<Longrightarrow> pool_step s s'"
| "default_routine i s s' \<Longrightarrow> pool_step s s'"
| "pool_step s (start s)"
| "pool_step s (stop s)"
| "pool_step s (cancel s)"
| "pool_step s (set_num_of_threads n s)"

inductive reachable :: "'a thread_pool \<Rightarrow> bool" where
  init: "set clients \<subseteq> {Client} \<Longrightarrow> reachable (new_pool n clients)"
| step: "reachable s \<Longrightarrow> pool_step s s' \<Longrightarrow> reachable s'"

subsection \<open>Invariant\<close>

text \<open>The program counters at which a thread holds the mutex, and the task that a thread has taken and not yet run.\<close>

definition holds :: "'a pc \<Rightarrow> bool" where
  "holds p = (case p of
      Add_check _ \<Rightarrow> True | Add_push _ \<Rightarrow> True | Add_notify \<Rightarrow> True | Add_unlock \<Rightarrow> True
    | W_check \<Rightarrow> True | W_front \<Rightarrow> True | W_pop _ \<Rightarrow> True | W_notify _ \<Rightarrow> True | W_unlock _ \<Rightarrow> True | _ \<Rightarrow> False)"

definition taken :: "'a pc \<Rightarrow> 'a list" where
  "taken p = (case p of W_notify t \<Rightarrow> [t] | W_unlock t \<Rightarrow> [t] | W_run t \<Rightarrow> [t] | _ \<Rightarrow> [])"

text \<open>What a thread knows about the deque while it holds the mutex.\<close>

definition knows :: "'a pc \<Rightarrow> 'a list \<Rightarrow> bool" where
  "knows p ts = (case p of
      Add_push _ \<Rightarrow> length ts \<le> 1000
    | W_front \<Rightarrow> ts \<noteq> []
    | W_pop t \<Rightarrow> ts \<noteq> [] \<and> hd ts = t
    | _ \<Rightarrow> True)"

definition pool_inv :: "'a thread_pool \<Rightarrow> bool" where
  "pool_inv s \<longleftrightarrow>
     (\<forall>i < length (pcs s). holds (pcs s ! i) \<longleftrightarrow> mutex s = Some i) \<and>
     (\<forall>i. mutex s = Some i \<longrightarrow> i < length (pcs s)) \<and>
     (\<forall>i < length (pcs s). knows (pcs s ! i) (tasks s)) \<and>
     length (tasks s) \<le> 1001 \<and>
     pushed s = popped s @ tasks s \<and>
     mset (popped s) = mset (finished s) + mset (concat (map taken (pcs s)))"

lemmas pc_defs = holds_def taken_def knows_def

lemma mset_concat_update:
  "i < length xss \<Longrightarrow> mset (concat (xss[i := ys])) + mset (xss ! i) = mset (concat xss) + mset ys"
proof (induction xss arbitrary: i)
  case (Cons xs xss)
  then show ?case by (cases i) auto
qed simp

lemma knows_free: "\<not> holds p \<Longrightarrow> knows p ts"
  by (cases p) (simp_all add: pc_defs)

lemma inv_only_holder:
  "pool_inv s \<Longrightarrow> at_pc s i p \<Longrightarrow> holds p \<Longrightarrow> j < length (pcs s) \<Longrightarrow> j \<noteq> i \<Longrightarrow> \<not> holds (pcs s ! j)"
  by (auto simp: pool_inv_def at_pc_def)

lemma taken_update:
  assumes "at_pc s i p" and "taken q = taken p"
  shows "concat (map taken ((pcs s)[i := q])) = concat (map taken (pcs s))"
proof -
  have "(map taken (pcs s))[i := taken p] = map taken (pcs s)"
    using assms(1) by (metis at_pc_def list_update_id map_update)
  then show ?thesis using assms(2) by (simp add: map_update)
qed

text \<open>The kinds of steps: within or outside of the critical section, into it, and out of it.\<close>

lemma inv_goto:
  assumes "pool_inv s" and "at_pc s i p" and "holds q = holds p" and "taken q = taken p" and "knows q (tasks s)"
  shows "pool_inv (goto i q s)"
  using assms taken_update [OF assms(2,4)]
  by (auto simp: pool_inv_def goto_def at_pc_def nth_list_update)

lemma inv_lock:
  assumes "pool_inv s" and "at_pc s i p" and "mutex s = None" and "holds q" and "taken q = taken p"
    and "knows q (tasks s)"
  shows "pool_inv (lock_as (Some i) (goto i q s))"
  using assms taken_update [OF assms(2,5)]
  by (auto simp: pool_inv_def goto_def lock_as_def at_pc_def nth_list_update)

lemma inv_unlock:
  assumes "pool_inv s" and "at_pc s i p" and "holds p" and "\<not> holds q" and "taken q = taken p"
  shows "pool_inv (lock_as None (goto i q s))"
  using assms taken_update [OF assms(2,5)] inv_only_holder [OF assms(1-3)] knows_free [OF assms(4)]
  by (auto simp: pool_inv_def goto_def lock_as_def at_pc_def nth_list_update)

lemma inv_push:
  assumes "pool_inv s" and "at_pc s i (Add_push t)"
  shows "pool_inv ((goto i Add_notify s)\<lparr>tasks := tasks s @ [t], pushed := pushed s @ [t]\<rparr>)"
proof -
  have "holds (Add_push t)" "knows (Add_push t) (tasks s)"
    using assms by (auto simp: pc_defs pool_inv_def at_pc_def)
  moreover have "taken Add_notify = taken (Add_push t)" by (simp add: pc_defs)
  moreover have "knows Add_notify ts" "holds Add_notify" for ts by (simp_all add: pc_defs)
  ultimately show ?thesis
    using assms taken_update [OF assms(2), of Add_notify] inv_only_holder [OF assms] knows_free
    by (auto simp: pool_inv_def goto_def at_pc_def nth_list_update knows_def)
qed

lemma inv_pop:
  assumes "pool_inv s" and "at_pc s i (W_pop t)" and "tasks s = u # ts"
  shows "pool_inv ((goto i (W_notify t) s)\<lparr>tasks := ts, popped := popped s @ [t]\<rparr>)"
proof -
  have h: "holds (W_pop t)" "holds (W_notify t)" by (simp_all add: pc_defs)
  have i: "i < length (pcs s)" "pcs s ! i = W_pop t" using assms(2) by (simp_all add: at_pc_def)
  have u: "u = t" using assms(1,3) i by (auto simp: pool_inv_def knows_def)
  have "mset (concat (map taken ((pcs s)[i := W_notify t]))) = mset (concat (map taken (pcs s))) + {#t#}"
    using mset_concat_update [of i "map taken (pcs s)" "[t]"] i by (simp add: map_update taken_def)
  moreover have "knows (W_notify t) ts" by (simp add: pc_defs)
  ultimately show ?thesis
    using assms h u i inv_only_holder [OF assms(1,2)] knows_free
    by (auto simp: pool_inv_def goto_def nth_list_update)
qed

lemma inv_run:
  assumes "pool_inv s" and "at_pc s i (W_run t)"
  shows "pool_inv ((goto i W_test s)\<lparr>finished := finished s @ [t]\<rparr>)"
proof -
  have i: "i < length (pcs s)" "pcs s ! i = W_run t" using assms(2) by (simp_all add: at_pc_def)
  have "mset (concat (map taken ((pcs s)[i := W_test]))) + {#t#} = mset (concat (map taken (pcs s)))"
    using mset_concat_update [of i "map taken (pcs s)" "[]"] i by (simp add: map_update taken_def)
  moreover have "\<not> holds (W_run t)" "\<not> holds W_test" by (simp_all add: pc_defs)
  ultimately show ?thesis
    using assms(1) i knows_free [of W_test] unfolding pool_inv_def goto_def
    by (auto simp: nth_list_update)
qed

lemma add_task_inv: "add_task i s s' \<Longrightarrow> pool_inv s \<Longrightarrow> pool_inv s'"
proof (induction rule: add_task.induct)
  case (notify_one s i j)
  then have "pool_inv (goto j W_woken s)" by (intro inv_goto [of s j W_waiting]) (simp_all add: pc_defs)
  moreover have "at_pc (goto j W_woken s) i Add_notify"
    using notify_one by (auto simp: at_pc_def goto_def nth_list_update)
  ultimately show ?case by (rule inv_goto) (simp_all add: pc_defs)
next
  case (push s i t)
  then show ?case by (intro inv_push)
qed (auto intro: inv_goto inv_lock inv_unlock simp: pc_defs deque_full_def)

lemma default_routine_inv: "default_routine i s s' \<Longrightarrow> pool_inv s \<Longrightarrow> pool_inv s'"
proof (induction rule: default_routine.induct)
  case (notify_one s i t j u)
  then have "pool_inv (goto j (Add_woken u) s)" by (intro inv_goto [of s j "Add_waiting u"]) (simp_all add: pc_defs)
  moreover have "at_pc (goto j (Add_woken u) s) i (W_notify t)"
    using notify_one by (auto simp: at_pc_def goto_def nth_list_update)
  ultimately show ?case by (rule inv_goto) (simp_all add: pc_defs)
next
  case (pop s i t u ts)
  then show ?case by (intro inv_pop)
next
  case (run s i t)
  then show ?case by (intro inv_run)
next
  case (cancel_wait s i)
  then show ?case by (auto intro: inv_goto simp: pc_defs)
qed (auto intro: inv_goto inv_lock inv_unlock simp: pc_defs has_task_def)

lemma start_inv: "pool_inv s \<Longrightarrow> pool_inv (start s)"
  by (auto simp: pool_inv_def start_def initialize_def nth_append pc_defs)

lemma wake_simps [simp]: "holds (wake p) = holds p" "taken (wake p) = taken p" "knows (wake p) ts = knows p ts"
  by (cases p; simp add: pc_defs wake_def)+

lemma stop_inv: "pool_inv s \<Longrightarrow> pool_inv (stop s)"
  by (auto simp: pool_inv_def stop_def comp_def)

lemma pool_step_inv: "pool_step s s' \<Longrightarrow> pool_inv s \<Longrightarrow> pool_inv s'"
proof (induction rule: pool_step.induct)
  case (5 s)
  then show ?case by (simp add: pool_inv_def cancel_def)
next
  case (6 s n)
  then show ?case by (simp add: pool_inv_def set_num_of_threads_def)
qed (simp_all add: add_task_inv default_routine_inv start_inv stop_inv)

lemma reachable_inv: "reachable s \<Longrightarrow> pool_inv s"
proof (induction rule: reachable.induct)
  case (init clients n)
  then have "clients ! i = Client" if "i < length clients" for i using that nth_mem by blast
  moreover have "concat (map taken clients) = []" using init by (auto simp: taken_def)
  ultimately show ?case by (simp add: pool_inv_def new_pool_def pc_defs)
qed (rule pool_step_inv)

text \<open>
  C6. The thread pool runs its tasks. In every state that clients, workers, and calls of \<open>start\<close>, \<open>stop\<close> and \<open>cancel\<close>
  can reach in any interleaving: at most one thread is in a critical section; a worker that takes the front of the
  deque finds one there, and the task that it then removes is the one it copied; the deque holds exactly the tasks
  that were added and not yet taken, in the order in which they were added; and every task that was taken has been
  run once, or is held by exactly one thread that is about to run it.
\<close>

theorem thread_pool_safe:
  assumes "reachable s"
  shows "(\<forall>i j p q. at_pc s i p \<and> at_pc s j q \<and> holds p \<and> holds q \<longrightarrow> i = j) \<and>
    (\<forall>i. at_pc s i W_front \<longrightarrow> tasks s \<noteq> []) \<and>
    (\<forall>i t. at_pc s i (W_pop t) \<longrightarrow> (\<exists>ts. tasks s = t # ts)) \<and>
    pushed s = popped s @ tasks s \<and>
    mset (popped s) = mset (finished s) + mset (concat (map taken (pcs s)))"
proof -
  have inv: "pool_inv s" using assms by (rule reachable_inv)
  have "i = j" if "at_pc s i p" "at_pc s j q" "holds p" "holds q" for i j p q
    using that inv by (auto simp: pool_inv_def at_pc_def)
  moreover have "tasks s \<noteq> []" if "at_pc s i W_front" for i
    using that inv by (auto simp: pool_inv_def at_pc_def knows_def)
  moreover have "\<exists>ts. tasks s = t # ts" if "at_pc s i (W_pop t)" for i t
    using that inv by (cases "tasks s") (auto simp: pool_inv_def at_pc_def knows_def)
  ultimately show ?thesis using inv unfolding pool_inv_def by blast
qed

text \<open>
  C10. The deque is bounded: whatever the clients do, at most 1001 tasks wait in it. (The test for a full deque is
  \<open>size() > 1000\<close>, so the 1001st task is still accepted.)
\<close>

theorem deque_bounded:
  assumes "reachable s"
  shows "length (tasks s) \<le> 1001"
  using reachable_inv [OF assms] by (simp add: pool_inv_def)

text \<open>A run of one client and one worker up to the point where the worker has taken the task.\<close>

definition sample_pool :: "nat thread_pool" where
  "sample_pool = \<lparr>n_of_threads = 1, running = True, mutex = Some 0, tasks = [7], threads = [1], canceled = {},
     pcs = [Add_notify, W_loop], pushed = [7], popped = [], finished = []\<rparr>"

lemma sample_pool_reachable: "reachable sample_pool"
proof -
  define s0 :: "nat thread_pool" where "s0 = start (new_pool 1 [Client])"
  define s1 where "s1 = goto 0 (Add_lock 7) s0"
  define s2 where "s2 = lock_as (Some 0) (goto 0 (Add_check 7) s1)"
  define s3 where "s3 = goto 0 (Add_push 7) s2"
  note defs = s0_def s1_def s2_def s3_def start_def initialize_def new_pool_def goto_def lock_as_def at_pc_def
  have r0: "reachable s0" unfolding s0_def
    by (rule reachable.step [OF reachable.init pool_step.intros(3)]) simp
  have "add_task 0 s0 s1" unfolding s1_def by (rule add_task.call) (simp add: defs)
  then have r1: "reachable s1" using r0 by (blast intro: reachable.step pool_step.intros)
  have "add_task 0 s1 s2" unfolding s2_def by (rule add_task.lock) (simp_all add: defs)
  then have r2: "reachable s2" using r1 by (blast intro: reachable.step pool_step.intros)
  have "add_task 0 s2 s3" unfolding s3_def by (rule add_task.space) (simp_all add: defs deque_full_def)
  then have r3: "reachable s3" using r2 by (blast intro: reachable.step pool_step.intros)
  have "add_task 0 s3 ((goto 0 Add_notify s3)\<lparr>tasks := tasks s3 @ [7], pushed := pushed s3 @ [7]\<rparr>)"
    by (rule add_task.push) (simp add: defs)
  moreover have "(goto 0 Add_notify s3)\<lparr>tasks := tasks s3 @ [7], pushed := pushed s3 @ [7]\<rparr> = sample_pool"
    by (simp add: defs sample_pool_def)
  ultimately show ?thesis using r3 by (metis reachable.step pool_step.intros(1))
qed

theorem thread_pool_safe_witness:
  "pushed sample_pool = popped sample_pool @ tasks sample_pool \<and> tasks sample_pool = [7]"
  using thread_pool_safe [OF sample_pool_reachable] by (simp add: sample_pool_def)

theorem deque_bounded_witness: "length (tasks sample_pool) \<le> 1001"
  by (rule deque_bounded [OF sample_pool_reachable])

text \<open>
  A worker that waits for a task does not look at \<open>_running\<close>: after \<open>stop\<close>, with no further task, it never ends.
\<close>

lemma waiting_worker_stays:
  assumes "default_routine j s s'" and "tasks s = []" and "canceled s = {}"
    and "at_pc s i p" and "p \<in> {W_check, W_waiting, W_woken}"
  shows "tasks s' = [] \<and> canceled s' = {} \<and> (\<exists>p' \<in> {W_check, W_waiting, W_woken}. at_pc s' i p')"
  using assms
  by (induction rule: default_routine.induct)
    (auto simp: goto_def lock_as_def at_pc_def nth_list_update has_task_def)

lemma stop_leaves_waiting_workers:
  assumes "tasks s = []" and "canceled s = {}" and "at_pc s i W_waiting" and "(\<lambda>s s'. \<exists>j. default_routine j s s')\<^sup>*\<^sup>* (stop s) s'"
  shows "\<not> at_pc s' i W_end"
proof -
  have "tasks s' = [] \<and> canceled s' = {} \<and> (\<exists>p' \<in> {W_check, W_waiting, W_woken}. at_pc s' i p')"
    using assms(4)
  proof (induction rule: rtranclp_induct)
    case base
    then show ?case using assms(1-3) by (auto simp: stop_def at_pc_def wake_def)
  next
    case (step u v)
    then show ?case using waiting_worker_stays by metis
  qed
  then show ?thesis by (auto simp: at_pc_def)
qed

end
