(* ===== verification/Handle_Wait.thy ===== *)
theory Handle_Wait
  imports Select_Reactor
begin

text \<open>
  \<open>src/net/unp.cpp\<close>: waiting for one handle with \<open>::select\<close> or \<open>::poll\<close>, for readiness, for the end of a connect and for
  a connection to accept. What the system calls answer are parameters; \<open>errno\<close> is part of the results. A loop that
  restarts an interrupted call works off a list of answers; \<open>None\<close> is a call that is still blocked.
\<close>

unbundle bit_operations_syntax

definition ETIME :: int where "ETIME = 62"
definition EINVAL :: int where "EINVAL = 22"
definition EWOULDBLOCK :: int where "EWOULDBLOCK = 11"
definition ETIMEDOUT :: int where "ETIMEDOUT = 110"
definition POLLERR :: "32 word" where "POLLERR = 8"
definition POLLHUP :: "32 word" where "POLLHUP = 16"

subsection \<open>Readiness\<close>

text \<open>The select call is given the width, the three sets and the time; it answers a count, \<open>errno\<close> and the time left.\<close>

type_synonym select_call =
  "int \<Rightarrow> int set option \<Rightarrow> int set option \<Rightarrow> int set option \<Rightarrow> int \<times> int \<Rightarrow> int \<times> int \<times> int \<times> int"

definition timeval_to_duration :: "int \<times> int \<Rightarrow> int" where
  "timeval_to_duration tv = fst tv * 1000 * 1000 + snd tv"

definition handle_ready_using_select ::
  "select_call \<Rightarrow> int \<Rightarrow> int \<Rightarrow> bool \<Rightarrow> bool \<Rightarrow> bool \<Rightarrow> (int \<times> int \<times> int) option" where
  "handle_ready_using_select sel handle timeout read_ready write_ready exception_ready = do {
     s \<leftarrow> set_bit handle hs_reset;
     let ptr = (\<lambda>b. if b then Some (hs_bits s) else None);
     let (result, err, remain) =
       sel (handle + 1) (ptr read_ready) (ptr write_ready) (ptr exception_ready) (duration_to_timeval timeout);
     let timeout' = timeval_to_duration remain;
     Some (if result = 0 then (- 1, ETIME, timeout')
           else if result = - 1 then (- 1, err, timeout')
           else (result, err, timeout'))
   }"

text \<open>The poll call is given the events and the time in milliseconds; it answers a count, the events and \<open>errno\<close>.\<close>

type_synonym poll_call = "32 word \<Rightarrow> int \<Rightarrow> int \<times> 32 word \<times> int"

definition handle_ready_using_poll :: "poll_call \<Rightarrow> int \<Rightarrow> bool \<Rightarrow> bool \<Rightarrow> int \<times> int" where
  "handle_ready_using_poll poll timeout read_ready write_ready =
     (let events = (if read_ready then POLLIN else 0) OR (if write_ready then POLLOUT else 0);
          (result, revents, err) = poll events timeout
      in if result = 0 then (- 1, ETIME)
         else if result = - 1 then (- 1, err)
         else if result = 1 \<and> revents AND POLLHUP \<noteq> 0 then (- 1, err)
         else (result, err))"

subsection \<open>Connecting\<close>

text \<open>The last argument is what \<open>::getsockopt\<close> answers: its result and the error of the socket.\<close>

definition connect_result :: "int \<Rightarrow> bool \<Rightarrow> int \<times> int \<Rightarrow> int \<Rightarrow> int \<times> int" where
  "connect_result handle reported opt err =
     (if reported then
        if snd opt \<noteq> 0 then (INVALID_HANDLE, snd opt)
        else (if fst opt < 0 then INVALID_HANDLE else handle, err)
      else (handle, err))"

text \<open>The events asked for are set and then overwritten with 0.\<close>

definition handle_timed_connect_using_poll :: "poll_call \<Rightarrow> int \<Rightarrow> int option \<Rightarrow> int \<times> int \<Rightarrow> int \<times> int" where
  "handle_timed_connect_using_poll poll handle timeout opt =
     (let (n, revents, err) = poll 0 (case timeout of Some t \<Rightarrow> t | None \<Rightarrow> - 1) in
      if n \<le> 0 then
        (INVALID_HANDLE, if n = 0 \<and> (case timeout of Some t \<Rightarrow> t > 0 | None \<Rightarrow> False) then ETIMEDOUT else err)
      else connect_result handle (revents AND (POLLIN OR POLLERR) \<noteq> 0) opt err)"

text \<open>Here select answers the count, \<open>errno\<close> and the two sets as they are afterwards.\<close>

definition handle_timed_connect_using_select ::
  "(int \<Rightarrow> int set \<Rightarrow> int set \<Rightarrow> int \<times> int \<Rightarrow> int \<times> int \<times> int set \<times> int set) \<Rightarrow> int \<Rightarrow> int \<Rightarrow> int \<times> int \<Rightarrow> (int \<times> int) option" where
  "handle_timed_connect_using_select sel handle timeout opt = do {
     w \<leftarrow> set_bit handle hs_reset;
     r \<leftarrow> set_bit handle hs_reset;
     let (n, err, R, W) = sel (handle + 1) (hs_bits r) (hs_bits w) (duration_to_timeval (timeout * 1000));
     if n = 0 \<and> timeout > 0 then Some (INVALID_HANDLE, ETIMEDOUT)
     else Some (connect_result handle (handle \<in> W \<or> handle \<in> R) opt err)
   }"

subsection \<open>Accepting\<close>

fun handle_timed_accept_using_poll :: "int option \<Rightarrow> bool \<Rightarrow> (int \<times> int) list \<Rightarrow> (int \<times> int) option" where
  "handle_timed_accept_using_poll timeout restart [] = None"
| "handle_timed_accept_using_poll timeout restart ((n, err) # answers) =
     (if n = - 1 then
        if err = EINTR \<and> restart then handle_timed_accept_using_poll timeout restart answers
        else Some (- 1, err)
      else if n = 0 then
        Some (- 1, case timeout of
            None \<Rightarrow> err
          | Some t \<Rightarrow> if t = 0 then EWOULDBLOCK else if t > 0 then ETIMEDOUT else err)
      else if n = 1 then Some (0, err)
      else Some (- 1, EINVAL))"

subsection \<open>What the calls promise\<close>

text \<open>A restarted poll ends with the first answer that is not an interruption, and succeeds when it reports the handle.\<close>

lemma timed_accept_restarts:
  assumes "\<And>a. a \<in> set interrupts \<Longrightarrow> a = (- 1, EINTR)"
  shows "handle_timed_accept_using_poll timeout True (interrupts @ answers) =
    handle_timed_accept_using_poll timeout True answers"
  using assms
proof (induction interrupts)
  case (Cons a interrupts)
  have "a = (- 1, EINTR)" by (rule Cons.prems) simp
  moreover have "handle_timed_accept_using_poll timeout True (interrupts @ answers) =
      handle_timed_accept_using_poll timeout True answers"
    by (rule Cons.IH) (simp add: Cons.prems)
  ultimately show ?case by (simp only: append_Cons handle_timed_accept_using_poll.simps simp_thms if_True)
qed simp

lemma timed_accept_success:
  "handle_timed_accept_using_poll timeout restart answers = Some (0, err) \<Longrightarrow> (1, err) \<in> set answers"
  by (induction timeout restart answers rule: handle_timed_accept_using_poll.induct) (auto split: if_splits option.splits)

text \<open>A connect that the kernel reports as finished is accepted exactly when the socket has no error.\<close>

lemma timed_connect_finished:
  assumes "0 \<le> handle" and "handle < FD_SETSIZE" and "n > 0"
    and "sel (handle + 1) {handle} {handle} (duration_to_timeval (timeout * 1000)) = (n, err, R, W)"
    and "handle \<in> R \<union> W" and "0 \<le> ret"
  shows "\<exists>e. handle_timed_connect_using_select sel handle timeout (ret, sock_err) =
    Some (if sock_err = 0 then handle else INVALID_HANDLE, e)"
  using assms
  by (auto simp: handle_timed_connect_using_select_def set_bit_def is_set_def hs_reset_def INVALID_HANDLE_def connect_result_def)

text \<open>
  With a timeout of 0 a connect that is still in progress is reported as done; and the version with \<open>poll\<close> asks for no
  events, so that it never sees one other than an error.
\<close>

lemma timed_connect_zero_timeout:
  assumes "0 \<le> handle" and "handle < FD_SETSIZE"
  shows "handle_timed_connect_using_select (\<lambda>_ _ _ _. (0, 0, {}, {})) handle 0 opt = Some (handle, 0)"
  using assms
  by (auto simp: handle_timed_connect_using_select_def set_bit_def is_set_def hs_reset_def INVALID_HANDLE_def connect_result_def)

lemma timed_connect_polls_nothing:
  assumes "\<And>events t. poll events t = (if events = 0 then (0, 0, e) else (1, POLLOUT, e))"
  shows "fst (handle_timed_connect_using_poll poll handle timeout opt) = INVALID_HANDLE"
  by (simp add: handle_timed_connect_using_poll_def assms)

end
