(* ===== verification/Acceptor.thy ===== *)
theory Acceptor
  imports Connection Handle_Wait
begin

text \<open>
  Accepting connections: \<open>net::sock_acceptor\<close> (\<open>src/net/sock_acceptor.cpp\<close>) and the acceptors of the reactor, the
  class \<open>acceptor\<close> (\<open>src/reactor/acceptor.cpp\<close>) and the template \<open>Acceptor\<close> (\<open>src/reactor/acceptor.h\<close>), which differ in
  \<open>close\<close> and \<open>close_read_handler\<close> only. An accepted connection is kept in a vector at the index that is its
  descriptor, and registered with the acceptor's own reactor or, in turn, with one of the external reactors. A reactor
  is represented by what it answers to a registration; the answers of the system calls are arguments.
\<close>

subsection \<open>\<open>sock_acceptor\<close>\<close>

record sock_acceptor =
  lsock :: inet_sock
  is_AF_INET :: bool

definition shared_open :: "int \<Rightarrow> int \<Rightarrow> sock_acceptor \<Rightarrow> int" where
  "shared_open bind_ans listen_ans a =
     (if \<not> is_AF_INET a then - 1 else if bind_ans \<noteq> 0 then bind_ans else listen_ans)"

text \<open>The answers of \<open>::close\<close>, \<open>::socket\<close>, \<open>::setsockopt\<close>, \<open>::bind\<close> and \<open>::listen\<close>.\<close>

record open_answers =
  close_ans :: int
  socket_ans :: int
  opt_ans :: int
  bind_ans :: int
  listen_ans :: int

definition sock_acceptor_open :: "open_answers \<Rightarrow> sock_acceptor \<Rightarrow> int \<times> sock_acceptor" where
  "sock_acceptor_open w a =
     (let (r, s) = open_sock (close_ans w) (socket_ans w) (opt_ans w) (lsock a); a1 = a\<lparr>lsock := s\<rparr>
      in if r = - 1 then (- 1, a1) else (shared_open (bind_ans w) (listen_ans w) a1, a1))"

definition sock_acceptor_close :: "int \<Rightarrow> sock_acceptor \<Rightarrow> int \<times> sock_acceptor" where
  "sock_acceptor_close ans a = (let (r, s) = close_sock SHUT_ALL ans (lsock a) in (r, a\<lparr>lsock := s\<rparr>))"

definition listen_handle :: "sock_acceptor \<Rightarrow> int" where
  "listen_handle a = fd_no (lsock a)"

text \<open>\<open>accept\<close> waits with \<open>poll\<close> only when the socket is non-blocking.\<close>

definition shared_accept_start :: "bool \<Rightarrow> int \<Rightarrow> bool \<Rightarrow> (int \<times> int) list \<Rightarrow> int option" where
  "shared_accept_start nonblocking timeout restart polls =
     (if \<not> nonblocking then Some 0
      else map_option fst (handle_timed_accept_using_poll (Some timeout) restart polls))"

text \<open>One answer of \<open>::accept\<close> is a descriptor or \<open>-1\<close> with \<open>errno\<close>; \<open>accept()\<close> of an inet stream answers 0.\<close>

fun accept_loop :: "bool \<Rightarrow> (int \<times> int) list \<Rightarrow> sock_stream \<Rightarrow> (int \<times> sock_stream) option" where
  "accept_loop restart [] st = None"
| "accept_loop restart ((client_fd, err) # answers) st =
     (if restart \<and> client_fd = - 1 \<and> err = EINTR then accept_loop restart answers st
      else if client_fd = - 1 then Some (- 1, st)
      else let (ret, st1) = stream_set_handle 0 client_fd st in
        if ret \<noteq> INVALID_HANDLE then Some (0, st1) else accept_loop restart answers st1)"

definition sock_accept ::
  "bool \<Rightarrow> int \<Rightarrow> bool \<Rightarrow> (int \<times> int) list \<Rightarrow> (int \<times> int) list \<Rightarrow> sock_stream \<Rightarrow> (int \<times> sock_stream) option" where
  "sock_accept nonblocking timeout restart polls accepts st = do {
     ret \<leftarrow> shared_accept_start nonblocking timeout restart polls;
     if ret = - 1 then Some (- 1, st) else accept_loop restart accepts st
   }"

subsection \<open>\<open>acceptor\<close>\<close>

datatype AcceptorState = REGISTERED | LISTEN_CLOSED | ALL_CLOSED

type_synonym reactor = "reactor_call \<Rightarrow> int"

record acceptor =
  sock_acc :: sock_acceptor
  read_handlers :: "connection option list"
  current_reactor_index :: nat
  external_reactors :: "reactor list"
  acceptor_state :: AcceptorState
  connectionCount :: nat
  own_reactor :: reactor
  acceptor_calls :: "reactor_call list"

definition new_acceptor :: "sock_acceptor \<Rightarrow> reactor \<Rightarrow> acceptor" where
  "new_acceptor a r = \<lparr>sock_acc = a, read_handlers = replicate 1024 None, current_reactor_index = 0,
     external_reactors = [], acceptor_state = ALL_CLOSED, connectionCount = 0, own_reactor = r, acceptor_calls = []\<rparr>"

definition own_call :: "reactor_call \<Rightarrow> acceptor \<Rightarrow> int \<times> acceptor" where
  "own_call rc acc = (own_reactor acc rc, acc\<lparr>acceptor_calls := acceptor_calls acc @ [rc]\<rparr>)"

definition acceptor_open :: "open_answers \<Rightarrow> acceptor \<Rightarrow> int \<times> acceptor" where
  "acceptor_open w acc =
     (let (r, a) = sock_acceptor_open w (sock_acc acc); acc1 = acc\<lparr>sock_acc := a\<rparr>
      in if r \<noteq> 0 then (- 1, acc1)
         else let (ret, acc2) = own_call (Register (listen_handle a) ACCEPT_EVENT) acc1
              in (ret, acc2\<lparr>acceptor_state := REGISTERED\<rparr>))"

text \<open>\<open>ret = sock_acceptor_.close() && ret\<close> is a truth value.\<close>

definition close_listening :: "int \<Rightarrow> acceptor \<Rightarrow> int \<times> acceptor" where
  "close_listening ans acc =
     (let (ret, acc1) = own_call (Unregister (listen_handle (sock_acc acc)) ACCEPT_EVENT) acc;
          (r, a) = sock_acceptor_close ans (sock_acc acc1)
      in (if r \<noteq> 0 \<and> ret \<noteq> 0 then 1 else 0, acc1\<lparr>sock_acc := a\<rparr>))"

definition acceptor_close :: "int \<Rightarrow> acceptor \<Rightarrow> int \<times> acceptor" where
  "acceptor_close ans acc =
     (if acceptor_state acc = LISTEN_CLOSED \<or> acceptor_state acc = ALL_CLOSED then (0, acc)
      else let (ret, acc1) = close_listening ans acc
           in (ret, acc1\<lparr>acceptor_state := (if connectionCount acc1 = 0 then ALL_CLOSED else LISTEN_CLOSED)\<rparr>))"

text \<open>The template closes without looking at the state, and keeps the state when there are connections.\<close>

definition Acceptor_close :: "int \<Rightarrow> acceptor \<Rightarrow> int \<times> acceptor" where
  "Acceptor_close ans acc =
     (let (ret, acc1) = close_listening ans acc
      in (ret, if connectionCount acc1 = 0 then acc1\<lparr>acceptor_state := ALL_CLOSED\<rparr> else acc1))"

definition acceptor_handle_close :: "int \<Rightarrow> int \<Rightarrow> acceptor \<Rightarrow> int \<times> acceptor" where
  "acceptor_handle_close handle ans acc =
     (if handle = INVALID_HANDLE \<or> handle \<noteq> listen_handle (sock_acc acc) then (- 1, acc)
      else acceptor_close ans acc)"

definition drop_handler :: "int \<Rightarrow> acceptor \<Rightarrow> acceptor option" where
  "drop_handler handle acc = do {
     _ \<leftarrow> at (read_handlers acc) handle;
     Some (acc\<lparr>read_handlers := (read_handlers acc)[nat handle := None],
               connectionCount := u64_sub (connectionCount acc) 1\<rparr>)
   }"

text \<open>\<open>acceptor\<close> logs a handle out of range and goes on; the template returns, unless it is just one too large.\<close>

definition close_read_handler :: "int \<Rightarrow> acceptor \<Rightarrow> acceptor option" where
  "close_read_handler handle acc = drop_handler handle acc"

definition Acceptor_close_read_handler :: "int \<Rightarrow> acceptor \<Rightarrow> acceptor option" where
  "Acceptor_close_read_handler handle acc =
     (if handle < 0 \<or> handle > int (length (read_handlers acc)) then Some acc else drop_handler handle acc)"

definition close_all_handlers :: "acceptor \<Rightarrow> int \<times> acceptor" where
  "close_all_handlers acc = (0, acc\<lparr>connectionCount := 0\<rparr>)"

definition set_external_reactors :: "reactor list \<Rightarrow> acceptor \<Rightarrow> acceptor" where
  "set_external_reactors rs acc = acc\<lparr>external_reactors := rs\<rparr>"

definition increase_current_reactor_index :: "acceptor \<Rightarrow> acceptor" where
  "increase_current_reactor_index acc =
     (if current_reactor_index acc = u64_sub (length (external_reactors acc)) 1
      then acc\<lparr>current_reactor_index := 0\<rparr>
      else acc\<lparr>current_reactor_index := u64 (current_reactor_index acc + 1)\<rparr>)"

text \<open>The new handler has a stream without a descriptor and the two empty buffers \<open>b1\<close> and \<open>b2\<close>.\<close>

record accept_answers =
  nonblocking :: bool
  poll_answers :: "(int \<times> int) list"
  accept_results :: "(int \<times> int) list"

definition make_read_handler ::
  "reactor \<Rightarrow> accept_answers \<Rightarrow> buffer \<Rightarrow> buffer \<Rightarrow> acceptor \<Rightarrow> (int \<times> acceptor) option" where
  "make_read_handler reactor_to_register w b1 b2 acc =
     (if length (read_handlers acc) \<ge> 2147483647 then Some (- 1, acc)
      else do {
        let handler = new_connection None b1 b2 reactor_to_register;
        st \<leftarrow> stream handler;
        (ret, st1) \<leftarrow> sock_accept (nonblocking w) 0 True (poll_answers w) (accept_results w) st;
        if ret \<noteq> 0 then Some (- 1, acc)
        else do {
          let handle = stream_handle st1;
          if handle < 0 then Some (handle, acc)
          else do {
            _ \<leftarrow> at (read_handlers acc) handle;
            Some (handle, acc\<lparr>read_handlers := (read_handlers acc)[nat handle := Some (handler\<lparr>stream := Some st1\<rparr>)],
                              connectionCount := u64 (connectionCount acc + 1)\<rparr>)
          }
        }
      })"

definition activate_read_handler :: "int \<Rightarrow> acceptor \<Rightarrow> (int \<times> acceptor) option" where
  "activate_read_handler handle acc =
     (if \<not> handle \<ge> 0 then None
      else do {
        h \<leftarrow> at (read_handlers acc) handle;
        c \<leftarrow> h;
        (r, c1) \<leftarrow> open_connection c;
        Some (r, acc\<lparr>read_handlers := (read_handlers acc)[nat handle := Some c1]\<rparr>)
      })"

definition acceptor_handle_input ::
  "int \<Rightarrow> accept_answers \<Rightarrow> buffer \<Rightarrow> buffer \<Rightarrow> acceptor \<Rightarrow> (int \<times> acceptor) option" where
  "acceptor_handle_input handle w b1 b2 acc =
     (if handle = INVALID_HANDLE \<or> handle \<noteq> listen_handle (sock_acc acc) then Some (- 1, acc)
      else do {
        (read_handle, acc1) \<leftarrow>
          (if length (external_reactors acc) = 0 then make_read_handler (own_reactor acc) w b1 b2 acc
           else do {
             r \<leftarrow> at (external_reactors acc) (int (current_reactor_index acc));
             (rh, acc1) \<leftarrow> make_read_handler r w b1 b2 acc;
             Some (rh, increase_current_reactor_index acc1)
           });
        activate_read_handler read_handle acc1
      })"

text \<open>\<open>destroy_acceptor\<close> deletes the object (the result \<open>None\<close>) when no connection is left.\<close>

definition destroy_acceptor :: "int \<Rightarrow> acceptor \<Rightarrow> int \<times> acceptor option" where
  "destroy_acceptor ans acc =
     (let acc1 = snd (acceptor_close ans acc)
      in if list_ex (\<lambda>h. h \<noteq> None) (read_handlers acc1) then (- 1, Some acc1) else (0, None))"

text \<open>A connection that the reactor closes tells its acceptor, which forgets it.\<close>

definition connection_closed :: "int \<Rightarrow> int \<Rightarrow> acceptor \<Rightarrow> acceptor option" where
  "connection_closed handle ans acc = do {
     h \<leftarrow> at (read_handlers acc) handle;
     c \<leftarrow> h;
     st \<leftarrow> stream c;
     (_, c1) \<leftarrow> handle_close ans c;
     close_read_handler (stream_handle st) (acc\<lparr>read_handlers := (read_handlers acc)[nat handle := Some c1]\<rparr>)
   }"

subsection \<open>Invariant\<close>

definition live_count :: "connection option list \<Rightarrow> nat" where
  "live_count hs = length (filter (\<lambda>h. h \<noteq> None) hs)"

definition on_handle :: "connection \<Rightarrow> int \<Rightarrow> bool" where
  "on_handle c h \<longleftrightarrow> (\<exists>s. stream c = Some (Some s) \<and> fd_no s = h)"

definition acceptor_ok :: "acceptor \<Rightarrow> bool" where
  "acceptor_ok acc \<longleftrightarrow> length (read_handlers acc) = 1024 \<and>
     connectionCount acc = live_count (read_handlers acc) \<and>
     (\<forall>i < 1024. \<forall>c. read_handlers acc ! i = Some c \<longrightarrow> on_handle c (int i)) \<and>
     (external_reactors acc \<noteq> [] \<longrightarrow> current_reactor_index acc < length (external_reactors acc)) \<and>
     length (external_reactors acc) < 2 ^ 64"

lemma live_count_update:
  "i < length hs \<Longrightarrow> live_count (hs[i := h]) + (if hs ! i = None then 0 else 1) =
     live_count hs + (if h = None then 0 else 1)"
proof (induction hs arbitrary: i)
  case (Cons x hs)
  show ?case
  proof (cases i)
    case (Suc n)
    then show ?thesis using Cons.IH [of n] Cons.prems by (cases x; cases h; cases "hs ! n") (simp_all add: live_count_def)
  qed (simp add: live_count_def)
qed (simp add: live_count_def)

lemma live_count_le: "live_count hs \<le> length hs"
  by (simp add: live_count_def)

lemma new_acceptor_ok: "acceptor_ok (new_acceptor a r)"
  by (simp add: acceptor_ok_def new_acceptor_def live_count_def)

lemma close_listening_fields:
  "read_handlers (snd (close_listening ans acc)) = read_handlers acc \<and>
   connectionCount (snd (close_listening ans acc)) = connectionCount acc \<and>
   external_reactors (snd (close_listening ans acc)) = external_reactors acc \<and>
   current_reactor_index (snd (close_listening ans acc)) = current_reactor_index acc"
  by (simp add: close_listening_def own_call_def split_def Let_def)

text \<open>
  The same with the clauses on the count and on the index switched on and off: \<open>close_all_handlers\<close> and
  \<open>set_external_reactors_\<close> keep the rest but not these two.
\<close>

definition acceptor_inv :: "bool \<Rightarrow> bool \<Rightarrow> acceptor \<Rightarrow> bool" where
  "acceptor_inv counted indexed acc \<longleftrightarrow> length (read_handlers acc) = 1024 \<and>
     (\<forall>i < 1024. \<forall>c. read_handlers acc ! i = Some c \<longrightarrow> on_handle c (int i)) \<and>
     (counted \<longrightarrow> connectionCount acc = live_count (read_handlers acc)) \<and>
     (indexed \<longrightarrow> external_reactors acc \<noteq> [] \<longrightarrow> current_reactor_index acc < length (external_reactors acc)) \<and>
     length (external_reactors acc) < 2 ^ 64"

lemma acceptor_ok_inv: "acceptor_ok acc \<longleftrightarrow> acceptor_inv True True acc"
  by (auto simp: acceptor_ok_def acceptor_inv_def)

lemma acceptor_inv_fields:
  "acceptor_inv ct ix acc \<Longrightarrow> read_handlers acc' = read_handlers acc \<Longrightarrow> connectionCount acc' = connectionCount acc \<Longrightarrow>
     external_reactors acc' = external_reactors acc \<Longrightarrow> current_reactor_index acc' = current_reactor_index acc \<Longrightarrow>
     acceptor_inv ct ix acc'"
  by (simp add: acceptor_inv_def)

lemma acceptor_open_inv: "acceptor_inv ct ix acc \<Longrightarrow> acceptor_inv ct ix (snd (acceptor_open w acc))"
  by (erule acceptor_inv_fields) (simp_all add: acceptor_open_def own_call_def split_def Let_def)

lemma acceptor_close_inv:
  "acceptor_inv ct ix acc \<Longrightarrow>
     acceptor_inv ct ix (snd (acceptor_close ans acc)) \<and> acceptor_inv ct ix (snd (Acceptor_close ans acc))"
  using close_listening_fields [of ans acc]
  by (auto simp: acceptor_close_def Acceptor_close_def split_def Let_def intro: acceptor_inv_fields)

lemma drop_handler_inv:
  assumes "acceptor_inv ct ix acc" and "i < 1024" and "ct \<Longrightarrow> read_handlers acc ! i \<noteq> None"
  shows "\<exists>acc'. drop_handler (int i) acc = Some acc' \<and> acceptor_inv ct ix acc' \<and>
    read_handlers acc' = (read_handlers acc)[i := None]"
proof -
  have len: "length (read_handlers acc) = 1024" using assms(1) by (simp add: acceptor_inv_def)
  have "u64_sub (connectionCount acc) 1 = live_count ((read_handlers acc)[i := None])" if ct
  proof -
    have "live_count ((read_handlers acc)[i := None]) + 1 = live_count (read_handlers acc)"
      using live_count_update [of i "read_handlers acc" None] assms(2,3) that len by simp
    moreover have "connectionCount acc = live_count (read_handlers acc)" using assms(1) that by (simp add: acceptor_inv_def)
    moreover have "live_count (read_handlers acc) \<le> 1024" using live_count_le [of "read_handlers acc"] len by simp
    ultimately show ?thesis by (simp add: uint_simps)
  qed
  then show ?thesis
    using assms len by (auto simp: drop_handler_def at_def acceptor_inv_def nth_list_update)
qed

lemma store_handler_inv:
  assumes "acceptor_inv ct ix acc" and "i < 1024" and "read_handlers acc ! i = None" and "on_handle c (int i)"
  shows "acceptor_inv ct ix (acc\<lparr>read_handlers := (read_handlers acc)[i := Some c],
    connectionCount := u64 (connectionCount acc + 1)\<rparr>)"
proof -
  have len: "length (read_handlers acc) = 1024" using assms(1) by (simp add: acceptor_inv_def)
  have "u64 (connectionCount acc + 1) = live_count ((read_handlers acc)[i := Some c])" if ct
  proof -
    have "live_count ((read_handlers acc)[i := Some c]) = live_count (read_handlers acc) + 1"
      using live_count_update [of i "read_handlers acc" "Some c"] assms(2,3) len by simp
    moreover have "connectionCount acc = live_count (read_handlers acc)" using assms(1) that by (simp add: acceptor_inv_def)
    moreover have "live_count (read_handlers acc) \<le> 1024" using live_count_le [of "read_handlers acc"] len by simp
    ultimately show ?thesis by (simp add: uint_simps)
  qed
  then show ?thesis using assms len by (auto simp: acceptor_inv_def nth_list_update)
qed

lemma replace_handler_inv:
  assumes "acceptor_inv ct ix acc" and "i < 1024" and "read_handlers acc ! i \<noteq> None" and "on_handle c (int i)"
  shows "acceptor_inv ct ix (acc\<lparr>read_handlers := (read_handlers acc)[i := Some c]\<rparr>)"
  using assms live_count_update [of i "read_handlers acc" "Some c"]
  by (auto simp: acceptor_inv_def nth_list_update)

lemmas store_handler_ok = store_handler_inv [of True True, folded acceptor_ok_inv]

lemmas replace_handler_ok = replace_handler_inv [of True True, folded acceptor_ok_inv]

lemma increase_index_ok:
  assumes "acceptor_ok acc"
  shows "acceptor_ok (increase_current_reactor_index acc) \<and>
    (external_reactors acc \<noteq> [] \<longrightarrow> current_reactor_index (increase_current_reactor_index acc) =
       (current_reactor_index acc + 1) mod length (external_reactors acc))"
proof (cases "external_reactors acc = []")
  case True
  then show ?thesis
    using assms by (auto simp: increase_current_reactor_index_def acceptor_ok_def)
next
  case False
  define n where "n = length (external_reactors acc)"
  have n: "0 < n" "n < 2 ^ 64" "current_reactor_index acc < n"
    using assms False by (simp_all add: acceptor_ok_def n_def)
  then have "u64_sub n 1 = n - 1" by (simp add: uint_simps)
  then have "current_reactor_index (increase_current_reactor_index acc) = (current_reactor_index acc + 1) mod n"
    using n by (cases "current_reactor_index acc = n - 1")
      (simp_all add: increase_current_reactor_index_def n_def [symmetric] uint_simps)
  moreover have "(current_reactor_index acc + 1) mod n < n" using n by simp
  moreover have "read_handlers (increase_current_reactor_index acc) = read_handlers acc"
    "connectionCount (increase_current_reactor_index acc) = connectionCount acc"
    "external_reactors (increase_current_reactor_index acc) = external_reactors acc"
    by (simp_all add: increase_current_reactor_index_def)
  ultimately show ?thesis using assms by (simp add: acceptor_ok_def n_def)
qed

lemma increase_index_inv: "acceptor_inv ct ix acc \<Longrightarrow> acceptor_inv ct ix (increase_current_reactor_index acc)"
proof (cases "external_reactors acc = []")
  case True
  then show "acceptor_inv ct ix acc \<Longrightarrow> ?thesis" by (auto simp: increase_current_reactor_index_def acceptor_inv_def)
next
  case False
  assume inv: "acceptor_inv ct ix acc"
  have "current_reactor_index (increase_current_reactor_index acc) < length (external_reactors acc)"
    if "current_reactor_index acc < length (external_reactors acc)"
    using that inv False by (auto simp: increase_current_reactor_index_def acceptor_inv_def uint_simps)
  then show ?thesis using inv by (auto simp: increase_current_reactor_index_def acceptor_inv_def)
qed

subsection \<open>Accepting a connection\<close>

definition chosen_reactor :: "acceptor \<Rightarrow> reactor" where
  "chosen_reactor acc =
     (if external_reactors acc = [] then own_reactor acc else external_reactors acc ! current_reactor_index acc)"

definition next_reactor_index :: "acceptor \<Rightarrow> nat" where
  "next_reactor_index acc =
     (if external_reactors acc = [] then current_reactor_index acc
      else (current_reactor_index acc + 1) mod length (external_reactors acc))"

text \<open>The handler of a connection that has just been accepted and registered for reading.\<close>

definition accepted :: "reactor \<Rightarrow> int \<Rightarrow> buffer \<Rightarrow> buffer \<Rightarrow> connection" where
  "accepted r fd b1 b2 = (new_connection (Some (set_fd fd (new_sock False))) b1 b2 r)
     \<lparr>read_enabled := True, reactor_calls := [Register fd READ_EVENT]\<rparr>"

lemma accept_loop_interrupted:
  "list_all (\<lambda>(r, e). r = - 1 \<and> e = EINTR) eintrs \<Longrightarrow> 0 \<le> fd \<Longrightarrow>
     accept_loop True (eintrs @ (fd, e) # rest) None = Some (0, Some (set_fd fd (new_sock False)))"
  by (induction eintrs) (auto simp: stream_set_handle_def INVALID_HANDLE_def)

lemma make_read_handler_accepts:
  assumes "acceptor_ok acc" and "i < 1024" and "read_handlers acc ! i = None"
    and "shared_accept_start (nonblocking w) 0 True (poll_answers w) = Some ret" and "ret \<noteq> - 1"
    and "accept_results w = eintrs @ (int i, e) # rest" and "list_all (\<lambda>(r, e). r = - 1 \<and> e = EINTR) eintrs"
  shows "make_read_handler r w b1 b2 acc =
    Some (int i, acc\<lparr>read_handlers := (read_handlers acc)[i := Some (new_connection (Some (set_fd (int i) (new_sock False))) b1 b2 r)],
      connectionCount := u64 (connectionCount acc + 1)\<rparr>)"
  using assms accept_loop_interrupted [OF assms(7), of "int i" e rest]
  by (simp add: make_read_handler_def sock_accept_def new_connection_def acceptor_ok_def at_def stream_handle_def set_fd_def Let_def)

lemma on_handle_accepted: "on_handle (accepted r fd b1 b2) fd"
  by (simp add: on_handle_def accepted_def new_connection_def set_fd_def)

lemma on_handle_new: "on_handle (new_connection (Some (set_fd fd s)) b1 b2 r) fd"
  by (simp add: on_handle_def new_connection_def set_fd_def)

lemma activate_accepted:
  assumes "length (read_handlers acc) = 1024" and "i < 1024"
    and "read_handlers acc ! i = Some (new_connection (Some (set_fd (int i) (new_sock False))) b1 b2 r)"
  shows "activate_read_handler (int i) acc = Some (r (Register (int i) READ_EVENT),
    acc\<lparr>read_handlers := (read_handlers acc)[i := Some (accepted r (int i) b1 b2)]\<rparr>)"
  using assms by (simp add: activate_read_handler_def at_def open_connection_def enable_reading_def new_connection_def
      call_reactor_def accepted_def stream_handle_def set_fd_def)

lemma increase_index_fields:
  "read_handlers (increase_current_reactor_index acc) = read_handlers acc \<and>
   connectionCount (increase_current_reactor_index acc) = connectionCount acc \<and>
   external_reactors (increase_current_reactor_index acc) = external_reactors acc \<and>
   own_reactor (increase_current_reactor_index acc) = own_reactor acc \<and>
   sock_acc (increase_current_reactor_index acc) = sock_acc acc"
  by (simp add: increase_current_reactor_index_def)




text \<open>When \<open>::accept\<close> fails, the \<open>assert(handle >= 0)\<close> of \<open>activate_read_handler\<close> ends the program.\<close>

lemma failed_accept_aborts:
  assumes "acceptor_ok acc" and "handle = listen_handle (sock_acc acc)" and "handle \<noteq> INVALID_HANDLE"
    and "shared_accept_start (nonblocking w) 0 True (poll_answers w) = Some ret" and "ret \<noteq> - 1"
    and "accept_results w = (- 1, e) # rest" and "e \<noteq> EINTR"
  shows "acceptor_handle_input handle w b1 b2 acc = None"
proof -
  have "make_read_handler r w b1 b2 acc = Some (- 1, acc)" for r
    using assms by (simp add: make_read_handler_def sock_accept_def new_connection_def acceptor_ok_def)
  then show ?thesis using assms
    by (cases "external_reactors acc = []")
      (auto simp: acceptor_handle_input_def activate_read_handler_def at_def acceptor_ok_def)
qed

text \<open>A descriptor of 1024 or more is written past the end of the vector.\<close>

lemma large_handle_out_of_range:
  assumes "acceptor_ok acc" and "1024 \<le> fd"
    and "shared_accept_start (nonblocking w) 0 True (poll_answers w) = Some ret" and "ret \<noteq> - 1"
    and "accept_results w = (fd, e) # rest"
  shows "make_read_handler r w b1 b2 acc = None"
  using assms by (simp add: make_read_handler_def sock_accept_def new_connection_def acceptor_ok_def at_def
      stream_set_handle_def INVALID_HANDLE_def stream_handle_def set_fd_def Let_def)

text \<open>
  \<open>set_external_reactors_\<close> leaves the index of the next reactor as it was: with a shorter vector the next accept reads
  past its end.
\<close>

lemma shrunk_reactors_undefined:
  assumes "rs \<noteq> []" and "length rs \<le> current_reactor_index acc"
    and "handle = listen_handle (sock_acc acc)" and "handle \<noteq> INVALID_HANDLE"
  shows "acceptor_handle_input handle w b1 b2 (set_external_reactors rs acc) = None"
  using assms by (simp add: acceptor_handle_input_def set_external_reactors_def at_def)

subsection \<open>Reachable acceptors\<close>

text \<open>
  The public operations of an acceptor and the two callbacks of the reactor. The kernel never hands out the descriptor
  of a connection that is still open, and no vector has 2 to the 64 elements.
\<close>

datatype acceptor_op =
    Op_open open_answers
  | Op_close int
  | Op_template_close int
  | Op_handle_close int int
  | Op_set_external_reactors "reactor list"
  | Op_handle_input int accept_answers buffer buffer
  | Op_connection_closed int int
  | Op_close_read_handler int
  | Op_template_close_read_handler int
  | Op_close_all_handlers

fun acceptor_do :: "acceptor_op \<Rightarrow> acceptor \<Rightarrow> acceptor option" where
  "acceptor_do (Op_open w) acc = Some (snd (acceptor_open w acc))"
| "acceptor_do (Op_close ans) acc = Some (snd (acceptor_close ans acc))"
| "acceptor_do (Op_template_close ans) acc = Some (snd (Acceptor_close ans acc))"
| "acceptor_do (Op_handle_close h ans) acc = Some (snd (acceptor_handle_close h ans acc))"
| "acceptor_do (Op_set_external_reactors rs) acc = Some (set_external_reactors rs acc)"
| "acceptor_do (Op_handle_input h w b1 b2) acc = map_option snd (acceptor_handle_input h w b1 b2 acc)"
| "acceptor_do (Op_connection_closed h ans) acc = connection_closed h ans acc"
| "acceptor_do (Op_close_read_handler h) acc = close_read_handler h acc"
| "acceptor_do (Op_template_close_read_handler h) acc = Acceptor_close_read_handler h acc"
| "acceptor_do Op_close_all_handlers acc = Some (snd (close_all_handlers acc))"

fun kernel_allows :: "acceptor_op \<Rightarrow> acceptor \<Rightarrow> bool" where
  "kernel_allows (Op_handle_input h w b1 b2) acc \<longleftrightarrow>
     list_all (\<lambda>(fd, e). 0 \<le> fd \<longrightarrow> nat fd < 1024 \<longrightarrow> read_handlers acc ! nat fd = None) (accept_results w)"
| "kernel_allows (Op_set_external_reactors rs) acc \<longleftrightarrow> length rs < 2 ^ 64"
| "kernel_allows _ acc \<longleftrightarrow> True"

text \<open>The uses that keep the count: handlers are closed while they are stored, and all of them only when none is left.\<close>

fun counted_op :: "acceptor_op \<Rightarrow> acceptor \<Rightarrow> bool" where
  "counted_op Op_close_all_handlers acc \<longleftrightarrow> live_count (read_handlers acc) = 0"
| "counted_op (Op_close_read_handler h) acc \<longleftrightarrow> 0 \<le> h \<and> nat h < 1024 \<and> read_handlers acc ! nat h \<noteq> None"
| "counted_op (Op_template_close_read_handler h) acc \<longleftrightarrow> 0 \<le> h \<and> nat h < 1024 \<and> read_handlers acc ! nat h \<noteq> None"
| "counted_op _ acc \<longleftrightarrow> True"

text \<open>The uses that keep the index: the new vector of reactors is empty or longer than the index.\<close>

fun indexed_op :: "acceptor_op \<Rightarrow> acceptor \<Rightarrow> bool" where
  "indexed_op (Op_set_external_reactors rs) acc \<longleftrightarrow> rs = [] \<or> current_reactor_index acc < length rs"
| "indexed_op _ acc \<longleftrightarrow> True"

inductive acceptor_path :: "(acceptor_op \<Rightarrow> acceptor \<Rightarrow> bool) \<Rightarrow> acceptor \<Rightarrow> acceptor \<Rightarrow> bool" for P where
  path_start: "acceptor_path P acc acc"
| path_step: "acceptor_path P acc acc1 \<Longrightarrow> P op acc1 \<Longrightarrow> kernel_allows op acc1 \<Longrightarrow> acceptor_do op acc1 = Some acc2 \<Longrightarrow>
    acceptor_path P acc acc2"

lemma stream_set_handle_fd: "stream_set_handle a fd st = (r, st') \<Longrightarrow> r \<noteq> - 1 \<Longrightarrow> stream_handle st' = fd \<and> r = fd"
  by (cases st) (auto simp: stream_set_handle_def INVALID_HANDLE_def stream_handle_def set_fd_def Let_def split: if_splits)

lemma accept_loop_result:
  "accept_loop restart answers st = Some (0, st') \<Longrightarrow> \<exists>e. (stream_handle st', e) \<in> set answers"
proof (induction restart answers st rule: accept_loop.induct)
  case (2 restart fd err answers st)
  obtain r st1 where set: "stream_set_handle 0 fd st = (r, st1)" by fastforce
  show ?case
    using 2 set stream_set_handle_fd [OF set]
    by (auto simp: INVALID_HANDLE_def split: if_splits) blast+
qed simp

lemma make_read_handler_result:
  assumes "acceptor_inv ct ix acc" and "make_read_handler r w b1 b2 acc = Some (h, acc')"
    and "list_all (\<lambda>(fd, e). 0 \<le> fd \<longrightarrow> nat fd < 1024 \<longrightarrow> read_handlers acc ! nat fd = None) (accept_results w)"
  shows "acceptor_inv ct ix acc'"
proof -
  have len: "length (read_handlers acc) = 1024" using assms(1) by (simp add: acceptor_inv_def)
  obtain ret st1 where acc: "sock_accept (nonblocking w) 0 True (poll_answers w) (accept_results w) None = Some (ret, st1)"
    using assms(2) len by (auto simp: make_read_handler_def new_connection_def split: bind_splits)
  show ?thesis
  proof (cases "ret = 0 \<and> 0 \<le> stream_handle st1")
    case False
    then show ?thesis using assms(1,2) acc len
      by (auto simp: make_read_handler_def new_connection_def Let_def split: if_splits)
  next
    case True
    then have "\<exists>e. (stream_handle st1, e) \<in> set (accept_results w)"
      using acc accept_loop_result by (auto simp: sock_accept_def split: bind_splits if_splits)
    moreover have lt: "nat (stream_handle st1) < 1024"
      using True assms(2) acc len by (auto simp: make_read_handler_def new_connection_def Let_def at_def split: if_splits)
    ultimately have free: "read_handlers acc ! nat (stream_handle st1) = None"
      using assms(3) True by (auto simp: list_all_iff)
    obtain s where "st1 = Some s" using True by (cases st1) (auto simp: stream_handle_def INVALID_HANDLE_def)
    then have "on_handle ((new_connection None b1 b2 r)\<lparr>stream := Some st1\<rparr>) (int (nat (stream_handle st1)))"
      using True by (simp add: on_handle_def stream_handle_def)
    from store_handler_inv [OF assms(1) lt free this] show ?thesis
      using True assms(2) acc len lt
      by (auto simp: make_read_handler_def new_connection_def Let_def at_def split: if_splits)
  qed
qed


lemma enable_reading_handle: "enable_reading c = Some (r, c') \<Longrightarrow> on_handle c h \<Longrightarrow> on_handle c' h"
  by (auto simp: enable_reading_def call_reactor_def on_handle_def split: if_splits bind_splits)

lemma activate_inv:
  assumes "acceptor_inv ct ix acc" and "activate_read_handler h acc = Some (r, acc')"
  shows "acceptor_inv ct ix acc'"
proof -
  have len: "length (read_handlers acc) = 1024" using assms(1) by (simp add: acceptor_inv_def)
  obtain c r' c1 where c: "0 \<le> h" "nat h < 1024" "read_handlers acc ! nat h = Some c"
      "enable_reading c = Some (r', c1)"
    and acc': "acc' = acc\<lparr>read_handlers := (read_handlers acc)[nat h := Some c1]\<rparr>"
    using assms(2) len
    by (auto simp: activate_read_handler_def at_def open_connection_def split: if_splits bind_splits)
  have "on_handle c (int (nat h))" using assms(1) c by (auto simp: acceptor_inv_def)
  then have "on_handle c1 (int (nat h))" by (rule enable_reading_handle [OF c(4)])
  then show ?thesis using replace_handler_inv [OF assms(1) c(2), of c1] c acc' by simp
qed

lemma handle_input_inv:
  assumes "acceptor_inv ct ix acc" and "acceptor_handle_input h w b1 b2 acc = Some (r, acc')"
    and "list_all (\<lambda>(fd, e). 0 \<le> fd \<longrightarrow> nat fd < 1024 \<longrightarrow> read_handlers acc ! nat fd = None) (accept_results w)"
  shows "acceptor_inv ct ix acc'"
proof (cases "h = INVALID_HANDLE \<or> h \<noteq> listen_handle (sock_acc acc)")
  case True
  then show ?thesis using assms(1,2) by (auto simp: acceptor_handle_input_def)
next
  case False
  obtain q rh acc1 acc2 where "make_read_handler q w b1 b2 acc = Some (rh, acc1)"
    and acc2: "acc2 = acc1 \<or> acc2 = increase_current_reactor_index acc1"
    and act: "activate_read_handler rh acc2 = Some (r, acc')"
    using False assms(2) by (auto simp: acceptor_handle_input_def split: if_splits bind_splits)
  then have "acceptor_inv ct ix acc1" using make_read_handler_result [OF assms(1) _ assms(3)] by blast
  then have "acceptor_inv ct ix acc2" using acc2 increase_index_inv by blast
  then show ?thesis by (rule activate_inv [OF _ act])
qed

text \<open>Closing a connection takes its handler out of the table.\<close>

lemma connection_closed_inv:
  assumes "acceptor_inv ct ix acc" and "connection_closed h ans acc = Some acc'"
  shows "acceptor_inv ct ix acc' \<and> read_handlers acc' = (read_handlers acc)[nat h := None]"
proof -
  have len: "length (read_handlers acc) = 1024" using assms(1) by (simp add: acceptor_inv_def)
  obtain c st c1 where c: "0 \<le> h" "nat h < 1024" "read_handlers acc ! nat h = Some c" "stream c = Some st"
    and close: "close_read_handler (stream_handle st) (acc\<lparr>read_handlers := (read_handlers acc)[nat h := Some c1]\<rparr>) = Some acc'"
    using assms(2) len by (auto simp: connection_closed_def at_def split: if_splits bind_splits)
  have st: "stream_handle st = int (nat h)"
    using assms(1) c by (fastforce simp: acceptor_inv_def on_handle_def stream_handle_def)
  have drop: "drop_handler (int (nat h)) acc = Some acc'"
    using close len c unfolding st by (simp add: close_read_handler_def drop_handler_def at_def split: if_splits)
  then show ?thesis using drop_handler_inv [OF assms(1) c(2)] c by auto
qed

lemma close_read_handler_inv:
  assumes "acceptor_inv ct ix acc" and "drop_handler h acc = Some acc'"
    and "ct \<Longrightarrow> 0 \<le> h \<and> nat h < 1024 \<and> read_handlers acc ! nat h \<noteq> None"
  shows "acceptor_inv ct ix acc'"
proof -
  have "0 \<le> h" "nat h < 1024"
    using assms(1,2) by (auto simp: drop_handler_def at_def acceptor_inv_def split: if_splits bind_splits)
  then show ?thesis using drop_handler_inv [OF assms(1), of "nat h"] assms(2,3) by auto
qed

lemma acceptor_do_inv:
  assumes "acceptor_inv ct ix acc" and "acceptor_do op acc = Some acc'" and "kernel_allows op acc"
    and "ct \<Longrightarrow> counted_op op acc" and "ix \<Longrightarrow> indexed_op op acc"
  shows "acceptor_inv ct ix acc'"
proof (cases op)
  case (Op_handle_close h ans)
  then show ?thesis
    using assms acceptor_close_inv [OF assms(1), of ans] by (auto simp: acceptor_handle_close_def split: if_splits)
next
  case (Op_handle_input h w b1 b2)
  then show ?thesis using assms handle_input_inv [OF assms(1), of h w b1 b2] by auto
next
  case (Op_connection_closed h ans)
  then show ?thesis using assms connection_closed_inv [OF assms(1), of h ans] by auto
next
  case (Op_close_read_handler h)
  then show ?thesis using assms close_read_handler_inv [OF assms(1), of h] by (auto simp: close_read_handler_def)
next
  case (Op_template_close_read_handler h)
  then show ?thesis
    using assms close_read_handler_inv [OF assms(1), of h] by (auto simp: Acceptor_close_read_handler_def split: if_splits)
qed (use assms acceptor_open_inv [OF assms(1)] acceptor_close_inv [OF assms(1)]
  in \<open>auto simp: set_external_reactors_def close_all_handlers_def acceptor_inv_def\<close>)

lemma acceptor_path_inv:
  assumes "acceptor_path P (new_acceptor a r) acc"
  shows "acceptor_inv (P \<le> counted_op) (P \<le> indexed_op) acc"
  using assms
proof (induction "new_acceptor a r" acc rule: acceptor_path.induct)
  case path_start
  show ?case by (simp add: acceptor_inv_def new_acceptor_def live_count_def)
next
  case (path_step acc1 op acc2)
  show ?case by (rule acceptor_do_inv [OF path_step(2,5,4)]) (use path_step(3) in \<open>auto simp: le_fun_def le_bool_def\<close>)
qed

lemma destroy_refuses: "fst (destroy_acceptor ans acc) = (if live_count (read_handlers acc) = 0 then 0 else - 1)"
proof -
  have "live_count hs = 0 \<longleftrightarrow> \<not> list_ex (\<lambda>h. h \<noteq> None) hs" for hs
    by (auto simp: live_count_def list_ex_iff filter_empty_conv)
  moreover have "read_handlers (snd (acceptor_close ans acc)) = read_handlers acc"
    using close_listening_fields [of ans acc] by (simp add: acceptor_close_def split_def Let_def)
  ultimately show ?thesis by (simp add: destroy_acceptor_def Let_def)
qed

text \<open>
  C9. After any sequence of the public operations of an acceptor and of callbacks of the reactor, every stored
  connection is stored under its own descriptor, and \<open>destroy_acceptor\<close> refuses with \<open>-1\<close> exactly when a connection is
  stored. When in addition handlers are closed only while they are stored and \<open>close_all_handlers\<close>, which zeroes the
  count, is called only when none is left, the count is the number of stored connections. When
  \<open>set_external_reactors_\<close>, which does not reset the index, is given an empty vector or one longer than the index,
  the index of the next reactor is in range. The kernel does not hand out the descriptor of a stored connection.
\<close>

theorem acceptor_invariant:
  assumes "acceptor_path P (new_acceptor a r) acc"
  shows "(\<forall>i < 1024. \<forall>c. read_handlers acc ! i = Some c \<longrightarrow> on_handle c (int i)) \<and>
    fst (destroy_acceptor ans acc) = (if live_count (read_handlers acc) = 0 then 0 else - 1) \<and>
    (P \<le> counted_op \<longrightarrow> connectionCount acc = live_count (read_handlers acc)) \<and>
    (P \<le> indexed_op \<longrightarrow> external_reactors acc \<noteq> [] \<longrightarrow> current_reactor_index acc < length (external_reactors acc))"
  using acceptor_path_inv [OF assms] by (auto simp: acceptor_inv_def destroy_refuses)

theorem acceptor_invariant_witness:
  "let acc = set_external_reactors [\<lambda>_. 0] (new_acceptor \<lparr>lsock = new_sock True, is_AF_INET = True\<rparr> (\<lambda>_. 0))
   in connectionCount acc = live_count (read_handlers acc) \<and> current_reactor_index acc < 1"
proof -
  let ?acc = "new_acceptor \<lparr>lsock = new_sock True, is_AF_INET = True\<rparr> (\<lambda>_. 0)"
  let ?P = "\<lambda>op acc. counted_op op acc \<and> indexed_op op acc"
  have "acceptor_path ?P ?acc (set_external_reactors [\<lambda>_. 0] ?acc)"
    by (rule path_step [OF path_start, of _ "Op_set_external_reactors [\<lambda>_. 0]"]) (simp_all add: new_acceptor_def)
  moreover have "?P \<le> counted_op" "?P \<le> indexed_op" by (auto simp: le_fun_def)
  ultimately show ?thesis
    using acceptor_invariant [of ?P "\<lparr>lsock = new_sock True, is_AF_INET = True\<rparr>" "\<lambda>_. 0" "set_external_reactors [\<lambda>_. 0] ?acc" 0]
    by (simp add: set_external_reactors_def)
qed

text \<open>\<open>close_all_handlers\<close> forgets the count and keeps the handlers, which \<open>destroy_acceptor\<close> then still refuses to drop.\<close>

lemma close_all_keeps_handlers:
  assumes "live_count (read_handlers acc) \<noteq> 0"
  shows "connectionCount (snd (close_all_handlers acc)) \<noteq> live_count (read_handlers (snd (close_all_handlers acc))) \<and>
    fst (destroy_acceptor ans (snd (close_all_handlers acc))) = - 1"
  using assms by (simp add: close_all_handlers_def destroy_refuses)

end
