(* ===== verification/Wheel_Timer.thy ===== *)
theory Wheel_Timer
  imports Unp_Prelude
begin

text \<open>
  The hashed hierarchical timing wheel: \<open>HHWheelTimer\<close> (\<open>src/reactor/HHWheelTimer.cpp\<close>, \<open>.h\<close>) and \<open>TimeoutHandler\<close>
  (\<open>src/reactor/TimeoutHandler.cpp\<close>, \<open>.h\<close>). Timers are kept in four wheels of 256 slots; the slot of a timer follows
  from the tick at which it expires, and the timers of a slot of a coarser wheel are cascaded into the finer ones when
  the time comes. A handler is an identifier with its fields in a map, where a destroyed handler has no entry; times
  are nanoseconds. Times and ticks, which the source keeps in \<open>int64_t\<close>, are unbounded integers: \<open>times_fit\<close> shows that
  nothing that scheduling computes overflows for clock values and timeouts of up to 146 years. The clock, what the reactor answers and the user's callback
  are parameters. \<open>None\<close> is undefined behaviour or a failed assertion, also that of an intrusive list for a handler
  that is linked already.
\<close>

subsection \<open>State\<close>

record timer =
  expiration :: int
  slotInBucket :: int
  isRegistered :: bool
  needDestroy :: bool
  is_linked :: bool

record wheel =
  interval :: int
  startTime :: int
  timerCount :: nat
  expireTick :: int
  handlers :: "nat \<Rightarrow> nat \<Rightarrow> nat list"
  firstBucketBitSet :: "nat set"
  timer_of :: "nat \<Rightarrow> timer option"
  next_timer :: nat
  clock_reads :: nat
  called :: "nat list"
  timer_registrations :: "nat list"

text \<open>\<open>TimeoutHandler(needDestroy)\<close>.\<close>

definition new_timer :: "bool \<Rightarrow> timer" where
  "new_timer destroy =
     \<lparr>expiration = 0, slotInBucket = - 1, isRegistered = False, needDestroy = destroy, is_linked = False\<rparr>"

text \<open>The timers that exist besides the wheel are given with it; \<open>n\<close> is an identifier that is not used yet.\<close>

definition new_wheel :: "int \<Rightarrow> int \<Rightarrow> (nat \<Rightarrow> timer option) \<Rightarrow> nat \<Rightarrow> wheel" where
  "new_wheel intv now ts n = \<lparr>interval = intv, startTime = now, timerCount = 0, expireTick = 9223372036854775807,
     handlers = (\<lambda>_ _. []), firstBucketBitSet = {}, timer_of = ts, next_timer = n, clock_reads = 0, called = [],
     timer_registrations = []\<rparr>"

text \<open>Division of \<open>int64_t\<close> truncates; a duration of the clock is divided by the interval in nanoseconds.\<close>

definition cdiv :: "int \<Rightarrow> int \<Rightarrow> int" where
  "cdiv a b = (if a < 0 then - ((- a) div b) else a div b)"

definition tickOfCurTime :: "wheel \<Rightarrow> int \<Rightarrow> int" where
  "tickOfCurTime w t = cdiv (t - startTime w) (interval w * 1000000)"

definition getTickFromDuration :: "wheel \<Rightarrow> int \<Rightarrow> int" where
  "getTickFromDuration w ms = cdiv ms (interval w)"

text \<open>\<open>(tick >> (level * WHEEL_BITS)) & WHEEL_MASK\<close>.\<close>

definition wheel_slot :: "nat \<Rightarrow> int \<Rightarrow> nat" where
  "wheel_slot level tick = nat ((tick div 256 ^ level) mod 256)"

definition update_timer :: "nat \<Rightarrow> (timer \<Rightarrow> timer) \<Rightarrow> wheel \<Rightarrow> wheel" where
  "update_timer h f w = w\<lparr>timer_of := (timer_of w)(h := map_option f (timer_of w h))\<rparr>"

definition set_list :: "nat \<Rightarrow> nat \<Rightarrow> nat list \<Rightarrow> wheel \<Rightarrow> wheel" where
  "set_list k s hs w = w\<lparr>handlers := (\<lambda>k' s'. if k' = k \<and> s' = s then hs else handlers w k' s')\<rparr>"

definition setSheduled :: "nat \<Rightarrow> int \<Rightarrow> wheel \<Rightarrow> wheel" where
  "setSheduled h t w = update_timer h (\<lambda>tm. tm\<lparr>expiration := t\<rparr>) w"

subsection \<open>Scheduling\<close>

text \<open>The wheel and the slot for a tick.\<close>

definition LARGEST_SLOT :: int where "LARGEST_SLOT = 4294967295"

definition choose_slot :: "int \<Rightarrow> int \<Rightarrow> nat \<times> nat" where
  "choose_slot baseTick tick =
     (let diff = tick - baseTick in
      if diff < 0 then (0, wheel_slot 0 baseTick)
      else if diff < 256 then (0, wheel_slot 0 tick)
      else if diff < 65536 then (1, wheel_slot 1 tick)
      else if diff < 16777216 then (2, wheel_slot 2 tick)
      else (3, wheel_slot 3 (if diff > LARGEST_SLOT then LARGEST_SLOT + baseTick else tick)))"

definition scheduleTimeoutImpl :: "nat \<Rightarrow> int \<Rightarrow> int \<Rightarrow> wheel \<Rightarrow> wheel option" where
  "scheduleTimeoutImpl h baseTick tick w = do {
     t \<leftarrow> timer_of w h;
     let (k, s) = choose_slot baseTick tick;
     if is_linked t then None
     else Some (set_list k s (handlers w k s @ [h])
       (update_timer h (\<lambda>tm. tm\<lparr>slotInBucket := (if k = 0 then int s else slotInBucket tm), is_linked := True\<rparr>)
         (w\<lparr>timerCount := u64 (timerCount w + 1),
            firstBucketBitSet := (if k = 0 then insert s (firstBucketBitSet w) else firstBucketBitSet w)\<rparr>)))
   }"

text \<open>\<open>_Find_first\<close> is the size of the bit set when there is none.\<close>

definition find_first :: "nat set \<Rightarrow> nat" where
  "find_first bits = (case find (\<lambda>i. i \<in> bits) [0..<256] of Some i \<Rightarrow> i | None \<Rightarrow> 256)"

text \<open>\<open>reg\<close> is what the reactor answers to the registration of a handler.\<close>

definition register_timer :: "(nat \<Rightarrow> int) \<Rightarrow> nat \<Rightarrow> wheel \<Rightarrow> wheel option" where
  "register_timer reg h w = do {
     t \<leftarrow> timer_of w h;
     if isRegistered t then Some w
     else Some (update_timer h (\<lambda>tm. tm\<lparr>isRegistered := (reg h = 0)\<rparr>)
                  (w\<lparr>timer_registrations := timer_registrations w @ [h]\<rparr>))
   }"

definition scheduleNextTimeoutInReactor ::
  "(nat \<Rightarrow> int) \<Rightarrow> nat option \<Rightarrow> int \<Rightarrow> int \<Rightarrow> wheel \<Rightarrow> wheel option" where
  "scheduleNextTimeoutInReactor reg handler baseTick tick w = do {
     (h, tick1, w1) \<leftarrow>
       (if tick \<noteq> - 1 then map_option (\<lambda>h. (h, tick, w)) handler
        else let it = find_first (firstBucketBitSet w) in
          if it = 256 then
            let tickToGo = 256 - int (wheel_slot 0 baseTick);
                tick1 = baseTick + tickToGo;
                h = next_timer w;
                w1 = w\<lparr>timer_of := (timer_of w)(h \<mapsto> new_timer True), next_timer := h + 1\<rparr>
            in Some (h, tick1, setSheduled h (startTime w + tick1 * (interval w * 1000000)) w1)
          else case handlers w 0 it of
              [] \<Rightarrow> None
            | h # _ \<Rightarrow> do {
                t \<leftarrow> timer_of w h;
                Some (h, cdiv (expiration t - startTime w) (interval w * 1000000), w)
              });
     w2 \<leftarrow> register_timer reg h w1;
     Some (w2\<lparr>expireTick := tick1\<rparr>)
   }"

definition scheduleTimeout :: "(nat \<Rightarrow> int) \<Rightarrow> nat \<Rightarrow> int \<Rightarrow> int \<Rightarrow> wheel \<Rightarrow> wheel option" where
  "scheduleTimeout reg h timeout now w = do {
     _ \<leftarrow> timer_of w h;
     let timeout1 = max timeout 0;
     let currentTick = tickOfCurTime w now;
     let w1 = setSheduled h (now + timeout1 * 1000000) w;
     w2 \<leftarrow> scheduleTimeoutImpl h currentTick (getTickFromDuration w timeout1 + currentTick) w1;
     scheduleNextTimeoutInReactor reg None currentTick (- 1) w2
   }"

definition scheduleTimeoutFn :: "(nat \<Rightarrow> int) \<Rightarrow> int \<Rightarrow> int \<Rightarrow> wheel \<Rightarrow> wheel option" where
  "scheduleTimeoutFn reg timeout now w =
     (let h = next_timer w
      in scheduleTimeout reg h timeout now
           (w\<lparr>timer_of := (timer_of w)(h \<mapsto> new_timer True), next_timer := h + 1\<rparr>))"

subsection \<open>Expiry\<close>

definition tick_of :: "wheel \<Rightarrow> timer \<Rightarrow> int" where
  "tick_of w t = cdiv (expiration t - startTime w) (interval w * 1000000)"

text \<open>The timers of a slot that has been emptied are put into the wheels again, from the current tick on.\<close>

fun cascade_loop :: "int \<Rightarrow> nat list \<Rightarrow> wheel \<Rightarrow> wheel option" where
  "cascade_loop curTick [] w = Some w"
| "cascade_loop curTick (h # hs) w = do {
     t \<leftarrow> timer_of w h;
     w1 \<leftarrow> scheduleTimeoutImpl h curTick (tick_of w t)
       (update_timer h (\<lambda>tm. tm\<lparr>is_linked := False\<rparr>) (w\<lparr>timerCount := u64_sub (timerCount w) 1\<rparr>));
     cascade_loop curTick hs w1
   }"

definition cascadeTimers :: "nat \<Rightarrow> nat \<Rightarrow> int \<Rightarrow> wheel \<Rightarrow> (bool \<times> wheel) option" where
  "cascadeTimers bucket tick curTick w = do {
     w1 \<leftarrow> cascade_loop curTick (handlers w bucket tick) (set_list bucket tick [] w);
     Some (tick = 0, w1)
   }"

text \<open>\<open>a && b\<close> cascades the next wheel only when the slot was the first one.\<close>

definition cascade_all :: "int \<Rightarrow> int \<Rightarrow> wheel \<Rightarrow> wheel option" where
  "cascade_all tick curTick w = do {
     (c1, w1) \<leftarrow> cascadeTimers 1 (wheel_slot 1 tick) curTick w;
     (c2, w2) \<leftarrow> (if c1 then cascadeTimers 2 (wheel_slot 2 tick) curTick w1 else Some (False, w1));
     (_, w3) \<leftarrow> (if c2 then cascadeTimers 3 (wheel_slot 3 tick) curTick w2 else Some (False, w2));
     Some w3
   }"

fun take_expired :: "nat \<Rightarrow> nat list \<Rightarrow> nat list \<Rightarrow> wheel \<Rightarrow> (nat list \<times> wheel) option" where
  "take_expired handler [] expired w = Some (expired, w)"
| "take_expired handler (h # hs) expired w = do {
     _ \<leftarrow> timer_of w h;
     t \<leftarrow> timer_of w handler;
     if h = handler \<or> isRegistered t
     then take_expired handler hs expired (update_timer h (\<lambda>tm. tm\<lparr>is_linked := False\<rparr>) w)
     else take_expired handler hs (expired @ [h]) w
   }"

text \<open>The loop \<open>while(expireTick_ <= curTick)\<close>; \<open>tick\<close> is the value of \<open>expireTick_\<close>.\<close>

function expire_loop :: "nat \<Rightarrow> int \<Rightarrow> int \<Rightarrow> nat list \<Rightarrow> wheel \<Rightarrow> (nat list \<times> wheel) option" where
  "expire_loop handler curTick tick expired w =
     (if tick > curTick then Some (expired, w\<lparr>expireTick := tick\<rparr>)
      else do {
        let index = wheel_slot 0 tick;
        w1 \<leftarrow> (if index = 0 then cascade_all tick curTick w else Some w);
        if index \<notin> firstBucketBitSet w1 then expire_loop handler curTick (tick + 1) expired w1
        else do {
          (expired1, w2) \<leftarrow> take_expired handler (handlers w1 0 index) expired (set_list 0 index [] w1);
          expire_loop handler curTick (tick + 1) expired1
            (w2\<lparr>firstBucketBitSet := firstBucketBitSet w2 - {index}\<rparr>)
        }
      })"
  by pat_completeness auto
termination by (relation "measure (\<lambda>(_, curTick, tick, _, _). nat (curTick + 1 - tick))") auto

text \<open>\<open>rec\<close> is \<open>handle_timeout\<close>, which calls \<open>timeoutExpired\<close> again.\<close>

fun run_expired :: "(nat \<Rightarrow> wheel \<Rightarrow> wheel option) \<Rightarrow> nat list \<Rightarrow> wheel \<Rightarrow> wheel option" where
  "run_expired rec [] w = Some w"
| "run_expired rec (h # hs) w = do {
     w1 \<leftarrow> rec h (update_timer h (\<lambda>tm. tm\<lparr>is_linked := False\<rparr>) w);
     run_expired rec hs (w1\<lparr>timerCount := u64_sub (timerCount w1) 1\<rparr>)
   }"

definition timeoutExpired ::
  "(nat \<Rightarrow> int) \<Rightarrow> (nat \<Rightarrow> int) \<Rightarrow> (nat \<Rightarrow> wheel \<Rightarrow> wheel option) \<Rightarrow> nat \<Rightarrow> wheel \<Rightarrow> wheel option" where
  "timeoutExpired clock reg rec handler w = do {
     let curTick = tickOfCurTime w (clock (clock_reads w));
     let w1 = w\<lparr>clock_reads := clock_reads w + 1,
                timerCount := (if wheel_slot 0 (expireTick w) \<in> firstBucketBitSet w
                               then u64_sub (timerCount w) 1 else timerCount w)\<rparr>;
     (expired, w2) \<leftarrow> expire_loop handler curTick (expireTick w1) [] w1;
     w3 \<leftarrow> run_expired rec expired w2;
     if timerCount w3 > 0 then scheduleNextTimeoutInReactor reg None curTick (- 1) w3 else Some w3
   }"

text \<open>Destroying a handler takes it out of the list that it is linked into.\<close>

definition destroy :: "nat \<Rightarrow> wheel \<Rightarrow> wheel" where
  "destroy h w = w\<lparr>timer_of := (timer_of w)(h := None), handlers := (\<lambda>k s. removeAll h (handlers w k s))\<rparr>"

text \<open>
  \<open>timeoutExpired\<close> and \<open>handle_timeout\<close> call each other; the first argument bounds the depth, and \<open>None\<close> is also that
  it does not suffice. \<open>cb\<close> is the user's callback.
\<close>

primrec handle_timeout :: "nat \<Rightarrow> (nat \<Rightarrow> int) \<Rightarrow> (nat \<Rightarrow> int) \<Rightarrow> (nat \<Rightarrow> wheel \<Rightarrow> wheel option) \<Rightarrow>
    nat \<Rightarrow> wheel \<Rightarrow> wheel option" where
  "handle_timeout 0 clock reg cb h w = None"
| "handle_timeout (Suc n) clock reg cb h w = do {
     _ \<leftarrow> timer_of w h;
     w1 \<leftarrow> cb h (w\<lparr>called := called w @ [h]\<rparr>);
     w2 \<leftarrow> timeoutExpired clock reg (handle_timeout n clock reg cb) h
             (update_timer h (\<lambda>tm. tm\<lparr>isRegistered := False\<rparr>) w1);
     t \<leftarrow> timer_of w2 h;
     Some (if needDestroy t then destroy h w2 else w2)
   }"

subsection \<open>Cancelling\<close>

text \<open>\<open>unreg\<close> is what the reactor answers to \<open>unregister_handler\<close>; for the null pointer it must not be 0.\<close>

fun cancel_loop :: "(nat option \<Rightarrow> int) \<Rightarrow> int \<Rightarrow> nat list \<Rightarrow> wheel \<Rightarrow> wheel option" where
  "cancel_loop unreg slot [] w = Some w"
| "cancel_loop unreg slot (h # hs) w = do {
     t \<leftarrow> timer_of w h;
     if slotInBucket t \<noteq> slot then None
     else do {
       let w1 = update_timer h (\<lambda>tm. tm\<lparr>isRegistered := isRegistered tm \<and> unreg (Some h) \<noteq> 0,
                  is_linked := False, expiration := 0, slotInBucket := - 1\<rparr>) w;
       cancel_loop unreg slot hs (if needDestroy t then destroy h w1 else w1)
     }
   }"

definition cancelTimeoutsFromList ::
  "(nat option \<Rightarrow> int) \<Rightarrow> nat \<Rightarrow> nat \<Rightarrow> wheel \<Rightarrow> (nat \<times> wheel) option" where
  "cancelTimeoutsFromList unreg k s w =
     (case handlers w k s of
        [] \<Rightarrow> Some (0, w)
      | h # hs \<Rightarrow> do {
          t \<leftarrow> timer_of w h;
          let slot = slotInBucket t;
          let w1 = (if slot \<noteq> - 1 then w\<lparr>firstBucketBitSet := firstBucketBitSet w - {nat slot}\<rparr> else w);
          w2 \<leftarrow> cancel_loop unreg slot (h # hs) (set_list k s [] w1);
          Some (length (h # hs), w2)
        })"

fun cancel_lists :: "(nat option \<Rightarrow> int) \<Rightarrow> (nat \<times> nat) list \<Rightarrow> wheel \<Rightarrow> wheel option" where
  "cancel_lists unreg [] w = Some w"
| "cancel_lists unreg ((k, s) # ks) w = do {
     (count, w1) \<leftarrow> cancelTimeoutsFromList unreg k s w;
     cancel_lists unreg ks (w1\<lparr>timerCount := u64_sub (timerCount w1) count\<rparr>)
   }"

definition cancelAll :: "(nat option \<Rightarrow> int) \<Rightarrow> wheel \<Rightarrow> wheel option" where
  "cancelAll unreg w = do {
     w1 \<leftarrow> cancel_lists unreg (List.product [0..<4] [0..<256]) w;
     if timerCount w1 = 0 \<and> unreg None = 0 then None else Some w1
   }"


subsection \<open>Ticks and slots\<close>

text \<open>
  A timer with tick \<open>T\<close> that is in slot \<open>s\<close> of wheel \<open>k\<close> is on time for the next tick \<open>e\<close> when the slot will be reached
  before the timer is due and not a whole turn too early.
\<close>

definition on_time :: "int \<Rightarrow> nat \<Rightarrow> int \<Rightarrow> nat \<Rightarrow> bool" where
  "on_time e k T s \<longleftrightarrow> k < 4 \<and> s = wheel_slot k T \<and> e \<le> T div 256 ^ k * 256 ^ k \<and> T < e + 256 ^ (k + 1)"

lemma block_bounds:
  fixes T :: int
  shows "T div 256 ^ k * 256 ^ k \<le> T" and "T - 256 ^ k < T div 256 ^ k * 256 ^ k"
proof -
  have "T div 256 ^ k * 256 ^ k = T - T mod 256 ^ k" by (simp add: minus_mod_eq_div_mult)
  moreover have "0 \<le> T mod 256 ^ k" "T mod 256 ^ k < 256 ^ k" by simp_all
  ultimately show "T div 256 ^ k * 256 ^ k \<le> T" and "T - 256 ^ k < T div 256 ^ k * 256 ^ k" by linarith+
qed

lemma on_time_due: "on_time e k T s \<Longrightarrow> e \<le> T"
  using block_bounds(1) [of T k] by (auto simp: on_time_def)

lemma wheel_slot_eq: "wheel_slot k T = wheel_slot k U \<longleftrightarrow> T div 256 ^ k mod 256 = U div 256 ^ k mod 256"
  by (simp add: wheel_slot_def eq_nat_nat_iff)

lemma on_time_slot:
  assumes "on_time e k T s" and "256 ^ k dvd e"
  shows "s = wheel_slot k e \<longleftrightarrow> T div 256 ^ k * 256 ^ k = e"
proof -
  obtain m where e: "e = 256 ^ k * m" using assms(2) by (rule dvdE)
  define d where "d = T div 256 ^ k"
  have pos: "(0::int) < 256 ^ k" by simp
  have "m \<le> d" using assms(1) pos by (simp add: on_time_def d_def e mult.commute)
  moreover have "d < m + 256"
  proof -
    have "256 ^ k * d < 256 ^ k * (m + 256)"
      using assms(1) block_bounds(1) [of T k] by (simp add: on_time_def d_def e algebra_simps)
    then show ?thesis using pos by simp
  qed
  ultimately have "d mod 256 = m mod 256 \<longleftrightarrow> d = m"
    using zdvd_not_zless [of "d - m" 256] by (cases "m < d") (auto simp: mod_eq_dvd_iff)
  moreover have "s = wheel_slot k e \<longleftrightarrow> d mod 256 = m mod 256"
    using assms(1) pos by (simp add: on_time_def wheel_slot_eq d_def e)
  ultimately show ?thesis using pos by (simp add: d_def e mult.commute)
qed

lemma on_time_Suc:
  assumes "on_time e k T s" and "256 ^ k dvd e \<Longrightarrow> s \<noteq> wheel_slot k e"
  shows "on_time (e + 1) k T s"
proof -
  have "T div 256 ^ k * 256 ^ k \<noteq> e"
  proof
    assume eq: "T div 256 ^ k * 256 ^ k = e"
    then have "256 ^ k dvd e" by (metis dvd_triv_right)
    then show False using assms on_time_slot eq by blast
  qed
  then show ?thesis using assms(1) by (auto simp: on_time_def)
qed

lemma choose_slot_on_time:
  assumes "0 \<le> T - b" and "T - b < 256 ^ n" and "1 \<le> n" and "n \<le> 4" and "choose_slot b T = (k, s)"
  shows "on_time b k T s \<and> k < n \<and> (0 < k \<longrightarrow> on_time (b + 1) k T s)"
proof -
  have k: "k < n" "s = wheel_slot k T" "T - b < 256 ^ (k + 1)" "k < 4" "k > 0 \<longrightarrow> 256 ^ k \<le> T - b"
    using assms by (auto simp: choose_slot_def Let_def LARGEST_SLOT_def numeral_eq_Suc le_Suc_eq split: if_splits)
  have "0 < k \<Longrightarrow> b < T div 256 ^ k * 256 ^ k" using block_bounds(2) [of T k] k(5) by linarith
  moreover have "k = 0 \<Longrightarrow> b \<le> T div 256 ^ k * 256 ^ k" using assms(1) by simp
  ultimately show ?thesis using k by (cases "k = 0") (auto simp: on_time_def)
qed

lemma wheel_slot_zero: "256 ^ k dvd e \<Longrightarrow> wheel_slot k e = 0 \<longleftrightarrow> 256 ^ (k + 1) dvd e"
proof -
  assume "256 ^ k dvd e"
  then obtain m where e: "e = 256 ^ k * m" by (rule dvdE)
  have "256 ^ (k + 1) dvd e \<longleftrightarrow> 256 dvd m" by (simp add: e)
  moreover have "0 \<le> m mod 256" by simp
  ultimately show ?thesis by (auto simp: wheel_slot_def e nat_eq_iff dvd_eq_mod_eq_0)
qed


subsection \<open>Well-formed wheels\<close>

definition ticks :: "wheel \<Rightarrow> nat \<Rightarrow> int" where
  "ticks w h = (case timer_of w h of Some t \<Rightarrow> tick_of w t | None \<Rightarrow> 0)"

definition wheel_set :: "wheel \<Rightarrow> nat set" where
  "wheel_set w = {h. \<exists>k s. h \<in> set (handlers w k s)}"

text \<open>Bits and lists agree, no handler is linked twice, and every linked handler exists.\<close>

definition wheel_wf :: "wheel \<Rightarrow> bool" where
  "wheel_wf w \<longleftrightarrow> (\<forall>s. s \<in> firstBucketBitSet w \<longleftrightarrow> handlers w 0 s \<noteq> []) \<and>
     (\<forall>k s. distinct (handlers w k s)) \<and>
     (\<forall>k s k' s' h. h \<in> set (handlers w k s) \<longrightarrow> h \<in> set (handlers w k' s') \<longrightarrow> k = k' \<and> s = s') \<and>
     (\<forall>h \<in> wheel_set w. timer_of w h \<noteq> None)"

text \<open>What every step of the expiry keeps of the handlers.\<close>

definition same_timers :: "wheel \<Rightarrow> wheel \<Rightarrow> bool" where
  "same_timers w w' \<longleftrightarrow> startTime w' = startTime w \<and> interval w' = interval w \<and>
     (\<forall>h. map_option (\<lambda>t. (expiration t, isRegistered t)) (timer_of w' h) =
          map_option (\<lambda>t. (expiration t, isRegistered t)) (timer_of w h))"

lemma same_timers_refl: "same_timers w w"
  by (simp add: same_timers_def)

lemma same_timers_trans: "same_timers w w' \<Longrightarrow> same_timers w' w'' \<Longrightarrow> same_timers w w''"
  by (simp add: same_timers_def)

lemma same_timers_at:
  "same_timers w w' \<Longrightarrow> map_option (\<lambda>t. (expiration t, isRegistered t)) (timer_of w' h) =
     map_option (\<lambda>t. (expiration t, isRegistered t)) (timer_of w h)"
  by (simp add: same_timers_def)

lemma same_timers_ticks:
  assumes "same_timers w w'"
  shows "ticks w' h = ticks w h"
  using same_timers_at [OF assms, of h] assms
  by (cases "timer_of w h"; cases "timer_of w' h") (simp_all add: same_timers_def ticks_def tick_of_def)

lemma same_timers_None:
  assumes "same_timers w w'"
  shows "timer_of w' h = None \<longleftrightarrow> timer_of w h = None"
  using same_timers_at [OF assms, of h] by (cases "timer_of w h"; cases "timer_of w' h") simp_all

lemma same_timers_Some:
  assumes "same_timers w w'" and "timer_of w h = Some t"
  shows "\<exists>t'. timer_of w' h = Some t' \<and> isRegistered t' = isRegistered t"
  using same_timers_at [OF assms(1), of h] assms(2) by (cases "timer_of w' h") simp_all

lemma same_timers_update:
  assumes "\<And>t. expiration (f t) = expiration t \<and> isRegistered (f t) = isRegistered t"
    and "startTime w' = startTime w" and "interval w' = interval w"
    and "timer_of w' = (timer_of w)(h := map_option f (timer_of w h))"
  shows "same_timers w w'"
  using assms by (simp add: same_timers_def option.map_comp o_def)

subsection \<open>Cascading\<close>

lemma cascade_loop_result:
  assumes "\<forall>h \<in> set hs. timer_of w h \<noteq> None"
  shows "\<exists>w'. cascade_loop c hs w = Some w' \<and> same_timers w w' \<and> expireTick w' = expireTick w \<and>
    handlers w' = (\<lambda>k s. handlers w k s @ filter (\<lambda>h. choose_slot c (ticks w h) = (k, s)) hs) \<and>
    firstBucketBitSet w' = firstBucketBitSet w \<union> {s. \<exists>h \<in> set hs. choose_slot c (ticks w h) = (0, s)}"
  using assms
proof (induction hs arbitrary: w)
  case Nil
  then show ?case by (simp add: same_timers_refl)
next
  case (Cons h hs)
  obtain t where t: "timer_of w h = Some t" using Cons.prems by auto
  obtain k s where ks: "choose_slot c (tick_of w t) = (k, s)" by fastforce
  define w0 where "w0 = update_timer h (\<lambda>tm. tm\<lparr>is_linked := False\<rparr>) (w\<lparr>timerCount := u64_sub (timerCount w) 1\<rparr>)"
  define w1 where "w1 = the (scheduleTimeoutImpl h c (tick_of w t) w0)"
  have w1: "scheduleTimeoutImpl h c (tick_of w t) w0 = Some w1"
    by (simp add: scheduleTimeoutImpl_def w1_def w0_def update_timer_def t ks)
  have w1_eq: "handlers w1 = (\<lambda>k' s'. if k' = k \<and> s' = s then handlers w k s @ [h] else handlers w k' s')"
    "firstBucketBitSet w1 = (if k = 0 then insert s (firstBucketBitSet w) else firstBucketBitSet w)"
    "expireTick w1 = expireTick w"
    using w1 by (auto simp: scheduleTimeoutImpl_def w0_def update_timer_def set_list_def t ks fun_eq_iff)
  have same: "same_timers w w1"
    by (rule same_timers_update [where h = h and
          f = "\<lambda>tm. tm\<lparr>is_linked := True, slotInBucket := (if k = 0 then int s else slotInBucket tm)\<rparr>"])
      (use w1 in \<open>auto simp: scheduleTimeoutImpl_def w0_def update_timer_def set_list_def t ks\<close>)
  have "\<forall>h \<in> set hs. timer_of w1 h \<noteq> None" using Cons.prems same_timers_None [OF same] by simp
  from Cons.IH [OF this] obtain w' where w': "cascade_loop c hs w1 = Some w'" "same_timers w1 w'"
    "expireTick w' = expireTick w1"
    "handlers w' = (\<lambda>k s. handlers w1 k s @ filter (\<lambda>h. choose_slot c (ticks w1 h) = (k, s)) hs)"
    "firstBucketBitSet w' = firstBucketBitSet w1 \<union> {s. \<exists>h \<in> set hs. choose_slot c (ticks w1 h) = (0, s)}"
    by blast
  have tk: "ticks w h = tick_of w t" by (simp add: ticks_def t)
  have "cascade_loop c (h # hs) w = Some w'" using w1 w'(1) by (simp add: t w0_def)
  moreover have "handlers w' = (\<lambda>k s. handlers w k s @ filter (\<lambda>h. choose_slot c (ticks w h) = (k, s)) (h # hs))"
    by (auto simp: w'(4) w1_eq same_timers_ticks [OF same] tk ks fun_eq_iff)
  moreover have "firstBucketBitSet w' =
      firstBucketBitSet w \<union> {s. \<exists>h \<in> set (h # hs). choose_slot c (ticks w h) = (0, s)}"
    by (auto simp: w'(5) w1_eq same_timers_ticks [OF same] tk ks)
  ultimately show ?case using same_timers_trans [OF same w'(2)] w'(3) w1_eq(3) by auto
qed

lemma cascadeTimers_result:
  assumes "wheel_wf w" and "0 < b"
  shows "\<exists>w'. cascadeTimers b i c w = Some (i = 0, w') \<and> wheel_wf w' \<and> same_timers w w' \<and>
    wheel_set w' = wheel_set w \<and>
    (\<forall>k s. set (handlers w' k s) = (if k = b \<and> s = i then {} else set (handlers w k s)) \<union>
       {h \<in> set (handlers w b i). choose_slot c (ticks w h) = (k, s)})"
proof -
  define L where "L = handlers w b i"
  define w0 where "w0 = set_list b i [] w"
  have same0: "same_timers w w0" by (simp add: same_timers_def w0_def set_list_def)
  have h0: "handlers w0 k s = (if k = b \<and> s = i then [] else handlers w k s)" for k s
    by (simp add: w0_def set_list_def)
  have b0: "firstBucketBitSet w0 = firstBucketBitSet w" by (simp add: w0_def set_list_def)
  have "\<forall>h \<in> set L. timer_of w0 h \<noteq> None"
    using assms(1) unfolding wheel_wf_def L_def w0_def set_list_def wheel_set_def by fastforce
  from cascade_loop_result [OF this, of c] obtain w' where w': "cascade_loop c L w0 = Some w'" "same_timers w0 w'"
    "handlers w' = (\<lambda>k s. handlers w0 k s @ filter (\<lambda>h. choose_slot c (ticks w0 h) = (k, s)) L)"
    "firstBucketBitSet w' = firstBucketBitSet w0 \<union> {s. \<exists>h \<in> set L. choose_slot c (ticks w0 h) = (0, s)}"
    by blast
  have same: "same_timers w w'" using same_timers_trans [OF same0 w'(2)] .
  have h': "handlers w' k s = (if k = b \<and> s = i then [] else handlers w k s) @
      filter (\<lambda>h. choose_slot c (ticks w h) = (k, s)) L" for k s
    by (simp add: w'(3) h0 same_timers_ticks [OF same0])
  have set': "set (handlers w' k s) = (if k = b \<and> s = i then {} else set (handlers w k s)) \<union>
      {h \<in> set L. choose_slot c (ticks w h) = (k, s)}" for k s
    by (auto simp: h')
  have ws: "wheel_set w' = wheel_set w"
  proof (rule set_eqI)
    fix h
    obtain k s where "choose_slot c (ticks w h) = (k, s)" by fastforce
    then have "h \<in> set (handlers w b i) \<Longrightarrow> h \<in> set (handlers w' k s)" by (simp add: set' L_def)
    moreover have "h \<in> set (handlers w k' s') \<Longrightarrow> h \<notin> set (handlers w b i) \<Longrightarrow> h \<in> set (handlers w' k' s')" for k' s'
      by (auto simp: set')
    moreover have "h \<in> set (handlers w' k' s') \<Longrightarrow> h \<in> set (handlers w k' s') \<or> h \<in> set (handlers w b i)" for k' s'
      by (auto simp: set' L_def split: if_splits)
    ultimately show "h \<in> wheel_set w' \<longleftrightarrow> h \<in> wheel_set w" unfolding wheel_set_def by blast
  qed
  have uniq: "h \<in> set (handlers w k s) \<Longrightarrow> h \<in> set (handlers w k' s') \<Longrightarrow> k = k' \<and> s = s'" for h k s k' s'
    using assms(1) unfolding wheel_wf_def by blast
  have "wheel_wf w'"
    unfolding wheel_wf_def
  proof (intro conjI allI ballI impI)
    fix s show "s \<in> firstBucketBitSet w' \<longleftrightarrow> handlers w' 0 s \<noteq> []"
      using assms by (auto simp: w'(4) b0 h' wheel_wf_def filter_empty_conv same_timers_ticks [OF same0])
  next
    fix k s show "distinct (handlers w' k s)"
      using assms(1) uniq [of _ k s b i] by (auto simp: h' wheel_wf_def L_def)
  next
    fix k s k' s' h assume "h \<in> set (handlers w' k s)" "h \<in> set (handlers w' k' s')"
    then show "k = k'" "s = s'"
      using uniq [of h k s k' s'] uniq [of h k s b i] uniq [of h k' s' b i]
      by (auto simp: set' L_def split: if_splits)
  next
    fix h assume "h \<in> wheel_set w'"
    then show "timer_of w' h \<noteq> None" using assms(1) by (simp add: ws wheel_wf_def same_timers_None [OF same])
  qed
  then show ?thesis using w'(1) same ws set' by (auto simp: cascadeTimers_def L_def w0_def)
qed


text \<open>
  While the wheel is brought from tick \<open>e\<close> to the current tick \<open>c\<close>: timers that were due already when they were
  cascaded are in the slot of \<open>c\<close>, all others are on time. The wheels up to \<open>n\<close> have been cascaded at \<open>e\<close>.
\<close>

definition placed :: "int \<Rightarrow> int \<Rightarrow> nat \<Rightarrow> wheel \<Rightarrow> bool" where
  "placed e c n w \<longleftrightarrow> (\<forall>k s. \<forall>h \<in> set (handlers w k s).
     (if 0 < k \<and> k \<le> n then on_time (e + 1) k (ticks w h) s
      else on_time e k (ticks w h) s \<or> k = 0 \<and> e \<le> c \<and> ticks w h < c \<and> s = wheel_slot 0 c))"

lemma placedD:
  "placed e c n w \<Longrightarrow> h \<in> set (handlers w k s) \<Longrightarrow>
     (if 0 < k \<and> k \<le> n then on_time (e + 1) k (ticks w h) s
      else on_time e k (ticks w h) s \<or> k = 0 \<and> e \<le> c \<and> ticks w h < c \<and> s = wheel_slot 0 c)"
  unfolding placed_def by blast

lemma on_time_level: "on_time e k T s \<Longrightarrow> k \<le> 3"
  by (simp add: on_time_def)

lemma placed_mono:
  assumes "placed e c n w" and "\<not> 256 ^ (n + 1) dvd e"
  shows "placed e c 3 w"
  unfolding placed_def
proof (intro allI ballI)
  fix k s h assume h: "h \<in> set (handlers w k s)"
  show "if 0 < k \<and> k \<le> 3 then on_time (e + 1) k (ticks w h) s
    else on_time e k (ticks w h) s \<or> k = 0 \<and> e \<le> c \<and> ticks w h < c \<and> s = wheel_slot 0 c"
  proof (cases "k = 0 \<or> k \<le> n")
    case True
    then show ?thesis using placedD [OF assms(1) h] on_time_level by (auto split: if_splits)
  next
    case False
    then have "on_time e k (ticks w h) s" using placedD [OF assms(1) h] by auto
    moreover have "\<not> 256 ^ k dvd e"
      using False assms(2) by (metis Suc_eq_plus1 dvd_trans le_imp_power_dvd not_less_eq_eq)
    ultimately show ?thesis using on_time_Suc [of e k "ticks w h" s] on_time_level [of e k "ticks w h" s] False by auto
  qed
qed

lemma cascade_placed:
  assumes wf: "wheel_wf w" and pl: "placed e c (b - 1) w" and b: "0 < b" "b < 4" and dvd: "256 ^ b dvd e"
    and e: "e \<le> c" and on: "1 < b \<longrightarrow> e = c"
  shows "\<exists>w'. cascadeTimers b (wheel_slot b e) c w = Some (wheel_slot b e = 0, w') \<and> wheel_wf w' \<and>
    same_timers w w' \<and> wheel_set w' = wheel_set w \<and> placed e c b w'"
proof -
  define i where "i = wheel_slot b e"
  obtain w' where w': "cascadeTimers b i c w = Some (i = 0, w')" "wheel_wf w'" "same_timers w w'"
    "wheel_set w' = wheel_set w"
    and set': "\<And>k s. set (handlers w' k s) = (if k = b \<and> s = i then {} else set (handlers w k s)) \<union>
       {h \<in> set (handlers w b i). choose_slot c (ticks w h) = (k, s)}"
    using cascadeTimers_result [OF wf b(1), of i c] by blast
  have tk: "ticks w' h = ticks w h" for h by (rule same_timers_ticks [OF w'(3)])
  have moved: "if 0 < k \<and> k \<le> b then on_time (e + 1) k (ticks w h) s
      else on_time e k (ticks w h) s \<or> k = 0 \<and> e \<le> c \<and> ticks w h < c \<and> s = wheel_slot 0 c"
    if h: "h \<in> set (handlers w b i)" and ks: "choose_slot c (ticks w h) = (k, s)" for h k s
  proof -
    have "on_time e b (ticks w h) i" using placedD [OF pl h] b by (auto split: if_splits)
    then have "ticks w h div 256 ^ b * 256 ^ b = e" using on_time_slot dvd i_def by blast
    then have T: "e \<le> ticks w h" "ticks w h < e + 256 ^ b" using block_bounds [of "ticks w h" b] by linarith+
    show ?thesis
    proof (cases "ticks w h < c")
      case True
      then have "(k, s) = (0, wheel_slot 0 c)" using ks by (simp add: choose_slot_def)
      then show ?thesis using True e by simp
    next
      case False
      have lt: "ticks w h - c < 256 ^ b" using T e by linarith
      then have ot: "on_time c k (ticks w h) s \<and> k < b \<and> (0 < k \<longrightarrow> on_time (c + 1) k (ticks w h) s)"
        using choose_slot_on_time [OF _ lt _ _ ks] False b by auto
      show ?thesis
      proof (cases "b = 1")
        case True
        then have "k = 0" "s = wheel_slot 0 (ticks w h)" using ot by (auto simp: on_time_def)
        then show ?thesis using T True by (auto simp: on_time_def)
      next
        case False
        then show ?thesis using on ot b by auto
      qed
    qed
  qed
  have stay: "if 0 < k \<and> k \<le> b then on_time (e + 1) k (ticks w h) s
      else on_time e k (ticks w h) s \<or> k = 0 \<and> e \<le> c \<and> ticks w h < c \<and> s = wheel_slot 0 c"
    if h: "h \<in> set (handlers w k s)" and ks: "\<not> (k = b \<and> s = i)" for h k s
  proof (cases "k = b")
    case True
    then have "on_time e k (ticks w h) s" using placedD [OF pl h] b by (auto split: if_splits)
    then show ?thesis using on_time_Suc [of e k "ticks w h" s] True ks b i_def by auto
  next
    case False
    then have "k \<le> b - 1 \<longleftrightarrow> k \<le> b" using b by auto
    then show ?thesis using placedD [OF pl h] by simp
  qed
  have "placed e c b w'"
    unfolding placed_def tk
  proof (intro allI ballI)
    fix k s h assume "h \<in> set (handlers w' k s)"
    then consider (a) "h \<in> set (handlers w k s)" "\<not> (k = b \<and> s = i)"
      | (b) "h \<in> set (handlers w b i)" "choose_slot c (ticks w h) = (k, s)"
      using set' [of k s] by (auto split: if_splits)
    then show "if 0 < k \<and> k \<le> b then on_time (e + 1) k (ticks w h) s
      else on_time e k (ticks w h) s \<or> k = 0 \<and> e \<le> c \<and> ticks w h < c \<and> s = wheel_slot 0 c"
      using stay moved by cases blast+
  qed
  then show ?thesis using w' by (auto simp: i_def)
qed

lemma cascade_all_placed:
  assumes wf: "wheel_wf w" and pl: "placed e c 0 w" and dvd: "256 dvd e" and e: "e \<le> c"
    and on: "65536 dvd e \<longrightarrow> e = c"
  shows "\<exists>w'. cascade_all e c w = Some w' \<and> wheel_wf w' \<and> same_timers w w' \<and> wheel_set w' = wheel_set w \<and>
    placed e c 3 w'"
proof -
  obtain w1 where w1: "cascadeTimers 1 (wheel_slot 1 e) c w = Some (wheel_slot 1 e = 0, w1)" "wheel_wf w1"
    "same_timers w w1" "wheel_set w1 = wheel_set w" "placed e c 1 w1"
    using cascade_placed [OF wf, of e c 1] pl dvd e by auto
  show ?thesis
  proof (cases "wheel_slot 1 e = 0")
    case False
    then have "\<not> 256 ^ (1 + 1) dvd e" using wheel_slot_zero [of 1 e] dvd by simp
    from placed_mono [OF w1(5) this] show ?thesis using w1 False by (auto simp: cascade_all_def)
  next
    case True
    then have d2: "256 ^ 2 dvd e" using wheel_slot_zero [of 1 e] dvd by (simp add: numeral_2_eq_2)
    then have ec: "e = c" using on by simp
    obtain w2 where w2: "cascadeTimers 2 (wheel_slot 2 e) c w1 = Some (wheel_slot 2 e = 0, w2)" "wheel_wf w2"
      "same_timers w1 w2" "wheel_set w2 = wheel_set w1" "placed e c 2 w2"
      using cascade_placed [OF w1(2), of e c 2] w1(5) d2 e ec by auto
    have same2: "same_timers w w2" using same_timers_trans [OF w1(3) w2(3)] .
    show ?thesis
    proof (cases "wheel_slot 2 e = 0")
      case False
      then have "\<not> 256 ^ (2 + 1) dvd e" using wheel_slot_zero [OF d2] by simp
      from placed_mono [OF w2(5) this] show ?thesis using w1 w2 True False same2 by (auto simp: cascade_all_def)
    next
      case z: True
      then have d3: "256 ^ 3 dvd e" using wheel_slot_zero [OF d2] by (simp add: numeral_3_eq_3)
      obtain w3 where w3: "cascadeTimers 3 (wheel_slot 3 e) c w2 = Some (wheel_slot 3 e = 0, w3)" "wheel_wf w3"
        "same_timers w2 w3" "wheel_set w3 = wheel_set w2" "placed e c 3 w3"
        using cascade_placed [OF w2(2), of e c 3] w2(5) d3 e ec by auto
      then show ?thesis
        using w1 w2 True z same_timers_trans [OF same2 w3(3)] by (auto simp: cascade_all_def)
    qed
  qed
qed


subsection \<open>The expiry loop\<close>

lemma take_expired_result:
  assumes "\<forall>h \<in> set hs. timer_of w h \<noteq> None" and "timer_of w handler = Some t" and "\<not> isRegistered t"
  shows "\<exists>w'. take_expired handler hs expired w = Some (expired @ filter (\<lambda>h. h \<noteq> handler) hs, w') \<and>
    same_timers w w' \<and> handlers w' = handlers w \<and> firstBucketBitSet w' = firstBucketBitSet w"
  using assms
proof (induction hs arbitrary: expired w t)
  case Nil
  then show ?case by (simp add: same_timers_refl)
next
  case (Cons h hs)
  show ?case
  proof (cases "h = handler")
    case False
    then show ?thesis using Cons.prems Cons.IH [of w t "expired @ [h]"] by auto
  next
    case True
    define w1 where "w1 = update_timer h (\<lambda>tm. tm\<lparr>is_linked := False\<rparr>) w"
    have same: "same_timers w w1"
      by (rule same_timers_update [where h = h and f = "\<lambda>tm. tm\<lparr>is_linked := False\<rparr>"])
        (simp_all add: w1_def update_timer_def)
    have eq: "handlers w1 = handlers w" "firstBucketBitSet w1 = firstBucketBitSet w"
      by (simp_all add: w1_def update_timer_def)
    obtain t' where t': "timer_of w1 handler = Some t'" "\<not> isRegistered t'"
      using same_timers_Some [OF same Cons.prems(2)] Cons.prems(3) by auto
    have ex: "\<forall>h \<in> set hs. timer_of w1 h \<noteq> None"
      using Cons.prems(1) same_timers_None [OF same] by simp
    obtain w' where "take_expired handler hs expired w1 = Some (expired @ filter (\<lambda>h. h \<noteq> handler) hs, w')"
      "same_timers w1 w'" "handlers w' = handlers w1" "firstBucketBitSet w' = firstBucketBitSet w1"
      using Cons.IH [OF ex t'] by blast
    then show ?thesis
      using True Cons.prems same_timers_trans [OF same] eq by (auto simp: w1_def)
  qed
qed

text \<open>One turn of the loop.\<close>

lemma cascade_step:
  assumes "wheel_wf w" and "placed e c 0 w" and "e \<le> c" and "65536 dvd e \<longrightarrow> e = c"
  shows "\<exists>w'. (if wheel_slot 0 e = 0 then cascade_all e c w else Some w) = Some w' \<and> wheel_wf w' \<and>
    same_timers w w' \<and> wheel_set w' = wheel_set w \<and> placed e c 3 w'"
proof (cases "wheel_slot 0 e = 0")
  case True
  then have "256 dvd e" using wheel_slot_zero [of 0 e] by simp
  then show ?thesis using cascade_all_placed [OF assms(1,2) _ assms(3,4)] True by simp
next
  case False
  then have "\<not> 256 ^ (0 + 1) dvd e" using wheel_slot_zero [of 0 e] by simp
  then show ?thesis using placed_mono [OF assms(2)] assms(1) False same_timers_refl by auto
qed

lemma slot_due:
  assumes "placed e c 3 w" and "e \<le> c" and "h \<in> set (handlers w 0 (wheel_slot 0 e))"
  shows "ticks w h \<le> c"
  using placedD [OF assms(1,3)] on_time_slot [of e 0 "ticks w h" "wheel_slot 0 e"] assms(2) by auto

lemma placed_next:
  assumes "placed e c 3 w" and "e \<le> c" and "\<And>h. ticks w' h = ticks w h"
    and "\<And>k s. set (handlers w' k s) = (if k = 0 \<and> s = wheel_slot 0 e then {} else set (handlers w k s))"
  shows "placed (e + 1) c 0 w'"
  unfolding placed_def
proof (intro allI ballI)
  fix k s h assume "h \<in> set (handlers w' k s)"
  then have h: "h \<in> set (handlers w k s)" "\<not> (k = 0 \<and> s = wheel_slot 0 e)" using assms(4) by (auto split: if_splits)
  show "if 0 < k \<and> k \<le> 0 then on_time (e + 1 + 1) k (ticks w' h) s
    else on_time (e + 1) k (ticks w' h) s \<or> k = 0 \<and> e + 1 \<le> c \<and> ticks w' h < c \<and> s = wheel_slot 0 c"
  proof (cases "k = 0")
    case True
    then show ?thesis
      using placedD [OF assms(1) h(1)] on_time_Suc [of e 0 "ticks w h" s] h(2) assms(2,3)
      by (cases "e = c") auto
  next
    case False
    then show ?thesis
      using placedD [OF assms(1) h(1)] assms(3) by (auto dest: on_time_level split: if_splits)
  qed
qed

lemma wf_unique:
  "wheel_wf w \<Longrightarrow> h \<in> set (handlers w k s) \<Longrightarrow> h \<in> set (handlers w k' s') \<Longrightarrow> k = k' \<and> s = s'"
  unfolding wheel_wf_def by blast

lemma wheel_set_remove:
  assumes "wheel_wf w" and "\<And>k' s'. handlers w' k' s' = (if k' = k \<and> s' = s then [] else handlers w k' s')"
  shows "wheel_set w' = wheel_set w - set (handlers w k s)"
proof -
  have "h \<in> wheel_set w' \<longleftrightarrow> (\<exists>k' s'. h \<in> set (handlers w k' s') \<and> \<not> (k' = k \<and> s' = s))" for h
    by (auto simp: wheel_set_def assms(2) split: if_splits)
  also have "(\<exists>k' s'. h \<in> set (handlers w k' s') \<and> \<not> (k' = k \<and> s' = s)) \<longleftrightarrow> h \<in> wheel_set w - set (handlers w k s)" for h
    unfolding wheel_set_def using wf_unique [OF assms(1)] by blast
  finally show ?thesis by blast
qed

lemma remove_slot:
  assumes "wheel_wf w" and "\<And>k s. handlers w' k s = (if k = 0 \<and> s = i then [] else handlers w k s)"
    and "firstBucketBitSet w' = firstBucketBitSet w - {i}" and "same_timers w w'"
  shows "wheel_wf w'" and "wheel_set w' = wheel_set w - set (handlers w 0 i)"
proof -
  show ws: "wheel_set w' = wheel_set w - set (handlers w 0 i)" by (rule wheel_set_remove [OF assms(1,2)])
  have "h \<in> wheel_set w' \<Longrightarrow> timer_of w' h \<noteq> None" for h
    using assms(1) ws same_timers_None [OF assms(4)] by (simp add: wheel_wf_def)
  then show "wheel_wf w'"
    using assms(1,3) wf_unique [OF assms(1)] by (auto simp: wheel_wf_def assms(2) split: if_splits)
qed


declare expire_loop.simps [simp del]

lemma expire_turn:
  assumes wf: "wheel_wf w" and pl: "placed e c 0 w" and e: "e \<le> c" and b: "65536 dvd e \<longrightarrow> e = c"
    and t: "timer_of w handler = Some t" "\<not> isRegistered t"
  shows "\<exists>L w'. expire_loop handler c e expired w =
      expire_loop handler c (e + 1) (expired @ filter (\<lambda>h. h \<noteq> handler) L) w' \<and>
    wheel_wf w' \<and> same_timers w w' \<and> placed (e + 1) c 0 w' \<and> distinct L \<and> set L \<subseteq> wheel_set w \<and>
    wheel_set w' = wheel_set w - set L \<and> (\<forall>h \<in> set L. ticks w h \<le> c)"
proof -
  define i where "i = wheel_slot 0 e"
  obtain w1 where w1: "(if i = 0 then cascade_all e c w else Some w) = Some w1" "wheel_wf w1" "same_timers w w1"
    "wheel_set w1 = wheel_set w" "placed e c 3 w1"
    using cascade_step [OF wf pl e b] by (auto simp: i_def)
  define L where "L = handlers w1 0 i"
  define w2 where "w2 = set_list 0 i [] w1"
  have same2: "same_timers w w2" using w1(3) by (simp add: same_timers_def w2_def set_list_def)
  have "set L \<subseteq> wheel_set w1" by (auto simp: wheel_set_def L_def)
  then have L: "set L \<subseteq> wheel_set w" "distinct L" "\<forall>h \<in> set L. ticks w h \<le> c" "\<forall>h \<in> set L. timer_of w2 h \<noteq> None"
    using w1(2) slot_due [OF w1(5) e] same_timers_ticks [OF w1(3)] w1(4)
    by (auto simp: L_def i_def wheel_wf_def w2_def set_list_def)
  obtain t' where t': "timer_of w2 handler = Some t'" "\<not> isRegistered t'"
    using same_timers_Some [OF same2 t(1)] t(2) by auto
  obtain w3 where w3: "take_expired handler L expired w2 = Some (expired @ filter (\<lambda>h. h \<noteq> handler) L, w3)"
    "same_timers w2 w3" "handlers w3 = handlers w2" "firstBucketBitSet w3 = firstBucketBitSet w2"
    using take_expired_result [OF L(4) t'] by blast
  define w4 where "w4 = (if i \<in> firstBucketBitSet w1 then w3\<lparr>firstBucketBitSet := firstBucketBitSet w3 - {i}\<rparr> else w1)"
  have empty: "i \<notin> firstBucketBitSet w1 \<Longrightarrow> L = []" using w1(2) by (simp add: wheel_wf_def L_def)
  have run: "expire_loop handler c e expired w =
      expire_loop handler c (e + 1) (expired @ filter (\<lambda>h. h \<noteq> handler) L) w4"
    using e w1(1) w3(1) empty
    by (subst expire_loop.simps) (simp add: i_def [symmetric] L_def [symmetric] w2_def [symmetric] w4_def)
  have h4: "handlers w4 k s = (if k = 0 \<and> s = i then [] else handlers w1 k s)" for k s
    using empty by (auto simp: w4_def w3(3) w2_def set_list_def L_def)
  have b4: "firstBucketBitSet w4 = firstBucketBitSet w1 - {i}" by (auto simp: w4_def w3(4) w2_def set_list_def)
  have same4: "same_timers w1 w4"
    using w3(2) by (auto simp: w4_def same_timers_def w2_def set_list_def)
  have ws: "wheel_set w4 = wheel_set w - set L"
    using remove_slot(2) [OF w1(2) h4 b4 same4] by (simp add: w1(4) L_def)
  have "placed (e + 1) c 0 w4"
    by (rule placed_next [OF w1(5) e same_timers_ticks [OF same4]]) (simp add: h4 i_def)
  then show ?thesis
    using run remove_slot(1) [OF w1(2) h4 b4 same4] same_timers_trans [OF w1(3) same4] L ws by blast
qed

lemma expire_loop_exact:
  assumes "wheel_wf w" and "placed e c 0 w" and "e \<le> c + 1" and "\<forall>x. e \<le> x \<longrightarrow> x < c \<longrightarrow> \<not> 65536 dvd x"
    and "timer_of w handler = Some t" and "\<not> isRegistered t"
  shows "\<exists>xs w'. expire_loop handler c e expired w = Some (expired @ xs, w') \<and> distinct xs \<and>
    set xs = {h \<in> wheel_set w. ticks w h \<le> c} - {handler} \<and>
    wheel_set w' = {h \<in> wheel_set w. c < ticks w h} \<and>
    wheel_wf w' \<and> same_timers w w' \<and> placed (c + 1) c 0 w' \<and> expireTick w' = c + 1"
  using assms
proof (induction "nat (c + 1 - e)" arbitrary: e expired w t)
  case 0
  then have e: "e = c + 1" by simp
  have late: "c < ticks w h" if h: "h \<in> wheel_set w" for h
  proof -
    obtain k s where hk: "h \<in> set (handlers w k s)" using h by (auto simp: wheel_set_def)
    have "on_time e k (ticks w h) s" using placedD [OF 0(3) hk] e by (auto split: if_splits)
    then show ?thesis using on_time_due e by fastforce
  qed
  let ?w = "w\<lparr>expireTick := c + 1\<rparr>"
  have same: "same_timers w ?w" "wheel_set ?w = wheel_set w" by (simp_all add: same_timers_def wheel_set_def)
  moreover have "placed (c + 1) c 0 ?w"
    using 0(3) unfolding placed_def same_timers_ticks [OF same(1)] e by simp
  moreover have "wheel_wf ?w" using 0(2) by (simp add: wheel_wf_def wheel_set_def)
  ultimately show ?case
    using e late by (subst expire_loop.simps) (force intro: exI [of _ "[]"])
next
  case (Suc n)
  have e: "e \<le> c" "65536 dvd e \<longrightarrow> e = c" using Suc.hyps(2) Suc.prems(3,4) by (auto simp: not_less order.order_iff_strict)
  obtain L w1 where run: "expire_loop handler c e expired w =
      expire_loop handler c (e + 1) (expired @ filter (\<lambda>h. h \<noteq> handler) L) w1"
    and w1: "wheel_wf w1" "same_timers w w1" "placed (e + 1) c 0 w1"
    and L: "distinct L" "set L \<subseteq> wheel_set w" "wheel_set w1 = wheel_set w - set L" "\<forall>h \<in> set L. ticks w h \<le> c"
    using expire_turn [OF Suc.prems(1,2) e Suc.prems(5,6)] by blast
  obtain t' where t': "timer_of w1 handler = Some t'" "\<not> isRegistered t'"
    using same_timers_Some [OF w1(2) Suc.prems(5)] Suc.prems(6) by auto
  have tk: "ticks w1 h = ticks w h" for h by (rule same_timers_ticks [OF w1(2)])
  have "n = nat (c + 1 - (e + 1))" "e + 1 \<le> c + 1" "\<forall>x. e + 1 \<le> x \<longrightarrow> x < c \<longrightarrow> \<not> 65536 dvd x"
    using Suc.hyps(2) e Suc.prems(4) by auto
  from Suc.hyps(1) [OF this(1) w1(1,3) this(2,3) t', of "expired @ filter (\<lambda>h. h \<noteq> handler) L"]
  obtain xs w' where xs: "expire_loop handler c e expired w = Some (expired @ filter (\<lambda>h. h \<noteq> handler) L @ xs, w')"
    "distinct xs" "set xs = {h \<in> wheel_set w1. ticks w h \<le> c} - {handler}"
    "wheel_set w' = {h \<in> wheel_set w1. c < ticks w h}"
    "wheel_wf w'" "same_timers w1 w'" "placed (c + 1) c 0 w'" "expireTick w' = c + 1"
    using run tk by auto
  have "set (filter (\<lambda>h. h \<noteq> handler) L @ xs) = {h \<in> wheel_set w. ticks w h \<le> c} - {handler}"
    using xs(3) L by auto
  moreover have "wheel_set w' = {h \<in> wheel_set w. c < ticks w h}" using xs(4) L by fastforce
  moreover have "distinct (filter (\<lambda>h. h \<noteq> handler) L @ xs)" using L(1) xs(2,3) L(3) by auto
  ultimately show ?case using xs(1,5,7,8) same_timers_trans [OF w1(2) xs(6)] by blast
qed


text \<open>Nothing that is on the wheel for the tick \<open>e\<close> is late or too early.\<close>

definition wheel_inv :: "int \<Rightarrow> wheel \<Rightarrow> bool" where
  "wheel_inv e w \<longleftrightarrow> wheel_wf w \<and> (\<forall>k s. \<forall>h \<in> set (handlers w k s). on_time e k (ticks w h) s)"

lemma wheel_inv_placed: "wheel_inv e w \<Longrightarrow> wheel_wf w \<and> placed e c 0 w"
  by (auto simp: wheel_inv_def placed_def)

lemma placed_wheel_inv: "wheel_wf w \<Longrightarrow> placed (c + 1) c 0 w \<Longrightarrow> wheel_inv (c + 1) w"
  unfolding wheel_inv_def by (auto dest!: placedD split: if_splits)

text \<open>
  C11. The loop of \<open>timeoutExpired\<close>, called at tick \<open>c\<close> on a wheel that is prepared for the tick \<open>expireTick_\<close> (every
  timer is in a slot that is reached in time from there on), by a handler that is not registered any more, and not late
  across a multiple of 65536, where the second wheel turns: it ends with \<open>expireTick_\<close> after the current tick, having
  taken from the wheel exactly the timers that are due, through the cascades of all four wheels, each of them once,
  except for the handler that is being called; the others are left on time for the ticks to come. (Scheduling can move
  \<open>expireTick_\<close> past a tick at which a wheel has to be cascaded, see \<open>timer_lost\<close>; the wheel is then not prepared.)
\<close>

theorem wheel_expiry_exact:
  assumes "wheel_inv (expireTick w) w" and "expireTick w \<le> c + 1"
    and "\<forall>x. expireTick w \<le> x \<longrightarrow> x < c \<longrightarrow> \<not> 65536 dvd x"
    and "timer_of w handler = Some t" and "\<not> isRegistered t"
  shows "\<exists>xs w'. expire_loop handler c (expireTick w) [] w = Some (xs, w') \<and> distinct xs \<and>
    set xs = {h \<in> wheel_set w. ticks w h \<le> c} - {handler} \<and>
    wheel_set w' = {h \<in> wheel_set w. c < ticks w h} \<and>
    expireTick w' = c + 1 \<and> wheel_inv (c + 1) w'"
proof -
  have "wheel_wf w" "placed (expireTick w) c 0 w" using wheel_inv_placed [OF assms(1)] by auto
  from expire_loop_exact [OF this assms(2-5), of "[]"] show ?thesis using placed_wheel_inv by auto
qed

definition sample_wheel :: wheel where
  "sample_wheel = (new_wheel 10 0 (\<lambda>h. if h = 0 then Some ((new_timer False)\<lparr>expiration := 50000000\<rparr>)
       else if h = 1 then Some ((new_timer False)\<lparr>expiration := 3000000000\<rparr>)
       else if h = 2 then Some (new_timer False) else None) 3)
     \<lparr>expireTick := 5, firstBucketBitSet := {5},
      handlers := (\<lambda>k s. if k = 0 \<and> s = 5 then [0] else if k = 1 \<and> s = 1 then [1] else [])\<rparr>"

lemma sample_wheel_ticks: "ticks sample_wheel 0 = 5" "ticks sample_wheel (Suc 0) = 300"
  by (simp_all add: ticks_def tick_of_def sample_wheel_def new_wheel_def cdiv_def)

lemma sample_wheel_inv: "wheel_inv 5 sample_wheel"
proof -
  have "on_time 5 0 5 5" "on_time 5 (Suc 0) 300 (Suc 0)" by (simp_all add: on_time_def wheel_slot_def)
  moreover have "wheel_wf sample_wheel"
    by (auto simp: wheel_wf_def wheel_set_def sample_wheel_def new_wheel_def split: if_splits)
  moreover have "handlers sample_wheel k s = (if k = 0 \<and> s = 5 then [0] else if k = 1 \<and> s = 1 then [1] else [])" for k s
    by (simp add: sample_wheel_def)
  ultimately show ?thesis by (auto simp: wheel_inv_def sample_wheel_ticks split: if_splits)
qed

theorem wheel_expiry_exact_witness:
  "\<exists>xs w'. expire_loop 2 310 5 [] sample_wheel = Some (xs, w') \<and> set xs = {0, 1} \<and> distinct xs \<and> wheel_set w' = {}"
proof -
  have e: "expireTick sample_wheel = 5" by (simp add: sample_wheel_def)
  have ws: "wheel_set sample_wheel = {0, 1}"
    by (auto simp: wheel_set_def sample_wheel_def split: if_splits)
  have small: "\<forall>x::int. 5 \<le> x \<longrightarrow> x < 310 \<longrightarrow> \<not> 65536 dvd x" by (auto dest: zdvd_imp_le)
  have "timer_of sample_wheel 2 = Some (new_timer False)" by (simp add: sample_wheel_def new_wheel_def)
  moreover have "\<not> isRegistered (new_timer False)" by (simp add: new_timer_def)
  moreover have "expireTick sample_wheel \<le> 310 + 1" by (simp add: e)
  ultimately obtain xs w' where "expire_loop 2 310 5 [] sample_wheel = Some (xs, w')" "distinct xs"
    "set xs = {h \<in> wheel_set sample_wheel. ticks sample_wheel h \<le> 310} - {2}"
    "wheel_set w' = {h \<in> wheel_set sample_wheel. 310 < ticks sample_wheel h}"
    using wheel_expiry_exact [of sample_wheel 310 2 "new_timer False", unfolded e, OF sample_wheel_inv _ small]
    unfolding e by blast
  moreover have due: "\<forall>h \<in> wheel_set sample_wheel. ticks sample_wheel h \<le> 310" by (simp add: ws sample_wheel_ticks)
  then have "{h \<in> wheel_set sample_wheel. 310 < ticks sample_wheel h} = {}" by fastforce
  moreover have "{h \<in> wheel_set sample_wheel. ticks sample_wheel h \<le> 310} = wheel_set sample_wheel" using due by blast
  moreover have "wheel_set sample_wheel - {2} = {0, 1}" by (auto simp: ws)
  ultimately show ?thesis by metis
qed


subsection \<open>Scheduling keeps the invariant\<close>

lemma find_first_empty: "find_first {} = 256"
proof -
  have "find (\<lambda>i. i \<in> {}) [0..<256] = None" by (simp add: find_None_iff)
  then show ?thesis by (simp add: find_first_def)
qed

lemma find_first_least:
  assumes "i < 256" and "i \<in> bits" and "\<forall>j \<in> bits. i \<le> j"
  shows "find_first bits = i"
proof (cases "find (\<lambda>j. j \<in> bits) [0..<256]")
  case None
  then show ?thesis using assms by (simp only: find_None_iff) auto
next
  case (Some j)
  then obtain n where n: "n < 256" "j = n" "j \<in> bits" "\<forall>m < n. m \<notin> bits" by (auto simp: find_Some_iff)
  then have "j = i" using assms(2,3) by (metis le_neq_implies_less)
  then show ?thesis using Some by (simp add: find_first_def)
qed

lemma find_first_single: "i < 256 \<Longrightarrow> find_first {i} = i"
  by (rule find_first_least) auto

lemma register_timer_result:
  assumes "timer_of w h = Some t"
  shows "\<exists>w'. register_timer reg h w = Some w' \<and> handlers w' = handlers w \<and>
    firstBucketBitSet w' = firstBucketBitSet w \<and> timerCount w' = timerCount w \<and> startTime w' = startTime w \<and>
    interval w' = interval w \<and> (\<forall>g. map_option expiration (timer_of w' g) = map_option expiration (timer_of w g)) \<and>
    timer_registrations w' = timer_registrations w @ (if isRegistered t then [] else [h]) \<and>
    map_option isRegistered (timer_of w' h) = Some (isRegistered t \<or> reg h = 0)"
  using assms by (auto simp: register_timer_def update_timer_def)

text \<open>
  What \<open>scheduleNextTimeoutInReactor_\<close> arms at tick \<open>b\<close>: the first handler of the lowest slot of the first wheel that has
  one, or else a new internal handler for the next tick at which the second wheel is cascaded. \<open>expireTick_\<close> is its
  tick, and it is registered with the reactor unless it is already.
\<close>

definition armed :: "(nat \<Rightarrow> int) \<Rightarrow> int \<Rightarrow> wheel \<Rightarrow> wheel \<Rightarrow> nat \<Rightarrow> bool" where
  "armed reg b w w' g \<longleftrightarrow>
     (if firstBucketBitSet w' = {} then g = next_timer w \<and> expireTick w' = (b div 256 + 1) * 256
      else g = hd (handlers w' 0 (Min (firstBucketBitSet w'))) \<and> expireTick w' = ticks w' g) \<and>
     timer_registrations w' = timer_registrations w @
       (if map_option isRegistered (timer_of w g) = Some True then [] else [g]) \<and>
     map_option isRegistered (timer_of w' g) =
       Some (map_option isRegistered (timer_of w g) = Some True \<or> reg g = 0)"

lemma find_first_Min: "bits \<subseteq> {..<256} \<Longrightarrow> bits \<noteq> {} \<Longrightarrow> find_first bits = Min bits"
proof (rule find_first_least)
  assume b: "bits \<subseteq> {..<256}" "bits \<noteq> {}"
  then have fin: "finite bits" by (auto intro: finite_subset)
  then have "Min bits \<in> bits" using b(2) by (rule Min_in)
  then show "Min bits \<in> bits" and "Min bits < 256" using b(1) by auto
  show "\<forall>j \<in> bits. Min bits \<le> j" using fin by simp
qed

lemma schedule_next_result:
  assumes "wheel_wf w" and "timer_of w (next_timer w) = None" and bits: "firstBucketBitSet w \<subseteq> {..<256}"
  shows "\<exists>w'. scheduleNextTimeoutInReactor reg None b (- 1) w = Some w' \<and> handlers w' = handlers w \<and>
    firstBucketBitSet w' = firstBucketBitSet w \<and> timerCount w' = timerCount w \<and> startTime w' = startTime w \<and>
    interval w' = interval w \<and>
    (\<forall>g. timer_of w g \<noteq> None \<longrightarrow> map_option expiration (timer_of w' g) = map_option expiration (timer_of w g)) \<and>
    (\<exists>g. armed reg b w w' g)"
proof (cases "firstBucketBitSet w = {}")
  case True
  define h where "h = next_timer w"
  define tick1 where "tick1 = b + (256 - int (wheel_slot 0 b))"
  define w1 where "w1 = setSheduled h (startTime w + tick1 * (interval w * 1000000))
    (w\<lparr>timer_of := (timer_of w)(h \<mapsto> new_timer True), next_timer := h + 1\<rparr>)"
  obtain t where t: "timer_of w1 h = Some t" "\<not> isRegistered t"
    by (simp add: w1_def setSheduled_def update_timer_def new_timer_def)
  from register_timer_result [OF t(1), of reg] obtain w2 where w2: "register_timer reg h w1 = Some w2"
    "handlers w2 = handlers w1" "firstBucketBitSet w2 = firstBucketBitSet w1" "timerCount w2 = timerCount w1"
    "startTime w2 = startTime w1" "interval w2 = interval w1"
    "\<forall>g. map_option expiration (timer_of w2 g) = map_option expiration (timer_of w1 g)"
    "timer_registrations w2 = timer_registrations w1 @ [h]"
    "map_option isRegistered (timer_of w2 h) = Some (reg h = 0)" using t(2) by auto
  have run: "scheduleNextTimeoutInReactor reg None b (- 1) w = Some (w2\<lparr>expireTick := tick1\<rparr>)"
    using True w2(1) by (simp add: scheduleNextTimeoutInReactor_def find_first_empty Let_def h_def tick1_def w1_def)
  have old: "timer_of w g \<noteq> None \<Longrightarrow> timer_of w1 g = timer_of w g" for g
    using assms(2) by (auto simp: w1_def setSheduled_def update_timer_def h_def)
  have f1: "handlers w1 = handlers w" "firstBucketBitSet w1 = firstBucketBitSet w" "timerCount w1 = timerCount w"
    "startTime w1 = startTime w" "interval w1 = interval w" "timer_registrations w1 = timer_registrations w"
    by (simp_all add: w1_def setSheduled_def update_timer_def)
  have "tick1 = (b div 256 + 1) * 256"
    using minus_mod_eq_div_mult [of b 256] by (simp add: tick1_def wheel_slot_def algebra_simps)
  then have "armed reg b w (w2\<lparr>expireTick := tick1\<rparr>) h"
    using w2 f1 True assms(2) by (simp add: armed_def h_def)
  then show ?thesis using run w2 f1 old by auto
next
  case False
  let ?i = "Min (firstBucketBitSet w)"
  have first: "find_first (firstBucketBitSet w) = ?i" by (rule find_first_Min [OF bits False])
  have fin: "finite (firstBucketBitSet w)" using bits by (rule finite_subset) simp
  have i: "?i \<in> firstBucketBitSet w" using fin False by (rule Min_in)
  then have "?i \<noteq> 256" using bits by auto
  have "handlers w 0 ?i \<noteq> []" using i assms(1) by (simp add: wheel_wf_def)
  then obtain h hs where h: "handlers w 0 ?i = h # hs" by (cases "handlers w 0 ?i") auto
  then have "h \<in> set (handlers w 0 ?i)" by simp
  then have "h \<in> wheel_set w" unfolding wheel_set_def by blast
  then obtain t where t: "timer_of w h = Some t" using assms(1) by (auto simp: wheel_wf_def)
  from register_timer_result [OF this, of reg] obtain w2 where w2: "register_timer reg h w = Some w2"
    "handlers w2 = handlers w" "firstBucketBitSet w2 = firstBucketBitSet w" "timerCount w2 = timerCount w"
    "startTime w2 = startTime w" "interval w2 = interval w"
    "\<forall>g. map_option expiration (timer_of w2 g) = map_option expiration (timer_of w g)"
    "timer_registrations w2 = timer_registrations w @ (if isRegistered t then [] else [h])"
    "map_option isRegistered (timer_of w2 h) = Some (isRegistered t \<or> reg h = 0)" by blast
  let ?w' = "w2\<lparr>expireTick := tick_of w t\<rparr>"
  have run: "scheduleNextTimeoutInReactor reg None b (- 1) w = Some ?w'"
    using first \<open>?i \<noteq> 256\<close> h t w2(1) by (simp add: scheduleNextTimeoutInReactor_def Let_def tick_of_def)
  obtain t2 where t2: "timer_of w2 h = Some t2" "expiration t2 = expiration t"
    using w2(7) [rule_format, of h] t by (cases "timer_of w2 h") auto
  have "ticks ?w' h = tick_of w t" using t2 w2(5,6) by (simp add: ticks_def tick_of_def)
  then have "armed reg b w ?w' h" using w2(2,3,8,9) False h t by (simp add: armed_def)
  then show ?thesis using run w2 by auto
qed

lemma ticks_expiration:
  assumes "map_option expiration (timer_of w' g) = map_option expiration (timer_of w g)"
    and "startTime w' = startTime w" and "interval w' = interval w"
  shows "ticks w' g = ticks w g"
  using assms by (cases "timer_of w g"; cases "timer_of w' g") (simp_all add: ticks_def tick_of_def)

lemma schedule_impl_result:
  assumes wf: "wheel_wf w" and h: "timer_of w h = Some t" "\<not> is_linked t" "h \<notin> wheel_set w"
    and ks: "choose_slot b T = (k, s)"
  shows "\<exists>w'. scheduleTimeoutImpl h b T w = Some w' \<and> wheel_wf w' \<and> wheel_set w' = insert h (wheel_set w) \<and>
    (\<forall>k' s'. set (handlers w' k' s') = set (handlers w k' s') \<union> (if k' = k \<and> s' = s then {h} else {})) \<and>
    timerCount w' = u64 (timerCount w + 1) \<and> startTime w' = startTime w \<and> interval w' = interval w \<and>
    next_timer w' = next_timer w \<and> timer_registrations w' = timer_registrations w \<and>
    (\<forall>g. map_option (\<lambda>t. (expiration t, isRegistered t)) (timer_of w' g) =
       map_option (\<lambda>t. (expiration t, isRegistered t)) (timer_of w g))"
proof -
  define w' where "w' = the (scheduleTimeoutImpl h b T w)"
  have run: "scheduleTimeoutImpl h b T w = Some w'"
    using h by (simp add: w'_def scheduleTimeoutImpl_def ks)
  have f: "handlers w' = (\<lambda>k' s'. if k' = k \<and> s' = s then handlers w k s @ [h] else handlers w k' s')"
    "firstBucketBitSet w' = (if k = 0 then insert s (firstBucketBitSet w) else firstBucketBitSet w)"
    "timerCount w' = u64 (timerCount w + 1)" "startTime w' = startTime w" "interval w' = interval w"
    "next_timer w' = next_timer w" "timer_registrations w' = timer_registrations w"
    and ex: "map_option (\<lambda>t. (expiration t, isRegistered t)) (timer_of w' g) =
      map_option (\<lambda>t. (expiration t, isRegistered t)) (timer_of w g)" for g
    using run h by (auto simp: scheduleTimeoutImpl_def update_timer_def set_list_def ks fun_eq_iff)
  have hs: "set (handlers w' k' s') = set (handlers w k' s') \<union> (if k' = k \<and> s' = s then {h} else {})" for k' s'
    by (simp add: f(1))
  have ws: "wheel_set w' = insert h (wheel_set w)"
    unfolding wheel_set_def hs by (auto split: if_splits)
  have notin: "h \<notin> set (handlers w k' s')" for k' s' using h(3) by (auto simp: wheel_set_def)
  have "wheel_wf w'"
    unfolding wheel_wf_def ws
  proof (intro conjI allI ballI impI)
    fix g assume "g \<in> insert h (wheel_set w)"
    then have "timer_of w g \<noteq> None" using wf h(1) by (auto simp: wheel_wf_def)
    then show "timer_of w' g \<noteq> None" using ex [of g] by auto
  next
    fix k1 s1 k2 s2 g assume "g \<in> set (handlers w' k1 s1)" "g \<in> set (handlers w' k2 s2)"
    moreover have "g \<in> set (handlers w k1 s1) \<longrightarrow> g \<in> set (handlers w k2 s2) \<longrightarrow> k1 = k2 \<and> s1 = s2"
      using wf unfolding wheel_wf_def by blast
    ultimately show "k1 = k2" "s1 = s2" using notin unfolding hs by (auto split: if_splits)
  qed (use wf notin in \<open>auto simp: f(1,2) wheel_wf_def\<close>)
  then show ?thesis using run hs ws f ex by blast
qed

lemma scheduled_tick:
  assumes "startTime w \<le> now" and "0 < interval w" and "0 \<le> timeout" and "interval w dvd timeout"
    and "map_option expiration (timer_of w h) = Some (now + timeout * 1000000)"
  shows "ticks w h = tickOfCurTime w now + timeout div interval w"
proof -
  obtain q where q: "timeout = interval w * q" using assms(4) by (rule dvdE)
  have "now + timeout * 1000000 - startTime w = (now - startTime w) + q * (interval w * 1000000)" by (simp add: q)
  moreover have "interval w * 1000000 \<noteq> 0" using assms(2) by simp
  ultimately have "(now + timeout * 1000000 - startTime w) div (interval w * 1000000) =
      (now - startTime w) div (interval w * 1000000) + q"
    by (simp only: div_mult_self1 add.commute not_False_eq_True simp_thms)
  then show ?thesis
    using assms by (auto simp: ticks_def tick_of_def tickOfCurTime_def cdiv_def q)
qed

text \<open>
  Nothing overflows in \<open>int64_t\<close> while a timer is scheduled, for clock values and timeouts below 2 to the 62 nanoseconds
  and a tick of less than 70 minutes.
\<close>

lemma times_fit:
  assumes "0 \<le> startTime w" and "startTime w \<le> now" and "now < 4611686018427387904" and "0 \<le> timeout"
    and "timeout * 1000000 < 4611686018427387904" and "0 < interval w" and "interval w < 4194304"
    and "b = tickOfCurTime w now"
  shows "i64 (now + timeout * 1000000) = now + timeout * 1000000" and "i64 (now - startTime w) = now - startTime w"
    and "i64 (getTickFromDuration w timeout + b) = getTickFromDuration w timeout + b"
    and "i64 (startTime w + (b div 256 + 1) * 256 * (interval w * 1000000)) =
      startTime w + (b div 256 + 1) * 256 * (interval w * 1000000)"
proof -
  define u where "u = interval w * 1000000"
  have u: "0 < u" "u < 4194304000000" using assms(6,7) by (simp_all add: u_def)
  have b: "b = (now - startTime w) div u" using assms(2,8) by (simp add: tickOfCurTime_def cdiv_def u_def)
  have b0: "0 \<le> b" using assms(2) u(1) by (simp add: b pos_imp_zdiv_nonneg_iff)
  have bu: "b * u \<le> now - startTime w"
    using div_mult_mod_eq [of "now - startTime w" u] pos_mod_sign [OF u(1), of "now - startTime w"] unfolding b by linarith
  have "b * 1 \<le> b * u" using b0 u(1) by (intro mult_left_mono) simp_all
  then have bn: "b \<le> now - startTime w" using bu by simp
  have "timeout div interval w \<le> timeout div 1" by (rule zdiv_mono2) (use assms(4,6) in simp_all)
  then have t: "0 \<le> getTickFromDuration w timeout" "getTickFromDuration w timeout \<le> timeout"
    using assms(4,6) by (simp_all add: getTickFromDuration_def cdiv_def pos_imp_zdiv_nonneg_iff)
  show "i64 (now + timeout * 1000000) = now + timeout * 1000000" using assms(1-5) by (intro i64_id) simp_all
  show "i64 (now - startTime w) = now - startTime w" using assms(1-3) by (intro i64_id) simp_all
  show "i64 (getTickFromDuration w timeout + b) = getTickFromDuration w timeout + b"
    using b0 bn t assms(1-5) by (intro i64_id) linarith+
  have "(b div 256 + 1) * 256 \<le> b + 256" by simp
  then have "(b div 256 + 1) * 256 * u \<le> (b + 256) * u" using u(1) by (intro mult_right_mono) simp_all
  then have le: "(b div 256 + 1) * 256 * u \<le> now - startTime w + 256 * u" using bu by (simp add: distrib_right)
  have "0 \<le> (b div 256 + 1) * 256 * u" using b0 u(1) by (intro mult_nonneg_nonneg) simp_all
  then show "i64 (startTime w + (b div 256 + 1) * 256 * (interval w * 1000000)) =
      startTime w + (b div 256 + 1) * 256 * (interval w * 1000000)"
    using le assms(1-3) u unfolding u_def [symmetric] by (intro i64_id) linarith+
qed

text \<open>
  C12. A handler that is not on the wheel is scheduled, with a timeout that is a multiple of the interval and less than 2
  to the 32 ticks, at a time at which the wheel is prepared for the current tick: it is put on the wheel with the tick of
  its expiration, in the slot that is reached in time; the wheel stays prepared for the current tick, the other timers
  keep their ticks, and one more timer is counted. What is armed next is the first handler of the lowest slot of the first
  wheel that has one, or a new internal handler for the next tick at which the second wheel is cascaded: \<open>expireTick_\<close> is
  its tick, and it is registered with the reactor unless it is already.
\<close>

theorem wheel_schedule_ok:
  assumes inv: "wheel_inv b w" and b: "b = tickOfCurTime w now" and now: "startTime w \<le> now" and i: "0 < interval w"
    and timeout: "0 \<le> timeout" "interval w dvd timeout" "timeout div interval w < 4294967296"
    and h: "timer_of w h = Some t" "\<not> is_linked t" "h \<notin> wheel_set w" and fresh: "timer_of w (next_timer w) = None"
  shows "\<exists>w' g. scheduleTimeout reg h timeout now w = Some w' \<and> wheel_inv b w' \<and>
    wheel_set w' = insert h (wheel_set w) \<and> ticks w' h = b + timeout div interval w \<and>
    (\<forall>g \<in> wheel_set w. ticks w' g = ticks w g) \<and> timerCount w' = u64 (timerCount w + 1) \<and> armed reg b w w' g"
proof -
  define T where "T = timeout div interval w + b"
  define w1 where "w1 = setSheduled h (now + timeout * 1000000) w"
  have w1: "handlers w1 = handlers w" "wheel_set w1 = wheel_set w" "wheel_wf w1" "startTime w1 = startTime w"
    "interval w1 = interval w" "timerCount w1 = timerCount w" "next_timer w1 = next_timer w"
    "timer_of w1 = (timer_of w)(h \<mapsto> t\<lparr>expiration := now + timeout * 1000000\<rparr>)"
    "timer_registrations w1 = timer_registrations w"
    using inv h(1) by (auto simp: w1_def setSheduled_def update_timer_def wheel_inv_def wheel_wf_def wheel_set_def)
  obtain k s where ks: "choose_slot b T = (k, s)" by fastforce
  have ot: "on_time b k T s"
    using choose_slot_on_time [of T b 4 k s] timeout i ks by (simp add: T_def pos_imp_zdiv_nonneg_iff)
  obtain w2 where w2: "scheduleTimeoutImpl h b T w1 = Some w2" "wheel_wf w2" "wheel_set w2 = insert h (wheel_set w)"
    "\<And>k' s'. set (handlers w2 k' s') = set (handlers w k' s') \<union> (if k' = k \<and> s' = s then {h} else {})"
    "timerCount w2 = u64 (timerCount w + 1)" "startTime w2 = startTime w" "interval w2 = interval w"
    "next_timer w2 = next_timer w" "timer_registrations w2 = timer_registrations w"
    and er: "\<And>g. map_option (\<lambda>t. (expiration t, isRegistered t)) (timer_of w2 g) =
      map_option (\<lambda>t. (expiration t, isRegistered t)) (timer_of w1 g)"
    using schedule_impl_result [OF w1(3) _ _ _ ks, of h "t\<lparr>expiration := now + timeout * 1000000\<rparr>"] h w1 by auto
  have ex2: "map_option expiration (timer_of w2 g) = map_option expiration (timer_of w1 g)" for g
    using er [of g] by (cases "timer_of w1 g"; cases "timer_of w2 g") auto
  have reg2: "map_option isRegistered (timer_of w2 g) = map_option isRegistered (timer_of w g)" for g
    using er [of g] h(1) unfolding w1(8) by (cases "timer_of w g"; cases "timer_of w2 g"; cases "g = h") auto
  have "timer_of w1 (next_timer w) = None" using fresh h(1) w1(8) by auto
  then have new: "timer_of w2 (next_timer w2) = None" using w2(8) ex2 [of "next_timer w"] by simp
  have "s' < 256" if "s' \<in> firstBucketBitSet w2" for s'
  proof -
    have "handlers w2 0 s' \<noteq> []" using that w2(2) by (simp add: wheel_wf_def)
    then obtain g where "g \<in> set (handlers w2 0 s')" by (meson last_in_set)
    then have "g \<in> set (handlers w 0 s') \<or> k = 0 \<and> s' = s" using w2(4) by (auto split: if_splits)
    then have "\<exists>T. on_time b 0 T s'" using inv ot by (auto simp: wheel_inv_def)
    then show ?thesis by (auto simp: on_time_def wheel_slot_def)
  qed
  then have "firstBucketBitSet w2 \<subseteq> {..<256}" by auto
  from schedule_next_result [OF w2(2) new this, of reg b] obtain w3 g where
    w3: "scheduleNextTimeoutInReactor reg None b (- 1) w2 = Some w3" "handlers w3 = handlers w2"
    "firstBucketBitSet w3 = firstBucketBitSet w2" "timerCount w3 = timerCount w2" "startTime w3 = startTime w2"
    "interval w3 = interval w2"
    and ex3: "\<And>g. timer_of w2 g \<noteq> None \<Longrightarrow> map_option expiration (timer_of w3 g) = map_option expiration (timer_of w2 g)"
    and g: "armed reg b w2 w3 g"
    by blast
  have run: "scheduleTimeout reg h timeout now w = Some w3"
    using h(1) w2(1) w3(1) timeout i
    by (simp add: scheduleTimeout_def b [symmetric] w1_def getTickFromDuration_def cdiv_def T_def)
  have ex: "map_option expiration (timer_of w3 g) = map_option expiration (timer_of w1 g)" if "g \<in> wheel_set w2" for g
    using ex3 [of g] w2(2) ex2 that by (simp add: wheel_wf_def)
  have tk: "ticks w3 g = ticks w g" if g: "g \<in> wheel_set w" for g
    using ex [of g] g w2(3,6,7) w3(5,6) w1(8) h(3) by (intro ticks_expiration) auto
  have th: "ticks w3 h = T"
    using scheduled_tick [of w3 now timeout h] ex [of h] w1(8) w2(3,6,7) w3(5,6) now i timeout b
    by (simp add: T_def tickOfCurTime_def)
  have "on_time b k' (ticks w3 g) s'" if g: "g \<in> set (handlers w3 k' s')" for k' s' g
  proof (cases "g \<in> set (handlers w k' s')")
    case True
    then have "g \<in> wheel_set w" by (auto simp: wheel_set_def)
    then show ?thesis using inv tk True by (simp add: wheel_inv_def)
  next
    case False
    then show ?thesis using g th ot by (auto simp: w3(2) w2(4) split: if_splits)
  qed
  moreover have "wheel_wf w3"
  proof -
    have "wheel_set w3 = wheel_set w2" by (simp add: wheel_set_def w3(2))
    moreover have "timer_of w3 g \<noteq> None" if "g \<in> wheel_set w2" for g
      using that ex3 [of g] w2(2) by (cases "timer_of w3 g") (auto simp: wheel_wf_def)
    ultimately show ?thesis using w2(2) w3 by (simp add: wheel_wf_def)
  qed
  ultimately have "wheel_inv b w3" by (simp add: wheel_inv_def)
  moreover have "wheel_set w3 = insert h (wheel_set w)" using w2(3) by (simp add: wheel_set_def w3(2))
  moreover have "armed reg b w w3 g" using g unfolding armed_def w2(8,9) reg2 .
  ultimately show ?thesis using run th tk w3(4) w2(5) by (auto simp: T_def)
qed

theorem wheel_schedule_ok_witness:
  "\<exists>w' g. scheduleTimeout (\<lambda>_. 0) 1 3000 0 (new_wheel 10 0 (\<lambda>h. if h < 3 then Some (new_timer False) else None) 3) = Some w' \<and>
     wheel_set w' = {1} \<and> ticks w' 1 = 300 \<and>
     armed (\<lambda>_. 0) 0 (new_wheel 10 0 (\<lambda>h. if h < 3 then Some (new_timer False) else None) 3) w' g"
proof -
  let ?w = "new_wheel 10 0 (\<lambda>h. if h < 3 then Some (new_timer False) else None) 3"
  have "wheel_inv 0 ?w" by (simp add: wheel_inv_def wheel_wf_def wheel_set_def new_wheel_def)
  moreover have "0 = tickOfCurTime ?w 0" by (simp add: tickOfCurTime_def new_wheel_def cdiv_def)
  moreover have ws: "wheel_set ?w = {}" by (simp add: wheel_set_def new_wheel_def)
  moreover have "startTime ?w \<le> 0" "0 < interval ?w" "interval ?w dvd 3000" "3000 div interval ?w = 300"
    "timer_of ?w 1 = Some (new_timer False)" "timer_of ?w (next_timer ?w) = None" "\<not> is_linked (new_timer False)"
    by (simp_all add: new_wheel_def new_timer_def)
  ultimately show ?thesis
    using wheel_schedule_ok [of 0 ?w 0 3000 1 "new_timer False" "\<lambda>_. 0"] by auto
qed

subsection \<open>Runs in which it goes wrong\<close>

definition idle :: wheel where
  "idle = new_wheel 10 0 (\<lambda>h. if h < 3 then Some (new_timer False) else None) 3"

lemmas run_defs = new_wheel_def new_timer_def tickOfCurTime_def getTickFromDuration_def cdiv_def tick_of_def
  wheel_slot_def update_timer_def set_list_def setSheduled_def choose_slot_def scheduleTimeoutImpl_def register_timer_def
  scheduleNextTimeoutInReactor_def scheduleTimeout_def find_first_empty find_first_single Let_def uint_simps
  expire_loop.simps timeoutExpired_def destroy_def cascade_all_def cascadeTimers_def

text \<open>
  A timer can be lost. At tick 10 a timer is scheduled for tick 300, which goes to the second wheel, and then one
  for tick 265, which goes to the first. The second call moves \<open>expireTick_\<close> from 256, where the second wheel has to be
  cascaded, to 265, and the internal handler for tick 256 takes the other timer off the count. After both handlers
  have been called the first timer is still on the wheel, the count is 0, and nothing is registered with the reactor
  any more.
\<close>

lemma timer_lost:
  "\<exists>w t. do {
       w1 \<leftarrow> scheduleTimeout (\<lambda>_. 0) 0 2900 100000000 idle;
       w2 \<leftarrow> scheduleTimeout (\<lambda>_. 0) 1 2550 100000000 w1;
       w3 \<leftarrow> handle_timeout 1 (\<lambda>_. 2560000000) (\<lambda>_. 0) (\<lambda>_. Some) 3 w2;
       handle_timeout 1 (\<lambda>_. 2650000000) (\<lambda>_. 0) (\<lambda>_. Some) 1 w3
     } = Some w \<and>
     timer_registrations w = [3, 1] \<and> called w = [3, 1] \<and> timerCount w = 0 \<and>
     handlers w 1 1 = [0] \<and> timer_of w 0 = Some t \<and> \<not> isRegistered t"
  by (simp add: idle_def run_defs)

text \<open>
  A timer with a timeout that is not a multiple of the interval can be filed one tick too early; it is then never
  taken off the wheel and is called again and again.
\<close>

lemma timer_repeats:
  "\<exists>w. do {
       w1 \<leftarrow> scheduleTimeout (\<lambda>_. 0) 0 15 7000000 idle;
       w2 \<leftarrow> handle_timeout 1 (\<lambda>_. 22000000) (\<lambda>_. 0) (\<lambda>_. Some) 0 w1;
       handle_timeout 1 (\<lambda>_. 23000000) (\<lambda>_. 0) (\<lambda>_. Some) 0 w2
     } = Some w \<and> called w = [0, 0] \<and> timer_registrations w = [0, 0, 0] \<and> timerCount w = 1"
  by (simp add: idle_def run_defs)

text \<open>Two timers for the same tick with a later one still on the wheel: the count wraps around.\<close>

lemma timer_count_wraps:
  "\<exists>w. do {
       w1 \<leftarrow> scheduleTimeout (\<lambda>_. 0) 0 50 0 idle;
       w2 \<leftarrow> scheduleTimeout (\<lambda>_. 0) 1 50 0 w1;
       w3 \<leftarrow> scheduleTimeout (\<lambda>_. 0) 2 60 0 w2;
       w4 \<leftarrow> handle_timeout (Suc 1) (\<lambda>_. 50000000) (\<lambda>_. 0) (\<lambda>_. Some) 0 w3;
       handle_timeout 1 (\<lambda>_. 60000000) (\<lambda>_. 0) (\<lambda>_. Some) 2 w4
     } = Some w \<and> called w = [0, 1, 2] \<and> timerCount w = 18446744073709551615"
  by (simp add: idle_def run_defs insert_Diff_if find_first_least [of 5 "{6, 5}"] u64_sub_def)


text \<open>
  A timer for tick 65796 that is on time in the third wheel: the loop that handles tick 65536 ten ticks late files it in
  the slot of tick 65540, which is still to come, and takes it 250 ticks too early.
\<close>

lemma late_cascade_fires_early:
  "\<exists>w'. expire_loop 1 65546 65536 [] (idle\<lparr>
       timer_of := (timer_of idle)(0 \<mapsto> (new_timer False)\<lparr>expiration := 657960000000\<rparr>),
       handlers := (\<lambda>k s. if k = 2 \<and> s = 1 then [0] else [])\<rparr>) = Some ([0], w')"
  by (simp add: idle_def run_defs insert_Diff_if)

subsection \<open>Cancelling all timers\<close>

definition slots_known :: "wheel \<Rightarrow> bool" where
  "slots_known w \<longleftrightarrow> (\<forall>k s. \<forall>h \<in> set (handlers w k s). \<forall>t. timer_of w h = Some t \<longrightarrow>
     slotInBucket t = (if k = 0 then int s else - 1))"

definition cancel_inv :: "wheel \<Rightarrow> bool" where
  "cancel_inv w \<longleftrightarrow> wheel_wf w \<and> slots_known w \<and> finite (wheel_set w) \<and>
     timerCount w = card (wheel_set w) \<and> card (wheel_set w) < 2 ^ 64"

lemma cancel_loop_result:
  assumes "distinct hs" and "\<forall>h \<in> set hs. \<exists>t. timer_of w h = Some t \<and> slotInBucket t = slot"
    and "\<forall>h \<in> set hs. \<forall>k s. h \<notin> set (handlers w k s)"
  shows "\<exists>w'. cancel_loop unreg slot hs w = Some w' \<and> handlers w' = handlers w \<and>
    firstBucketBitSet w' = firstBucketBitSet w \<and> timerCount w' = timerCount w \<and>
    (\<forall>g. g \<notin> set hs \<longrightarrow> timer_of w' g = timer_of w g)"
  using assms
proof (induction hs arbitrary: w)
  case (Cons h hs)
  obtain t where t: "timer_of w h = Some t" "slotInBucket t = slot" using Cons.prems(2) by auto
  define w1 where "w1 = update_timer h (\<lambda>tm. tm\<lparr>isRegistered := isRegistered tm \<and> unreg (Some h) \<noteq> 0,
      is_linked := False, expiration := 0, slotInBucket := - 1\<rparr>) w"
  define w2 where "w2 = (if needDestroy t then destroy h w1 else w1)"
  have f: "handlers w2 = handlers w" "firstBucketBitSet w2 = firstBucketBitSet w" "timerCount w2 = timerCount w"
    "\<forall>g. g \<noteq> h \<longrightarrow> timer_of w2 g = timer_of w g"
    using Cons.prems(3) by (auto simp: w2_def w1_def update_timer_def destroy_def fun_eq_iff)
  have "\<forall>g \<in> set hs. \<exists>t. timer_of w2 g = Some t \<and> slotInBucket t = slot"
    using Cons.prems(1,2) f(4) by (metis distinct.simps(2) list.set_intros(2))
  then obtain w' where "cancel_loop unreg slot hs w2 = Some w'" "handlers w' = handlers w2"
    "firstBucketBitSet w' = firstBucketBitSet w2" "timerCount w' = timerCount w2"
    "\<forall>g. g \<notin> set hs \<longrightarrow> timer_of w' g = timer_of w2 g"
    using Cons.IH [of w2] Cons.prems(1,3) f(1) by auto
  then show ?case using t f by (auto simp: w1_def [symmetric] w2_def [symmetric] Let_def)
qed simp

lemma cancel_list_result:
  assumes inv: "cancel_inv w" and "handlers w k s \<noteq> []"
  shows "\<exists>w1. cancelTimeoutsFromList unreg k s w = Some (length (handlers w k s), w1) \<and>
    handlers w1 = (\<lambda>k' s'. if k' = k \<and> s' = s then [] else handlers w k' s') \<and>
    firstBucketBitSet w1 = (if k = 0 then firstBucketBitSet w - {s} else firstBucketBitSet w) \<and>
    timerCount w1 = timerCount w \<and> (\<forall>g. g \<notin> set (handlers w k s) \<longrightarrow> timer_of w1 g = timer_of w g)"
proof -
  obtain h hs where L: "handlers w k s = h # hs" using assms(2) by (cases "handlers w k s") auto
  have wf: "wheel_wf w" using inv by (simp add: cancel_inv_def)
  have slot: "\<forall>g \<in> set (h # hs). \<exists>t. timer_of w g = Some t \<and> slotInBucket t = (if k = 0 then int s else - 1)"
  proof
    fix g assume g: "g \<in> set (h # hs)"
    then have "g \<in> wheel_set w" unfolding wheel_set_def L [symmetric] by blast
    then obtain t where "timer_of w g = Some t" using wf by (auto simp: wheel_wf_def)
    then show "\<exists>t. timer_of w g = Some t \<and> slotInBucket t = (if k = 0 then int s else - 1)"
      using inv g unfolding cancel_inv_def slots_known_def L [symmetric] by blast
  qed
  obtain t where t: "timer_of w h = Some t" "slotInBucket t = (if k = 0 then int s else - 1)" using slot by auto
  define bits where "bits = (if k = 0 then firstBucketBitSet w - {s} else firstBucketBitSet w)"
  define w0 where "w0 = set_list k s [] (w\<lparr>firstBucketBitSet := bits\<rparr>)"
  have h0: "handlers w0 = (\<lambda>k' s'. if k' = k \<and> s' = s then [] else handlers w k' s')"
    by (auto simp: w0_def set_list_def fun_eq_iff)
  have d: "distinct (h # hs)" using wf L unfolding wheel_wf_def by metis
  have "g \<notin> set (handlers w0 k' s')" if "g \<in> set (h # hs)" for g k' s'
    using wf that unfolding h0 L [symmetric] wheel_wf_def by (metis empty_iff empty_set)
  then obtain w1 where w1: "cancel_loop unreg (if k = 0 then int s else - 1) (h # hs) w0 = Some w1"
    "handlers w1 = handlers w0" "firstBucketBitSet w1 = firstBucketBitSet w0" "timerCount w1 = timerCount w0"
    "\<forall>g. g \<notin> set (h # hs) \<longrightarrow> timer_of w1 g = timer_of w0 g"
    using cancel_loop_result [OF d, of w0 "if k = 0 then int s else - 1" unreg] slot
    by (auto simp: w0_def set_list_def)
  have "cancelTimeoutsFromList unreg k s w = Some (length (handlers w k s), w1)"
  proof -
    have "w\<lparr>firstBucketBitSet := bits\<rparr> =
        (if slotInBucket t \<noteq> - 1 then w\<lparr>firstBucketBitSet := firstBucketBitSet w - {nat (slotInBucket t)}\<rparr> else w)"
      using t(2) by (simp add: bits_def)
    then show ?thesis using t w1(1) L
      by (simp add: cancelTimeoutsFromList_def Let_def w0_def del: cancel_loop.simps)
  qed
  then show ?thesis using w1 h0 L by (auto simp: w0_def set_list_def bits_def)
qed

lemma cancel_step:
  assumes inv: "cancel_inv w"
  shows "\<exists>n w1. cancelTimeoutsFromList unreg k s w = Some (n, w1) \<and>
    cancel_inv (w1\<lparr>timerCount := u64_sub (timerCount w1) n\<rparr>) \<and>
    handlers w1 = (\<lambda>k' s'. if k' = k \<and> s' = s then [] else handlers w k' s')"
proof (cases "handlers w k s = []")
  case True
  have "timerCount w < 18446744073709551616" using inv by (simp add: cancel_inv_def)
  then have "w\<lparr>timerCount := u64_sub (timerCount w) 0\<rparr> = w" by (simp add: uint_simps)
  moreover have "handlers w = (\<lambda>k' s'. if k' = k \<and> s' = s then [] else handlers w k' s')"
    using True by (auto simp: fun_eq_iff)
  ultimately show ?thesis using True inv by (simp add: cancelTimeoutsFromList_def)
next
  case False
  obtain w1 where w1: "cancelTimeoutsFromList unreg k s w = Some (length (handlers w k s), w1)"
    and h1: "handlers w1 = (\<lambda>k' s'. if k' = k \<and> s' = s then [] else handlers w k' s')"
    and b1: "firstBucketBitSet w1 = (if k = 0 then firstBucketBitSet w - {s} else firstBucketBitSet w)"
    and c1: "timerCount w1 = timerCount w"
    and t1: "\<forall>g. g \<notin> set (handlers w k s) \<longrightarrow> timer_of w1 g = timer_of w g"
    using cancel_list_result [OF inv False] by blast
  have wf: "wheel_wf w" using inv by (simp add: cancel_inv_def)
  have ws: "wheel_set w1 = wheel_set w - set (handlers w k s)" by (rule wheel_set_remove [OF wf]) (simp add: h1)
  have sub: "set (handlers w k s) \<subseteq> wheel_set w" unfolding wheel_set_def by blast
  have "card (set (handlers w k s)) = length (handlers w k s)"
    using wf by (simp add: wheel_wf_def distinct_card)
  moreover have "card (set (handlers w k s)) \<le> card (wheel_set w)"
    using inv sub by (simp add: cancel_inv_def card_mono)
  moreover have "card (wheel_set w1) = card (wheel_set w) - card (set (handlers w k s))"
    unfolding ws using inv sub by (simp add: cancel_inv_def card_Diff_subset)
  ultimately have cnt: "u64_sub (timerCount w1) (length (handlers w k s)) = card (wheel_set w1)"
    "card (wheel_set w1) < 2 ^ 64"
    using inv c1 by (auto simp: cancel_inv_def uint_simps)
  let ?w = "w1\<lparr>timerCount := u64_sub (timerCount w1) (length (handlers w k s))\<rparr>"
  have off: "g \<notin> set (handlers w k s) \<and> g \<in> set (handlers w k' s')" if "g \<in> set (handlers w1 k' s')" for g k' s'
    using that wf_unique [OF wf, of g k s k' s'] by (auto simp: h1 split: if_splits)
  have "wheel_wf ?w"
    unfolding wheel_wf_def
  proof (intro conjI allI ballI impI)
    fix g assume "g \<in> wheel_set ?w"
    then have "g \<in> wheel_set w1" by (simp add: wheel_set_def)
    then have "g \<notin> set (handlers w k s)" "timer_of w g \<noteq> None" using ws wf by (auto simp: wheel_wf_def)
    then show "timer_of ?w g \<noteq> None" using t1 by simp
  next
    fix k1 s1 k2 s2 g assume "g \<in> set (handlers ?w k1 s1)" "g \<in> set (handlers ?w k2 s2)"
    then show "k1 = k2" "s1 = s2" using wf_unique [OF wf, of g k1 s1 k2 s2] off by simp_all
  qed (use wf in \<open>simp_all add: h1 b1 wheel_wf_def\<close>)
  moreover have "slots_known ?w"
    unfolding slots_known_def
  proof (intro allI ballI impI)
    fix k' s' g t assume g: "g \<in> set (handlers ?w k' s')" and t: "timer_of ?w g = Some t"
    then have "g \<in> set (handlers w k' s')" "timer_of w g = Some t" using off t1 by auto
    then show "slotInBucket t = (if k' = 0 then int s' else - 1)"
      using inv unfolding cancel_inv_def slots_known_def by blast
  qed
  moreover have "wheel_set ?w = wheel_set w1" by (simp add: wheel_set_def)
  ultimately show ?thesis using w1 h1 cnt inv ws by (simp add: cancel_inv_def)
qed


lemma cancel_lists_result:
  assumes "cancel_inv w"
  shows "\<exists>w'. cancel_lists unreg ks w = Some w' \<and> cancel_inv w' \<and>
    handlers w' = (\<lambda>k s. if (k, s) \<in> set ks then [] else handlers w k s)"
  using assms
proof (induction ks arbitrary: w)
  case (Cons x ks)
  obtain k s where x: "x = (k, s)" by fastforce
  obtain n w1 where w1: "cancelTimeoutsFromList unreg k s w = Some (n, w1)"
    "cancel_inv (w1\<lparr>timerCount := u64_sub (timerCount w1) n\<rparr>)"
    "handlers w1 = (\<lambda>k' s'. if k' = k \<and> s' = s then [] else handlers w k' s')"
    using cancel_step [OF Cons.prems] by blast
  from Cons.IH [OF w1(2)] obtain w' where "cancel_lists unreg ks (w1\<lparr>timerCount := u64_sub (timerCount w1) n\<rparr>) = Some w'"
    "cancel_inv w'"
    "handlers w' = (\<lambda>k s. if (k, s) \<in> set ks then [] else handlers (w1\<lparr>timerCount := u64_sub (timerCount w1) n\<rparr>) k s)"
    by blast
  then show ?case using w1 x by (auto simp: fun_eq_iff)
qed auto

text \<open>
  \<open>cancelAll\<close> on a well-formed wheel whose handlers know their slots, with the count of timers right: every list
  of the wheel is emptied, no bit stays set and the count is 0.
\<close>

theorem cancel_all_empties:
  assumes "cancel_inv w" and "\<forall>k s. handlers w k s \<noteq> [] \<longrightarrow> k < 4 \<and> s < 256" and "unreg None \<noteq> 0"
  shows "\<exists>w'. cancelAll unreg w = Some w' \<and> wheel_set w' = {} \<and> firstBucketBitSet w' = {} \<and> timerCount w' = 0"
proof -
  obtain w' where w': "cancel_lists unreg (List.product [0..<4] [0..<256]) w = Some w'" "cancel_inv w'"
    "handlers w' = (\<lambda>k s. if (k, s) \<in> set (List.product [0..<4] [0..<256]) then [] else handlers w k s)"
    using cancel_lists_result [OF assms(1)] by blast
  have empty: "handlers w' k s = []" for k s using assms(2) by (auto simp: w'(3))
  then have "wheel_set w' = {}" by (simp add: wheel_set_def)
  moreover have "firstBucketBitSet w' = {}" using w'(2) empty by (auto simp: cancel_inv_def wheel_wf_def)
  ultimately show ?thesis using w'(1,2) assms(3) by (simp add: cancelAll_def cancel_inv_def)
qed

theorem cancel_all_empties_witness:
  "\<exists>w'. cancelAll (\<lambda>_. - 1) (sample_wheel\<lparr>timerCount := 2, timer_of := (\<lambda>h. map_option (\<lambda>t. t\<lparr>slotInBucket := (if h = 0 then 5 else - 1)\<rparr>) (timer_of sample_wheel h))\<rparr>) = Some w' \<and>
     wheel_set w' = {} \<and> timerCount w' = 0"
proof -
  let ?w = "sample_wheel\<lparr>timerCount := 2, timer_of := (\<lambda>h. map_option (\<lambda>t. t\<lparr>slotInBucket := (if h = 0 then 5 else - 1)\<rparr>) (timer_of sample_wheel h))\<rparr>"
  have hs: "handlers ?w k s = (if k = 0 \<and> s = 5 then [0] else if k = 1 \<and> s = 1 then [1] else [])" for k s
    by (simp add: sample_wheel_def)
  have "wheel_set ?w = {0, 1}" unfolding wheel_set_def hs by (auto split: if_splits)
  moreover have "wheel_wf ?w"
    using sample_wheel_inv by (auto simp: wheel_inv_def wheel_wf_def wheel_set_def)
  moreover have "slots_known ?w"
    unfolding slots_known_def hs by (auto split: if_splits)
  ultimately have "cancel_inv ?w" by (simp add: cancel_inv_def)
  moreover have "\<forall>k s. handlers ?w k s \<noteq> [] \<longrightarrow> k < 4 \<and> s < 256" unfolding hs by simp
  ultimately show ?thesis using cancel_all_empties [of ?w "\<lambda>_. - 1"] by auto
qed

end
