(* ===== verification/Http_Message.thy ===== *)
theory Http_Message
  imports Http_Headers
begin

text \<open>
  HTTP methods (\<open>src/http/HttpMethod.cpp\<close>), requests, responses and messages (\<open>src/http/HttpMessage.h\<close>, \<open>.cpp\<close>,
  \<open>HttpRequest.h\<close>, \<open>HttpResponse.h\<close>). The headers of a message live on the explicit heap of \<open>Http_Headers\<close>. \<open>None\<close> is
  undefined behaviour or an exception that is not caught.
\<close>

subsection \<open>Methods\<close>

datatype HTTPMethod = GET | POST | OPTIONS | DELETE | HEAD | CONNECT | PUT | TRACE | PATCH | SUB | PUB | UNSUB

definition HTTP_METHOD_GEN :: "HTTPMethod list" where
  "HTTP_METHOD_GEN = [GET, POST, OPTIONS, DELETE, HEAD, CONNECT, PUT, TRACE, PATCH, SUB, PUB, UNSUB]"

definition getHttpMethodString :: "string list" where
  "getHttpMethodString = [''GET'', ''POST'', ''OPTIONS'', ''DELETE'', ''HEAD'', ''CONNECT'', ''PUT'', ''TRACE'', ''PATCH'',
     ''SUB'', ''PUB'', ''UNSUB'']"

text \<open>The loop over the names; \<open>HTTPMethod(i)\<close> is the method at the position.\<close>

fun method_loop :: "Range \<Rightarrow> string list \<Rightarrow> HTTPMethod list \<Rightarrow> HTTPMethod option option" where
  "method_loop methodName (s # ss) (m # ms) = do {
     eq \<leftarrow> caseInsensitiveEqual methodName (cstr s);
     if eq then Some (Some m) else method_loop methodName ss ms
   }"
| "method_loop methodName _ _ = Some None"

definition stringToMethod :: "Range \<Rightarrow> HTTPMethod option option" where
  "stringToMethod methodName = method_loop methodName getHttpMethodString HTTP_METHOD_GEN"

definition methodToString :: "HTTPMethod \<Rightarrow> string" where
  "methodToString m = (case m of GET \<Rightarrow> ''GET'' | POST \<Rightarrow> ''POST'' | _ \<Rightarrow> '''')"

definition method_name :: "HTTPMethod \<Rightarrow> string" where
  "method_name m = the (map_of (zip HTTP_METHOD_GEN getHttpMethodString) m)"

subsection \<open>Messages\<close>

record HttpRequest =
  path :: string
  http_method :: HTTPMethod

record HttpResponse =
  response_status :: nat

datatype message_kind = Blank | Request HttpRequest | Response HttpResponse

record HttpMessage =
  kind :: message_kind
  headers :: HttpHeaders
  versionStr :: string
  version :: "nat \<times> nat"
  cookies :: "(Range \<times> Range) list"

definition new_message :: HttpMessage where
  "new_message = \<lparr>kind = Blank, headers = new_headers, versionStr = [], version = (0, 0), cookies = []\<rparr>"

text \<open>\<open>request()\<close> and \<open>response()\<close> make one when there is none; \<open>boost::get\<close> of the other kind throws.\<close>

definition request :: "HttpMessage \<Rightarrow> (HttpRequest \<times> HttpMessage) option" where
  "request m = (case kind m of
      Blank \<Rightarrow> let r = \<lparr>path = [], http_method = GET\<rparr> in Some (r, m\<lparr>kind := Request r\<rparr>)
    | Request r \<Rightarrow> Some (r, m)
    | Response _ \<Rightarrow> None)"

definition response :: "HttpMessage \<Rightarrow> (HttpResponse \<times> HttpMessage) option" where
  "response m = (case kind m of
      Blank \<Rightarrow> let r = \<lparr>response_status = 0\<rparr> in Some (r, m\<lparr>kind := Response r\<rparr>)
    | Response r \<Rightarrow> Some (r, m)
    | Request _ \<Rightarrow> None)"

definition is_response :: "HttpMessage \<Rightarrow> bool" where
  "is_response m = (case kind m of Response _ \<Rightarrow> True | _ \<Rightarrow> False)"

definition is_request :: "HttpMessage \<Rightarrow> bool" where
  "is_request m = (case kind m of Request _ \<Rightarrow> True | _ \<Rightarrow> False)"

definition setRequestMethod :: "HTTPMethod \<Rightarrow> HttpMessage \<Rightarrow> HttpMessage option" where
  "setRequestMethod mt m =
     (if is_response m then Some m
      else do { (r, m1) \<leftarrow> request m; Some (m1\<lparr>kind := Request (r\<lparr>http_method := mt\<rparr>)\<rparr>) })"

text \<open>A C string and a piece.\<close>

definition setRequestPath :: "bytes \<Rightarrow> HttpMessage \<Rightarrow> HttpMessage option" where
  "setRequestPath p m =
     (if is_response m then Some m
      else do { (r, m1) \<leftarrow> request m; Some (m1\<lparr>kind := Request (r\<lparr>path := take (strlen p) p\<rparr>)\<rparr>) })"

definition setRequestPath_piece :: "Range \<Rightarrow> HttpMessage \<Rightarrow> HttpMessage option" where
  "setRequestPath_piece p m =
     (if is_response m then Some m
      else do { (r, m1) \<leftarrow> request m; s \<leftarrow> range_read p; Some (m1\<lparr>kind := Request (r\<lparr>path := s\<rparr>)\<rparr>) })"

definition setResponseStatus :: "nat \<Rightarrow> HttpMessage \<Rightarrow> HttpMessage option" where
  "setResponseStatus status m =
     (if is_request m then Some m
      else do { (r, m1) \<leftarrow> response m; Some (m1\<lparr>kind := Response (r\<lparr>response_status := status\<rparr>)\<rparr>) })"

text \<open>\<open>std::to_string\<close>.\<close>

fun to_string :: "nat \<Rightarrow> string" where
  "to_string n = (if n < 10 then [char_of (48 + n)] else to_string (n div 10) @ [char_of (48 + n mod 10)])"

declare to_string.simps [simp del]

definition setHttpVersion :: "nat \<Rightarrow> nat \<Rightarrow> HttpMessage \<Rightarrow> HttpMessage" where
  "setHttpVersion maj mnr m = m\<lparr>version := (maj, mnr), versionStr := to_string maj @ ''.'' @ to_string mnr\<rparr>"

text \<open>\<open>fmt\<close> is \<open>boost::format\<close> of the two numbers.\<close>

definition getVersionStr :: "(nat \<Rightarrow> nat \<Rightarrow> string) \<Rightarrow> HttpMessage \<Rightarrow> string" where
  "getVersionStr fmt m =
     (if version m = (0, 0) then ''''
      else if length (versionStr m) > 0 then ''HTTP/'' @ versionStr m
      else fmt (fst (version m)) (snd (version m)))"

definition CRLF :: string where
  "CRLF = [CHR 0x0D, CHR 0x0A]"

text \<open>The null pointer for a response is \<open>Some None\<close>.\<close>

definition buildRequestLine :: "(nat \<Rightarrow> nat \<Rightarrow> string) \<Rightarrow> HttpMessage \<Rightarrow> (string option \<times> HttpMessage) option" where
  "buildRequestLine fmt m =
     (if is_response m then Some (None, m)
      else do {
        (r, m1) \<leftarrow> request m;
        Some (Some (methodToString (http_method r) @ '' '' @ path r @ '' '' @ getVersionStr fmt m1 @ CRLF), m1)
      })"

definition buildRequestMessage ::
  "(nat \<Rightarrow> nat \<Rightarrow> string) \<Rightarrow> heap \<Rightarrow> HttpMessage \<Rightarrow> (string option \<times> HttpMessage) option" where
  "buildRequestMessage fmt hp m =
     (if is_response m then Some (None, m)
      else do {
        (reqLine, m1) \<leftarrow> buildRequestLine fmt m;
        headersStr \<leftarrow> dump hp (headers m1);
        l \<leftarrow> reqLine;
        Some (Some (l @ headersStr), m1)
      })"

definition getHeaderValue :: "HttpHeaderCode \<Rightarrow> HttpMessage \<Rightarrow> string option option" where
  "getHeaderValue code m = header_at (headers m) code"

definition hasHeader :: "HttpHeaderCode \<Rightarrow> HttpMessage \<Rightarrow> bool option" where
  "hasHeader code m = map_option (\<lambda>v. v \<noteq> None) (header_at (headers m) code)"

subsection \<open>Cookies\<close>

text \<open>\<open>std::map::insert\<close> with the order of the pieces: an equal key keeps its value.\<close>

fun insert_cookie :: "Range \<Rightarrow> Range \<Rightarrow> (Range \<times> Range) list \<Rightarrow> (Range \<times> Range) list option" where
  "insert_cookie k v [] = Some [(k, v)]"
| "insert_cookie k v ((k', v') # cs) = do {
     lt \<leftarrow> range_less k k';
     if lt then Some ((k, v) # (k', v') # cs)
     else do {
       gt \<leftarrow> range_less k' k;
       if gt then map_option (Cons (k', v')) (insert_cookie k v cs) else Some ((k', v') # cs)
     }
   }"

text \<open>\<open>size_t\<close> arithmetic, and a position added to a pointer.\<close>

definition u64_int :: "int \<Rightarrow> nat" where
  "u64_int x = nat (x mod 2 ^ 64)"

definition advance :: "Range \<Rightarrow> int \<Rightarrow> Range" where
  "advance r n = r\<lparr>range_end := range_begin r + n\<rparr>"

definition sub_piece :: "Range \<Rightarrow> int \<Rightarrow> int \<Rightarrow> Range option" where
  "sub_piece r first len = (case sub_string r (u64_int first) (u64_int len) of Inl _ \<Rightarrow> None | Inr s \<Rightarrow> Some s)"

text \<open>
  The body of the loop up to the insertion: the key, the value and the rest; \<open>Some None\<close> is the \<open>break\<close>. The position
  \<open>npos\<close> is \<open>-1\<close> as an \<open>int\<close>, and below every size.
\<close>

definition cookie_step :: "Range \<Rightarrow> Range \<Rightarrow> (Range \<times> Range \<times> Range) option option" where
  "cookie_step value subStr = do {
     posEqual \<leftarrow> find_char subStr (CHR ''='');
     let pe = i64 (int posEqual);
     if \<not> i32 pe < i32 (int (range_size subStr)) then Some None
     else do {
       let key = advance subStr pe;
       sub1 \<leftarrow> sub_piece subStr (pe + 1) (int (range_size subStr) - pe - 1);
       posCol \<leftarrow> find_range sub1 (range_of_string ''; '');
       (value1, sub2) \<leftarrow>
         (if posCol < i32 (int (range_size sub1))
          then map_option (Pair (advance sub1 posCol)) (sub_piece sub1 (posCol + 2) (int (range_size sub1) - posCol - 2))
          else Some (value, sub1));
       Some (Some (key, if posCol < 0 then sub2 else value1, sub2))
     }
   }"

partial_function (option) cookie_loop ::
  "Range \<Rightarrow> Range \<Rightarrow> (Range \<times> Range) list \<Rightarrow> (Range \<times> Range) list option" where
  "cookie_loop value subStr cs =
     (if range_size subStr = 0 then Some cs
      else do {
        r \<leftarrow> cookie_step value subStr;
        case r of
          None \<Rightarrow> Some cs
        | Some (key, value1, rest) \<Rightarrow> do {
            cs1 \<leftarrow> (if range_size key \<noteq> 0 \<and> range_size value1 \<noteq> 0 then insert_cookie key value1 cs else Some cs);
            cookie_loop value1 rest cs1
          }
      })"

definition parseCookie :: "Range \<Rightarrow> HttpMessage \<Rightarrow> HttpMessage option" where
  "parseCookie cookie m = do {
     subStr \<leftarrow> sub_piece cookie 0 (int (range_size cookie));
     cs \<leftarrow> cookie_loop null_range subStr (cookies m);
     Some (m\<lparr>cookies := cs\<rparr>)
   }"

subsection \<open>Adding headers\<close>

text \<open>The three overloads of \<open>addHeader\<close>; the heap holds the names.\<close>

definition add_to_headers ::
  "(heap \<times> HttpHeaders \<Rightarrow> (heap \<times> HttpHeaders) option) \<Rightarrow> heap \<Rightarrow> HttpMessage \<Rightarrow> (heap \<times> HttpMessage) option" where
  "add_to_headers f hp m = do { (hp1, h1) \<leftarrow> f (hp, headers m); Some (hp1, m\<lparr>headers := h1\<rparr>) }"

definition addHeader_piece :: "string \<Rightarrow> Range \<Rightarrow> heap \<Rightarrow> HttpMessage \<Rightarrow> (heap \<times> HttpMessage) option" where
  "addHeader_piece field value hp m = do {
     cookie \<leftarrow> getPointerWithHeaderCode HTTP_HEADER_COOKIE;
     m1 \<leftarrow> (if field = cookie then parseCookie value m else Some m);
     add_to_headers (add_piece (range_of_string field) value) hp m1
   }"

definition addHeader_code :: "HttpHeaderCode \<Rightarrow> Range \<Rightarrow> heap \<Rightarrow> HttpMessage \<Rightarrow> (heap \<times> HttpMessage) option" where
  "addHeader_code field value hp m = do {
     m1 \<leftarrow> (if field = HTTP_HEADER_COOKIE then parseCookie value m else Some m);
     add_to_headers (add_code_piece field value) hp m1
   }"

definition addHeader_string :: "string \<Rightarrow> string \<Rightarrow> heap \<Rightarrow> HttpMessage \<Rightarrow> (heap \<times> HttpMessage) option" where
  "addHeader_string field value hp m = do {
     cookie \<leftarrow> getPointerWithHeaderCode HTTP_HEADER_COOKIE;
     m1 \<leftarrow> (if field = cookie then parseCookie (range_of_string value) m else Some m);
     add_to_headers (add_string_move field value) hp m1
   }"


subsection \<open>Names of methods\<close>

lemma method_loop_ok:
  assumes "length s < 2 ^ 63" and "\<forall>n \<in> set ns. NUL \<notin> set n \<and> length n < 2 ^ 63" and "length ns = length ms"
  shows "method_loop (range_of_string s) ns ms =
    Some (map_option snd (List.find (\<lambda>(n, m). map tolower s = map tolower n) (zip ns ms)))"
  using assms(3,2)
proof (induction ns ms rule: list_induct2)
  case (Cons n ns m ms)
  then show ?case using caseInsensitiveEqual_ok [OF assms(1), of n] by simp
qed simp

lemma methods_complete: "m \<in> set HTTP_METHOD_GEN"
  by (cases m) (simp_all add: HTTP_METHOD_GEN_def)

lemma method_names_distinct:
  "distinct (map (map tolower) getHttpMethodString)" "length getHttpMethodString = length HTTP_METHOD_GEN"
  "distinct HTTP_METHOD_GEN" "\<forall>n \<in> set getHttpMethodString. NUL \<notin> set n \<and> length n < 2 ^ 63"
  by (simp_all add: getHttpMethodString_def HTTP_METHOD_GEN_def tolower_def)

lemma find_zip:
  assumes "length ns = length ms" and "distinct (map f ns)" and "distinct ms"
  shows "map_option snd (List.find (\<lambda>(n, m). x = f n) (zip ns ms)) = Some m \<longleftrightarrow>
    (\<exists>n. map_of (zip ms ns) m = Some n \<and> x = f n)"
  using assms
proof (induction ns ms rule: list_induct2)
  case (Cons n ns k ms)
  show ?case
  proof (cases "x = f n")
    case True
    have "f n' \<noteq> f n" if "map_of (zip ms ns) m = Some n'" for n'
    proof -
      have "n' \<in> set ns" using map_of_SomeD [OF that] by (rule set_zip_rightD)
      then have "f n' \<in> set (map f ns)" by simp
      then show ?thesis using Cons.prems(1) by (metis distinct.simps(2) list.simps(9))
    qed
    then show ?thesis using True by auto
  next
    case False
    have "k \<notin> set ms" using Cons.prems(2) by simp
    then have "map_of (zip ms ns) k = None" using Cons.hyps by (simp add: map_of_zip_is_None)
    then show ?thesis using False Cons.IH Cons.prems by (cases "m = k") auto
  qed
qed simp

text \<open>
  \<open>stringToMethod\<close> recognises exactly the names of the methods, up to the case of letters, and gives the method
  with that name.
\<close>

theorem string_to_method_correct:
  assumes "length s < 2 ^ 63"
  shows "(\<exists>r. stringToMethod (range_of_string s) = Some r) \<and>
    (stringToMethod (range_of_string s) = Some (Some m) \<longleftrightarrow> map tolower s = map tolower (method_name m)) \<and>
    (stringToMethod (range_of_string s) = Some None \<longleftrightarrow> (\<forall>k. map tolower s \<noteq> map tolower (method_name k)))"
proof -
  have run: "stringToMethod (range_of_string s) = Some (map_option snd
      (List.find (\<lambda>(n, m). map tolower s = map tolower n) (zip getHttpMethodString HTTP_METHOD_GEN)))"
    unfolding stringToMethod_def by (rule method_loop_ok [OF assms method_names_distinct(4,2)])
  have name: "map_of (zip HTTP_METHOD_GEN getHttpMethodString) k = Some (method_name k)" for k
    using methods_complete [of k] method_names_distinct(2) by (simp add: method_name_def map_of_zip_is_Some)
  have some: "stringToMethod (range_of_string s) = Some (Some k) \<longleftrightarrow> map tolower s = map tolower (method_name k)" for k
    using find_zip [OF method_names_distinct(2,1,3), of "map tolower s" k] name [of k] run by simp
  obtain r where r: "stringToMethod (range_of_string s) = Some r" using run by blast
  then have "stringToMethod (range_of_string s) = Some None \<longleftrightarrow> (\<forall>k. stringToMethod (range_of_string s) \<noteq> Some (Some k))"
    by (cases r) auto
  then show ?thesis using some r by blast
qed

theorem string_to_method_correct_witness:
  "stringToMethod (range_of_string ''post'') = Some (Some POST)"
proof -
  have "map tolower ''post'' = map tolower (method_name POST)" by code_simp
  then show ?thesis using string_to_method_correct [of "''post''" POST] by simp
qed

text \<open>\<open>methodToString\<close> knows two of the twelve methods: the request line of the others begins with a blank.\<close>

lemma method_to_string_partial:
  "methodToString m = method_name m \<longleftrightarrow> m = GET \<or> m = POST" "m \<noteq> GET \<Longrightarrow> m \<noteq> POST \<Longrightarrow> methodToString m = []"
  by (cases m; simp add: methodToString_def method_name_def HTTP_METHOD_GEN_def getHttpMethodString_def)+

subsection \<open>Building a request\<close>

lemma to_string_nonempty: "to_string n \<noteq> []"
  by (subst to_string.simps) simp

lemma to_string_digit: "n < 10 \<Longrightarrow> to_string n = [char_of (48 + n)]"
  by (subst to_string.simps) simp

lemma buildRequestMessage_law:
  assumes "kind m = Request \<lparr>path = p, http_method = mt\<rparr>" and "version m \<noteq> (0, 0)" and "versionStr m \<noteq> []"
    and "mt = GET \<or> mt = POST" and "headers_wf hp (headers m)" and "codes (headers m) \<noteq> []"
    and "codes_deleted (headers m) = 0"
  shows "buildRequestMessage fmt hp m = Some (Some (method_name mt @ '' '' @ p @ '' HTTP/'' @ versionStr m @ CRLF @
      concat (map (\<lambda>(c, n, v). header_line n v) (entries hp (headers m))) @ CRLF), m)"
proof -
  have "methodToString mt = method_name mt" using assms(4) method_to_string_partial by blast
  moreover have "dump hp (headers m) =
      Some (concat (map (\<lambda>(c, n, v). header_line n v) (entries hp (headers m))) @ CRLF)"
    using dump_ok [OF assms(5-7)] by (simp add: CRLF_def)
  ultimately show ?thesis
    using assms(1-3) by (auto simp: buildRequestMessage_def buildRequestLine_def request_def is_response_def getVersionStr_def)
qed

text \<open>
  A message that is made a request with a method, a path and a version, and that has headers of which none has
  been removed, is written as its request line, its headers line by line in order, and an empty line; this is for the
  methods GET and POST, which are the ones that \<open>methodToString\<close> knows. The message itself is not changed.
\<close>

theorem request_message_written:
  assumes "\<not> is_response m0" and "setRequestMethod mt m0 = Some m1" and "setRequestPath (cstr p) m1 = Some m2"
    and "m = setHttpVersion maj mnr m2" and "(maj, mnr) \<noteq> (0, 0)" and "NUL \<notin> set p" and "mt = GET \<or> mt = POST"
    and "headers_wf hp (headers m0)" and "codes (headers m0) \<noteq> []" and "codes_deleted (headers m0) = 0"
  shows "buildRequestMessage fmt hp m = Some (Some (method_name mt @ '' '' @ p @ '' HTTP/'' @ to_string maj @ ''.'' @
      to_string mnr @ CRLF @ concat (map (\<lambda>(c, n, v). header_line n v) (entries hp (headers m0))) @ CRLF), m)"
proof -
  have "strlen (cstr p) = length p" by (rule strlen_cstr [OF assms(6)])
  then have p: "take (strlen (cstr p)) (cstr p) = p" by (simp add: cstr_def)
  have "\<exists>p0. m1 = m0\<lparr>kind := Request \<lparr>path = p0, http_method = mt\<rparr>\<rparr>"
  proof (cases "kind m0")
    case (Request r)
    then show ?thesis
      using assms(2) by (cases r) (simp add: setRequestMethod_def request_def is_response_def, blast)
  qed (use assms(1,2) in \<open>auto simp: setRequestMethod_def request_def is_response_def Let_def\<close>)
  then obtain p0 where "m1 = m0\<lparr>kind := Request \<lparr>path = p0, http_method = mt\<rparr>\<rparr>" ..
  then have m: "m = m0\<lparr>kind := Request \<lparr>path = p, http_method = mt\<rparr>, version := (maj, mnr),
      versionStr := to_string maj @ ''.'' @ to_string mnr\<rparr>"
    using assms(3,4) p by (auto simp: setRequestPath_def request_def is_response_def setHttpVersion_def)
  show ?thesis
    using buildRequestMessage_law [of m p mt hp fmt] assms(5,7-10) to_string_nonempty by (simp add: m)
qed

theorem request_message_written_witness:
  "buildRequestMessage (\<lambda>_ _. []) sample_heap (setHttpVersion 1 1 (new_message\<lparr>headers := sample_headers,
       kind := Request \<lparr>path = ''/a'', http_method = GET\<rparr>\<rparr>)) =
     Some (Some (''GET /a HTTP/1.1'' @ CRLF @
       concat (map (\<lambda>(c, n, v). header_line n v) (entries sample_heap sample_headers)) @ CRLF),
     setHttpVersion 1 1 (new_message\<lparr>headers := sample_headers, kind := Request \<lparr>path = ''/a'', http_method = GET\<rparr>\<rparr>))"
proof -
  let ?m0 = "new_message\<lparr>headers := sample_headers\<rparr>"
  have "\<not> is_response ?m0" by (simp add: is_response_def new_message_def)
  moreover have "setRequestMethod GET ?m0 = Some (?m0\<lparr>kind := Request \<lparr>path = [], http_method = GET\<rparr>\<rparr>)"
    by (simp add: setRequestMethod_def is_response_def request_def new_message_def Let_def)
  moreover have "setRequestPath (cstr ''/a'') (?m0\<lparr>kind := Request \<lparr>path = [], http_method = GET\<rparr>\<rparr>) =
      Some (?m0\<lparr>kind := Request \<lparr>path = ''/a'', http_method = GET\<rparr>\<rparr>)"
    by (simp add: setRequestPath_def is_response_def request_def strlen_cstr) (simp add: cstr_def)
  moreover have "char_of (49 :: nat) = CHR ''1''" by code_simp
  ultimately show ?thesis
    using request_message_written [of ?m0 GET "?m0\<lparr>kind := Request \<lparr>path = [], http_method = GET\<rparr>\<rparr>" "''/a''"
        "?m0\<lparr>kind := Request \<lparr>path = ''/a'', http_method = GET\<rparr>\<rparr>" _ 1 1 sample_heap "\<lambda>_ _. []", OF _ _ _ refl] sample_ok
    by (simp add: sample_headers_def method_name_def HTTP_METHOD_GEN_def getHttpMethodString_def to_string_digit
        setHttpVersion_def)
qed


subsection \<open>What the cookie parser does\<close>

text \<open>The piece of a block from one position to another.\<close>

definition piece :: "bytes \<Rightarrow> nat \<Rightarrow> nat \<Rightarrow> Range" where
  "piece blk a b = \<lparr>block = blk, range_begin = int a, range_end = int b\<rparr>"

lemma piece_ok:
  assumes "a \<le> b" and "b \<le> length blk" and "length blk < 2 ^ 31"
  shows "range_ok (piece blk a b)" and "range_text (piece blk a b) = take (b - a) (drop a blk)"
    and "range_size (piece blk a b) = b - a"
  using assms by (auto simp: range_ok_def piece_def range_text_def range_size_def nat_diff_distrib)

lemma sub_piece_ok:
  assumes "a \<le> b" and "b \<le> length blk" and "length blk < 2 ^ 31" and "a + n \<le> b" and "len = int (b - a - n)"
  shows "sub_piece (piece blk a b) (int n) len = Some (piece blk (a + n) b)"
proof -
  have "u64_int (int n) = n" "u64_int len = b - a - n"
    using assms by (simp_all add: u64_int_def nat_mod_distrib)
  then show ?thesis
    using assms piece_ok(3) [OF assms(1-3)] by (simp add: sub_piece_def sub_string_def range_len_def piece_def)
qed

lemma find_from_first:
  "v \<notin> set xs \<Longrightarrow> find_from v i (xs @ v # ys) = i + length xs"
  by (induction xs arbitrary: i) auto

lemma separator_search:
  assumes "length t < 2147483648"
  shows "\<exists>r. kmp_search_len (Some t) (Some ''; '') = Some r \<and> first_occurrence ''; '' t r"
proof -
  have "build_search_table ''; '' (length ''; '') = Some [- 1, 0]" by code_simp
  then show ?thesis
    using kmp_table.search_finds_first [OF _ _ assms _ exact_table_cookie_separator] assms
    by (cases "t = []") (auto simp: kmp_search_len_def first_occurrence_def occurs_at_def kmp_search_len_bind)
qed


text \<open>The first half of a turn: the key up to the equals sign, and what comes after it.\<close>

lemma cookie_key:
  assumes "a \<le> b" and "b \<le> length blk" and "length blk < 2 ^ 31"
    and "take (b - a) (drop a blk) = k @ CHR ''='' # v" and "CHR ''='' \<notin> set k"
  shows "find_char (piece blk a b) (CHR ''='') = Some (length k)" and "a + length k + 1 + length v = b"
    and "sub_piece (piece blk a b) (int (length k) + 1) (int (b - a) - int (length k) - 1) = Some (piece blk (a + length k + 1) b)"
    and "range_text (piece blk (a + length k + 1) b) = v"
proof -
  have len: "b - a = length k + 1 + length v" using arg_cong [OF assms(4), of length] assms(2) by simp
  then show b: "a + length k + 1 + length v = b" using assms(1) by simp
  show "find_char (piece blk a b) (CHR ''='') = Some (length k)"
    using assms(4,5) piece_ok(1,2) [OF assms(1-3)] range_read_ok [of "piece blk a b"]
    by (simp add: find_char_def find_from_first)
  show "sub_piece (piece blk a b) (int (length k) + 1) (int (b - a) - int (length k) - 1) = Some (piece blk (a + length k + 1) b)"
    using sub_piece_ok [OF assms(1-3), of "length k + 1" "int (b - a) - int (length k) - 1"] len b
    by (simp add: add.commute add.left_commute)
  have "drop (length k + 1) (take (b - a) (drop a blk)) = v" using assms(4) by simp
  then show "range_text (piece blk (a + length k + 1) b) = v"
    using piece_ok(2) [of "a + length k + 1" b blk] assms(2,3) b
    by (simp add: drop_take add.commute add.left_commute)
qed

lemma find_separator:
  assumes "a \<le> b" and "b \<le> length blk" and "length blk < 2 ^ 31"
    and "first_occurrence ''; '' (range_text (piece blk a b)) r"
  shows "find_range (piece blk a b) (range_of_string ''; '') = Some r"
proof -
  let ?t = "range_text (piece blk a b)"
  have t: "range_read (piece blk a b) = Some ?t" "length ?t < 2147483648"
    using range_read_ok piece_ok [OF assms(1-3)] assms by simp_all
  obtain r' where r': "kmp_search_len (Some ?t) (Some ''; '') = Some r'" "first_occurrence ''; '' ?t r'"
    using separator_search [OF t(2)] by blast
  have "r' = r"
  proof -
    consider "r = - 1" "r' = - 1" | "r \<noteq> - 1" "r' \<noteq> - 1"
      using r'(2) assms(4) by (auto simp: first_occurrence_def split: if_splits)
    then show ?thesis
    proof cases
      case 2
      then have "nat r = nat r'" "0 \<le> r" "0 \<le> r'"
        using r'(2) assms(4) by (auto simp: first_occurrence_def intro: linorder_cases [of "nat r" "nat r'"])
      then show ?thesis by simp
    qed simp
  qed
  moreover have "range_read (range_of_string ''; '') = Some ''; ''"
    using range_read_ok [OF range_of_string_ok(1), of "''; ''"] range_of_string_ok(2) by simp
  ultimately show ?thesis using t r' by (simp add: find_range_def)
qed

text \<open>A cookie that is followed by another one gets its key and its value.\<close>

lemma cookie_step_next:
  assumes ok: "a \<le> b" "b \<le> length blk" "length blk < 2 ^ 31"
    and tx: "take (b - a) (drop a blk) = k @ CHR ''='' # v @ ''; '' @ rest" and k: "CHR ''='' \<notin> set k"
    and v: "\<forall>q < length v. \<not> occurs_at ''; '' (v @ ''; '' @ rest) q"
  shows "cookie_step val (piece blk a b) = Some (Some (piece blk a (a + length k),
    piece blk (a + length k + 1) (a + length k + 1 + length v), piece blk (a + length k + length v + 3) b))"
proof -
  note key = cookie_key [OF ok tx k]
  have sz: "range_size (piece blk a b) = b - a" "range_size (piece blk (a + length k + 1) b) = length v + 2 + length rest"
    using piece_ok(3) [OF ok] piece_ok(3) [of "a + length k + 1" b blk] ok key(2) by auto
  have occ: "first_occurrence ''; '' (v @ ''; '' @ rest) (int (length v))"
    using v by (simp add: first_occurrence_def occurs_at_def)
  have sep: "find_range (piece blk (a + length k + 1) b) (range_of_string ''; '') = Some (int (length v))"
    using find_separator [of "a + length k + 1" b blk "int (length v)"] occ key(2,4) ok by simp
  have rest: "sub_piece (piece blk (a + length k + 1) b) (int (length v) + 2) (int (length rest)) =
      Some (piece blk (a + length k + length v + 3) b)"
    using sub_piece_ok [of "a + length k + 1" b blk "length v + 2" "int (length rest)"] key(2) ok
    by (simp add: algebra_simps numeral_3_eq_3)
  have sm: "int (length k) < 2147483648" "int (b - a) < 2147483648" "int (length v) + 2 + int (length rest) < 2147483648"
    using ok key(2) by auto
  have "advance (piece blk a b) (int (length k)) = piece blk a (a + length k)"
    "advance (piece blk (a + length k + 1) b) (int (length v)) = piece blk (a + length k + 1) (a + length k + 1 + length v)"
    by (simp_all add: advance_def piece_def)
  then show ?thesis
    using key(1-3) sep rest sm sz ok(1)
    by (simp add: cookie_step_def Let_def uint_simps i32_id i64_id del: of_nat_diff)
qed


text \<open>
  The last cookie loses the first character of its value: the position \<open>-1\<close> of the separator passes the test that
  there is one. With an empty value the piece behind the separator does not exist and \<open>sub_string\<close> throws.
\<close>

lemma cookie_step_last:
  assumes ok: "a \<le> b" "b \<le> length blk" "length blk < 2 ^ 31"
    and tx: "take (b - a) (drop a blk) = k @ CHR ''='' # v" and k: "CHR ''='' \<notin> set k"
    and v: "\<forall>q. \<not> occurs_at ''; '' v q"
  shows "cookie_step val (piece blk a b) =
    (if v = [] then None
     else Some (Some (piece blk a (a + length k), piece blk (a + length k + 2) b, piece blk (a + length k + 2) b)))"
proof -
  note key = cookie_key [OF ok tx k]
  have sz: "range_size (piece blk a b) = b - a" "range_size (piece blk (a + length k + 1) b) = length v"
    using piece_ok(3) [OF ok] piece_ok(3) [of "a + length k + 1" b blk] ok key(2) by auto
  have sep: "find_range (piece blk (a + length k + 1) b) (range_of_string ''; '') = Some (- 1)"
    using find_separator [of "a + length k + 1" b blk "- 1"] v key(2,4) ok by (simp add: first_occurrence_def)
  have rest: "sub_piece (piece blk (a + length k + 1) b) 1 (int (length v) - 1) =
      (if v = [] then None else Some (piece blk (a + length k + 2) b))"
  proof (cases "v = []")
    case True
    then show ?thesis using sz by (simp add: sub_piece_def sub_string_def u64_int_def)
  next
    case False
    then have "int (length v) - 1 = int (b - (a + length k + 1) - 1)" using key(2) by (cases v) auto
    from sub_piece_ok [OF _ ok(2,3) _ this] show ?thesis using False key(2) by (cases v) auto
  qed
  have lt: "length k < b - a" using key(2) by simp
  have sm: "int (length k) < 2147483648" "int (b - a) < 2147483648" "int (length v) < 2147483648"
    using ok key(2) by auto
  have "advance (piece blk a b) (int (length k)) = piece blk a (a + length k)" by (simp add: advance_def piece_def)
  then show ?thesis
    using key(1-3) sep rest sm sz lt
    by (cases "v = []") (simp_all add: cookie_step_def Let_def uint_simps i32_id i64_id del: of_nat_diff)
qed

lemma range_of_string_piece: "range_of_string s = piece (cstr s) 0 (length s)"
  by (simp add: range_of_string_def piece_def)

lemma cookie_loop_end: "range_size r = 0 \<Longrightarrow> cookie_loop v r cs = Some cs"
  by (subst cookie_loop.simps) simp

lemma single_cookie_dropped:
  assumes "CHR ''='' \<notin> set k" and "length k + 3 < 2 ^ 31"
  shows "parseCookie (range_of_string (k @ [CHR ''='', c])) m = Some m"
proof -
  let ?s = "k @ [CHR ''='', c]" and ?p = "piece (cstr (k @ [CHR ''='', c])) 0 (length k + 2)"
  have p: "range_of_string ?s = ?p" by (simp add: range_of_string_piece)
  have blk: "length k + 2 \<le> length (cstr ?s)" "length (cstr ?s) < 2 ^ 31" using assms(2) by (simp_all add: cstr_def)
  have sz: "range_size ?p = length k + 2" using piece_ok(3) [OF _ blk] by simp
  have "sub_piece ?p 0 (int (range_size ?p)) = Some ?p"
    using sub_piece_ok [OF _ blk, of 0 0 "int (length k + 2)"] sz by simp
  moreover have "cookie_step null_range ?p = Some (Some (piece (cstr ?s) 0 (length k),
      piece (cstr ?s) (length k + 2) (length k + 2), piece (cstr ?s) (length k + 2) (length k + 2)))"
    using cookie_step_last [OF _ blk, of 0 k "[c]" null_range] assms(1)
    by (simp add: cstr_def occurs_at_def)
  moreover have "range_size (piece (cstr ?s) (length k + 2) (length k + 2)) = 0"
    by (simp add: piece_def range_size_def)
  ultimately have "cookie_loop null_range ?p (cookies m) = Some (cookies m)"
    using sz by (subst cookie_loop.simps) (simp add: cookie_loop_end)
  then show ?thesis
    using \<open>sub_piece ?p 0 (int (range_size ?p)) = Some ?p\<close> by (simp add: parseCookie_def p)
qed

lemma empty_cookie_throws:
  assumes "CHR ''='' \<notin> set k" and "length k + 2 < 2 ^ 31"
  shows "parseCookie (range_of_string (k @ [CHR ''=''])) m = None"
proof -
  let ?s = "k @ [CHR ''='']" and ?p = "piece (cstr (k @ [CHR ''=''])) 0 (length k + 1)"
  have p: "range_of_string ?s = ?p" by (simp add: range_of_string_piece)
  have blk: "length k + 1 \<le> length (cstr ?s)" "length (cstr ?s) < 2 ^ 31" using assms(2) by (simp_all add: cstr_def)
  have sz: "range_size ?p = length k + 1" using piece_ok(3) [OF _ blk] by simp
  have "sub_piece ?p 0 (int (range_size ?p)) = Some ?p"
    using sub_piece_ok [OF _ blk, of 0 0 "int (length k + 1)"] sz by simp
  moreover have "cookie_step null_range ?p = None"
    using cookie_step_last [OF _ blk, of 0 k "[]" null_range] assms(1) by (simp add: cstr_def occurs_at_def)
  ultimately have "cookie_loop null_range ?p (cookies m) = None"
    using sz by (subst cookie_loop.simps) simp
  then show ?thesis
    using \<open>sub_piece ?p 0 (int (range_size ?p)) = Some ?p\<close> by (simp add: parseCookie_def p)
qed

end
