(* ===== verification/Http_Codec.thy ===== *)
theory Http_Codec
  imports Http_Message
begin

text \<open>
  \<open>Http1xCodec\<close> (\<open>src/http/Http1xCodec.cpp\<close>, \<open>.h\<close>) and \<open>HttpParserWrapper\<close> (\<open>src/http/http_parser/HttpParser.cpp\<close>), which turn
  the callbacks of the nodejs parser into a message and pass them on to the user's callback object. The parser itself
  is a parameter: for its state and a buffer it gives the callbacks that it makes, in order, the number of bytes, and
  its next state. The calls of the user's callback object are recorded.
\<close>

subsection \<open>State\<close>

datatype parser_event =
    Message_begin
  | Url bytes
  | Status bytes
  | Reason bytes
  | Header_field bytes
  | Header_value Range
  | Headers_complete nat nat
  | Body bytes
  | Chunk_header nat
  | Chunk_complete
  | Message_complete

datatype CodecState =
    ERROR | IDLE | PAUSED | ON_URL | ON_STATUS | ON_MESSAGEBEGIN | ON_HEADERFIELD | ON_HEADERVALUE
  | ON_HEADERS_COMPLETE | ON_CHUNKHEADER | ON_CHUNKCOMPLETE | ON_BODY | ON_MESSAGE_COMPLETE

record Http1xCodec =
  codec_message :: "HttpMessage option"
  has_callback :: bool
  url :: string
  currentHeaderFiled :: string
  currentHeaderValue :: Range
  codec_state :: CodecState
  codec_error :: bool
  callbacks :: "parser_event list"

definition new_codec :: Http1xCodec where
  "new_codec = \<lparr>codec_message = None, has_callback = False, url = [], currentHeaderFiled = [],
     currentHeaderValue = null_range, codec_state = IDLE, codec_error = False, callbacks = []\<rparr>"

definition setCallback :: "bool \<Rightarrow> Http1xCodec \<Rightarrow> Http1xCodec" where
  "setCallback cb c = c\<lparr>has_callback := cb\<rparr>"

definition notify :: "parser_event \<Rightarrow> Http1xCodec \<Rightarrow> Http1xCodec" where
  "notify e c = (if has_callback c then c\<lparr>callbacks := callbacks c @ [e]\<rparr> else c)"

type_synonym codec_heap = "heap \<times> Http1xCodec"

subsection \<open>The callbacks of the codec\<close>

text \<open>The message that the codec had before is destroyed.\<close>

definition onMessageBegin :: "codec_heap \<Rightarrow> codec_heap option" where
  "onMessageBegin = (\<lambda>(hp, c). do {
     hp1 \<leftarrow> (case codec_message c of None \<Rightarrow> Some hp | Some m \<Rightarrow> disposeHeaderNames (headers m) hp);
     Some (hp1, notify Message_begin (c\<lparr>codec_state := ON_MESSAGEBEGIN, codec_message := Some new_message\<rparr>))
   })"

definition onStatus :: "bytes \<Rightarrow> codec_heap \<Rightarrow> codec_heap option" where
  "onStatus buf = (\<lambda>(hp, c). Some (hp, notify (Status buf) (c\<lparr>codec_state := ON_STATUS\<rparr>)))"

definition onURL :: "bytes \<Rightarrow> codec_heap \<Rightarrow> codec_heap option" where
  "onURL buf = (\<lambda>(hp, c). Some (hp, notify (Url buf) (c\<lparr>codec_state := ON_URL, url := url c @ buf\<rparr>)))"

definition onReason :: "bytes \<Rightarrow> codec_heap \<Rightarrow> codec_heap option" where
  "onReason buf = (\<lambda>(hp, c). Some (hp, notify (Reason buf) c))"

definition onHeaderField :: "bytes \<Rightarrow> codec_heap \<Rightarrow> codec_heap option" where
  "onHeaderField buf = (\<lambda>(hp, c).
     if currentHeaderFiled c \<noteq> [] then None
     else Some (hp, notify (Header_field buf)
       (c\<lparr>currentHeaderFiled := currentHeaderFiled c @ buf, codec_state := ON_HEADERFIELD\<rparr>)))"

definition onHeaderValue :: "Range \<Rightarrow> codec_heap \<Rightarrow> codec_heap option" where
  "onHeaderValue buf = (\<lambda>(hp, c). do {
     m \<leftarrow> codec_message c;
     (hp1, m1) \<leftarrow> addHeader_piece (currentHeaderFiled c) buf hp m;
     Some (hp1, notify (Header_value buf)
       (c\<lparr>codec_message := Some m1, currentHeaderFiled := [], currentHeaderValue := null_range,
          codec_state := ON_HEADERVALUE\<rparr>))
   })"

text \<open>The version is that of the parser at this moment; it is stored in a \<open>uint8_t\<close>.\<close>

definition onHeadersComplete :: "nat \<Rightarrow> nat \<Rightarrow> codec_heap \<Rightarrow> codec_heap option" where
  "onHeadersComplete maj mnr = (\<lambda>(hp, c). do {
     m \<leftarrow> codec_message c;
     Some (hp, notify (Headers_complete maj mnr)
       (c\<lparr>codec_state := ON_HEADERS_COMPLETE, codec_message := Some (setHttpVersion (maj mod 256) (mnr mod 256) m)\<rparr>))
   })"

definition onBody :: "bytes \<Rightarrow> codec_heap \<Rightarrow> codec_heap option" where
  "onBody buf = (\<lambda>(hp, c). Some (hp, notify (Body buf) (c\<lparr>codec_state := ON_BODY\<rparr>)))"

definition onChunkHeader :: "nat \<Rightarrow> codec_heap \<Rightarrow> codec_heap option" where
  "onChunkHeader len = (\<lambda>(hp, c). Some (hp, notify (Chunk_header len) (c\<lparr>codec_state := ON_CHUNKHEADER\<rparr>)))"

definition onChunkComplete :: "codec_heap \<Rightarrow> codec_heap option" where
  "onChunkComplete = (\<lambda>(hp, c). Some (hp, notify Chunk_complete (c\<lparr>codec_state := ON_CHUNKCOMPLETE\<rparr>)))"

definition onMessageComplete :: "codec_heap \<Rightarrow> codec_heap option" where
  "onMessageComplete = (\<lambda>(hp, c). Some (hp, notify Message_complete (c\<lparr>codec_state := ON_MESSAGE_COMPLETE\<rparr>)))"

definition onParserError :: "codec_heap \<Rightarrow> codec_heap option" where
  "onParserError = (\<lambda>(hp, c). Some (hp, c\<lparr>codec_error := True\<rparr>))"

subsection \<open>The wrapper of the parser\<close>

text \<open>The callbacks for the reason and for chunks are not passed on.\<close>

definition wrapper_callback :: "parser_event \<Rightarrow> codec_heap \<Rightarrow> codec_heap option" where
  "wrapper_callback e = (case e of
      Message_begin \<Rightarrow> onMessageBegin
    | Url buf \<Rightarrow> onURL buf
    | Status buf \<Rightarrow> onStatus buf
    | Reason buf \<Rightarrow> Some
    | Header_field buf \<Rightarrow> onHeaderField buf
    | Header_value buf \<Rightarrow> onHeaderValue buf
    | Headers_complete maj mnr \<Rightarrow> onHeadersComplete maj mnr
    | Body buf \<Rightarrow> onBody buf
    | Chunk_header len \<Rightarrow> Some
    | Chunk_complete \<Rightarrow> Some
    | Message_complete \<Rightarrow> onMessageComplete)"

primrec run_events :: "parser_event list \<Rightarrow> codec_heap \<Rightarrow> codec_heap option" where
  "run_events [] s = Some s"
| "run_events (e # es) s = do { s1 \<leftarrow> wrapper_callback e s; run_events es s1 }"

text \<open>The parser: its error number, \<open>http_parser_execute\<close> and \<open>http_parser_pause\<close>.\<close>

record 'p http_parser =
  http_errno :: "'p \<Rightarrow> nat"
  execute :: "'p \<Rightarrow> bytes \<Rightarrow> parser_event list \<times> nat \<times> 'p"
  parser_pause :: "int \<Rightarrow> 'p \<Rightarrow> 'p"

definition onIngress :: "'p http_parser \<Rightarrow> bytes \<Rightarrow> 'p \<Rightarrow> codec_heap \<Rightarrow> (nat \<times> 'p \<times> codec_heap) option" where
  "onIngress P buf p s =
     (if http_errno P p \<noteq> 0 then Some (0, p, s)
      else do {
        let (es, bytesParsed, p1) = execute P p buf;
        s1 \<leftarrow> run_events es s;
        Some (if http_errno P p1 \<noteq> 0 then 0 else bytesParsed, p1, s1)
      })"

definition HPE_PAUSED :: nat where "HPE_PAUSED = 31"

definition parserPause :: "'p http_parser \<Rightarrow> int \<Rightarrow> 'p \<Rightarrow> int \<times> 'p" where
  "parserPause P pz p =
     (if http_errno P p \<noteq> 0 \<and> http_errno P p \<noteq> HPE_PAUSED then (- 1, p) else (0, parser_pause P pz p))"

text \<open>The saved state is a static variable of the function; all codecs share it.\<close>

definition pause :: "'p http_parser \<Rightarrow> int \<Rightarrow> 'p \<Rightarrow> CodecState \<Rightarrow> Http1xCodec \<Rightarrow> int \<times> 'p \<times> CodecState \<times> Http1xCodec" where
  "pause P pz p savedState c =
     (let (ret, p1) = parserPause P pz p
      in if pz \<noteq> 0 then (ret, p1, codec_state c, c\<lparr>codec_state := PAUSED\<rparr>)
         else (ret, p1, savedState, c\<lparr>codec_state := savedState\<rparr>))"


subsection \<open>A whole message\<close>

text \<open>The callbacks for a list of headers, and the headers that they make.\<close>

fun header_events :: "(string \<times> Range) list \<Rightarrow> parser_event list" where
  "header_events [] = []"
| "header_events ((f, v) # hs) = Header_field f # Header_value v # header_events hs"

definition header_entries :: "(string \<times> Range) list \<Rightarrow> entry list" where
  "header_entries hs = map (\<lambda>(f, v). new_entry f (range_text v)) hs"

definition plain_header :: "string \<times> Range \<Rightarrow> bool" where
  "plain_header = (\<lambda>(f, v). f \<noteq> [] \<and> string_ok f \<and> f \<noteq> header_name HTTP_HEADER_COOKIE \<and> range_ok v)"

definition forwarded :: "Http1xCodec \<Rightarrow> parser_event list \<Rightarrow> parser_event list" where
  "forwarded c es = (if has_callback c then callbacks c @ es else callbacks c)"

definition codec_with :: "Http1xCodec \<Rightarrow> HttpMessage \<Rightarrow> CodecState \<Rightarrow> parser_event list \<Rightarrow> Http1xCodec" where
  "codec_with c m st es = c\<lparr>codec_message := Some m, codec_state := st, callbacks := forwarded c es,
     currentHeaderFiled := [], currentHeaderValue := null_range\<rparr>"

lemma add_header_ok:
  assumes "plain_header (f, v)" and "state_ok (hp, headers m)" and "length (codes (headers m)) + 1 < 2 ^ 64"
  shows "\<exists>hp1 h1. addHeader_piece f v hp m = Some (hp1, m\<lparr>headers := h1\<rparr>) \<and> state_ok (hp1, h1) \<and>
    entries hp1 h1 = entries hp (headers m) @ [new_entry f (range_text v)] \<and>
    length (codes h1) = length (codes (headers m)) + 1"
proof -
  have f: "f \<noteq> []" "NUL \<notin> set f" "length f < 2 ^ 63" "f \<noteq> header_name HTTP_HEADER_COOKIE" "range_ok v"
    using assms(1) by (auto simp: plain_header_def string_ok_def)
  have "adds (hp, headers m) [new_entry f (range_text v)] (add_piece (range_of_string f) v (hp, headers m))"
    using add_string_ok [OF assms(2) f(2) assms(3) f(3)] f(1) add_piece_string [OF f(3,5)] by simp
  then obtain hp1 h1 where "add_piece (range_of_string f) v (hp, headers m) = Some (hp1, h1)" "state_ok (hp1, h1)"
    "entries hp1 h1 = entries hp (headers m) @ [new_entry f (range_text v)]"
    "length (codes h1) = length (codes (headers m)) + 1"
    by (auto simp: adds_def state_entries_def)
  then show ?thesis
    using f(4) getPointer_law [of HTTP_HEADER_COOKIE] by (auto simp: addHeader_piece_def add_to_headers_def)
qed

lemma header_event_pair:
  assumes "plain_header (f, v)" and "state_ok (hp, headers m)" and "length (codes (headers m)) + 1 < 2 ^ 64"
    and "currentHeaderFiled c = []" and "codec_message c = Some m"
  shows "\<exists>hp1 h1. run_events [Header_field f, Header_value v] (hp, c) =
      Some (hp1, codec_with c (m\<lparr>headers := h1\<rparr>) ON_HEADERVALUE [Header_field f, Header_value v]) \<and>
    state_ok (hp1, h1) \<and> entries hp1 h1 = entries hp (headers m) @ [new_entry f (range_text v)] \<and>
    length (codes h1) = length (codes (headers m)) + 1"
proof -
  obtain hp1 h1 where h1: "addHeader_piece f v hp m = Some (hp1, m\<lparr>headers := h1\<rparr>)" "state_ok (hp1, h1)"
    "entries hp1 h1 = entries hp (headers m) @ [new_entry f (range_text v)]"
    "length (codes h1) = length (codes (headers m)) + 1"
    using add_header_ok [OF assms(1-3)] by blast
  moreover have "run_events [Header_field f, Header_value v] (hp, c) =
      Some (hp1, codec_with c (m\<lparr>headers := h1\<rparr>) ON_HEADERVALUE [Header_field f, Header_value v])"
    using h1(1) assms(4,5)
    by (cases c) (simp add: wrapper_callback_def onHeaderField_def onHeaderValue_def notify_def codec_with_def
        forwarded_def)
  ultimately show ?thesis by blast
qed

lemma run_events_append: "run_events (es @ fs) s = do { s1 \<leftarrow> run_events es s; run_events fs s1 }"
  by (induction es arbitrary: s) (auto split: bind_splits)

lemma forwarded_with: "forwarded (codec_with c m st es) fs = forwarded c (es @ fs)"
  by (simp add: forwarded_def codec_with_def)

lemma codec_with_with: "codec_with (codec_with c m st es) m' st' fs = codec_with c m' st' (es @ fs)"
  by (simp add: forwarded_def codec_with_def)

lemma header_events_ok:
  assumes "list_all plain_header hs" and "state_ok (hp, headers m)"
    and "length (codes (headers m)) + length hs < 2 ^ 64"
  shows "\<exists>hp1 h1 st'. run_events (header_events hs) (hp, codec_with c m st es) =
      Some (hp1, codec_with c (m\<lparr>headers := h1\<rparr>) st' (es @ header_events hs)) \<and> state_ok (hp1, h1) \<and>
    entries hp1 h1 = entries hp (headers m) @ header_entries hs"
  using assms
proof (induction hs arbitrary: hp m es st)
  case Nil
  then show ?case
    by (intro exI [of _ hp] exI [of _ "headers m"] exI [of _ st]) (simp add: header_entries_def)
next
  case (Cons x hs)
  obtain f v where x: "x = (f, v)" by fastforce
  let ?c = "codec_with c m st es"
  have "currentHeaderFiled ?c = []" "codec_message ?c = Some m" by (simp_all add: codec_with_def)
  then obtain hp1 h1 where one: "run_events [Header_field f, Header_value v] (hp, ?c) =
      Some (hp1, codec_with c (m\<lparr>headers := h1\<rparr>) ON_HEADERVALUE (es @ [Header_field f, Header_value v]))"
    and h1: "state_ok (hp1, h1)" "entries hp1 h1 = entries hp (headers m) @ [new_entry f (range_text v)]"
    "length (codes h1) = length (codes (headers m)) + 1"
    using header_event_pair [of f v hp m ?c] Cons.prems x by (auto simp: codec_with_with)
  let ?m1 = "m\<lparr>headers := h1\<rparr>"
  have "list_all plain_header hs" "state_ok (hp1, headers ?m1)" "length (codes (headers ?m1)) + length hs < 2 ^ 64"
    using Cons.prems h1 by simp_all
  from Cons.IH [OF this, of ON_HEADERVALUE "es @ [Header_field f, Header_value v]"] obtain hp2 h2 st' where
    hs: "run_events (header_events hs) (hp1, codec_with c ?m1 ON_HEADERVALUE (es @ [Header_field f, Header_value v])) =
      Some (hp2, codec_with c (?m1\<lparr>headers := h2\<rparr>) st' ((es @ [Header_field f, Header_value v]) @ header_events hs))"
    "state_ok (hp2, h2)" "entries hp2 h2 = entries hp1 h1 @ header_entries hs" by auto
  have ev: "header_events (x # hs) = [Header_field f, Header_value v] @ header_events hs" by (simp add: x)
  have "run_events (header_events (x # hs)) (hp, ?c) =
      Some (hp2, codec_with c (m\<lparr>headers := h2\<rparr>) st' (es @ header_events (x # hs)))"
    unfolding ev run_events_append one using hs(1) by simp
  moreover have "entries hp2 h2 = entries hp (headers m) @ header_entries (x # hs)"
    using hs(3) h1(2) by (simp add: x header_entries_def)
  ultimately show ?case using hs(2) by blast
qed

lemma sample_plain_header: "plain_header (''X-A'', range_of_string ''1'')"
proof -
  have "length (header_name HTTP_HEADER_COOKIE) \<noteq> 3 \<or> header_name HTTP_HEADER_COOKIE \<noteq> ''X-A''"
    by code_simp
  then have "header_name HTTP_HEADER_COOKIE \<noteq> ''X-A''" by auto
  then show ?thesis
    using range_of_string_ok(1) [of "''1''"] by (auto simp: plain_header_def string_ok_def)
qed

lemma plain_events_ok:
  assumes "k = Status \<or> k = Body"
  shows "\<exists>st'. run_events (map k bs) (hp, codec_with c m st es) = Some (hp, codec_with c m st' (es @ map k bs))"
proof (induction bs arbitrary: st es)
  case (Cons b bs)
  have "\<exists>st1. wrapper_callback (k b) (hp, codec_with c m st es) = Some (hp, codec_with c m st1 (es @ [k b]))"
    using assms by (cases c) (auto simp: wrapper_callback_def onStatus_def onBody_def notify_def codec_with_def forwarded_def)
  then obtain st1 where one: "wrapper_callback (k b) (hp, codec_with c m st es) = Some (hp, codec_with c m st1 (es @ [k b]))" ..
  then show ?case using Cons.IH [of st1 "es @ [k b]"] by simp
qed auto

text \<open>
  A message whose callbacks come one for each header field and value, none of them a cookie: the codec ends with a
  new message that has exactly these headers in order and the version of the parser, in the state
  \<open>ON_MESSAGE_COMPLETE\<close>; the user's callback object has been called for each of the callbacks, in order.
\<close>

theorem codec_builds_message:
  assumes "heap_ok hp" and "list_all plain_header hs" and "length hs < 2 ^ 64" and "maj < 256" and "mnr < 256"
    and "es = Message_begin # map Status ss @ header_events hs @ Headers_complete maj mnr # map Body bs @ [Message_complete]"
  shows "\<exists>hp' c' m'. run_events es (hp, setCallback cb new_codec) = Some (hp', c') \<and>
    codec_message c' = Some m' \<and> headers_wf hp' (headers m') \<and> entries hp' (headers m') = header_entries hs \<and>
    version m' = (maj, mnr) \<and> codec_state c' = ON_MESSAGE_COMPLETE \<and>
    callbacks c' = (if cb then es else [])"
proof -
  let ?c = "setCallback cb new_codec"
  let ?e1 = "Message_begin # map Status ss"
  let ?e2 = "?e1 @ header_events hs"
  let ?e3 = "?e2 @ [Headers_complete maj mnr]"
  have new: "state_ok (hp, headers new_message)" "codes (headers new_message) = []" "entries hp (headers new_message) = []"
    using assms(1) by (simp_all add: state_ok_def new_message_def headers_wf_def new_headers_def entries_def)
  have "wrapper_callback Message_begin (hp, ?c) = Some (hp, codec_with ?c new_message ON_MESSAGEBEGIN [Message_begin])"
    by (simp add: wrapper_callback_def onMessageBegin_def setCallback_def new_codec_def notify_def codec_with_def
        forwarded_def)
  then obtain st1 where first: "run_events ?e1 (hp, ?c) = Some (hp, codec_with ?c new_message st1 ?e1)"
    using plain_events_ok [of Status ss hp ?c new_message ON_MESSAGEBEGIN "[Message_begin]"] by auto
  obtain hp1 h1 st2 where hs: "run_events (header_events hs) (hp, codec_with ?c new_message st1 ?e1) =
      Some (hp1, codec_with ?c (new_message\<lparr>headers := h1\<rparr>) st2 ?e2)"
    and h1: "state_ok (hp1, h1)" "entries hp1 h1 = header_entries hs"
    using header_events_ok [OF assms(2) new(1), of ?c st1 ?e1] new assms(3) by auto
  let ?m = "setHttpVersion maj mnr (new_message\<lparr>headers := h1\<rparr>)"
  have "wrapper_callback (Headers_complete maj mnr) (hp1, codec_with ?c (new_message\<lparr>headers := h1\<rparr>) st2 ?e2) =
      Some (hp1, codec_with ?c ?m ON_HEADERS_COMPLETE ?e3)"
    using assms(4,5) by (simp add: wrapper_callback_def onHeadersComplete_def notify_def codec_with_def forwarded_def)
  moreover obtain st3 where "run_events (map Body bs) (hp1, codec_with ?c ?m ON_HEADERS_COMPLETE ?e3) =
      Some (hp1, codec_with ?c ?m st3 (?e3 @ map Body bs))"
    using plain_events_ok [of Body bs hp1 ?c ?m ON_HEADERS_COMPLETE ?e3] by auto
  moreover have "wrapper_callback Message_complete (hp1, codec_with ?c ?m st3 (?e3 @ map Body bs)) =
      Some (hp1, codec_with ?c ?m ON_MESSAGE_COMPLETE (?e3 @ map Body bs @ [Message_complete]))" for st3
    by (simp add: wrapper_callback_def onMessageComplete_def notify_def codec_with_def forwarded_def)
  ultimately have "run_events (Headers_complete maj mnr # map Body bs @ [Message_complete])
      (hp1, codec_with ?c (new_message\<lparr>headers := h1\<rparr>) st2 ?e2) =
      Some (hp1, codec_with ?c ?m ON_MESSAGE_COMPLETE (?e3 @ map Body bs @ [Message_complete]))"
    by (simp add: run_events_append)
  moreover have es: "es = ?e1 @ header_events hs @ Headers_complete maj mnr # map Body bs @ [Message_complete]"
    using assms(6) by simp
  ultimately have "run_events es (hp, ?c) = Some (hp1, codec_with ?c ?m ON_MESSAGE_COMPLETE es)"
    unfolding es run_events_append [of ?e1] run_events_append [of "header_events hs"] first using hs by simp
  then show ?thesis
    using h1 by (simp add: codec_with_def forwarded_def setCallback_def new_codec_def setHttpVersion_def state_ok_def)
qed

theorem codec_builds_message_witness:
  "\<exists>hp' c' m'. run_events [Message_begin, Status ''OK'', Header_field ''X-A'', Header_value (range_of_string ''1''),
        Headers_complete 1 1, Body ''x'', Message_complete] (empty_heap, setCallback True new_codec) = Some (hp', c') \<and>
     codec_message c' = Some m' \<and> entries hp' (headers m') = [new_entry ''X-A'' ''1'']"
proof -
  have "heap_ok empty_heap" by (simp add: heap_ok_def empty_heap_def)
  then show ?thesis
    using codec_builds_message [of empty_heap "[(''X-A'', range_of_string ''1'')]" 1 1 _ "[''OK'']" "[''x'']" True,
        OF _ _ _ _ _ refl] sample_plain_header
      range_of_string_ok(2) [of "''1''"]
    by (fastforce simp: header_entries_def)
qed

text \<open>
  The parser gives a header field in two callbacks when it is split between two buffers: the second one fails the
  assertion of \<open>onHeaderField\<close>.
\<close>

lemma split_field_aborts:
  "f \<noteq> [] \<Longrightarrow> currentHeaderFiled c = [] \<Longrightarrow> run_events [Header_field f, Header_field g] (hp, c) = None"
  by (simp add: wrapper_callback_def onHeaderField_def notify_def)

text \<open>The second part of a header value is dropped.\<close>

lemma split_value_dropped:
  assumes "range_ok v" and "codec_message c = Some m" and "currentHeaderFiled c = []"
  shows "\<exists>c'. wrapper_callback (Header_value v) (hp, c) = Some (hp, c') \<and> codec_message c' = Some m"
proof -
  have "header_name HTTP_HEADER_COOKIE \<noteq> []" by code_simp
  moreover have "range_size (range_of_string []) = 0" by (simp add: range_of_string_def range_size_def)
  ultimately show ?thesis
    using assms getPointer_law [of HTTP_HEADER_COOKIE]
    by (simp add: wrapper_callback_def onHeaderValue_def addHeader_piece_def add_to_headers_def add_piece_def notify_def)
qed

end
