(* ===== verification/Url_Parser.thy ===== *)
theory Url_Parser
  imports Http_Message
begin

text \<open>
  \<open>URLParser\<close> of \<open>src/http/http_parser/URLParser.cpp\<close> and \<open>.h\<close>. \<open>http_parser_parse_url\<close> is a parameter: for a text it gives its
  result and the offsets and lengths of the parts. An exception of \<open>sub_string\<close> is \<open>None\<close>.
\<close>

record http_parser_url =
  schema_part :: "nat \<times> nat"
  host_part :: "nat \<times> nat"
  path_part :: "nat \<times> nat"
  query_part :: "nat \<times> nat"
  url_port :: nat

type_synonym parse_url = "bytes \<Rightarrow> int \<times> http_parser_url"

record URLParser =
  whole_url :: Range
  scheme :: Range
  host :: Range
  url_path :: Range
  query :: Range
  port :: nat
  valid :: bool
  initilized :: bool

definition new_url_parser :: URLParser where
  "new_url_parser = \<lparr>whole_url = null_range, scheme = null_range, host = null_range, url_path = null_range,
     query = null_range, port = 0, valid = False, initilized = False\<rparr>"

definition isalpha :: "char \<Rightarrow> bool" where
  "isalpha c \<longleftrightarrow> (65 \<le> (of_char c :: nat) \<and> (of_char c :: nat) \<le> 90) \<or> (97 \<le> (of_char c :: nat) \<and> (of_char c :: nat) \<le> 122)"

definition validateScheme :: "Range \<Rightarrow> bool option" where
  "validateScheme u = do {
     schemeEnd \<leftarrow> find_range u (range_of_string ''://'');
     if schemeEnd = - 1 then Some False
     else do {
       s \<leftarrow> sub_piece u 0 schemeEnd;
       t \<leftarrow> range_read s;
       Some (list_all isalpha t)
     }
   }"

definition url_piece :: "Range \<Rightarrow> nat \<times> nat \<Rightarrow> Range option" where
  "url_piece u fl = sub_piece u (int (fst fl)) (int (snd fl))"

definition parse_url_text :: "parse_url \<Rightarrow> URLParser \<Rightarrow> URLParser option" where
  "parse_url_text pu p = do {
     ok \<leftarrow> validateScheme (whole_url p);
     if \<not> ok then Some p
     else do {
       t \<leftarrow> range_read (whole_url p);
       let (ret, u) = pu t;
       let p1 = p\<lparr>valid := (ret = 0)\<rparr>;
       if ret \<noteq> 0 then Some p1
       else do {
         s \<leftarrow> url_piece (whole_url p) (schema_part u);
         h \<leftarrow> url_piece (whole_url p) (host_part u);
         pt \<leftarrow> url_piece (whole_url p) (path_part u);
         q \<leftarrow> url_piece (whole_url p) (query_part u);
         Some (p1\<lparr>scheme := s, host := h, port := url_port u, url_path := pt, query := q\<rparr>)
       }
     }
   }"

definition init_url :: "parse_url \<Rightarrow> Range \<Rightarrow> URLParser \<Rightarrow> URLParser option" where
  "init_url pu urlVal p =
     (if initilized p then Some p
      else do { p1 \<leftarrow> parse_url_text pu (p\<lparr>whole_url := urlVal\<rparr>); Some (p1\<lparr>initilized := True\<rparr>) })"

definition reset_url :: "parse_url \<Rightarrow> Range \<Rightarrow> URLParser \<Rightarrow> URLParser option" where
  "reset_url pu u p = do { p1 \<leftarrow> parse_url_text pu (p\<lparr>whole_url := u\<rparr>); Some (p1\<lparr>initilized := True\<rparr>) }"

definition is_https :: "URLParser \<Rightarrow> bool option" where
  "is_https p = range_eq (scheme p) (range_of_string ''https'')"

subsection \<open>Lemmas\<close>

lemma scheme_search:
  assumes "length t < 2147483648"
  shows "\<exists>r. kmp_search_len (Some t) (Some ''://'') = Some r \<and> first_occurrence ''://'' t r"
proof -
  have "build_search_table ''://'' (length ''://'') = Some [- 1, 0, 0]" by code_simp
  then show ?thesis
    using kmp_table.search_finds_first [OF _ _ assms _ exact_table_scheme_separator] assms
    by (cases "t = []") (auto simp: kmp_search_len_def first_occurrence_def occurs_at_def kmp_search_len_bind)
qed

lemma find_scheme:
  assumes "length s + 1 < 2 ^ 31"
  shows "\<exists>r. find_range (range_of_string s) (range_of_string ''://'') = Some r \<and> first_occurrence ''://'' s r"
proof -
  have "range_read (range_of_string s) = Some s" "range_read (range_of_string ''://'') = Some ''://''"
    using range_read_ok [OF range_of_string_ok(1)] range_of_string_ok(2) assms by simp_all
  then show ?thesis using scheme_search [of s] assms by (simp add: find_range_def)
qed

lemma occurs_split: "occurs_at p t q \<Longrightarrow> t = take q t @ p @ drop (q + length p) t"
proof -
  assume "occurs_at p t q"
  then have "drop q t = p @ drop (length p) (drop q t)" by (metis occurs_at_def append_take_drop_id)
  then show ?thesis by (metis append_take_drop_id drop_drop add.commute)
qed

text \<open>\<open>validateScheme\<close> is true exactly when the text begins with letters followed by a colon and two slashes.\<close>

lemma validate_scheme_ok:
  assumes "length s + 1 < 2 ^ 31"
  shows "validateScheme (range_of_string s) = Some (\<exists>a b. s = a @ ''://'' @ b \<and> list_all isalpha a)"
proof -
  obtain r where r: "find_range (range_of_string s) (range_of_string ''://'') = Some r" "first_occurrence ''://'' s r"
    using find_scheme [OF assms] by blast
  have colon: "\<not> isalpha (CHR '':'')" by (simp add: isalpha_def)
  have occ: "occurs_at ''://'' s (length a)" if "s = a @ ''://'' @ b" for a b using that by (simp add: occurs_at_def)
  show ?thesis
  proof (cases "r = - 1")
    case True
    then show ?thesis using r occ by (auto simp: validateScheme_def first_occurrence_def)
  next
    case False
    then have r0: "0 \<le> r" "occurs_at ''://'' s (nat r)" "\<forall>q < nat r. \<not> occurs_at ''://'' s q"
      using r(2) by (simp_all add: first_occurrence_def)
    define a where "a = take (nat r) s"
    have s: "s = a @ ''://'' @ drop (nat r + 3) s" "length a = nat r"
      using occurs_split [OF r0(2)] r0(2) by (simp_all add: a_def occurs_at_def numeral_3_eq_3)
    have blk: "length s \<le> length (cstr s)" "length (cstr s) < 2 ^ 31" using assms by (simp_all add: cstr_def)
    have le: "nat r \<le> length s" using s by (metis le_add1 length_append)
    have "sub_piece (range_of_string s) 0 r = Some (piece (cstr s) 0 (nat r))"
      using r0(1) le piece_ok(3) [OF _ blk] blk assms
      by (simp add: range_of_string_piece sub_piece_def sub_string_def u64_int_def range_len_def min_def)
        (simp add: piece_def)
    moreover have "range_read (piece (cstr s) 0 (nat r)) = Some a"
      using piece_ok(1,2) [of 0 "nat r" "cstr s"] range_read_ok le blk by (simp add: a_def cstr_def)
    moreover have "list_all isalpha a \<longleftrightarrow> (\<exists>a b. s = a @ ''://'' @ b \<and> list_all isalpha a)"
    proof
      assume "\<exists>a b. s = a @ ''://'' @ b \<and> list_all isalpha a"
      then obtain a' b' where a': "s = a' @ ''://'' @ b'" "list_all isalpha a'" by blast
      then have "nat r \<le> length a'" using r0(3) occ not_less by blast
      then have "a = take (nat r) a'" using a'(1) by (simp add: a_def)
      then show "list_all isalpha a" using a'(2) by (metis append_take_drop_id list_all_append)
    qed (use s in blast)
    ultimately show ?thesis using r False by (simp add: validateScheme_def)
  qed
qed

text \<open>A URL without a scheme leaves the parts of the URL before and its validity as they were.\<close>

lemma reset_keeps_old_parts:
  assumes "length s + 1 < 2 ^ 31" and "\<nexists>a b. s = a @ ''://'' @ b"
  shows "reset_url pu (range_of_string s) p = Some (p\<lparr>whole_url := range_of_string s, initilized := True\<rparr>)"
  using validate_scheme_ok [OF assms(1)] assms(2) by (auto simp: reset_url_def parse_url_text_def)

end
