(* ===== verification/Reactor_Facade.thy ===== *)
theory Reactor_Facade
  imports Connection Epoll_Reactor Poll_Reactor
begin

text \<open>
  The class \<open>Reactor\<close> (\<open>src/reactor/reactor.h\<close>), which every other part calls, in front of an implementation, and
  \<open>EventFD\<close> (\<open>src/reactor/EventFD.cpp\<close>), by which another thread wakes a reactor that waits. The virtual functions of
  \<open>reactor_implementation\<close> are the record \<open>reactor_ops\<close>; what the facade relies on of them is the locale
  \<open>reactor_implementation\<close>, interpreted on the epoll and the poll reactor here and on the file reactor in \<open>File_Reactor\<close>. A turn of
  the implementation acts on the whole reactor, because the handlers it calls may call the reactor again.
\<close>

subsection \<open>State\<close>

text \<open>\<open>fd_written\<close> is what has been written to the eventfd.\<close>

record EventFD =
  event_fd :: int
  fd_handler :: "connection option"
  fd_written :: bytes

definition RUNNING :: nat where "RUNNING = 1"
definition SUSPENDED :: nat where "SUSPENDED = 2"
definition SUSPENDING :: nat where "SUSPENDING = 3"

lemmas status_defs = RUNNING_def SUSPENDED_def SUSPENDING_def

text \<open>\<open>registered_handlers\<close> are the handlers whose \<open>isRegistered_\<close> is true.\<close>

record 'i Reactor =
  reactor_impl :: 'i
  reactor_status :: nat
  eventFd :: "EventFD option"
  registered_handlers :: "handler set"

record 'i reactor_ops =
  op_register_timeout :: "handler option \<Rightarrow> event_type \<Rightarrow> 'i \<Rightarrow> (int \<times> 'i) option"
  op_register :: "int \<Rightarrow> handler option \<Rightarrow> event_type \<Rightarrow> 'i \<Rightarrow> (int \<times> 'i) option"
  op_unregister_timeout :: "handler option \<Rightarrow> event_type \<Rightarrow> 'i \<Rightarrow> (int \<times> 'i) option"
  op_unregister :: "int \<Rightarrow> handler option \<Rightarrow> event_type \<Rightarrow> 'i \<Rightarrow> (int \<times> 'i) option"
  op_handle_events :: "int option \<Rightarrow> 'i Reactor \<Rightarrow> (int \<times> 'i Reactor) option"
  op_isWaiting :: "'i \<Rightarrow> bool"

subsection \<open>\<open>EventFD\<close>\<close>

definition new_EventFD :: "int \<Rightarrow> EventFD" where
  "new_EventFD eventfd_ans =
     \<lparr>event_fd = (if eventfd_ans < 0 then - 1 else eventfd_ans), fd_handler = None, fd_written = []\<rparr>"

text \<open>\<open>InetSockStream::write\<close>: the result and the bytes that the kernel takes, at most as many as its answer says.\<close>

definition stream_write :: "sock_stream \<Rightarrow> bytes \<Rightarrow> int \<Rightarrow> (int \<times> bytes) option" where
  "stream_write st d ans = do {
     s \<leftarrow> st;
     if fd_no s = INVALID_HANDLE \<or> \<not> can_write s then Some (0, [])
     else Some (min ans (int (length d)), take (nat ans) d)
   }"

text \<open>\<open>wr\<close> is the answer of \<open>::write\<close>, 8 or \<open>-1\<close> when the counter of the eventfd is full.\<close>

definition eventfd_wakeup :: "int \<Rightarrow> EventFD \<Rightarrow> EventFD option" where
  "eventfd_wakeup wr e =
     (case fd_handler e of
        None \<Rightarrow> Some e
      | Some c \<Rightarrow> do {
          c1 \<leftarrow> clear_input_buffer c;
          st \<leftarrow> stream c1;
          (_, d) \<leftarrow> stream_write st (int64_bytes 1) wr;
          Some (e\<lparr>fd_handler := Some c1, fd_written := fd_written e @ d\<rparr>)
        })"

subsection \<open>\<open>Reactor\<close>\<close>

definition wakeup :: "int \<Rightarrow> 'i Reactor \<Rightarrow> 'i Reactor option" where
  "wakeup wr r = do {
     e \<leftarrow> eventFd r;
     e1 \<leftarrow> eventfd_wakeup wr e;
     Some (r\<lparr>eventFd := Some e1\<rparr>)
   }"

text \<open>\<open>if (ret == 0) handler->isRegistered_ = b\<close>\<close>

definition mark_registered :: "bool \<Rightarrow> int \<Rightarrow> handler option \<Rightarrow> 'i Reactor \<Rightarrow> 'i Reactor option" where
  "mark_registered b ret h r =
     (if ret \<noteq> 0 then Some r
      else do {
        x \<leftarrow> h;
        Some (r\<lparr>registered_handlers := (if b then insert x (registered_handlers r) else registered_handlers r - {x})\<rparr>)
      })"

definition Reactor_register_timeout ::
  "'i reactor_ops \<Rightarrow> handler option \<Rightarrow> event_type \<Rightarrow> 'i Reactor \<Rightarrow> (int \<times> 'i Reactor) option" where
  "Reactor_register_timeout ops h type r = do {
     (ret, i) \<leftarrow> op_register_timeout ops h type (reactor_impl r);
     r1 \<leftarrow> mark_registered True ret h (r\<lparr>reactor_impl := i\<rparr>);
     Some (ret, r1)
   }"

text \<open>For the write event of the eventfd the implementation is called a second time.\<close>

definition Reactor_register ::
  "int \<Rightarrow> 'i reactor_ops \<Rightarrow> int \<Rightarrow> handler option \<Rightarrow> event_type \<Rightarrow> 'i Reactor \<Rightarrow> (int \<times> 'i Reactor) option" where
  "Reactor_register wr ops handle h type r = do {
     (ret, i) \<leftarrow> op_register ops handle h type (reactor_impl r);
     r1 \<leftarrow> mark_registered True ret h (r\<lparr>reactor_impl := i\<rparr>);
     case eventFd r1 of
       None \<Rightarrow> Some (ret, r1)
     | Some e \<Rightarrow> do {
         r2 \<leftarrow> (if handle = event_fd e \<and> type = WRITE_EVENT then do {
                 (ret2, i2) \<leftarrow> op_register ops handle h type (reactor_impl r1);
                 let r1 = r1\<lparr>reactor_impl := i2\<rparr>;
                 if ret2 = - 1 \<and> op_isWaiting ops i2 then wakeup wr r1 else Some r1
               } else Some r1);
         r3 \<leftarrow> (if handle \<noteq> event_fd e \<and> op_isWaiting ops (reactor_impl r2) then wakeup wr r2 else Some r2);
         Some (ret, r3)
       }
   }"

definition Reactor_unregister_timeout ::
  "'i reactor_ops \<Rightarrow> handler option \<Rightarrow> event_type \<Rightarrow> 'i Reactor \<Rightarrow> (int \<times> 'i Reactor) option" where
  "Reactor_unregister_timeout ops h type r = do {
     (ret, i) \<leftarrow> op_unregister_timeout ops h type (reactor_impl r);
     r1 \<leftarrow> mark_registered False ret h (r\<lparr>reactor_impl := i\<rparr>);
     Some (ret, r1)
   }"

definition Reactor_unregister ::
  "'i reactor_ops \<Rightarrow> int \<Rightarrow> handler option \<Rightarrow> event_type \<Rightarrow> 'i Reactor \<Rightarrow> (int \<times> 'i Reactor) option" where
  "Reactor_unregister ops handle h type r = do {
     (ret, i) \<leftarrow> op_unregister ops handle h type (reactor_impl r);
     r1 \<leftarrow> mark_registered False ret h (r\<lparr>reactor_impl := i\<rparr>);
     Some (ret, r1)
   }"

definition Reactor_handle_events ::
  "'i reactor_ops \<Rightarrow> int option \<Rightarrow> 'i Reactor \<Rightarrow> (int \<times> 'i Reactor) option" where
  "Reactor_handle_events ops timeout r =
     (if reactor_status r = SUSPENDING then Some (- 1, r\<lparr>reactor_status := SUSPENDED\<rparr>)
      else op_handle_events ops timeout r)"

definition Reactor_suspend :: "int \<Rightarrow> 'i Reactor \<Rightarrow> 'i Reactor option" where
  "Reactor_suspend wr r =
     (let r1 = r\<lparr>reactor_status := SUSPENDING\<rparr> in if eventFd r1 \<noteq> None then wakeup wr r1 else Some r1)"

definition Reactor_start :: "'i Reactor \<Rightarrow> 'i Reactor" where
  "Reactor_start r = r\<lparr>reactor_status := RUNNING\<rparr>"

text \<open>
  \<open>EventFD::registerInto\<close>: the handler \<open>x\<close> of the eventfd, with empty buffers, is set on the eventfd and enabled for
  reading; the answer of its call to the reactor is that of \<open>Reactor_register\<close>.
\<close>

definition registerInto ::
  "int \<Rightarrow> 'i reactor_ops \<Rightarrow> handler \<Rightarrow> buffer \<Rightarrow> buffer \<Rightarrow> 'i Reactor \<Rightarrow> (int \<times> 'i Reactor) option" where
  "registerInto wr ops x b1 b2 r = do {
     e \<leftarrow> eventFd r;
     if event_fd e < 0 then Some (- 1, r)
     else do {
       let c = new_connection (snd (stream_set_handle 0 (event_fd e) None)) b1 b2 (\<lambda>_. 0);
       (ret, r1) \<leftarrow> Reactor_register wr ops (event_fd e) (Some x) READ_EVENT
         (r\<lparr>eventFd := Some (e\<lparr>fd_handler := Some c\<rparr>)\<rparr>);
       e1 \<leftarrow> eventFd r1;
       c1 \<leftarrow> fd_handler e1;
       (ret1, c2) \<leftarrow> enable_reading (c1\<lparr>reactor_answer := (\<lambda>_. ret)\<rparr>);
       Some (ret1, r1\<lparr>eventFd := Some (e1\<lparr>fd_handler := Some c2\<rparr>)\<rparr>)
     }
   }"

definition new_Reactor ::
  "int \<Rightarrow> 'i reactor_ops \<Rightarrow> 'i \<Rightarrow> bool \<Rightarrow> int \<Rightarrow> handler \<Rightarrow> buffer \<Rightarrow> buffer \<Rightarrow> 'i Reactor option" where
  "new_Reactor wr ops i needWakeUp eventfd_ans x b1 b2 =
     (let r = \<lparr>reactor_impl = i, reactor_status = SUSPENDED, eventFd = None, registered_handlers = {}\<rparr>
      in if needWakeUp then map_option snd (registerInto wr ops x b1 b2 (r\<lparr>eventFd := Some (new_EventFD eventfd_ans)\<rparr>))
         else Some r)"


text \<open>
  \<open>EventFD::unregister\<close>, which the destructor calls too: the handler is closed, and its calls to the reactor are made
  in their order.
\<close>

fun perform_calls :: "int \<Rightarrow> 'i reactor_ops \<Rightarrow> handler \<Rightarrow> reactor_call list \<Rightarrow> 'i Reactor \<Rightarrow> 'i Reactor option" where
  "perform_calls wr ops x [] r = Some r"
| "perform_calls wr ops x (Register h e # cs) r = do {
     (_, r1) \<leftarrow> Reactor_register wr ops h (Some x) e r;
     perform_calls wr ops x cs r1
   }"
| "perform_calls wr ops x (Unregister h e # cs) r = do {
     (_, r1) \<leftarrow> Reactor_unregister ops h (Some x) e r;
     perform_calls wr ops x cs r1
   }"

definition eventfd_unregister :: "int \<Rightarrow> 'i reactor_ops \<Rightarrow> handler \<Rightarrow> int \<Rightarrow> 'i Reactor \<Rightarrow> 'i Reactor option" where
  "eventfd_unregister wr ops x ans r = do {
     e \<leftarrow> eventFd r;
     if event_fd e < 0 then Some r
     else do {
       c \<leftarrow> fd_handler e;
       (_, c1) \<leftarrow> close_connection ans c;
       r1 \<leftarrow> perform_calls wr ops x (drop (length (reactor_calls c)) (reactor_calls c1)) r;
       e1 \<leftarrow> eventFd r1;
       Some (r1\<lparr>eventFd := Some (e1\<lparr>fd_handler := Some c1\<rparr>)\<rparr>)
     }
   }"

subsection \<open>Waking up\<close>

text \<open>An eventfd whose handler sits on it and whose buffer is well formed.\<close>

definition fd_ready :: "EventFD \<Rightarrow> bool" where
  "fd_ready e \<longleftrightarrow> 0 \<le> event_fd e \<and>
     (case fd_handler e of
        None \<Rightarrow> False
      | Some c \<Rightarrow> buffer_wf (input_buffer c) \<and>
          (case stream c of Some (Some s) \<Rightarrow> fd_no s = event_fd e \<and> can_write s \<and> can_read s | _ \<Rightarrow> False))"

lemma fd_readyE:
  assumes "fd_ready e"
  obtains c s where "fd_handler e = Some c" "stream c = Some (Some s)" "fd_no s = event_fd e" "can_write s" "can_read s"
    "buffer_wf (input_buffer c)" "0 \<le> event_fd e"
  using assms by (auto simp: fd_ready_def split: option.splits)

lemma clear_input_buffer_ok:
  assumes "buffer_wf (input_buffer c)"
  shows "\<exists>b. clear_input_buffer c = Some (c\<lparr>input_buffer := b\<rparr>) \<and> buffer_wf b \<and>
    contents b = drop 1 (contents (input_buffer c))"
proof (cases "contents (input_buffer c) = []")
  case True
  then show ?thesis
    using assms remove_refused [OF assms, of 1]
    by (intro exI [where x = "input_buffer c"]) (simp add: clear_input_buffer_def drain_def)
next
  case False
  then have "1 \<le> length (contents (input_buffer c))" by (cases "contents (input_buffer c)") simp_all
  then show ?thesis using drain_correct [OF assms, of 1] by (auto simp: clear_input_buffer_def)
qed

lemma eventfd_wakeup_ok:
  assumes "fd_ready e"
  shows "\<exists>c b. fd_handler e = Some c \<and> contents b = drop 1 (contents (input_buffer c)) \<and>
    eventfd_wakeup 8 e = Some (e\<lparr>fd_handler := Some (c\<lparr>input_buffer := b\<rparr>), fd_written := fd_written e @ int64_bytes 1\<rparr>) \<and>
    fd_ready (e\<lparr>fd_handler := Some (c\<lparr>input_buffer := b\<rparr>), fd_written := fd_written e @ int64_bytes 1\<rparr>)"
proof -
  obtain c s where c: "fd_handler e = Some c" "stream c = Some (Some s)" "fd_no s = event_fd e" "can_write s" "can_read s"
    "buffer_wf (input_buffer c)" "0 \<le> event_fd e"
    using assms by (rule fd_readyE)
  obtain b where b: "clear_input_buffer c = Some (c\<lparr>input_buffer := b\<rparr>)" "buffer_wf b"
    "contents b = drop 1 (contents (input_buffer c))"
    using clear_input_buffer_ok [OF c(6)] by blast
  have "event_fd e \<noteq> INVALID_HANDLE" using c(7) by (simp add: INVALID_HANDLE_def)
  then show ?thesis
    using c b by (intro exI [where x = c] exI [where x = b])
      (simp add: eventfd_wakeup_def stream_write_def length_int64_bytes fd_ready_def)
qed

text \<open>The reactor with its eventfd written once more.\<close>

definition woken :: "'i Reactor \<Rightarrow> 'i Reactor \<Rightarrow> bool" where
  "woken r r1 \<longleftrightarrow> (\<exists>e e1. eventFd r = Some e \<and> r1 = r\<lparr>eventFd := Some e1\<rparr> \<and> fd_ready e1 \<and>
     event_fd e1 = event_fd e \<and> fd_written e1 = fd_written e @ int64_bytes 1)"

lemma woken_fields:
  assumes "woken r r1"
  shows "reactor_impl r1 = reactor_impl r" and "reactor_status r1 = reactor_status r"
    and "registered_handlers r1 = registered_handlers r"
    and "eventFd r = Some e \<Longrightarrow> \<exists>e1. eventFd r1 = Some e1 \<and> fd_ready e1 \<and> event_fd e1 = event_fd e \<and>
      fd_written e1 = fd_written e @ int64_bytes 1"
  using assms by (auto simp: woken_def)

lemma wakeup_ok:
  assumes "eventFd r = Some e" and "fd_ready e"
  shows "\<exists>r1. wakeup 8 r = Some r1 \<and> woken r r1"
proof -
  obtain e1 where "eventfd_wakeup 8 e = Some e1" "fd_ready e1" "event_fd e1 = event_fd e"
    "fd_written e1 = fd_written e @ int64_bytes 1"
    using eventfd_wakeup_ok [OF assms(2)] by fastforce
  then show ?thesis using assms(1) by (auto simp: wakeup_def woken_def)
qed


subsection \<open>What the facade relies on\<close>

definition stream_event :: "event_type \<Rightarrow> bool" where
  "stream_event e \<longleftrightarrow> e = READ_EVENT \<or> e = WRITE_EVENT"

text \<open>
  An implementation has an abstract table of the handlers that are bound. It accepts the registration of a free event,
  refuses that of a bound one without any effect, and gives an event free when its handler is unregistered.
\<close>

locale reactor_implementation =
  fixes ops :: "'i reactor_ops" and inv :: "'i \<Rightarrow> bool" and table :: "'i \<Rightarrow> int \<Rightarrow> event_type \<Rightarrow> handler option"
  assumes register_free: "inv i \<Longrightarrow> 0 \<le> h \<Longrightarrow> h < 2147483644 \<Longrightarrow> stream_event e \<Longrightarrow> table i h e = None \<Longrightarrow>
      \<exists>i'. op_register ops h (Some x) e i = Some (0, i') \<and> inv i' \<and> op_isWaiting ops i' = op_isWaiting ops i \<and>
        (\<forall>h' e'. table i' h' e' = (if h' = h \<and> e' = e then Some x else table i h' e'))"
    and register_bound: "inv i \<Longrightarrow> 0 \<le> h \<Longrightarrow> h < 2147483644 \<Longrightarrow> stream_event e \<Longrightarrow> table i h e \<noteq> None \<Longrightarrow>
      op_register ops h (Some x) e i = Some (- 1, i)"
    and unregister_bound: "inv i \<Longrightarrow> 0 \<le> h \<Longrightarrow> h < 2147483644 \<Longrightarrow> stream_event e \<Longrightarrow> table i h e = Some x \<Longrightarrow>
      \<exists>i'. op_unregister ops h (Some x) e i = Some (0, i') \<and> inv i' \<and>
        (\<forall>h' e'. table i' h' e' = (if h' = h \<and> e' = e then None else table i h' e'))"
begin

text \<open>
  A registration through the facade binds the handler and marks it; a reactor that waits is woken once, except by
  the read event of its own eventfd.
\<close>

theorem facade_register:
  assumes "inv (reactor_impl r)" and "0 \<le> h" and "h < 2147483644" and "stream_event e"
    and "table (reactor_impl r) h e = None" and "eventFd r = Some ev" and "fd_ready ev"
  shows "\<exists>r1 r2. Reactor_register 8 ops h (Some x) e r = Some (0, r2) \<and>
    (if op_isWaiting ops (reactor_impl r) \<and> (h \<noteq> event_fd ev \<or> e = WRITE_EVENT) then woken r1 r2 else r2 = r1) \<and>
    registered_handlers r1 = insert x (registered_handlers r) \<and> eventFd r1 = Some ev \<and>
    reactor_status r1 = reactor_status r \<and> inv (reactor_impl r2) \<and>
    op_isWaiting ops (reactor_impl r2) = op_isWaiting ops (reactor_impl r) \<and>
    op_register ops h (Some x) e (reactor_impl r) = Some (0, reactor_impl r2) \<and>
    (\<forall>h' e'. table (reactor_impl r2) h' e' = (if h' = h \<and> e' = e then Some x else table (reactor_impl r) h' e'))"
proof -
  obtain i where i: "op_register ops h (Some x) e (reactor_impl r) = Some (0, i)" "inv i"
    "op_isWaiting ops i = op_isWaiting ops (reactor_impl r)"
    "\<And>h' e'. table i h' e' = (if h' = h \<and> e' = e then Some x else table (reactor_impl r) h' e')"
    using register_free [OF assms(1-5), of x] by blast
  define r1 where "r1 = r\<lparr>reactor_impl := i, registered_handlers := insert x (registered_handlers r)\<rparr>"
  have r1: "mark_registered True 0 (Some x) (r\<lparr>reactor_impl := i\<rparr>) = Some r1" "eventFd r1 = Some ev"
    "reactor_impl r1 = i" "r1\<lparr>reactor_impl := i\<rparr> = r1"
    using assms(6) by (simp_all add: r1_def mark_registered_def)
  have again: "op_register ops h (Some x) e i = Some (- 1, i)"
    by (rule register_bound [OF i(2) assms(2-4)]) (simp add: i(4))
  obtain r2 where r2: "wakeup 8 r1 = Some r2" "woken r1 r2"
    using wakeup_ok [OF r1(2) assms(7)] by blast
  then have impl: "reactor_impl r2 = i" using r1(3) by (auto simp: woken_def)
  show ?thesis
  proof (cases "op_isWaiting ops (reactor_impl r) \<and> (h \<noteq> event_fd ev \<or> e = WRITE_EVENT)")
    case True
    have "Reactor_register 8 ops h (Some x) e r = Some (0, r2)"
      using True i(1,3) again r1 r2(1) by (auto simp: Reactor_register_def)
    then show ?thesis using True r2(2) i impl r1(2) by (intro exI [where x = r1] exI [where x = r2]) (simp add: r1_def)
  next
    case False
    have "Reactor_register 8 ops h (Some x) e r = Some (0, r1)"
      using False i(1,3) again r1 by (auto simp: Reactor_register_def)
    then show ?thesis using False i r1(2) by (intro exI [where x = r1]) (auto simp: r1_def)
  qed
qed

text \<open>Registering and unregistering restores the table and clears the mark.\<close>

theorem facade_round_trip:
  assumes "inv (reactor_impl r)" and "0 \<le> h" and "h < 2147483644" and "stream_event e"
    and "table (reactor_impl r) h e = None" and "eventFd r = Some ev" and "fd_ready ev"
  shows "\<exists>r1 r2. Reactor_register 8 ops h (Some x) e r = Some (0, r1) \<and>
    Reactor_unregister ops h (Some x) e r1 = Some (0, r2) \<and> inv (reactor_impl r2) \<and>
    table (reactor_impl r2) = table (reactor_impl r) \<and> registered_handlers r2 = registered_handlers r - {x}"
proof -
  obtain r0 r1 where r1: "Reactor_register 8 ops h (Some x) e r = Some (0, r1)"
    "(if op_isWaiting ops (reactor_impl r) \<and> (h \<noteq> event_fd ev \<or> e = WRITE_EVENT) then woken r0 r1 else r1 = r0)"
    "registered_handlers r0 = insert x (registered_handlers r)"
    "inv (reactor_impl r1)"
    "\<And>h' e'. table (reactor_impl r1) h' e' = (if h' = h \<and> e' = e then Some x else table (reactor_impl r) h' e')"
    using facade_register [OF assms, of x] by blast
  have reg: "registered_handlers r1 = insert x (registered_handlers r)"
    using r1(2,3) woken_fields(3) [of r0 r1] by (metis (full_types))
  obtain i where i: "op_unregister ops h (Some x) e (reactor_impl r1) = Some (0, i)" "inv i"
    "\<And>h' e'. table i h' e' = (if h' = h \<and> e' = e then None else table (reactor_impl r1) h' e')"
    using unregister_bound [OF r1(4) assms(2-4), of x] r1(5) by auto
  have "table i = table (reactor_impl r)" using i(3) r1(5) assms(5) by (intro ext) auto
  then show ?thesis using r1(1) i(1,2) reg by (simp add: Reactor_unregister_def mark_registered_def)
qed

end


subsection \<open>The epoll reactor behind the facade\<close>

text \<open>
  The functions of \<open>epoll_reactor_impl\<close>; it never sets \<open>isWaiting_\<close>. The callbacks, the answers of \<open>epoll_wait\<close> and
  the time are parameters.
\<close>

definition epoll_ops ::
  "(handler \<Rightarrow> int option) \<Rightarrow> 'k epoll_ctl \<Rightarrow> ('k, 'w) callbacks \<Rightarrow> ('k \<Rightarrow> int \<Rightarrow> int \<Rightarrow> wait_answer) \<Rightarrow> int \<Rightarrow>
   ('k, 'w) epoll_reactor reactor_ops" where
  "epoll_ops ex ctl cb wait now =
     \<lparr>op_register_timeout = (\<lambda>h type i. Some (register_timeout ex h type i)),
      op_register = (\<lambda>handle h type i. Some (register_handler ex ctl handle h type i)),
      op_unregister_timeout = unregister_timeout ex,
      op_unregister = unregister_handler ex ctl,
      op_handle_events = (\<lambda>timeout r. do {
        (ret, i) \<leftarrow> handle_events cb wait now timeout (reactor_impl r);
        Some (ret, r\<lparr>reactor_impl := i\<rparr>)
      }),
      op_isWaiting = (\<lambda>_. False)\<rparr>"

definition epoll_inv :: "('k \<Rightarrow> int \<Rightarrow> 32 word option) \<Rightarrow> 'k epoll_ctl \<Rightarrow> ('k, 'w) epoll_reactor \<Rightarrow> bool" where
  "epoll_inv interest ctl i \<longleftrightarrow>
     epoll_ctl_spec interest ctl \<and> epoll_ctl_accepts interest ctl \<and> coherent interest i"

lemma stream_event_io: "stream_event e \<Longrightarrow> io_event e \<and> table_event e = e \<and> e \<noteq> NONE"
  by (auto simp: stream_event_def io_defs)

lemma stream_event_valid: "stream_event e \<Longrightarrow> 0 \<le> h \<Longrightarrow> h < 2147483648 \<Longrightarrow> repo_valid h e"
  by (auto simp: stream_event_def repo_valid_def event_defs)

lemma register_handler_table:
  assumes "register_handler ex ctl h (Some x) e r = (0, r')"
  shows "demux_table r' = snd (bindNew ex (demux_table r) h e (Some x))"
  using assms by (auto simp: register_handler_def Let_def split_def split: if_splits)

lemma unregister_handler_table:
  assumes "unregister_handler ex ctl h (Some x) e r = Some (0, r')"
  shows "unbind ex (demux_table r) h e (Some x) = Some (0, demux_table r')"
  using assms by (auto simp: unregister_handler_def Let_def split_def split: if_splits bind_splits)

interpretation epoll: reactor_implementation "epoll_ops ex ctl cb wait now" "epoll_inv interest ctl"
  "\<lambda>i. repo_lookup (demux_table i)"
proof (unfold_locales, goal_cases)
  case (1 i h e x)
  have h: "h < 2147483648" using 1(3) by simp
  have e: "io_event e" "table_event e = e" using 1(4) stream_event_io by auto
  have c: "epoll_ctl_spec interest ctl" "epoll_ctl_accepts interest ctl" "coherent interest i"
    using 1(1) by (simp_all add: epoll_inv_def)
  obtain i' where i': "register_handler ex ctl h (Some x) e i = (0, i')" "coherent interest i'"
    using register_law [OF c e(1) 1(2) h, of ex x] 1(5) e(2) by auto
  have "repo_ok (demux_table i)" using c(3) by (simp add: coherent_def)
  then have "\<forall>h' e'. repo_lookup (demux_table i') h' e' =
      (if h' = h \<and> e' = e then Some x else repo_lookup (demux_table i) h' e')"
    using repo_bind_law [OF _ stream_event_valid [OF 1(4,2) h], of "demux_table i" ex x]
      register_handler_table [OF i'(1)] by auto
  then show ?case using i' c by (simp add: epoll_ops_def epoll_inv_def)
next
  case (2 i h e x)
  then show ?case
    using register_refused [of interest ctl i e h ex x] stream_event_io [of e]
    by (simp add: epoll_ops_def epoll_inv_def)
next
  case (3 i h e x)
  have h: "h < 2147483648" using 3(3) by simp
  have c: "epoll_ctl_spec interest ctl" "epoll_ctl_accepts interest ctl" "coherent interest i"
    using 3(1) by (simp_all add: epoll_inv_def)
  obtain i' where i': "unregister_handler ex ctl h (Some x) e i = Some (0, i')" "coherent interest i'"
    using unregister_law [OF c _ 3(2) h 3(5), of ex] 3(4) by (auto simp: stream_event_def)
  have ok: "repo_ok (demux_table i)" using c(3) by (simp add: coherent_def)
  have "\<forall>h' e'. repo_lookup (demux_table i') h' e' =
      (if h' = h \<and> e' = e then None else repo_lookup (demux_table i) h' e')"
    using repo_unbind_law [OF ok stream_event_valid [OF 3(4,2) h] 3(5), of ex]
      unregister_handler_table [OF i'(1)] by auto
  then show ?case using i' c by (simp add: epoll_ops_def epoll_inv_def)
qed


subsection \<open>The poll reactor behind the facade\<close>

text \<open>Another thread may register while \<open>::poll\<close> waits; \<open>is_waiting\<close> is then true.\<close>

definition poll_ops :: "'w poll_callbacks \<Rightarrow> ((int \<times> 32 word) list \<Rightarrow> int \<Rightarrow> int \<times> 32 word list) \<Rightarrow>
    'w poll_reactor reactor_ops" where
  "poll_ops cb answer =
     \<lparr>op_register_timeout = (\<lambda>h type i. Some (pr_register_timeout h type i)),
      op_register = pr_register_handler,
      op_unregister_timeout = (\<lambda>h type i. Some (pr_unregister_timeout h type i)),
      op_unregister = pr_unregister_handler,
      op_handle_events = (\<lambda>timeout r.
        let (ret, i) = pr_handle_events cb answer timeout (reactor_impl r) in Some (ret, r\<lparr>reactor_impl := i\<rparr>)),
      op_isWaiting = is_waiting\<rparr>"

lemma stream_event_poll: "stream_event e \<Longrightarrow> poll_io e"
  by (auto simp: stream_event_def poll_io_def)

lemma pr_register_table:
  assumes "pr_register_handler h (Some x) e r = Some (0, r')"
  shows "pt_bindNew (poll_demux r) h e (Some x) = Some (0, poll_demux r') \<and> is_waiting r' = is_waiting r"
  using assms by (auto simp: pr_register_handler_def Let_def split: if_splits bind_splits)

lemma pr_unregister_table:
  assumes "pr_unregister_handler h (Some x) e r = Some (0, r')"
  shows "pt_unregister (poll_demux r) h e (Some x) = Some (0, poll_demux r')"
  using assms by (auto simp: pr_unregister_handler_def pt_unregister_def Let_def split: if_splits bind_splits)

interpretation pollr: reactor_implementation "poll_ops cb answer" poll_coherent "\<lambda>i. poll_lookup (poll_demux i)"
proof (unfold_locales, goal_cases)
  case (1 i h e x)
  note e = stream_event_poll [OF 1(4)]
  obtain i' where i': "pr_register_handler h (Some x) e i = Some (0, i')" "poll_coherent i'"
    using poll_register_law [OF 1(1) e 1(2,3,5), of x] by blast
  have "poll_ok (poll_demux i)" using 1(1) by (simp add: poll_coherent_def)
  then have "\<forall>h' e'. poll_lookup (poll_demux i') h' e' =
      (if h' = h \<and> e' = e then Some x else poll_lookup (poll_demux i) h' e')"
    using poll.bind_law [OF _ poll_io_valid [OF e 1(2,3)] 1(5), of x] pr_register_table [OF i'(1)] by auto
  then show ?case using i' pr_register_table [OF i'(1)] by (simp add: poll_ops_def)
next
  case (2 i h e x)
  then show ?case using poll_register_refused [OF stream_event_poll, of e h i] by (simp add: poll_ops_def)
next
  case (3 i h e x)
  note e = stream_event_poll [OF 3(4)]
  obtain i' where i': "pr_unregister_handler h (Some x) e i = Some (0, i')" "poll_coherent i'"
    using poll_unregister_law [OF 3(1) e 3(2,3,5)] by blast
  have "poll_ok (poll_demux i)" using 3(1) by (simp add: poll_coherent_def)
  then have "\<forall>h' e'. poll_lookup (poll_demux i') h' e' =
      (if h' = h \<and> e' = e then None else poll_lookup (poll_demux i) h' e')"
    using poll.unbind_law [OF _ poll_io_valid [OF e 3(2,3)] 3(5)] pr_unregister_table [OF i'(1)] by auto
  then show ?case using i' by (simp add: poll_ops_def)
qed


subsection \<open>Registering while the reactor waits\<close>

text \<open>
  C27. A handler that another thread registers with a poll reactor for a free event is bound to it and marked as
  registered, and exactly the word 1 is written to the eventfd when the reactor waits, so that the new array is used at
  once; unregistering restores the table.
\<close>

theorem register_wakes_reactor:
  assumes "poll_coherent (reactor_impl r)" and "0 \<le> h" and "h < 2147483644" and "stream_event e"
    and "poll_lookup (poll_demux (reactor_impl r)) h e = None"
    and "eventFd r = Some ev" and "fd_ready ev" and "h \<noteq> event_fd ev"
  shows "\<exists>r1 r2 ev1. Reactor_register 8 (poll_ops cb answer) h (Some x) e r = Some (0, r1) \<and>
    poll_lookup (poll_demux (reactor_impl r1)) h e = Some x \<and> registered_handlers r1 = insert x (registered_handlers r) \<and>
    eventFd r1 = Some ev1 \<and>
    fd_written ev1 = fd_written ev @ (if is_waiting (reactor_impl r) then int64_bytes 1 else []) \<and>
    Reactor_unregister (poll_ops cb answer) h (Some x) e r1 = Some (0, r2) \<and>
    poll_lookup (poll_demux (reactor_impl r2)) = poll_lookup (poll_demux (reactor_impl r))"
proof -
  have w: "op_isWaiting (poll_ops cb answer) (reactor_impl r) = is_waiting (reactor_impl r)" by (simp add: poll_ops_def)
  obtain r0 r1 where r1: "Reactor_register 8 (poll_ops cb answer) h (Some x) e r = Some (0, r1)"
    "if is_waiting (reactor_impl r) then woken r0 r1 else r1 = r0"
    "registered_handlers r0 = insert x (registered_handlers r)" "eventFd r0 = Some ev"
    "poll_lookup (poll_demux (reactor_impl r1)) h e = Some x"
    using pollr.facade_register [OF assms(1-7), of cb answer x, unfolded w] assms(8) by (elim exE conjE) simp
  obtain r2 where r2: "Reactor_unregister (poll_ops cb answer) h (Some x) e r1 = Some (0, r2)"
    "poll_lookup (poll_demux (reactor_impl r2)) = poll_lookup (poll_demux (reactor_impl r))"
    using pollr.facade_round_trip [OF assms(1-7), of cb answer x] r1(1) by auto
  show ?thesis
  proof (cases "is_waiting (reactor_impl r)")
    case True
    then have w: "woken r0 r1" using r1(2) by simp
    show ?thesis using True r1 r2 woken_fields(3) [OF w] woken_fields(4) [OF w r1(4)] by auto
  next
    case False
    then show ?thesis using r1 r2 by auto
  qed
qed

subsection \<open>Suspending\<close>

text \<open>The turn after \<open>suspend\<close> returns \<open>-1\<close>, touches nothing else and leaves the reactor suspended.\<close>

lemma suspend_ends_turn:
  assumes "eventFd r = Some ev" and "fd_ready ev"
  shows "\<exists>r1. Reactor_suspend 8 r = Some r1 \<and> woken (r\<lparr>reactor_status := SUSPENDING\<rparr>) r1 \<and>
    Reactor_handle_events ops timeout r1 = Some (- 1, r1\<lparr>reactor_status := SUSPENDED\<rparr>)"
proof -
  obtain r1 where "wakeup 8 (r\<lparr>reactor_status := SUSPENDING\<rparr>) = Some r1" "woken (r\<lparr>reactor_status := SUSPENDING\<rparr>) r1"
    using wakeup_ok [of "r\<lparr>reactor_status := SUSPENDING\<rparr>" ev] assms by auto
  then show ?thesis using assms(1)
    by (auto simp: Reactor_suspend_def Reactor_handle_events_def woken_def)
qed

text \<open>A reactor that is suspended already runs its next turn like any other, and \<open>start\<close> undoes a suspension.\<close>

lemma suspended_reactor_runs:
  "reactor_status r = SUSPENDED \<Longrightarrow> Reactor_handle_events ops timeout r = op_handle_events ops timeout r"
  by (simp add: Reactor_handle_events_def status_defs)

lemma start_undoes_suspend:
  "Reactor_suspend wr r = Some r1 \<Longrightarrow>
     Reactor_handle_events ops timeout (Reactor_start r1) = op_handle_events ops timeout (Reactor_start r1)"
  by (simp add: Reactor_handle_events_def Reactor_start_def status_defs)

text \<open>
  A handler that is registered for two events and unregistered from one of them is still bound to the other, but is not
  marked as registered any more.
\<close>

lemma unregister_one_of_two:
  assumes "epoll_inv interest ctl (reactor_impl r)" and "0 \<le> h" and "h < 2147483644"
    and "repo_lookup (demux_table (reactor_impl r)) h READ_EVENT = Some x"
    and "repo_lookup (demux_table (reactor_impl r)) h WRITE_EVENT = None" and "eventFd r = Some ev" and "fd_ready ev"
  shows "\<exists>r1 r2. Reactor_register 8 (epoll_ops ex ctl cb wait now) h (Some x) WRITE_EVENT r = Some (0, r1) \<and>
    Reactor_unregister (epoll_ops ex ctl cb wait now) h (Some x) WRITE_EVENT r1 = Some (0, r2) \<and>
    repo_lookup (demux_table (reactor_impl r2)) h READ_EVENT = Some x \<and> x \<notin> registered_handlers r2"
  using epoll.facade_round_trip [OF assms(1-3) _ assms(5-7), of ex cb wait now x] assms(4)
  by (auto simp: stream_event_def)


subsection \<open>A new reactor\<close>

context reactor_implementation
begin

text \<open>
  The constructor with \<open>needWakeUp\<close> binds the handler of the eventfd to its read event and leaves the eventfd ready to
  be written.
\<close>

theorem facade_new:
  assumes "inv i" and "0 \<le> fd" and "fd < 2147483644" and "table i fd READ_EVENT = None" and "buffer_wf b1"
  shows "\<exists>r ev. new_Reactor 8 ops i True fd x b1 b2 = Some r \<and> inv (reactor_impl r) \<and>
    op_isWaiting ops (reactor_impl r) = op_isWaiting ops i \<and>
    op_register ops fd (Some x) READ_EVENT i = Some (0, reactor_impl r) \<and>
    (\<forall>h e. table (reactor_impl r) h e = (if h = fd \<and> e = READ_EVENT then Some x else table i h e)) \<and>
    eventFd r = Some ev \<and> fd_ready ev \<and> event_fd ev = fd \<and> fd_written ev = [] \<and>
    reactor_status r = SUSPENDED \<and> registered_handlers r = {x}"
proof -
  let ?s = "Some (set_fd fd (new_sock False))"
  let ?c = "new_connection ?s b1 b2 (\<lambda>_. 0)"
  let ?ev = "\<lparr>event_fd = fd, fd_handler = Some ?c, fd_written = []\<rparr>"
  let ?r = "\<lparr>reactor_impl = i, reactor_status = SUSPENDED, eventFd = Some ?ev, registered_handlers = {}\<rparr>"
  have valid: "fd \<noteq> INVALID_HANDLE" using assms(2) by (simp add: INVALID_HANDLE_def)
  have "fd_ready ?ev" using assms(2,5) by (simp add: fd_ready_def new_connection_def set_fd_def)
  then obtain r0 r1 where r1: "Reactor_register 8 ops fd (Some x) READ_EVENT ?r = Some (0, r1)"
    "if op_isWaiting ops i \<and> (fd \<noteq> fd \<or> READ_EVENT = WRITE_EVENT) then woken r0 r1 else r1 = r0"
    "registered_handlers r0 = {x}" "eventFd r0 = Some ?ev" "reactor_status r0 = SUSPENDED" "inv (reactor_impl r1)"
    "op_isWaiting ops (reactor_impl r1) = op_isWaiting ops i"
    "op_register ops fd (Some x) READ_EVENT i = Some (0, reactor_impl r1)"
    "\<forall>h e. table (reactor_impl r1) h e = (if h = fd \<and> e = READ_EVENT then Some x else table i h e)"
    using facade_register [of ?r fd READ_EVENT ?ev x] assms(1-4) by (auto simp: stream_event_def)
  then have r0: "r1 = r0" by (simp add: event_defs)
  define r where "r = r1\<lparr>eventFd := Some (?ev\<lparr>fd_handler := Some (?c\<lparr>read_enabled := True,
    reactor_answer := \<lambda>_. 0, reactor_calls := [Register fd READ_EVENT]\<rparr>)\<rparr>)\<rparr>"
  have "new_Reactor 8 ops i True fd x b1 b2 = Some r"
    using r1(1,4) r0 assms(2) valid
    by (simp add: new_Reactor_def registerInto_def new_EventFD_def stream_set_handle_def Let_def enable_reading_def
        call_reactor_def new_connection_def stream_handle_def set_fd_def r_def)
  then show ?thesis
    using r1 r0 assms(2,5) by (intro exI [where x = r]) (simp add: r_def fd_ready_def new_connection_def set_fd_def)
qed

end

lemma poll_lookup_new: "poll_lookup (poll_demux (new_poll_reactor w)) h e = None"
  by (simp add: new_poll_reactor_def new_poll_table_def poll_lookup_def pt_getHandler_def)

theorem register_wakes_reactor_witness:
  "\<exists>r r1 ev1. new_Reactor 8 (poll_ops poll_log_call (\<lambda>_ _. (0, []))) (new_poll_reactor []\<lparr>is_waiting := True\<rparr>) True 5 1
      (new_buffer 1 2) (new_buffer 3 4) = Some r \<and>
    Reactor_register 8 (poll_ops poll_log_call (\<lambda>_ _. (0, []))) 7 (Some 9) WRITE_EVENT r = Some (0, r1) \<and>
    eventFd r1 = Some ev1 \<and> fd_written ev1 = int64_bytes 1"
proof -
  let ?i = "new_poll_reactor []\<lparr>is_waiting := True\<rparr> :: call list poll_reactor"
  let ?ops = "poll_ops poll_log_call (\<lambda>_ _. (0, []))"
  have c: "poll_coherent ?i" using poll_new_coherent [of "[]"] by (simp add: poll_coherent_def)
  have l: "poll_lookup (poll_demux ?i) h e = None" for h e using poll_lookup_new [of "[]" h e] by simp
  obtain r ev where r: "new_Reactor 8 ?ops ?i True 5 1 (new_buffer 1 2) (new_buffer 3 4) = Some r"
    "poll_coherent (reactor_impl r)" "op_isWaiting ?ops (reactor_impl r)" "eventFd r = Some ev" "fd_ready ev" "event_fd ev = 5" "fd_written ev = []"
    "\<And>h e. poll_lookup (poll_demux (reactor_impl r)) h e = (if h = 5 \<and> e = READ_EVENT then Some 1 else None)"
    using pollr.facade_new [OF c _ _ l, of 5 "new_buffer 1 2" poll_log_call "\<lambda>_ _. (0, [])" 1 "new_buffer 3 4"] l
      new_buffer_wf by (auto simp: poll_ops_def)
  have w: "is_waiting (reactor_impl r)" using r(3) by (simp add: poll_ops_def)
  show ?thesis
    using register_wakes_reactor [OF r(2), of 7 WRITE_EVENT ev poll_log_call "\<lambda>_ _. (0, [])" 9] r w
    by (auto simp: stream_event_def)
qed


text \<open>
  A wakeup drains one byte of what the handler of the eventfd has read before, and the reactor then reads the eight
  bytes of the counter: the input buffer grows by seven bytes with every further wakeup.
\<close>

lemma eventfd_buffer_grows:
  assumes "fd_ready e" and "fd_handler e = Some c" and "length (contents (input_buffer c)) < BUFFER_HIGH_WATER_MARK"
    and "contents (input_buffer c) \<noteq> []"
  shows "\<exists>e1 c1 c2. eventfd_wakeup 8 e = Some e1 \<and> fd_handler e1 = Some c1 \<and>
    handle_input c1 (event_fd e) (Data (int64_bytes v)) errno = Some (0, c2) \<and>
    length (contents (input_buffer c2)) = length (contents (input_buffer c)) + 7"
proof -
  obtain s where c: "stream c = Some (Some s)" "fd_no s = event_fd e" "can_read s" "buffer_wf (input_buffer c)"
    "0 \<le> event_fd e"
    using assms(1,2) by (auto elim: fd_readyE)
  have inv: "event_fd e \<noteq> INVALID_HANDLE" using c(5) by (simp add: INVALID_HANDLE_def)
  obtain b where b: "contents b = drop 1 (contents (input_buffer c))"
    "eventfd_wakeup 8 e = Some (e\<lparr>fd_handler := Some (c\<lparr>input_buffer := b\<rparr>), fd_written := fd_written e @ int64_bytes 1\<rparr>)"
    "fd_ready (e\<lparr>fd_handler := Some (c\<lparr>input_buffer := b\<rparr>), fd_written := fd_written e @ int64_bytes 1\<rparr>)"
    using eventfd_wakeup_ok [OF assms(1)] assms(2) by auto
  have wf: "buffer_wf b" using b(3) by (simp add: fd_ready_def)
  have len: "total_len b < BUFFER_HIGH_WATER_MARK" using assms(3) b(1) buffer_wf_total [OF wf] by simp
  have "length (contents b) + 4096 < 18446744073709551616"
    using assms(3) b(1) by (simp add: high_water_mark)
  then obtain b' where b': "stream_read (Some s) b 4096 (Data (int64_bytes v)) = Some (8, b')"
    "contents b' = contents b @ int64_bytes v"
    using stream_read_law [OF wf _ c(3), of 4096 "int64_bytes v"] c(2) inv by (auto simp: length_int64_bytes)
  have "handle_input (c\<lparr>input_buffer := b\<rparr>) (event_fd e) (Data (int64_bytes v)) errno =
      Some (0, c\<lparr>input_buffer := b'\<rparr>)"
    using c(1,2) inv len b'(1) by (simp add: handle_input_def stream_handle_def)
  moreover have "length (contents b') = length (contents (input_buffer c)) + 7"
    using b'(2) b(1) assms(4) by (cases "contents (input_buffer c)") (simp_all add: length_int64_bytes)
  ultimately show ?thesis using b(2) by auto
qed

end
