(* ===== verification/Tcp_Client.thy ===== *)
theory Tcp_Client
  imports Reactor_Facade Handle_Wait
begin

text \<open>
  Outgoing connections: \<open>net::sock_connector\<close> (\<open>src/net/sock_connector.h\<close>), the template \<open>connector\<close>
  (\<open>src/reactor/connector.h\<close>), \<open>ConnectionManager\<close> (\<open>src/reactor/ConnectionManager.h\<close>, \<open>.cpp\<close>) and \<open>tcp_client\<close>
  (\<open>src/reactor/tcp_client.h\<close>, \<open>.cpp\<close>). The stream is an \<open>InetSockStream\<close>, whose \<open>connect()\<close> answers 0; the blocking
  mode of a descriptor is not modelled; the answers of the system calls are arguments.
\<close>

subsection \<open>\<open>sock_connector\<close>\<close>

type_synonym connect_select =
  "int \<Rightarrow> int set \<Rightarrow> int set \<Rightarrow> int \<times> int \<Rightarrow> int \<times> int \<times> int set \<times> int set"

text \<open>
  The answers of \<open>::close\<close>, \<open>::socket\<close> and \<open>::setsockopt\<close>, the result and \<open>errno\<close> of \<open>::connect\<close>, \<open>::select\<close>, and the
  result and the socket error of \<open>::getsockopt\<close>.
\<close>

record connect_answers =
  c_close :: int
  c_socket :: int
  c_setsockopt :: int
  c_connect :: "int \<times> int"
  c_select :: connect_select
  c_getsockopt :: "int \<times> int"

definition EINPROGRESS :: int where "EINPROGRESS = 115"

text \<open>\<open>Stream::open\<close>\<close>

definition stream_open :: "connect_answers \<Rightarrow> sock_stream \<Rightarrow> int \<times> sock_stream" where
  "stream_open w st =
     (case st of
        Some s \<Rightarrow> map_prod id Some (open_sock (c_close w) (c_socket w) (c_setsockopt w) s)
      | None \<Rightarrow> (- 1, None))"

definition connector_shared_open :: "connect_answers \<Rightarrow> bool \<Rightarrow> sock_stream \<Rightarrow> int \<times> sock_stream" where
  "connector_shared_open w reuse st =
     (let st1 = (if stream_handle st \<noteq> INVALID_HANDLE then snd (stream_close (c_close w) st) else st);
          (r, st2) = stream_open w (set_sock_info reuse st1)
      in if r = - 1 then (- 1, st2) else (0, st2))"

text \<open>\<open>complete\<close>; the timeout in microseconds is cut off to milliseconds.\<close>

definition complete_connect :: "connect_answers \<Rightarrow> int \<Rightarrow> sock_stream \<Rightarrow> (int \<times> sock_stream) option" where
  "complete_connect w timeout st = do {
     let ms = (if timeout < 0 then - ((- timeout) div 1000) else timeout div 1000);
     (h, _) \<leftarrow> handle_timed_connect_using_select (c_select w) (stream_handle st) ms (c_getsockopt w);
     Some (if h = INVALID_HANDLE then (- 1, snd (stream_close (c_close w) st)) else (0, st))
   }"

definition connect_error_handling :: "connect_answers \<Rightarrow> int \<Rightarrow> sock_stream \<Rightarrow> (int \<times> sock_stream) option" where
  "connect_error_handling w timeout st =
     (let (ret, err) = c_connect w
      in if ret < 0 \<and> err \<noteq> EINPROGRESS then Some (- 1, st)
         else if ret = 0 then Some (0, st)
         else complete_connect w timeout st)"

definition sock_connect :: "connect_answers \<Rightarrow> int \<Rightarrow> bool \<Rightarrow> sock_stream \<Rightarrow> (int \<times> sock_stream) option" where
  "sock_connect w timeout reuse st =
     (let (r, st1) = connector_shared_open w reuse st
      in if r = - 1 then Some (- 1, st1)
         else do {
           (ret, st2) \<leftarrow> connect_error_handling w timeout st1;
           Some (if ret \<noteq> 0 then - 1 else 0, st2)
         })"

subsection \<open>\<open>connector\<close>\<close>

record connector =
  con_handler :: connection
  is_connected :: bool

definition new_connector :: "connection \<Rightarrow> connector" where
  "new_connector c = \<lparr>con_handler = c, is_connected = False\<rparr>"

text \<open>
  \<open>connect\<close>: whether a handler, and not the null pointer, is returned. \<open>open\<close> is the virtual function of the handler,
  \<open>open_connection\<close> for a plain connection.
\<close>

definition connector_connect ::
  "(connection \<Rightarrow> (int \<times> connection) option) \<Rightarrow> connect_answers \<Rightarrow> int \<Rightarrow> connector \<Rightarrow> (bool \<times> connector) option" where
  "connector_connect open_op w timeout k =
     (case stream (con_handler k) of
        None \<Rightarrow> Some (False, k)
      | Some st \<Rightarrow> do {
          (ret, st1) \<leftarrow> sock_connect w timeout True st;
          let k1 = k\<lparr>con_handler := (con_handler k)\<lparr>stream := Some st1\<rparr>\<rparr>;
          if ret \<noteq> 0 then Some (False, k1)
          else do {
            (o1, c1) \<leftarrow> open_op (con_handler k1);
            if o1 < 0 then Some (False, k1\<lparr>con_handler := c1, is_connected := False\<rparr>)
            else Some (True, k1\<lparr>con_handler := c1, is_connected := True\<rparr>)
          }
        })"

definition connector_disconnect :: "int \<Rightarrow> connector \<Rightarrow> (int \<times> connector) option" where
  "connector_disconnect ans k = do {
     (_, c) \<leftarrow> close_connection ans (con_handler k);
     Some (0, k\<lparr>con_handler := c, is_connected := True\<rparr>)
   }"

text \<open>\<open>IConnector::close\<close>\<close>

definition connector_close :: "int \<Rightarrow> connector \<Rightarrow> (int \<times> connector) option" where
  "connector_close ans k = do { (_, k1) \<leftarrow> connector_disconnect ans k; Some (0, k1) }"

subsection \<open>\<open>ConnectionManager\<close>\<close>

text \<open>
  The intrusive list holds the addresses of the services, the store the services that are alive; \<open>delete\<close> takes a
  service out of the store and, by its \<open>auto_unlink\<close> hook, out of the list.
\<close>

record ConnectionManager =
  connections :: "nat list"
  services :: "nat \<rightharpoonup> connector"
  connectionCount :: nat

definition new_manager :: ConnectionManager where
  "new_manager = \<lparr>connections = [], services = Map.empty, connectionCount = 0\<rparr>"

definition makeConnection :: "nat \<Rightarrow> connection \<Rightarrow> ConnectionManager \<Rightarrow> ConnectionManager" where
  "makeConnection a c m = m\<lparr>connections := a # connections m, services := (services m)(a \<mapsto> new_connector c),
     connectionCount := u64 (connectionCount m + 1)\<rparr>"

text \<open>Closing a service and deleting it; a service that is not alive is undefined.\<close>

definition close_and_delete :: "int \<Rightarrow> nat \<Rightarrow> ConnectionManager \<Rightarrow> ConnectionManager option" where
  "close_and_delete ans a m = do {
     k \<leftarrow> services m a;
     _ \<leftarrow> connector_close ans k;
     Some (m\<lparr>services := (services m)(a := None), connections := filter (\<lambda>b. b \<noteq> a) (connections m)\<rparr>)
   }"

definition closeConnection :: "int \<Rightarrow> nat \<Rightarrow> ConnectionManager \<Rightarrow> ConnectionManager option" where
  "closeConnection ans a m = do {
     m1 \<leftarrow> close_and_delete ans a m;
     Some (m1\<lparr>connectionCount := u64_sub (connectionCount m1) 1\<rparr>)
   }"

lemma close_and_delete_connections:
  "close_and_delete ans a m = Some m1 \<Longrightarrow> connections m1 = filter (\<lambda>b. b \<noteq> a) (connections m)"
  by (auto simp: close_and_delete_def split: bind_splits)

function closeAllConnection :: "int \<Rightarrow> ConnectionManager \<Rightarrow> (nat \<times> ConnectionManager) option" where
  "closeAllConnection ans m =
     (case connections m of
        [] \<Rightarrow> Some (connectionCount m, m)
      | a # as \<Rightarrow> do {
          m1 \<leftarrow> close_and_delete ans a (m\<lparr>connections := as\<rparr>);
          closeAllConnection ans m1
        })"
  by pat_completeness auto

termination
proof (relation "measure (\<lambda>(ans, m). length (connections m))")
  fix ans m x21 x22 m1
  assume "connections m = x21 # x22" and "close_and_delete ans x21 (m\<lparr>connections := x22\<rparr>) = Some m1"
  then show "((ans, m1), ans, m) \<in> measure (\<lambda>(ans, m). length (connections m))"
    using close_and_delete_connections [of ans x21 "m\<lparr>connections := x22\<rparr>" m1]
      length_filter_le [of "\<lambda>b. b \<noteq> x21" x22] by (simp add: less_Suc_eq_le)
qed auto

declare closeAllConnection.simps [simp del]


subsection \<open>\<open>tcp_client\<close>\<close>

record 'i tcp_client =
  client_reactor :: "'i Reactor"
  client_manager :: ConnectionManager

text \<open>
  The loop of \<open>start\<close>. Every element of the list is one turn, and says whether another thread calls \<open>suspend\<close> before
  the result of the turn is looked at; \<open>None\<close> after the last one is a loop that goes on.
\<close>

fun client_loop :: "int \<Rightarrow> 'i reactor_ops \<Rightarrow> bool list \<Rightarrow> 'i Reactor \<Rightarrow> (int \<times> 'i Reactor) option" where
  "client_loop wr ops [] r = None"
| "client_loop wr ops (b # bs) r = do {
     (ret, r1) \<leftarrow> Reactor_handle_events ops None r;
     r2 \<leftarrow> (if b then Reactor_suspend wr r1 else Some r1);
     if ret \<ge> 0 then client_loop wr ops bs r2 else Some (ret, r2)
   }"

definition client_start :: "int \<Rightarrow> 'i reactor_ops \<Rightarrow> bool list \<Rightarrow> 'i tcp_client \<Rightarrow> (int \<times> 'i tcp_client) option" where
  "client_start wr ops bs cl = do {
     (ret, r) \<leftarrow> client_loop wr ops bs (Reactor_start (client_reactor cl));
     Some (ret, cl\<lparr>client_reactor := r\<rparr>)
   }"

definition client_suspend :: "int \<Rightarrow> 'i tcp_client \<Rightarrow> (int \<times> 'i tcp_client) option" where
  "client_suspend wr cl = do {
     r \<leftarrow> Reactor_suspend wr (client_reactor cl);
     Some (0, cl\<lparr>client_reactor := r\<rparr>)
   }"

text \<open>The number of connections, a \<open>size_t\<close>, is returned as an \<open>int\<close>.\<close>

definition close_all_connection :: "int \<Rightarrow> 'i tcp_client \<Rightarrow> (int \<times> 'i tcp_client) option" where
  "close_all_connection ans cl = do {
     (n, m) \<leftarrow> closeAllConnection ans (client_manager cl);
     Some (i32 (int n), cl\<lparr>client_manager := m\<rparr>)
   }"

definition client_stop :: "int \<Rightarrow> int \<Rightarrow> 'i tcp_client \<Rightarrow> (int \<times> 'i tcp_client) option" where
  "client_stop wr ans cl = do {
     (_, cl1) \<leftarrow> client_suspend wr cl;
     close_all_connection ans cl1
   }"

definition addConnection :: "nat \<Rightarrow> connection \<Rightarrow> 'i tcp_client \<Rightarrow> 'i tcp_client" where
  "addConnection a c cl = cl\<lparr>client_manager := makeConnection a c (client_manager cl)\<rparr>"

definition client_closeConnection :: "int \<Rightarrow> nat \<Rightarrow> 'i tcp_client \<Rightarrow> 'i tcp_client option" where
  "client_closeConnection ans a cl = do {
     m \<leftarrow> closeConnection ans a (client_manager cl);
     Some (cl\<lparr>client_manager := m\<rparr>)
   }"

text \<open>The constructor: a reactor that can be woken up, on a new implementation.\<close>

definition new_tcp_client ::
  "int \<Rightarrow> 'i reactor_ops \<Rightarrow> 'i \<Rightarrow> int \<Rightarrow> handler \<Rightarrow> buffer \<Rightarrow> buffer \<Rightarrow> 'i tcp_client option" where
  "new_tcp_client wr ops i eventfd_ans x b1 b2 = do {
     r \<leftarrow> new_Reactor wr ops i True eventfd_ans x b1 b2;
     Some \<lparr>client_reactor = r, client_manager = new_manager\<rparr>
   }"

subsection \<open>Connecting\<close>

lemma close_sock_opened: "fd_no s \<noteq> INVALID_HANDLE \<Longrightarrow> fd_no (snd (close_sock SHUT_ALL a s)) = INVALID_HANDLE"
  by (simp add: close_sock_def)

definition opened :: "int \<Rightarrow> inet_sock" where
  "opened fd = \<lparr>fd_no = fd, can_write = True, can_read = True, reuse_addr = True\<rparr>"

lemma shared_open_fresh:
  assumes "c_socket w = fd" and "0 \<le> fd" and "c_setsockopt w \<noteq> - 1"
  shows "connector_shared_open w True None = (0, Some (opened fd))"
  using assms by (simp add: connector_shared_open_def stream_open_def set_sock_info_def new_sock_def stream_handle_def
      open_sock_def INVALID_HANDLE_def opened_def)

text \<open>
  When a connect in progress is taken to have succeeded: unless \<open>select\<close> answers 0 and there was a time to wait, and
  unless the handle is reported and the socket has an error or cannot be asked.
\<close>

definition taken_as_connected :: "int \<Rightarrow> int \<Rightarrow> bool \<Rightarrow> int \<times> int \<Rightarrow> bool" where
  "taken_as_connected timeout n reported opt \<longleftrightarrow>
     \<not> (n = 0 \<and> 1000 \<le> timeout) \<and> (reported \<longrightarrow> snd opt = 0 \<and> 0 \<le> fst opt)"

lemma complete_connect_law:
  assumes "0 \<le> fd" and "fd < FD_SETSIZE" and "0 \<le> timeout"
    and "c_select w (fd + 1) {fd} {fd} (duration_to_timeval (timeout div 1000 * 1000)) = (n, e, R, W)"
  shows "complete_connect w timeout (Some (opened fd)) =
    Some (if taken_as_connected timeout n (fd \<in> R \<union> W) (c_getsockopt w) then (0, Some (opened fd))
          else (- 1, snd (stream_close (c_close w) (Some (opened fd)))))"
proof -
  have t: "\<not> timeout < 0" "timeout div 1000 > 0 \<longleftrightarrow> 1000 \<le> timeout" using assms(3) by (auto simp: pos_imp_zdiv_pos_iff)
  have fd: "fd \<noteq> INVALID_HANDLE" using assms(1) by (simp add: INVALID_HANDLE_def)
  have s: "set_bit fd hs_reset = Some h \<Longrightarrow> hs_bits h = {fd}" "\<exists>h. set_bit fd hs_reset = Some h" for h
    using assms(1,2) by (auto simp: set_bit_def is_set_def hs_reset_def INVALID_HANDLE_def)
  then obtain h where "set_bit fd hs_reset = Some h" "hs_bits h = {fd}" by blast
  then show ?thesis
    using assms(4) t fd
    by (auto simp: complete_connect_def handle_timed_connect_using_select_def connect_result_def stream_handle_def
        opened_def taken_as_connected_def)
qed

text \<open>
  C28. A connector on a fresh stream, whatever \<open>::connect\<close>, \<open>::select\<close> and \<open>::getsockopt\<close> answer: it connects exactly when
  \<open>::connect\<close> succeeds at once, or is in progress and then \<open>select\<close> does not time out (answer 0 with at least one
  millisecond to wait) and the socket, if it is reported, has no error. So a \<open>select\<close> that fails, and
  one that runs into a timeout below a millisecond, count as success unless the socket is reported with an error. When it
  connects, the handler is on the new descriptor and registered for reading, once; a connect that fails in progress leaves no descriptor behind, and
  one that fails makes no call to the reactor. The socket is created with a descriptor below \<open>FD_SETSIZE\<close> and the reactor
  accepts the registration.
\<close>

theorem connect_correct:
  assumes "c_socket w = fd" and "0 \<le> fd" and "fd < FD_SETSIZE" and "c_setsockopt w \<noteq> - 1" and "0 \<le> timeout"
    and "c_connect w = (cr, err)" and "cr = 0 \<or> cr = - 1"
    and "c_select w (fd + 1) {fd} {fd} (duration_to_timeval (timeout div 1000 * 1000)) = (n, e, R, W)"
    and "0 \<le> ans (Register fd READ_EVENT)"
  shows "\<exists>b k. connector_connect open_connection w timeout (new_connector (new_connection None b1 b2 ans)) = Some (b, k) \<and>
    is_connected k = b \<and>
    b = (cr = 0 \<or> err = EINPROGRESS \<and> taken_as_connected timeout n (fd \<in> R \<union> W) (c_getsockopt w)) \<and>
    (if b then stream (con_handler k) = Some (Some (opened fd)) \<and> read_enabled (con_handler k) \<and>
       reactor_calls (con_handler k) = [Register fd READ_EVENT]
     else \<not> read_enabled (con_handler k) \<and> reactor_calls (con_handler k) = [] \<and>
       (err = EINPROGRESS \<longrightarrow> (\<exists>st. stream (con_handler k) = Some st \<and> \<not> has_handle st)))"
proof -
  let ?b = "cr = 0 \<or> err = EINPROGRESS \<and> taken_as_connected timeout n (fd \<in> R \<union> W) (c_getsockopt w)"
  let ?c = "new_connection None b1 b2 ans"
  have fd: "fd \<noteq> INVALID_HANDLE" using assms(2) by (simp add: INVALID_HANDLE_def)
  note o = shared_open_fresh [OF assms(1,2,4)]
  note complete = complete_connect_law [OF assms(2,3,5,8)]
  show ?thesis
  proof (cases ?b)
    case True
    have "sock_connect w timeout True None = Some (0, Some (opened fd))"
      using True o complete assms(6,7) by (auto simp: sock_connect_def connect_error_handling_def)
    moreover have "open_connection (?c\<lparr>stream := Some (Some (opened fd))\<rparr>) =
        Some (ans (Register fd READ_EVENT), ?c\<lparr>stream := Some (Some (opened fd)), read_enabled := True,
          reactor_calls := [Register fd READ_EVENT]\<rparr>)"
      by (simp add: open_connection_def enable_reading_def new_connection_def call_reactor_def stream_handle_def opened_def)
    ultimately show ?thesis using True assms(9)
      by (intro exI [where x = True]) (simp add: connector_connect_def new_connector_def new_connection_def opened_def)
  next
    case False
    then have cr: "cr = - 1" using assms(7) by simp
    define st where "st = (if err = EINPROGRESS then snd (stream_close (c_close w) (Some (opened fd))) else Some (opened fd))"
    have "sock_connect w timeout True None = Some (- 1, st)"
      using False cr o complete assms(6) by (auto simp: sock_connect_def connect_error_handling_def st_def)
    moreover have "err = EINPROGRESS \<longrightarrow> \<not> has_handle st"
      using fd by (simp add: st_def stream_close_def has_handle_def close_sock_def opened_def)
    ultimately show ?thesis using False
      by (auto simp: connector_connect_def new_connector_def new_connection_def)
  qed
qed

theorem connect_correct_witness:
  "\<exists>b k. connector_connect open_connection
      \<lparr>c_close = 0, c_socket = 7, c_setsockopt = 0, c_connect = (- 1, EINPROGRESS), c_select = (\<lambda>_ _ _ _. (1, 0, {}, {7})),
       c_getsockopt = (0, 0)\<rparr> 1000000 (new_connector (new_connection None (new_buffer 1 2) (new_buffer 3 4) (\<lambda>_. 0))) =
      Some (b, k) \<and> b \<and> is_connected k \<and> reactor_calls (con_handler k) = [Register 7 READ_EVENT]"
  using connect_correct [of "\<lparr>c_close = 0, c_socket = 7, c_setsockopt = 0, c_connect = (- 1, EINPROGRESS),
      c_select = (\<lambda>_ _ _ _. (1, 0, {}, {7})), c_getsockopt = (0, 0)\<rparr>" 7 1000000 "- 1" EINPROGRESS 1 0 "{}" "{7}"
      "\<lambda>_. 0" "new_buffer 1 2" "new_buffer 3 4"]
  by (auto simp: FD_SETSIZE_def taken_as_connected_def)

text \<open>
  A connector whose stream has had a descriptor object before can never connect again, whatever the kernel answers:
  \<open>set_sock_info\<close> drops the object.
\<close>

lemma reconnect_fails:
  assumes "stream (con_handler k) = Some (Some s)"
  shows "\<exists>k'. connector_connect open_op w timeout k = Some (False, k') \<and> is_connected k' = is_connected k \<and>
    stream (con_handler k') = Some None"
proof -
  have "sock_connect w timeout True (Some s) = Some (- 1, None)"
    by (cases "fd_no s = INVALID_HANDLE")
      (simp_all add: sock_connect_def connector_shared_open_def stream_handle_def stream_close_def set_sock_info_def
        stream_open_def split_def)
  then show ?thesis using assms by (simp add: connector_connect_def)
qed

text \<open>\<open>disconnect\<close> sets \<open>is_connected_\<close>.\<close>

lemma disconnect_connected: "connector_disconnect ans k = Some (r, k') \<Longrightarrow> is_connected k'"
  by (auto simp: connector_disconnect_def split: bind_splits)

text \<open>A \<open>select\<close> that fails leaves the sets as they are, and the connect is taken to have succeeded.\<close>

lemma select_error_connects:
  assumes "0 \<le> fd" and "fd < FD_SETSIZE"
    and "c_select w (fd + 1) {fd} {fd} (duration_to_timeval (timeout div 1000 * 1000)) = (- 1, e, {fd}, {fd})"
    and "c_getsockopt w = (0, 0)" and "0 \<le> timeout"
  shows "complete_connect w timeout (Some (opened fd)) = Some (0, Some (opened fd))"
  using assms
  by (auto simp: complete_connect_def handle_timed_connect_using_select_def connect_result_def stream_handle_def
      opened_def set_bit_def is_set_def hs_reset_def INVALID_HANDLE_def)


subsection \<open>The connections of a manager\<close>

text \<open>
  The list holds exactly the services that are alive, each once. The count is its length and the number \<open>n\<close> of those that
  \<open>closeAllConnection\<close> has ended, since it does not take them off the count.
\<close>

definition manager_ok :: "nat \<Rightarrow> ConnectionManager \<Rightarrow> bool" where
  "manager_ok n m \<longleftrightarrow> distinct (connections m) \<and> dom (services m) = set (connections m) \<and>
     connectionCount m = u64 (length (connections m) + n) \<and> (\<forall>k \<in> ran (services m). stream (con_handler k) \<noteq> None)"

lemma connector_close_defined:
  assumes "stream (con_handler k) \<noteq> None"
  shows "\<exists>k'. connector_close ans k = Some (0, k')"
  using assms
  by (auto simp: connector_close_def connector_disconnect_def close_connection_def disable_reading_def
      disable_writing_def call_reactor_def split_def)

lemma close_and_delete_law:
  assumes "a \<in> dom (services m)" and "\<forall>k \<in> ran (services m). stream (con_handler k) \<noteq> None"
  shows "close_and_delete ans a m =
    Some (m\<lparr>services := (services m)(a := None), connections := filter (\<lambda>b. b \<noteq> a) (connections m)\<rparr>)"
proof -
  obtain k where k: "services m a = Some k" using assms(1) by blast
  then have "stream (con_handler k) \<noteq> None" using assms(2) by (auto intro: ranI)
  then show ?thesis using connector_close_defined [of k ans] k by (auto simp: close_and_delete_def)
qed

lemma ran_delete_subset: "ran (f(a := None)) \<subseteq> ran f"
  by (auto simp: ran_def split: if_splits)

lemma length_filter_other: "distinct xs \<Longrightarrow> a \<in> set xs \<Longrightarrow> length (filter (\<lambda>b. b \<noteq> a) xs) + 1 = length xs"
proof (induction xs)
  case (Cons x xs)
  show ?case
  proof (cases "x = a")
    case True
    then have "filter (\<lambda>b. b \<noteq> a) xs = xs" using Cons.prems by (auto simp: filter_id_conv)
    then show ?thesis using True by simp
  qed (use Cons in simp)
qed simp

lemma make_ok:
  assumes "manager_ok n m" and "a \<notin> set (connections m)" and "stream c \<noteq> None"
  shows "manager_ok n (makeConnection a c m)"
  using assms
  by (auto simp: manager_ok_def makeConnection_def new_connector_def ran_def u64_def mod_Suc_eq split: if_splits)

lemma u64_sub_pred: "0 < x \<Longrightarrow> u64_sub (u64 x) 1 = u64 (x - 1)"
  by (cases x) (simp_all add: u64_sub_def u64_def mod_simps)

lemma close_ok:
  assumes "manager_ok n m" and "closeConnection ans a m = Some m'"
  shows "manager_ok n m' \<and> connections m' = filter (\<lambda>b. b \<noteq> a) (connections m)"
proof -
  define m1 where "m1 = m\<lparr>services := (services m)(a := None), connections := filter (\<lambda>b. b \<noteq> a) (connections m)\<rparr>"
  have a: "a \<in> set (connections m)"
    using assms by (auto simp: manager_ok_def closeConnection_def close_and_delete_def split: bind_splits)
  have cl: "close_and_delete ans a m = Some m1"
    unfolding m1_def by (rule close_and_delete_law) (use assms a in \<open>simp_all add: manager_ok_def\<close>)
  have len: "length (connections m) = Suc (length (filter (\<lambda>b. b \<noteq> a) (connections m)))"
    using length_filter_other [of "connections m" a] assms(1) a by (simp add: manager_ok_def)
  have "connectionCount m = u64 (Suc (length (filter (\<lambda>b. b \<noteq> a) (connections m)) + n))"
    using assms(1) unfolding manager_ok_def len by simp
  then have "u64_sub (connectionCount m) 1 = u64 (length (filter (\<lambda>b. b \<noteq> a) (connections m)) + n)"
    by (simp add: u64_sub_pred del: One_nat_def)
  then have "manager_ok n (m1\<lparr>connectionCount := u64_sub (connectionCount m1) 1\<rparr>)"
    using assms(1) ran_delete_subset [of "services m" a] by (auto simp: manager_ok_def m1_def)
  then show ?thesis using cl assms(2) by (auto simp: closeConnection_def m1_def)
qed

text \<open>\<open>closeAllConnection\<close> closes and deletes every service, but does not touch the count.\<close>

lemma close_all_law:
  assumes "distinct (connections m)" and "dom (services m) = set (connections m)"
    and "\<forall>k \<in> ran (services m). stream (con_handler k) \<noteq> None"
  shows "closeAllConnection ans m = Some (connectionCount m, m\<lparr>connections := [], services := Map.empty\<rparr>)"
  using assms
proof (induction ans m rule: closeAllConnection.induct)
  case (1 ans m)
  show ?case
  proof (cases "connections m")
    case Nil
    then show ?thesis using 1(3) by (simp add: closeAllConnection.simps [of ans m] dom_eq_empty_conv [symmetric] del: dom_eq_empty_conv)
  next
    case (Cons a as)
    define m1 where "m1 = m\<lparr>connections := as, services := (services m)(a := None)\<rparr>"
    have "filter (\<lambda>b. b \<noteq> a) as = as" using 1(2) Cons by (auto simp: filter_id_conv)
    then have cl: "close_and_delete ans a (m\<lparr>connections := as\<rparr>) = Some m1"
      using close_and_delete_law [of a "m\<lparr>connections := as\<rparr>" ans] 1(3,4) Cons by (simp add: m1_def)
    have "closeAllConnection ans m1 = Some (connectionCount m1, m1\<lparr>connections := [], services := Map.empty\<rparr>)"
    proof (rule 1(1) [OF Cons cl])
      show "distinct (connections m1)" using 1(2) Cons by (simp add: m1_def)
      show "dom (services m1) = set (connections m1)" using 1(2,3) Cons by (simp add: m1_def)
      show "\<forall>k \<in> ran (services m1). stream (con_handler k) \<noteq> None"
        using 1(4) ran_delete_subset [of "services m" a] by (simp add: m1_def subset_iff)
    qed
    then show ?thesis using cl Cons by (simp add: closeAllConnection.simps [of ans m] m1_def)
  qed
qed

text \<open>
  The states that a manager reaches by its operations, with the number of services that \<open>closeAllConnection\<close> has ended.
  A service is made at an address where none is alive, for a handler that has its stream.
\<close>

inductive manager_reaches :: "nat \<Rightarrow> ConnectionManager \<Rightarrow> bool" where
  start: "manager_reaches 0 new_manager"
| make: "manager_reaches n m \<Longrightarrow> a \<notin> set (connections m) \<Longrightarrow> stream c \<noteq> None \<Longrightarrow>
    manager_reaches n (makeConnection a c m)"
| close: "manager_reaches n m \<Longrightarrow> closeConnection ans a m = Some m' \<Longrightarrow> manager_reaches n m'"
| close_all: "manager_reaches n m \<Longrightarrow> closeAllConnection ans m = Some (r, m') \<Longrightarrow>
    manager_reaches (n + length (connections m)) m'"

lemma reached_manager_ok: "manager_reaches n m \<Longrightarrow> manager_ok n m"
proof (induction rule: manager_reaches.induct)
  case (close_all n m ans r m')
  then show ?case using close_all_law [of m ans] by (auto simp: manager_ok_def add.commute)
next
  case start
  show ?case by (simp add: manager_ok_def new_manager_def u64_def)
qed (use make_ok close_ok in blast)+

text \<open>
  C31. In every state that a manager reaches by \<open>makeConnection\<close>, \<open>closeConnection\<close> and \<open>closeAllConnection\<close>, the list
  holds exactly the live services, each once. \<open>connectionCount_\<close> is, modulo the width of \<open>size_t\<close>, their number
  together with the number of services that earlier calls of \<open>closeAllConnection\<close> have ended, because that call does not
  lower it; so it is the number of live services as long as \<open>closeAllConnection\<close> has ended none. Closing a live service is
  defined, and \<open>closeAllConnection\<close> ends, closes and deletes all of them and answers \<open>connectionCount_\<close>.
\<close>

theorem manager_invariant:
  assumes "manager_reaches n m"
  shows "distinct (connections m) \<and> dom (services m) = set (connections m) \<and>
    connectionCount m = u64 (length (connections m) + n) \<and>
    (\<forall>a. a \<in> set (connections m) \<longleftrightarrow> (\<exists>m'. closeConnection ans a m = Some m')) \<and>
    closeAllConnection ans m = Some (connectionCount m, m\<lparr>connections := [], services := Map.empty\<rparr>)"
proof -
  have ok: "manager_ok n m" using reached_manager_ok [OF assms] .
  have "a \<in> set (connections m) \<longleftrightarrow> (\<exists>m'. closeConnection ans a m = Some m')" for a
    using ok close_and_delete_law [of a m ans]
    by (auto simp: manager_ok_def closeConnection_def close_and_delete_def split: bind_splits)
  then show ?thesis using ok close_all_law [of m ans] by (auto simp: manager_ok_def)
qed

theorem manager_invariant_witness:
  "\<exists>m'. closeAllConnection 0 (makeConnection 20 (new_connection None (new_buffer 1 2) (new_buffer 3 4) (\<lambda>_. 0))
      (makeConnection 10 (new_connection None (new_buffer 5 6) (new_buffer 7 8) (\<lambda>_. 0)) new_manager)) = Some (2, m') \<and>
    services m' = Map.empty"
proof -
  let ?c = "new_connection None (new_buffer 1 2) (new_buffer 3 4) (\<lambda>_. 0)"
  let ?d = "new_connection None (new_buffer 5 6) (new_buffer 7 8) (\<lambda>_. 0)"
  let ?m = "makeConnection 10 ?d new_manager"
  have "manager_reaches 0 ?m"
    by (rule manager_reaches.make [OF manager_reaches.start]) (simp_all add: new_manager_def new_connection_def)
  then have "manager_reaches 0 (makeConnection 20 ?c ?m)"
    by (rule manager_reaches.make) (simp_all add: new_manager_def new_connection_def makeConnection_def)
  from manager_invariant [OF this, of 0] show ?thesis
    by (auto simp: makeConnection_def new_manager_def u64_def)
qed

text \<open>The count is not reset, so that it is wrong afterwards.\<close>

lemma close_all_keeps_count:
  assumes "manager_ok 0 m" and "connections m \<noteq> []" and "length (connections m) < 2 ^ 64"
  shows "\<exists>n m'. closeAllConnection ans m = Some (n, m') \<and> connections m' = [] \<and> connectionCount m' \<noteq> 0"
  using close_all_law [of m ans] assms by (auto simp: manager_ok_def u64_def)

subsection \<open>The end of the client's loop\<close>

lemma client_loop_steady:
  assumes "\<And>r. Q r \<Longrightarrow> \<exists>ret r1. op_handle_events ops None r = Some (ret, r1) \<and> 0 \<le> ret \<and> Q r1"
    and "\<And>r. Q r \<Longrightarrow> reactor_status r \<noteq> SUSPENDING"
  shows "Q r \<Longrightarrow> \<exists>r1. Q r1 \<and> client_loop wr ops (replicate n False @ bs) r = client_loop wr ops bs r1"
proof (induction n arbitrary: r)
  case (Suc n)
  obtain ret r1 where r1: "op_handle_events ops None r = Some (ret, r1)" "0 \<le> ret" "Q r1"
    using assms(1) [OF Suc.prems] by blast
  have "reactor_status r \<noteq> SUSPENDING" by (rule assms(2)) (rule Suc.prems)
  then show ?case using r1 Suc.IH [OF r1(3)] by (simp add: Reactor_handle_events_def)
qed auto

text \<open>
  C29. While the turns of the reactor succeed the client goes on; when another thread suspends it in turn \<open>n + 1\<close>, the
  eventfd is written and the loop ends in the turn after that with \<open>-1\<close>, the reactor being suspended.
\<close>

theorem suspend_ends_client:
  assumes "\<And>r. Q r \<Longrightarrow> \<exists>ret r1. op_handle_events ops None r = Some (ret, r1) \<and> 0 \<le> ret \<and> Q r1"
    and "\<And>r. Q r \<Longrightarrow> reactor_status r \<noteq> SUSPENDING \<and> (\<exists>ev. eventFd r = Some ev \<and> fd_ready ev)"
    and "Q (Reactor_start (client_reactor cl))"
  shows "\<exists>cl' r ev ev'. client_start 8 ops (replicate n False @ True # False # bs) cl = Some (- 1, cl') \<and>
    reactor_status (client_reactor cl') = SUSPENDED \<and> Q r \<and>
    reactor_impl (client_reactor cl') = reactor_impl r \<and> client_manager cl' = client_manager cl \<and>
    eventFd r = Some ev \<and> eventFd (client_reactor cl') = Some ev' \<and> fd_written ev' = fd_written ev @ int64_bytes 1"
proof -
  obtain r0 where r0: "Q r0" "client_loop 8 ops (replicate n False @ True # False # bs) (Reactor_start (client_reactor cl)) =
      client_loop 8 ops (True # False # bs) r0"
    using client_loop_steady [of Q ops "Reactor_start (client_reactor cl)"] assms by blast
  obtain ret r1 where r1: "op_handle_events ops None r0 = Some (ret, r1)" "0 \<le> ret" "Q r1"
    using assms(1) [OF r0(1)] by blast
  obtain ev where ev: "eventFd r1 = Some ev" "fd_ready ev" using assms(2) [OF r1(3)] by blast
  then obtain r2 where r2: "Reactor_suspend 8 r1 = Some r2" "woken (r1\<lparr>reactor_status := SUSPENDING\<rparr>) r2"
    "Reactor_handle_events ops None r2 = Some (- 1, r2\<lparr>reactor_status := SUSPENDED\<rparr>)"
    using suspend_ends_turn [of r1 ev ops None] by blast
  have "client_loop 8 ops (True # False # bs) r0 = Some (- 1, r2\<lparr>reactor_status := SUSPENDED\<rparr>)"
    using r1 r2(1,3) assms(2) [OF r0(1)] by (simp add: Reactor_handle_events_def)
  moreover obtain ev' where "eventFd r2 = Some ev'" "fd_written ev' = fd_written ev @ int64_bytes 1"
    using woken_fields(4) [OF r2(2), of ev] ev(1) by auto
  ultimately show ?thesis using r0(2) r1(3) ev(1) woken_fields(1) [OF r2(2)]
    by (intro exI [where x = "cl\<lparr>client_reactor := r2\<lparr>reactor_status := SUSPENDED\<rparr>\<rparr>"] exI [where x = r1])
      (simp add: client_start_def)
qed


lemma pr_register_waits: "pr_register_handler h x e r = Some (0, r') \<Longrightarrow> wait_pfds r' \<noteq> []"
  by (auto simp: pr_register_handler_def Let_def split: if_splits bind_splits)

theorem suspend_ends_client_witness:
  "\<exists>cl cl'. new_tcp_client 8 (poll_ops poll_log_call (\<lambda>_ _. (0, []))) (new_poll_reactor []) 5 1
      (new_buffer 1 2) (new_buffer 3 4) = Some cl \<and>
    client_start 8 (poll_ops poll_log_call (\<lambda>_ _. (0, []))) [False, False, True, False] cl = Some (- 1, cl') \<and>
    reactor_status (client_reactor cl') = SUSPENDED"
proof -
  let ?ops = "poll_ops poll_log_call (\<lambda>_ _. (0, []))"
  let ?i = "new_poll_reactor [] :: call list poll_reactor"
  define Q where "Q = (\<lambda>r :: call list poll_reactor Reactor. reactor_status r \<noteq> SUSPENDING \<and> wait_pfds (reactor_impl r) \<noteq> [] \<and>
    (\<exists>ev. eventFd r = Some ev \<and> fd_ready ev))"
  obtain r ev where r: "new_Reactor 8 ?ops ?i True 5 1 (new_buffer 1 2) (new_buffer 3 4) = Some r"
    "op_register ?ops 5 (Some 1) READ_EVENT ?i = Some (0, reactor_impl r)" "eventFd r = Some ev" "fd_ready ev"
    using pollr.facade_new [OF poll_new_coherent _ _ poll_lookup_new, of 5 "new_buffer 1 2" poll_log_call "\<lambda>_ _. (0, [])"
        "[]" 1 "new_buffer 3 4"] new_buffer_wf by auto
  have "wait_pfds (reactor_impl r) \<noteq> []"
    using r(2) by (auto simp: poll_ops_def dest: pr_register_waits)
  then have start: "Q (Reactor_start r)" using r(3,4) by (simp add: Q_def Reactor_start_def status_defs)
  have turn: "\<exists>ret r1. op_handle_events ?ops None r = Some (ret, r1) \<and> 0 \<le> ret \<and> Q r1" if q: "Q r" for r
  proof -
    have "pr_poll (\<lambda>_ _. (0, [])) None (reactor_impl r) = (0, (reactor_impl r)\<lparr>is_waiting := False\<rparr>)"
      using q by (cases "wait_pfds (reactor_impl r)") (simp_all add: pr_poll_def Q_def)
    then have "op_handle_events ?ops None r = Some (0, r\<lparr>reactor_impl := (reactor_impl r)\<lparr>is_waiting := False\<rparr>\<rparr>)"
      by (simp add: poll_ops_def pr_handle_events_def)
    then show ?thesis using q by (simp add: Q_def)
  qed
  let ?cl = "\<lparr>client_reactor = r, client_manager = new_manager\<rparr>"
  have ready: "reactor_status r \<noteq> SUSPENDING \<and> (\<exists>ev. eventFd r = Some ev \<and> fd_ready ev)" if "Q r" for r
    using that by (simp add: Q_def)
  have "Q (Reactor_start (client_reactor ?cl))" using start by simp
  from suspend_ends_client [OF turn ready this, of 2 "[]"]
  have "\<exists>cl'. client_start 8 ?ops (replicate 2 False @ True # False # []) ?cl = Some (- 1, cl') \<and>
      reactor_status (client_reactor cl') = SUSPENDED"
    by blast
  then have "\<exists>cl'. client_start 8 ?ops [False, False, True, False] ?cl = Some (- 1, cl') \<and>
      reactor_status (client_reactor cl') = SUSPENDED"
    by (simp only: numeral_2_eq_2 replicate.simps append.simps)
  then show ?thesis using r(1) by (simp add: new_tcp_client_def)
qed

text \<open>
  The loop of a client on epoll without connections ends at once with \<open>-2\<close>: the constructor registers the eventfd,
  and \<open>epoll_wait\<close> refuses to wait when that is the only descriptor.
\<close>

theorem client_without_connections_ends:
  assumes "epoll_ctl_spec interest ctl" and "epoll_ctl_accepts interest ctl" and "interest k = (\<lambda>_. None)"
    and "0 \<le> fd" and "fd < 2147483644" and "buffer_wf b1"
  shows "\<exists>cl cl'. new_tcp_client 8 (epoll_ops ex ctl cb wait now) (new_epoll_reactor n k w) fd x b1 b2 = Some cl \<and>
    client_start 8 (epoll_ops ex ctl cb wait now) [False] cl = Some (- 2, cl') \<and> client_manager cl' = new_manager"
proof -
  let ?i = "new_epoll_reactor n k w"
  let ?ops = "epoll_ops ex ctl cb wait now"
  have coh: "coherent interest ?i" by (rule coherent_new) (rule assms(3))
  have inv: "epoll_inv interest ctl ?i" using assms(1,2) coh by (simp add: epoll_inv_def)
  have free: "repo_lookup (demux_table ?i) fd READ_EVENT = None"
    by (simp add: repo_lookup_table new_epoll_reactor_def new_repo_def)
  obtain r where r: "new_Reactor 8 ?ops ?i True fd x b1 b2 = Some r"
    "op_register ?ops fd (Some x) READ_EVENT ?i = Some (0, reactor_impl r)"
    using epoll.facade_new [OF inv assms(4,5) free assms(6), of ex cb wait now x b2] by blast
  have reg: "register_handler ex ctl fd (Some x) READ_EVENT ?i = (0, reactor_impl r)"
    using r(2) by (simp add: epoll_ops_def)
  have io: "io_event READ_EVENT" "table_event READ_EVENT = READ_EVENT" using stream_event_io [of READ_EVENT]
    by (simp_all add: stream_event_def)
  have "fd_count (reactor_impl r) = fd_count ?i + 1"
    using register_law [OF assms(1,2) coh io(1) assms(4), of ex x] assms(5) free reg io(2) by simp
  then have one: "fd_count (reactor_impl r) = 1" by (simp add: new_epoll_reactor_def)
  have "timeout_handlers (demux_table (reactor_impl r)) = []"
    using register_handler_table [OF reg]
    by (simp add: bindNew_def Let_def event_defs new_epoll_reactor_def new_repo_def)
  then have "op_handle_events ?ops None (Reactor_start r) =
      Some (- 2, (Reactor_start r)\<lparr>reactor_impl := (reactor_impl r)\<lparr>cached_now := now, ret_events := [(0, 0)]\<rparr>\<rparr>)"
    using one by (simp add: epoll_ops_def handle_events_def hasTimeoutHandler_def epoll_wait_def Reactor_start_def Let_def)
  then show ?thesis using r(1)
    by (simp add: new_tcp_client_def client_start_def Reactor_handle_events_def Reactor_start_def status_defs)
qed


theorem client_without_connections_ends_witness:
  "\<exists>cl cl'. new_tcp_client 8 (epoll_ops (\<lambda>_. None) ideal_ctl log_call (\<lambda>_ _ _. Ready []) 0) (new_epoll_reactor 3 (\<lambda>_. None) []) 5 1
      (new_buffer 1 2) (new_buffer 3 4) = Some cl \<and>
    client_start 8 (epoll_ops (\<lambda>_. None) ideal_ctl log_call (\<lambda>_ _ _. Ready []) 0) [False] cl = Some (- 2, cl') \<and>
    client_manager cl' = new_manager"
  by (rule client_without_connections_ends [OF ideal_ctl_spec ideal_ctl_accepts]) (simp_all add: new_buffer_wf)

end
