(* ===== verification/File_Reactor.thy ===== *)
theory File_Reactor
  imports Reactor_Facade
begin

text \<open>
  \<open>FileReactorImpl\<close> (\<open>src/reactor/file_reactor_impl.cpp\<close>), the implementation of the reactor for files, which are always
  ready: it waits for nothing and calls every handler of its table in every turn. The functions for timeout handlers
  only throw. The world of the handlers is part of the state, so that a callback may change the reactor.
\<close>

subsection \<open>State and registration\<close>

record 'w file_reactor =
  file_fd_count :: int
  file_demux :: event_repo
  file_world :: 'w

definition new_file_reactor :: "'w \<Rightarrow> 'w file_reactor" where
  "new_file_reactor w = \<lparr>file_fd_count = 0, file_demux = new_repo, file_world = w\<rparr>"

definition fr_register_handler :: "(handler \<Rightarrow> int option) \<Rightarrow> int \<Rightarrow> handler option \<Rightarrow> event_type \<Rightarrow>
    'w file_reactor \<Rightarrow> int \<times> 'w file_reactor" where
  "fr_register_handler ex handle h type r =
     (if handle = INVALID_HANDLE \<or> h = None \<or> type = NONE then (- 1, r)
      else if getHandler (file_demux r) handle type \<noteq> None then (- 1, r)
      else let (ret, d) = bindNew ex (file_demux r) handle type h; r1 = r\<lparr>file_demux := d\<rparr>
           in (ret, if ret = 0 then r1\<lparr>file_fd_count := file_fd_count r1 + 1\<rparr> else r1))"

definition fr_unregister_handler :: "(handler \<Rightarrow> int option) \<Rightarrow> int \<Rightarrow> handler option \<Rightarrow> event_type \<Rightarrow>
    'w file_reactor \<Rightarrow> (int \<times> 'w file_reactor) option" where
  "fr_unregister_handler ex handle h type r =
     (if handle = INVALID_HANDLE \<or> h = None \<or> type = NONE then Some (- 1, r)
      else if getHandler (file_demux r) handle type = None then Some (- 1, r)
      else do {
        (ret, d) \<leftarrow> unbind ex (file_demux r) handle type h;
        let r1 = r\<lparr>file_demux := d\<rparr>;
        Some (ret, if ret = 0 then r1\<lparr>file_fd_count := file_fd_count r1 - 1\<rparr> else r1)
      })"

subsection \<open>Dispatching\<close>

type_synonym 'w file_callbacks =
  "callback \<Rightarrow> handler \<Rightarrow> int \<Rightarrow> 'w file_reactor \<Rightarrow> int \<times> 'w file_reactor"

text \<open>\<open>dispatch(handle, type, handler)\<close>; the handlers of the table are never null.\<close>

definition fr_dispatch_one :: "'w file_callbacks \<Rightarrow> int \<Rightarrow> event_type \<Rightarrow> handler \<Rightarrow> 'w file_reactor \<Rightarrow> int \<times> 'w file_reactor" where
  "fr_dispatch_one cb handle type x r =
     (if type = READ_EVENT then cb Handle_input x handle r
      else if type = WRITE_EVENT then cb Handle_output x handle r
      else (- 1, r))"

text \<open>
  The inner loop goes over the map of handlers as it was copied before, the outer one over the copied set of handles,
  both in increasing order.
\<close>

fun fr_dispatch_handlers :: "'w file_callbacks \<Rightarrow> int \<Rightarrow> (event_type \<times> handler) list \<Rightarrow> int \<Rightarrow> 'w file_reactor \<Rightarrow>
    int \<times> 'w file_reactor" where
  "fr_dispatch_handlers cb handle [] n r = (n, r)"
| "fr_dispatch_handlers cb handle ((type, x) # ps) n r =
     (let (ret, r1) = fr_dispatch_one cb handle type x r;
          r2 = (if ret < 0 then snd (cb Handle_close x handle r1) else r1)
      in fr_dispatch_handlers cb handle ps (n + 1) r2)"

fun fr_dispatch_handles :: "'w file_callbacks \<Rightarrow> int list \<Rightarrow> int \<Rightarrow> 'w file_reactor \<Rightarrow> (int \<times> 'w file_reactor) option" where
  "fr_dispatch_handles cb [] n r = Some (n, r)"
| "fr_dispatch_handles cb (handle # hs) n r = do {
     handlers \<leftarrow> getHandlers (file_demux r) handle;
     let (n1, r1) = fr_dispatch_handlers cb handle (sort_key fst handlers) n r;
     fr_dispatch_handles cb hs n1 r1
   }"

definition fr_dispatch :: "'w file_callbacks \<Rightarrow> int \<Rightarrow> 'w file_reactor \<Rightarrow> (int \<times> 'w file_reactor) option" where
  "fr_dispatch cb active r = do {
     (n, r1) \<leftarrow> fr_dispatch_handles cb (sorted_list_of_set (Event_Repo.handle_set (file_demux r))) 0 r;
     Some (active - n, r1)
   }"

definition fr_handle_events :: "'w file_callbacks \<Rightarrow> 'w file_reactor \<Rightarrow> (int \<times> 'w file_reactor) option" where
  "fr_handle_events cb r =
     (if Event_Repo.handle_set (file_demux r) = {} then Some (- 1, r) else fr_dispatch cb (file_fd_count r) r)"


subsection \<open>Registrations\<close>

text \<open>\<open>fd_count_\<close> is the number of bound events, and only reading and writing are registered.\<close>

definition stream_rows :: "event_repo \<Rightarrow> bool" where
  "stream_rows d \<longleftrightarrow> (\<forall>evs \<in> set (events_table d). \<forall>p \<in> set evs. stream_event (fst p))"

definition file_coherent :: "'w file_reactor \<Rightarrow> bool" where
  "file_coherent r \<longleftrightarrow> repo_ok (file_demux r) \<and> file_fd_count r = int (bound_events (file_demux r)) \<and>
     stream_rows (file_demux r)"

lemma bind_stream_rows:
  assumes "stream_rows d" and "stream_event e"
  shows "stream_rows (snd (bindNew ex d h e (Some x)))"
proof -
  let ?tab = "grow (nat (h mod 2 ^ 32) + 1) [] (events_table d)"
  have tab: "\<forall>evs \<in> set ?tab. \<forall>p \<in> set evs. stream_event (fst p)"
  proof (intro ballI)
    fix evs p
    assume "evs \<in> set ?tab" and "p \<in> set evs"
    then show "stream_event (fst p)"
      using subsetD [OF set_grow [of "nat (h mod 2 ^ 32) + 1" "[]" "events_table d"], of evs] assms(1)
      by (auto simp: stream_rows_def)
  qed
  then have row: "\<forall>p \<in> set (?tab ! nat (h mod 2 ^ 32)). stream_event (fst p)"
    by (rule bspec) (rule nth_mem, simp)
  have "stream_event (fst p)" if "p \<in> set (AList.update e x (?tab ! nat (h mod 2 ^ 32)))" for p
    using that row assms(2) AList.dom_update [of e x "?tab ! nat (h mod 2 ^ 32)"] by force
  then have "\<forall>evs \<in> set (?tab[nat (h mod 2 ^ 32) := AList.update e x (?tab ! nat (h mod 2 ^ 32))]). \<forall>p \<in> set evs. stream_event (fst p)"
    using tab set_update_subset_insert [of ?tab "nat (h mod 2 ^ 32)"] by fast
  moreover have "e \<noteq> ACCEPT_EVENT" using assms(2) by (auto simp: stream_event_def event_defs)
  ultimately show ?thesis using assms(1) by (auto simp: bindNew_def Let_def stream_rows_def split: option.splits)
qed

lemma unbind_stream_rows:
  assumes "stream_rows d" and "unbind ex d h e x = Some (c, d')"
  shows "stream_rows d'"
proof -
  have "events_table d' = events_table d \<or>
      nat h < length (events_table d) \<and> events_table d' = (events_table d)[nat h := AList.delete e (events_table d ! nat h)]"
    using assms(2) by (auto simp: unbind_def at_def Let_def split: option.splits if_splits bind_splits)
  then show ?thesis
  proof (elim disjE conjE)
    assume n: "nat h < length (events_table d)"
      "events_table d' = (events_table d)[nat h := AList.delete e (events_table d ! nat h)]"
    have "\<forall>p \<in> set (AList.delete e (events_table d ! nat h)). stream_event (fst p)"
      using assms(1) nth_mem [OF n(1)] by (auto simp: stream_rows_def AList.delete_eq)
    then show ?thesis
      using assms(1) n set_update_subset_insert [of "events_table d" "nat h"] by (fastforce simp: stream_rows_def)
  qed (use assms(1) in \<open>simp add: stream_rows_def\<close>)
qed

lemma fr_register_law:
  assumes "file_coherent r" and "0 \<le> h" and "h < 2147483648" and "stream_event e"
    and "repo_lookup (file_demux r) h e = None"
  shows "\<exists>r'. fr_register_handler ex h (Some x) e r = (0, r') \<and> file_coherent r' \<and>
    (\<forall>h' e'. repo_lookup (file_demux r') h' e' = (if h' = h \<and> e' = e then Some x else repo_lookup (file_demux r) h' e'))"
proof -
  have ok: "repo_ok (file_demux r)" using assms(1) by (simp add: file_coherent_def)
  note v = stream_event_valid [OF assms(4,2,3)]
  obtain d where d: "bindNew ex (file_demux r) h e (Some x) = (0, d)" "repo_ok d"
    "\<And>h' e'. repo_lookup d h' e' = (if h' = h \<and> e' = e then Some x else repo_lookup (file_demux r) h' e')"
    using repo_bind_law [OF ok v, of ex x] by blast
  have "bound_events d = Suc (bound_events (file_demux r))" using bind_count [OF ok v assms(5), of ex x] d(1) by simp
  then have "file_coherent (r\<lparr>file_demux := d, file_fd_count := file_fd_count r + 1\<rparr>)"
    using assms(1,4) d(1,2) bind_stream_rows [of "file_demux r" e ex h x] by (simp add: file_coherent_def)
  moreover have "fr_register_handler ex h (Some x) e r = (0, r\<lparr>file_demux := d, file_fd_count := file_fd_count r + 1\<rparr>)"
    using assms(2,3,5) d(1) stream_event_io [OF assms(4)]
    by (auto simp: fr_register_handler_def repo_lookup_def INVALID_HANDLE_def)
  ultimately show ?thesis using d(3) by simp
qed

lemma fr_register_refused:
  assumes "0 \<le> h" and "h < 2147483648" and "repo_lookup (file_demux r) h e \<noteq> None"
  shows "fr_register_handler ex h (Some x) e r = (- 1, r)"
  using assms by (auto simp: fr_register_handler_def repo_lookup_def)

lemma fr_unregister_law:
  assumes "file_coherent r" and "0 \<le> h" and "h < 2147483648" and "stream_event e"
    and "repo_lookup (file_demux r) h e = Some x"
  shows "\<exists>r'. fr_unregister_handler ex h (Some x) e r = Some (0, r') \<and> file_coherent r' \<and>
    (\<forall>h' e'. repo_lookup (file_demux r') h' e' = (if h' = h \<and> e' = e then None else repo_lookup (file_demux r) h' e'))"
proof -
  have ok: "repo_ok (file_demux r)" using assms(1) by (simp add: file_coherent_def)
  note v = stream_event_valid [OF assms(4,2,3)]
  obtain d where d: "unbind ex (file_demux r) h e (Some x) = Some (0, d)" "repo_ok d"
    "\<And>h' e'. repo_lookup d h' e' = (if h' = h \<and> e' = e then None else repo_lookup (file_demux r) h' e')"
    using repo_unbind_law [OF ok v assms(5), of ex] by blast
  have "Suc (bound_events d) = bound_events (file_demux r)" using unbind_count [OF ok v assms(5) d(1)] .
  then have "file_coherent (r\<lparr>file_demux := d, file_fd_count := file_fd_count r - 1\<rparr>)"
    using assms(1) d(2) unbind_stream_rows [OF _ d(1)] by (simp add: file_coherent_def)
  moreover have "fr_unregister_handler ex h (Some x) e r = Some (0, r\<lparr>file_demux := d, file_fd_count := file_fd_count r - 1\<rparr>)"
    using assms(2,3,5) d(1) stream_event_io [OF assms(4)]
    by (auto simp: fr_unregister_handler_def repo_lookup_def INVALID_HANDLE_def)
  ultimately show ?thesis using d(3) by simp
qed

text \<open>The functions for timeout handlers throw an exception that nobody catches: they are undefined here.\<close>

definition file_ops :: "(handler \<Rightarrow> int option) \<Rightarrow> 'w file_callbacks \<Rightarrow> 'w file_reactor reactor_ops" where
  "file_ops ex cb =
     \<lparr>op_register_timeout = (\<lambda>h type i. None),
      op_register = (\<lambda>handle h type i. Some (fr_register_handler ex handle h type i)),
      op_unregister_timeout = (\<lambda>h type i. None),
      op_unregister = fr_unregister_handler ex,
      op_handle_events = (\<lambda>timeout r. do {
        (ret, i) \<leftarrow> fr_handle_events cb (reactor_impl r);
        Some (ret, r\<lparr>reactor_impl := i\<rparr>)
      }),
      op_isWaiting = (\<lambda>_. False)\<rparr>"

interpretation filer: reactor_implementation "file_ops ex cb" file_coherent "\<lambda>i. repo_lookup (file_demux i)"
proof (unfold_locales, goal_cases)
  case (1 i h e x)
  then show ?case using fr_register_law [of i h e ex x] by (auto simp: file_ops_def)
next
  case (2 i h e x)
  then show ?case using fr_register_refused [of h i e ex x] by (auto simp: file_ops_def)
next
  case (3 i h e x)
  then show ?case using fr_unregister_law [of i h e x ex] by (auto simp: file_ops_def)
qed


subsection \<open>A turn\<close>

text \<open>
  Handlers that touch the registrations of their own handle only, as a \<open>FileConnectionHandler\<close> does that fails at
  the end of its file and is then closed: a callback is logged, its answer in this turn is \<open>ans\<close>, and the handlers of the other
  handles stay as they are.
\<close>

definition file_local :: "(callback \<Rightarrow> handler \<Rightarrow> int \<Rightarrow> int) \<Rightarrow> call list file_callbacks \<Rightarrow> bool" where
  "file_local ans cb \<longleftrightarrow> (\<forall>c x fd r. fst (cb c x fd r) = ans c x fd \<and>
     file_world (snd (cb c x fd r)) = file_world r @ [(c, x, fd)] \<and>
     (\<forall>h. h \<noteq> fd \<longrightarrow> getHandlers (file_demux (snd (cb c x fd r))) h = getHandlers (file_demux r) h))"

lemma file_localD:
  assumes "file_local ans cb"
  obtains r' where "cb c x fd r = (ans c x fd, r')" and "file_world r' = file_world r @ [(c, x, fd)]"
    and "\<And>h. h \<noteq> fd \<Longrightarrow> getHandlers (file_demux r') h = getHandlers (file_demux r) h"
  using assms unfolding file_local_def by (metis prod.collapse)

text \<open>The calls for one event of a handle, with \<open>handle_close\<close> after a failure, and those for a list of handles.\<close>

definition file_call :: "(callback \<Rightarrow> handler \<Rightarrow> int \<Rightarrow> int) \<Rightarrow> int \<Rightarrow> event_type \<times> handler \<Rightarrow> call list" where
  "file_call ans handle p =
     (let c = (if fst p = READ_EVENT then Handle_input else Handle_output)
      in (c, snd p, handle) # (if ans c (snd p) handle < 0 then [(Handle_close, snd p, handle)] else []))"

definition file_calls :: "(callback \<Rightarrow> handler \<Rightarrow> int \<Rightarrow> int) \<Rightarrow> (int \<Rightarrow> (event_type \<times> handler) list) \<Rightarrow> int list \<Rightarrow> call list" where
  "file_calls ans evs_of hs = concat (map (\<lambda>h. concat (map (file_call ans h) (sort_key fst (evs_of h)))) hs)"

lemma dispatch_handlers_law:
  assumes "file_local ans cb" and "\<forall>p \<in> set ps. stream_event (fst p)"
  shows "\<exists>r'. fr_dispatch_handlers cb h ps n r = (n + int (length ps), r') \<and>
    file_world r' = file_world r @ concat (map (file_call ans h) ps) \<and>
    (\<forall>g. g \<noteq> h \<longrightarrow> getHandlers (file_demux r') g = getHandlers (file_demux r) g)"
  using assms(2)
proof (induction ps arbitrary: n r)
  case (Cons p ps)
  obtain type x where p: "p = (type, x)" by (cases p)
  define c where "c = (if type = READ_EVENT then Handle_input else Handle_output)"
  have e: "type = READ_EVENT \<or> type = WRITE_EVENT" using Cons.prems p by (simp add: stream_event_def)
  obtain r1 where r1: "cb c x h r = (ans c x h, r1)" "file_world r1 = file_world r @ [(c, x, h)]"
      "\<And>g. g \<noteq> h \<Longrightarrow> getHandlers (file_demux r1) g = getHandlers (file_demux r) g"
    using file_localD [OF assms(1), of c x h r] by metis
  have one: "fr_dispatch_one cb h type x r = (ans c x h, r1)"
    using r1(1) e by (auto simp: fr_dispatch_one_def c_def event_defs)
  define r2 where "r2 = (if ans c x h < 0 then snd (cb Handle_close x h r1) else r1)"
  obtain r3 where r3: "cb Handle_close x h r1 = (ans Handle_close x h, r3)"
      "file_world r3 = file_world r1 @ [(Handle_close, x, h)]"
      "\<And>g. g \<noteq> h \<Longrightarrow> getHandlers (file_demux r3) g = getHandlers (file_demux r1) g"
    using file_localD [OF assms(1), of Handle_close x h r1] by metis
  have r2: "file_world r2 = file_world r @ file_call ans h p"
    "\<And>g. g \<noteq> h \<Longrightarrow> getHandlers (file_demux r2) g = getHandlers (file_demux r) g"
    using r1(2,3) r3 by (simp_all add: r2_def file_call_def p c_def Let_def)
  obtain r' where "fr_dispatch_handlers cb h ps (n + 1) r2 = (n + 1 + int (length ps), r')"
      "file_world r' = file_world r2 @ concat (map (file_call ans h) ps)"
      "\<forall>g. g \<noteq> h \<longrightarrow> getHandlers (file_demux r') g = getHandlers (file_demux r2) g"
    using Cons.IH [of "n + 1" r2] Cons.prems by auto
  then show ?case using one r2 p by (auto simp: r2_def)
qed simp

lemma file_table_events:
  assumes "file_coherent r" and "h \<in> Event_Repo.handle_set (file_demux r)"
  shows "\<forall>p \<in> set (events_table (file_demux r) ! nat h). stream_event (fst p)"
  using assms repo_at [of "file_demux r" h] nth_mem [of "nat h" "events_table (file_demux r)"]
  by (auto simp: file_coherent_def stream_rows_def)

lemma dispatch_handles_law:
  assumes l: "file_local ans cb" and "distinct hs"
    and "\<forall>h \<in> set hs. getHandlers (file_demux r) h = Some (evs_of h) \<and> (\<forall>p \<in> set (evs_of h). stream_event (fst p))"
  shows "\<exists>r'. fr_dispatch_handles cb hs n r = Some (n + int (sum_list (map (\<lambda>h. length (evs_of h)) hs)), r') \<and>
    file_world r' = file_world r @ file_calls ans evs_of hs"
  using assms(2,3)
proof (induction hs arbitrary: n r)
  case Nil
  then show ?case by (simp add: file_calls_def)
next
  case (Cons h hs)
  have h: "getHandlers (file_demux r) h = Some (evs_of h)" "\<forall>p \<in> set (sort_key fst (evs_of h)). stream_event (fst p)"
    using Cons.prems(2) by simp_all
  obtain r1 where r1: "fr_dispatch_handlers cb h (sort_key fst (evs_of h)) n r = (n + int (length (evs_of h)), r1)"
      "file_world r1 = file_world r @ concat (map (file_call ans h) (sort_key fst (evs_of h)))"
      "\<forall>g. g \<noteq> h \<longrightarrow> getHandlers (file_demux r1) g = getHandlers (file_demux r) g"
    using dispatch_handlers_law [OF l h(2), of h n r] by auto
  have "\<forall>g \<in> set hs. getHandlers (file_demux r1) g = Some (evs_of g) \<and> (\<forall>p \<in> set (evs_of g). stream_event (fst p))"
    using r1(3) Cons.prems by auto
  then obtain r' where "fr_dispatch_handles cb hs (n + int (length (evs_of h))) r1 =
        Some (n + int (length (evs_of h)) + int (sum_list (map (\<lambda>h. length (evs_of h)) hs)), r')"
      "file_world r' = file_world r1 @ file_calls ans evs_of hs"
    using Cons.IH [of r1 "n + int (length (evs_of h))"] Cons.prems(1) by auto
  then show ?case using h(1) r1 by (simp add: file_calls_def)
qed

text \<open>All bound events are those of the handles in the handle set.\<close>

lemma bound_events_handles:
  assumes "repo_ok d"
  shows "sum_list (map (\<lambda>h. length (events_table d ! nat h)) (sorted_list_of_set (Event_Repo.handle_set d))) = bound_events d"
proof -
  let ?n = "length (events_table d)"
  have hs: "Event_Repo.handle_set d = int ` {i. i < ?n \<and> events_table d ! i \<noteq> []}"
  proof (rule set_eqI)
    fix h
    show "h \<in> Event_Repo.handle_set d \<longleftrightarrow> h \<in> int ` {i. i < ?n \<and> events_table d ! i \<noteq> []}"
      using assms by (cases h) (auto simp: repo_ok_def image_iff)
  qed
  have fin: "finite (Event_Repo.handle_set d)" by (simp add: hs)
  have "sum_list (map (\<lambda>h. length (events_table d ! nat h)) (sorted_list_of_set (Event_Repo.handle_set d))) =
      (\<Sum>h \<in> Event_Repo.handle_set d. length (events_table d ! nat h))"
    using fin by (simp add: sum_list_distinct_conv_sum_set)
  also have "\<dots> = (\<Sum>i \<in> {i. i < ?n \<and> events_table d ! i \<noteq> []}. length (events_table d ! i))"
    unfolding hs by (subst sum.reindex) simp_all
  also have "\<dots> = (\<Sum>i \<in> {..< ?n}. length (events_table d ! i))"
    by (rule sum.mono_neutral_left) auto
  also have "\<dots> = bound_events d"
    by (simp add: bound_events_def sum_list_sum_nth atLeast0LessThan)
  finally show ?thesis .
qed

text \<open>
  C30. One turn of the file reactor, for handlers that touch the registrations of their own handle only and may fail: on a
  table of read and write events it calls the handler of every bound event exactly once, by increasing handle and with
  reading before writing, and \<open>handle_close\<close> of the handler right after a call that answers less than 0; it counts the
  bound events and answers 0. Without handlers it answers \<open>-1\<close> and calls nobody.
\<close>

theorem file_turn:
  assumes "file_local ans cb" and "file_coherent r"
  shows "if Event_Repo.handle_set (file_demux r) = {} then fr_handle_events cb r = Some (- 1, r)
    else \<exists>r'. fr_handle_events cb r = Some (0, r') \<and> file_world r' = file_world r @
      file_calls ans (\<lambda>h. events_table (file_demux r) ! nat h) (sorted_list_of_set (Event_Repo.handle_set (file_demux r)))"
proof (cases "Event_Repo.handle_set (file_demux r) = {}")
  case True
  then show ?thesis by (simp add: fr_handle_events_def)
next
  case False
  let ?hs = "sorted_list_of_set (Event_Repo.handle_set (file_demux r))"
  let ?rows = "\<lambda>h. events_table (file_demux r) ! nat h"
  have ok: "repo_ok (file_demux r)" and count: "file_fd_count r = int (bound_events (file_demux r))"
    using assms(2) by (simp_all add: file_coherent_def)
  have sub: "set ?hs \<subseteq> Event_Repo.handle_set (file_demux r)"
    by (cases "finite (Event_Repo.handle_set (file_demux r))") simp_all
  have "getHandlers (file_demux r) h = Some (?rows h) \<and> (\<forall>p \<in> set (?rows h). stream_event (fst p))" if "h \<in> set ?hs" for h
    using that sub repo_at [OF ok, of h] file_table_events [OF assms(2), of h] by (auto simp: getHandlers_def)
  then show ?thesis
    using False dispatch_handles_law [OF assms(1), of ?hs r ?rows 0] bound_events_handles [OF ok] count
    by (auto simp: fr_handle_events_def fr_dispatch_def)
qed

text \<open>A handler that fails and unregisters itself, as at the end of its file.\<close>

definition eof_call :: "call list file_callbacks" where
  "eof_call c x fd r =
     (case fr_unregister_handler (\<lambda>_. None) fd (Some x) READ_EVENT r of
        None \<Rightarrow> (- 1, r\<lparr>file_world := file_world r @ [(c, x, fd)]\<rparr>)
      | Some (_, r1) \<Rightarrow> (- 1, r1\<lparr>file_world := file_world r1 @ [(c, x, fd)]\<rparr>))"

lemma unregister_other_handles:
  assumes "fr_unregister_handler ex fd x e r = Some (c, r')" and "h \<noteq> fd" and "e \<noteq> TIMEOUT_EVENT"
  shows "getHandlers (file_demux r') h = getHandlers (file_demux r) h \<and> file_world r' = file_world r"
proof -
  obtain d' where d': "file_demux r' = d'" "file_world r' = file_world r"
      "d' = file_demux r \<or> (\<exists>c. unbind ex (file_demux r) fd e x = Some (c, d'))"
    using assms(1) by (auto simp: fr_unregister_handler_def Let_def split: if_splits bind_splits)
  have "getHandlers d' h = getHandlers (file_demux r) h" if "unbind ex (file_demux r) fd e x = Some (c, d')" for c
    using that assms(2,3)
    by (auto simp: unbind_def getHandlers_def at_def nat_eq_iff nth_list_update Let_def split: option.splits if_splits bind_splits)
  then show ?thesis using d' by auto
qed

lemma eof_call_local: "file_local (\<lambda>_ _ _. - 1) eof_call"
  unfolding file_local_def
proof (intro allI conjI impI)
  fix c x fd h and r :: "call list file_reactor"
  show "fst (eof_call c x fd r) = - 1" by (simp add: eof_call_def split: option.split)
  have w: "file_world r1 = file_world r \<and> (h \<noteq> fd \<longrightarrow> getHandlers (file_demux r1) h = getHandlers (file_demux r) h)"
    if "fr_unregister_handler (\<lambda>_. None) fd (Some x) READ_EVENT r = Some (a, r1)" for a r1 h
    using unregister_other_handles [OF that, of h] unregister_other_handles [OF that, of "fd + 1"]
    by (auto simp: event_defs)
  show "file_world (snd (eof_call c x fd r)) = file_world r @ [(c, x, fd)]"
    using w by (auto simp: eof_call_def split: option.split)
  show "getHandlers (file_demux (snd (eof_call c x fd r))) h = getHandlers (file_demux r) h" if "h \<noteq> fd"
    using w [of _ _ h] that by (auto simp: eof_call_def split: option.split)
qed

definition sample_file_reactor :: "call list file_reactor" where
  "sample_file_reactor = \<lparr>file_fd_count = 2,
     file_demux = \<lparr>handle_set = {1}, events_table = [[], [(WRITE_EVENT, 8), (READ_EVENT, 7)]], timeout_handlers = []\<rparr>,
     file_world = []\<rparr>"

theorem file_turn_witness:
  "\<exists>r'. fr_handle_events eof_call sample_file_reactor = Some (0, r') \<and>
     file_world r' = [(Handle_input, 7, 1), (Handle_close, 7, 1), (Handle_output, 8, 1), (Handle_close, 8, 1)]"
proof -
  have tab: "h \<in> {1} \<longleftrightarrow> 0 \<le> h \<and> h < 2 \<and> [[], [(WRITE_EVENT, 8), (READ_EVENT, 7)]] ! nat h \<noteq> []" for h :: int
  proof -
    have "h = 0 \<or> h = 1 \<or> h < 0 \<or> 2 \<le> h" by linarith
    then show ?thesis by auto
  qed
  have "file_coherent sample_file_reactor"
    using tab by (auto simp: file_coherent_def sample_file_reactor_def repo_ok_def bound_events_def stream_rows_def
        stream_event_def event_defs)
  from file_turn [OF eof_call_local this] obtain r' where
    "fr_handle_events eof_call sample_file_reactor = Some (0, r')"
    "file_world r' = file_world sample_file_reactor @ file_calls (\<lambda>_ _ _. - 1)
      (\<lambda>h. events_table (file_demux sample_file_reactor) ! nat h)
      (sorted_list_of_set (Event_Repo.handle_set (file_demux sample_file_reactor)))"
    by (auto simp: sample_file_reactor_def)
  moreover have "\<not> (4 :: 32 word) \<le> 1" by (simp add: word_le_nat_alt)
  ultimately show ?thesis by (simp add: sample_file_reactor_def file_calls_def file_call_def event_defs)
qed

end
