(* ===== verification/Date_Util.thy ===== *)
theory Date_Util
  imports Unp_Prelude "HOL-Library.Signed_Division"
begin

text \<open>
  \<open>util::Date\<close> (\<open>src/util/unp_date.cpp\<close>, \<open>.h\<close>): dates as Julian day numbers. The arithmetic is that of \<open>int\<close>: division
  truncates towards zero, and a result outside of 32 bits is undefined (\<open>None\<close>). Printing a date is not modelled.
\<close>

subsection \<open>The conversions\<close>

definition int32 :: "int \<Rightarrow> int option" where
  "int32 v = (if - 2147483648 \<le> v \<and> v \<le> 2147483647 then Some v else None)"

record YearMonthDay =
  year :: int
  month :: int
  day :: int

definition getJulianDayNumber :: "int \<Rightarrow> int \<Rightarrow> int \<Rightarrow> int option" where
  "getJulianDayNumber yy mm dd = do {
     n \<leftarrow> int32 (14 - mm);
     let a = n sdiv 12;
     y0 \<leftarrow> int32 (yy + 4800);
     y \<leftarrow> int32 (y0 - a);
     m0 \<leftarrow> int32 (mm + 12 * a);
     m \<leftarrow> int32 (m0 - 3);
     p0 \<leftarrow> int32 (153 * m);
     p \<leftarrow> int32 (p0 + 2);
     s1 \<leftarrow> int32 (dd + p sdiv 5);
     q \<leftarrow> int32 (y * 365);
     s2 \<leftarrow> int32 (s1 + q);
     s3 \<leftarrow> int32 (s2 + y sdiv 4);
     s4 \<leftarrow> int32 (s3 - y sdiv 100);
     s5 \<leftarrow> int32 (s4 + y sdiv 400);
     int32 (s5 - 32045)
   }"

definition getYearMonthDay :: "int \<Rightarrow> YearMonthDay option" where
  "getYearMonthDay julianDayNumber = do {
     a \<leftarrow> int32 (julianDayNumber + 32044);
     a4 \<leftarrow> int32 (4 * a);
     a43 \<leftarrow> int32 (a4 + 3);
     let b = a43 sdiv 146097;
     b1 \<leftarrow> int32 (b * 146097);
     c \<leftarrow> int32 (a - b1 sdiv 4);
     c4 \<leftarrow> int32 (4 * c);
     c43 \<leftarrow> int32 (c4 + 3);
     let d = c43 sdiv 1461;
     d1 \<leftarrow> int32 (1461 * d);
     e \<leftarrow> int32 (c - d1 sdiv 4);
     e5 \<leftarrow> int32 (5 * e);
     e52 \<leftarrow> int32 (e5 + 2);
     let m = e52 sdiv 153;
     p0 \<leftarrow> int32 (153 * m);
     p \<leftarrow> int32 (p0 + 2);
     dy0 \<leftarrow> int32 (e - p sdiv 5);
     dy \<leftarrow> int32 (dy0 + 1);
     m3 \<leftarrow> int32 (m + 3);
     mo \<leftarrow> int32 (m3 - 12 * (m sdiv 10));
     b100 \<leftarrow> int32 (b * 100);
     y0 \<leftarrow> int32 (b100 + d);
     y1 \<leftarrow> int32 (y0 - 4800);
     yr \<leftarrow> int32 (y1 + m sdiv 10);
     Some \<lparr>year = yr, month = mo, day = dy\<rparr>
   }"

text \<open>A \<open>Date\<close> is its day number; \<open>Date(const struct tm&)\<close> counts years from 1900 and months from 0.\<close>

record Date =
  m_julianDayNumber :: int

definition new_Date :: "int \<Rightarrow> int \<Rightarrow> int \<Rightarrow> Date option" where
  "new_Date y m d = do { n \<leftarrow> getJulianDayNumber y m d; Some \<lparr>m_julianDayNumber = n\<rparr> }"

definition Date_of_tm :: "int \<Rightarrow> int \<Rightarrow> int \<Rightarrow> Date option" where
  "Date_of_tm tm_year tm_mon tm_mday = do {
     y \<leftarrow> int32 (tm_year + 1900);
     m \<leftarrow> int32 (tm_mon + 1);
     new_Date y m tm_mday
   }"

definition yearMonthDay :: "Date \<Rightarrow> YearMonthDay option" where
  "yearMonthDay t = getYearMonthDay (m_julianDayNumber t)"

definition get_year :: "Date \<Rightarrow> int option" where
  "get_year t = map_option year (yearMonthDay t)"

definition get_month :: "Date \<Rightarrow> int option" where
  "get_month t = map_option month (yearMonthDay t)"

definition get_day :: "Date \<Rightarrow> int option" where
  "get_day t = map_option day (yearMonthDay t)"

definition Date_less :: "Date \<Rightarrow> Date \<Rightarrow> bool" where
  "Date_less x y \<longleftrightarrow> m_julianDayNumber x < m_julianDayNumber y"

definition Date_equal :: "Date \<Rightarrow> Date \<Rightarrow> bool" where
  "Date_equal x y \<longleftrightarrow> m_julianDayNumber x = m_julianDayNumber y"

subsection \<open>The Gregorian calendar\<close>

definition leap :: "int \<Rightarrow> bool" where
  "leap y \<longleftrightarrow> y mod 4 = 0 \<and> (y mod 100 \<noteq> 0 \<or> y mod 400 = 0)"

lemma leap_shift: "leap (y + 4800) = leap y"
proof -
  have "(y + 1200 * 4) mod 4 = y mod 4" "(y + 48 * 100) mod 100 = y mod 100" "(y + 12 * 400) mod 400 = y mod 400"
    by (simp_all only: mod_mult_self1)
  then show ?thesis by (simp add: leap_def)
qed

definition days_in_month :: "int \<Rightarrow> int \<Rightarrow> int" where
  "days_in_month y m =
     (if m = 2 then if leap y then 29 else 28
      else if m = 4 \<or> m = 6 \<or> m = 9 \<or> m = 11 then 30 else 31)"

text \<open>Years from 4799 BC up to a million.\<close>

definition valid_date :: "int \<Rightarrow> int \<Rightarrow> int \<Rightarrow> bool" where
  "valid_date y m d \<longleftrightarrow> - 4799 \<le> y \<and> y \<le> 1000000 \<and> 1 \<le> m \<and> m \<le> 12 \<and> 1 \<le> d \<and> d \<le> days_in_month y m"

text \<open>
  With the year beginning in March: \<open>y\<close> counts years from 4801 BC, \<open>m\<close> months from March, and \<open>e\<close> is the day of that
  year, from 0.
\<close>

lemma sdiv_div: "0 \<le> a \<Longrightarrow> 0 < b \<Longrightarrow> a sdiv b = a div (b :: int)"
  by (auto simp: signed_divide_int_def sgn_if)

definition day_of_year :: "int \<Rightarrow> int \<Rightarrow> int" where
  "day_of_year m d = (153 * m + 2) div 5 + d - 1"

definition days_before :: "int \<Rightarrow> int" where
  "days_before y = 365 * y + y div 4 - y div 100 + y div 400"

abbreviation before_march :: "int \<Rightarrow> int" where
  "before_march m \<equiv> (if m \<le> 2 then 1 else 0)"

lemma int32_in [simp]: "- 2147483648 \<le> v \<Longrightarrow> v \<le> 2147483647 \<Longrightarrow> int32 v = Some v"
  by (simp add: int32_def)

lemma month_cases:
  assumes "1 \<le> m" and "m \<le> (12 :: int)"
  obtains "m = 1" | "m = 2" | "m = 3" | "m = 4" | "m = 5" | "m = 6" | "m = 7" | "m = 8" | "m = 9" | "m = 10" | "m = 11" | "m = 12"
proof -
  have "m = 1 \<or> m = 2 \<or> m = 3 \<or> m = 4 \<or> m = 5 \<or> m = 6 \<or> m = 7 \<or> m = 8 \<or> m = 9 \<or> m = 10 \<or> m = 11 \<or> m = 12"
    using assms by presburger
  then show thesis using that by blast
qed

lemma day_of_year_bounds:
  assumes "valid_date y m d"
  shows "0 \<le> day_of_year (m + 12 * before_march m - 3) d \<and>
    (day_of_year (m + 12 * before_march m - 3) d \<le> 364 \<or>
     day_of_year (m + 12 * before_march m - 3) d = 365 \<and> leap (y + 1 - before_march m))"
proof -
  have "1 \<le> m" "m \<le> 12" using assms by (simp_all add: valid_date_def)
  then show ?thesis
    using assms by (cases rule: month_cases) (auto simp: valid_date_def days_in_month_def day_of_year_def split: if_splits)
qed

lemma month_of_day:
  assumes "valid_date y m d"
  shows "(5 * day_of_year (m + 12 * before_march m - 3) d + 2) div 153 = m + 12 * before_march m - 3"
proof -
  have "1 \<le> m" "m \<le> 12" using assms by (simp_all add: valid_date_def)
  then show ?thesis
    using assms by (cases rule: month_cases) (auto simp: valid_date_def days_in_month_def day_of_year_def split: if_splits)
qed

lemma days_before_century:
  "days_before y = 36524 * (y div 100) + (y div 100) div 4 + 365 * (y mod 100) + (y mod 100) div 4"
proof -
  define q r where "q = y div 100" and "r = y mod 100"
  have y: "y = 100 * q + r" "0 \<le> r" "r < 100" by (simp_all add: q_def r_def)
  have "y = r + (25 * q) * 4" using y(1) by simp
  then have "y div 4 = 25 * q + r div 4" by (simp only: div_mult_self1)
  moreover have "y div 400 = q div 4" using zdiv_zmult2_eq [of 4 y 100] by (simp add: q_def)
  moreover note y
  ultimately show ?thesis by (simp add: days_before_def q_def [symmetric] r_def [symmetric])
qed

lemma century_of_day:
  assumes "0 \<le> y" and "0 \<le> e" and "e \<le> 364 \<or> e = 365 \<and> leap (y + 1)"
  shows "(4 * (days_before y + e) + 3) div 146097 = y div 100"
    and "days_before y + e - (y div 100 * 146097) div 4 = 365 * (y mod 100) + (y mod 100) div 4 + e"
    and "(4 * (365 * (y mod 100) + (y mod 100) div 4 + e) + 3) div 1461 = y mod 100"
    and "365 * (y mod 100) + (y mod 100) div 4 + e - (1461 * (y mod 100)) div 4 = e"
proof -
  define q r where "q = y div 100" and "r = y mod 100"
  have y: "y = 100 * q + r" "0 \<le> r" "r < 100" by (simp_all add: q_def r_def)
  define j where "j = q mod 4"
  define i where "i = r mod 4"
  have j: "0 \<le> j" "j < 4" "4 * (q div 4) = q - j" and i: "0 \<le> i" "i < 4" "4 * (r div 4) = r - i"
    by (simp_all add: j_def i_def minus_mod_eq_mult_div)
  have long: "i = 3 \<and> (r = 99 \<longrightarrow> j = 3)" if "e = 365"
  proof -
    have l: "leap (y + 1)" using assms(3) that by simp
    have "y + 1 = (r + 1) + (25 * q) * 4" using y(1) by simp
    then have "(y + 1) mod 4 = (r + 1) mod 4" by (simp only: mod_mult_self1)
    then have "(r + 1) mod 4 = 0" using l by (simp add: leap_def)
    then have "i = 3" unfolding i_def by presburger
    moreover have "j = 3" if "r = 99"
    proof -
      have y1: "y + 1 = 100 * (q + 1)" using y(1) that by simp
      have "(100 * (q + 1)) mod (100 * 4) = 0" using l unfolding leap_def y1 by simp
      then have "(q + 1) mod 4 = 0" by (simp only: mod_mult_mult1)
      then show ?thesis unfolding j_def by presburger
    qed
    ultimately show ?thesis by simp
  qed
  have e: "e \<le> 365" using assms(3) by auto
  have b: "days_before y = 36524 * q + q div 4 + 365 * r + r div 4"
    using days_before_century [of y] by (simp add: q_def r_def)
  have lower: "146097 * q \<le> 4 * (days_before y + e) + 3"
  proof -
    have step: "146097 * q' \<le> 4 * (36524 * q' + u + 365 * r' + v + e) + 3"
      if "4 * u = q' - j" "0 \<le> r'" "0 \<le> v" for q' u r' v :: int
      using that assms(2) j(2) by (simp add: algebra_simps)
    show ?thesis unfolding b using j(3) y(2) by (intro step) simp_all
  qed
  have upper: "4 * (days_before y + e) + 3 < 146097 * q + 146097"
  proof (cases "e = 365")
    case True
    then show ?thesis using long b j i y(3) by (cases "r = 99") auto
  next
    case False
    then have "e \<le> 364" using assms(3) by simp
    moreover have "i = 3" if "r = 99" using that by (simp add: i_def)
    ultimately show ?thesis using b j i y(3) by (cases "r = 99") auto
  qed
  show "(4 * (days_before y + e) + 3) div 146097 = y div 100"
    unfolding q_def [symmetric] using lower upper
    by (intro int_div_pos_eq [where r = "4 * (days_before y + e) + 3 - 146097 * q"]) simp_all
  have "(q + (36524 * q) * 4) div 4 = 36524 * q + q div 4" by (simp only: div_mult_self1)
  then have "(q * 146097) div 4 = 36524 * q + q div 4" by (simp add: algebra_simps)
  then show "days_before y + e - (y div 100 * 146097) div 4 = 365 * (y mod 100) + (y mod 100) div 4 + e"
    using b by (simp add: q_def [symmetric] r_def [symmetric])
  have "1461 * r \<le> 4 * (365 * r + r div 4 + e) + 3" using i assms(2) by (simp add: algebra_simps)
  moreover have "4 * (365 * r + r div 4 + e) + 3 < 1461 * r + 1461"
    using long i e assms(3) by (cases "e = 365") auto
  ultimately show "(4 * (365 * (y mod 100) + (y mod 100) div 4 + e) + 3) div 1461 = y mod 100"
    unfolding r_def [symmetric]
    by (intro int_div_pos_eq [where r = "4 * (365 * r + r div 4 + e) + 3 - 1461 * r"]) simp_all
  have "(r + (365 * r) * 4) div 4 = 365 * r + r div 4" by (simp only: div_mult_self1)
  then have "(1461 * r) div 4 = 365 * r + r div 4" by (simp add: algebra_simps)
  then show "365 * (y mod 100) + (y mod 100) div 4 + e - (1461 * (y mod 100)) div 4 = e"
    by (simp add: r_def [symmetric])
qed

subsection \<open>Both directions\<close>

lemma quarter_bounds:
  assumes "0 \<le> y" and "y \<le> (1004800 :: int)"
  shows "0 \<le> y div 4" and "y div 4 \<le> 251200" and "0 \<le> y div 100" and "y div 100 \<le> 10048"
    and "0 \<le> y div 400" and "y div 400 \<le> 2512"
  using assms by auto

lemma days_before_bounds:
  assumes "0 \<le> y" and "y \<le> 1004800"
  shows "0 \<le> days_before y" and "days_before y \<le> 367005712"
proof -
  have "y div 100 \<le> y div 4" using assms(1) by (intro zdiv_mono2) auto
  then show "0 \<le> days_before y" "days_before y \<le> 367005712"
    using assms quarter_bounds [OF assms] unfolding days_before_def by linarith+
qed

lemma julian_day_number:
  assumes "valid_date yy mm dd"
  shows "getJulianDayNumber yy mm dd =
    Some (days_before (yy + 4800 - before_march mm) + day_of_year (mm + 12 * before_march mm - 3) dd - 32044)"
proof -
  define y where "y = yy + 4800 - before_march mm"
  define m where "m = mm + 12 * before_march mm - 3"
  have mm: "1 \<le> mm" "mm \<le> 12" and yy: "- 4799 \<le> yy" "yy \<le> 1000000" and dd: "1 \<le> dd" "dd \<le> 31"
    using assms by (auto simp: valid_date_def days_in_month_def split: if_splits)
  have a: "(14 - mm) sdiv 12 = before_march mm"
    using mm by (subst sdiv_div) (auto split: if_splits)
  have y: "0 \<le> y" "y \<le> 1004800" and m: "0 \<le> m" "m \<le> 11" using yy mm by (auto simp: y_def m_def)
  have p: "(153 * m + 2) sdiv 5 = (153 * m + 2) div 5" "0 \<le> (153 * m + 2) div 5" "(153 * m + 2) div 5 \<le> 337"
    using m by (simp_all add: sdiv_div)
  have q: "y sdiv 4 = y div 4" "y sdiv 100 = y div 100" "y sdiv 400 = y div 400" using y by (simp_all add: sdiv_div)
  note r = quarter_bounds [OF y]
  have "getJulianDayNumber yy mm dd =
      Some (dd + (153 * m + 2) div 5 + y * 365 + y div 4 - y div 100 + y div 400 - 32045)"
    using mm yy dd y m p r
    by (simp add: getJulianDayNumber_def a y_def [symmetric] m_def [symmetric] q p(1))
  then show ?thesis by (simp add: days_before_def day_of_year_def y_def [symmetric] m_def [symmetric])
qed

lemma getYearMonthDay_steps:
  assumes "(4 * a + 3) div 146097 = b" and "a - (b * 146097) div 4 = c" and "(4 * c + 3) div 1461 = d"
    and "c - (1461 * d) div 4 = e" and "(5 * e + 2) div 153 = m"
    and "0 \<le> a" "a \<le> 400000000" and "0 \<le> b" "b \<le> 10048" and "0 \<le> c" "c \<le> 37000"
    and "0 \<le> d" "d \<le> 100" and "0 \<le> e" "e \<le> 365" and "0 \<le> m" "m \<le> 11"
  shows "getYearMonthDay (a - 32044) =
    Some \<lparr>year = b * 100 + d - 4800 + m div 10, month = m + 3 - 12 * (m div 10), day = e - (153 * m + 2) div 5 + 1\<rparr>"
proof -
  have s: "(4 * a + 3) sdiv 146097 = b" "(b * 146097) sdiv 4 = (b * 146097) div 4" "(4 * c + 3) sdiv 1461 = d"
    "(1461 * d) sdiv 4 = (1461 * d) div 4" "(5 * e + 2) sdiv 153 = m" "(153 * m + 2) sdiv 5 = (153 * m + 2) div 5"
    "m sdiv 10 = m div 10"
    using assms(6-17) by (simp_all add: sdiv_div assms(1,3,5))
  have p: "0 \<le> (153 * m + 2) div 5" "(153 * m + 2) div 5 \<le> 337" "0 \<le> m div 10" "m div 10 \<le> 1"
    using assms(16,17) by simp_all
  show ?thesis
    unfolding getYearMonthDay_def using assms(6-17) p by (simp add: s assms(2,4))
qed

lemma year_month_day:
  assumes "valid_date yy mm dd"
  shows "getYearMonthDay (days_before (yy + 4800 - before_march mm) + day_of_year (mm + 12 * before_march mm - 3) dd - 32044) =
    Some \<lparr>year = yy, month = mm, day = dd\<rparr>"
proof -
  define y where "y = yy + 4800 - before_march mm"
  define m where "m = mm + 12 * before_march mm - 3"
  define e where "e = day_of_year m dd"
  define c where "c = 365 * (y mod 100) + (y mod 100) div 4 + e"
  have mm: "1 \<le> mm" "mm \<le> 12" and yy: "- 4799 \<le> yy" "yy \<le> 1000000" and dd: "1 \<le> dd" "dd \<le> 31"
    using assms by (auto simp: valid_date_def days_in_month_def split: if_splits)
  have y: "0 \<le> y" "y \<le> 1004800" and m: "0 \<le> m" "m \<le> 11" using yy mm by (auto simp: y_def m_def)
  have e: "0 \<le> e" "e \<le> 364 \<or> e = 365 \<and> leap (y + 1)"
    using day_of_year_bounds [OF assms] leap_shift [of "yy + 1 - before_march mm"]
    by (auto simp: e_def m_def y_def algebra_simps)
  note century = century_of_day [OF y(1) e, folded c_def]
  have month: "(5 * e + 2) div 153 = m" using month_of_day [OF assms] by (simp add: e_def m_def)
  have b: "0 \<le> y div 100" "y div 100 \<le> 10048" using quarter_bounds [OF y] by simp_all
  have r: "0 \<le> y mod 100" "y mod 100 < 100" by simp_all
  have c: "0 \<le> c" "c \<le> 37000" using r e by (auto simp: c_def)
  have a: "0 \<le> days_before y + e" "days_before y + e \<le> 400000000" using days_before_bounds [OF y] e by auto
  have "getYearMonthDay (days_before y + e - 32044) =
      Some \<lparr>year = y div 100 * 100 + y mod 100 - 4800 + m div 10, month = m + 3 - 12 * (m div 10), day = e - (153 * m + 2) div 5 + 1\<rparr>"
    using getYearMonthDay_steps [OF century month a b c] r e m by auto
  then show ?thesis using mm unfolding y_def m_def e_def by (auto simp: day_of_year_def)
qed

subsection \<open>The day after\<close>

lemma div_succ:
  assumes "0 < (n :: int)"
  shows "(y + 1) div n = y div n + (if (y + 1) mod n = 0 then 1 else 0)"
proof -
  have r: "0 \<le> y mod n" "y mod n < n" using assms by simp_all
  have y: "y + 1 = n * (y div n) + (y mod n + 1)" by simp
  show ?thesis
  proof (cases "y mod n + 1 = n")
    case True
    then have "y + 1 = n * (y div n + 1)" using y by (simp add: algebra_simps)
    then show ?thesis using assms by (metis mod_mult_self1_is_0 nonzero_mult_div_cancel_left less_irrefl)
  next
    case False
    then have "y mod n + 1 < n" using r by simp
    then have "(y + 1) div n = y div n" "(y + 1) mod n = y mod n + 1"
      using r(1) int_div_pos_eq [OF y] int_mod_pos_eq [OF y] by simp_all
    then show ?thesis using r(1) by simp
  qed
qed

lemma days_before_succ: "days_before (y + 1) = days_before y + (if leap (y + 1) then 366 else 365)"
proof -
  have m: "z mod 400 = 0 \<Longrightarrow> z mod 100 = 0" "z mod 100 = 0 \<Longrightarrow> z mod 4 = 0" for z :: int
    by (auto simp: mod_eq_0_iff_dvd intro: dvd_trans [of 100 400] dvd_trans [of 4 100])
  have d: "(y + 1) div 4 = y div 4 + (if (y + 1) mod 4 = 0 then 1 else 0)"
    "(y + 1) div 100 = y div 100 + (if (y + 1) mod 100 = 0 then 1 else 0)"
    "(y + 1) div 400 = y div 400 + (if (y + 1) mod 400 = 0 then 1 else 0)"
    by (simp_all only: div_succ [of 4] div_succ [of 100] div_succ [of 400] zero_less_numeral)
  have step: "365 * (y + 1) + (a + (if P then 1 else 0)) - (b + (if Q then 1 else 0)) + (c + (if R then 1 else 0)) =
      365 * y + a - b + c + (if P \<and> (\<not> Q \<or> R) then 366 else 365)"
    if "R \<Longrightarrow> Q" "Q \<Longrightarrow> P" for a b c :: int and P Q R
    using that by auto
  show ?thesis unfolding days_before_def leap_def d by (rule step [OF m])
qed

definition next_date :: "int \<Rightarrow> int \<Rightarrow> int \<Rightarrow> int \<times> int \<times> int" where
  "next_date y m d =
     (if d < days_in_month y m then (y, m, d + 1) else if m < 12 then (y, m + 1, 1) else (y + 1, 1, 1))"

lemma next_date_number:
  assumes "valid_date y m d" and "next_date y m d = (y', m', d')"
  shows "days_before (y' + 4800 - before_march m') + day_of_year (m' + 12 * before_march m' - 3) d' =
    days_before (y + 4800 - before_march m) + day_of_year (m + 12 * before_march m - 3) d + 1"
proof -
  have m: "1 \<le> m" "m \<le> 12" and d: "d \<le> days_in_month y m" using assms by (simp_all add: valid_date_def)
  have march: "days_before (y + 4800) = days_before (y + 4799) + (if leap y then 366 else 365)"
    using days_before_succ [of "y + 4799"] leap_shift [of y] by (simp add: add.commute)
  from m show ?thesis
    using assms(2) d march
    by (cases rule: month_cases) (auto simp: next_date_def days_in_month_def day_of_year_def add.commute split: if_splits)
qed

lemma next_date_valid:
  assumes "valid_date y m d" and "y < 1000000" and "next_date y m d = (y', m', d')"
  shows "valid_date y' m' d'"
proof -
  have m: "1 \<le> m" "m \<le> 12" using assms by (simp_all add: valid_date_def)
  then show ?thesis
    using assms
    by (cases rule: month_cases) (auto simp: next_date_def valid_date_def days_in_month_def split: if_splits)
qed

subsection \<open>What a date promises\<close>

lemma new_Date_yearMonthDay:
  assumes "valid_date y m d"
  shows "\<exists>t. new_Date y m d = Some t \<and> yearMonthDay t = Some \<lparr>year = y, month = m, day = d\<rparr>"
  using julian_day_number [OF assms] year_month_day [OF assms] by (simp add: new_Date_def yearMonthDay_def)

lemma Date_equal_iff:
  assumes "valid_date y m d" and "valid_date y' m' d'" and "new_Date y m d = Some t" and "new_Date y' m' d' = Some t'"
  shows "Date_equal t t' \<longleftrightarrow> y = y' \<and> m = m' \<and> d = d'"
proof
  assume "Date_equal t t'"
  then have "yearMonthDay t = yearMonthDay t'" by (simp add: Date_equal_def yearMonthDay_def)
  then show "y = y' \<and> m = m' \<and> d = d'"
    using new_Date_yearMonthDay [OF assms(1)] new_Date_yearMonthDay [OF assms(2)] assms(3,4) by simp
next
  assume "y = y' \<and> m = m' \<and> d = d'"
  then show "Date_equal t t'" using assms(3,4) by (simp add: Date_equal_def)
qed

lemma Date_of_tm_today:
  assumes "valid_date (tm_year + 1900) (tm_mon + 1) tm_mday"
  shows "\<exists>t. Date_of_tm tm_year tm_mon tm_mday = Some t \<and> get_year t = Some (tm_year + 1900) \<and>
    get_month t = Some (tm_mon + 1) \<and> get_day t = Some tm_mday"
proof -
  have "int32 (tm_year + 1900) = Some (tm_year + 1900)" "int32 (tm_mon + 1) = Some (tm_mon + 1)"
    using assms by (simp_all add: valid_date_def)
  then show ?thesis
    using new_Date_yearMonthDay [OF assms] by (auto simp: Date_of_tm_def get_year_def get_month_def get_day_def)
qed

text \<open>
  C32. For a valid date of the Gregorian calendar no intermediate result leaves the 32 bits, converting it to its day number and
  back gives the date again, and the day after has the next number.
\<close>

theorem date_round_trip:
  assumes "valid_date y m d" and "y < 1000000" and "next_date y m d = (y', m', d')"
  shows "\<exists>n. getJulianDayNumber y m d = Some n \<and> getYearMonthDay n = Some \<lparr>year = y, month = m, day = d\<rparr> \<and>
    getJulianDayNumber y' m' d' = Some (n + 1)"
  using julian_day_number [OF assms(1)] year_month_day [OF assms(1)]
    julian_day_number [OF next_date_valid [OF assms]] next_date_number [OF assms(1,3)]
  by auto

theorem date_round_trip_witness:
  "\<exists>n. getJulianDayNumber 2000 2 29 = Some n \<and> getYearMonthDay n = Some \<lparr>year = 2000, month = 2, day = 29\<rparr> \<and>
    getJulianDayNumber 2000 3 1 = Some (n + 1)"
  by (rule date_round_trip) (simp_all add: valid_date_def days_in_month_def leap_def next_date_def)

end
