(* ===== verification/Http_Client.thy ===== *)
theory Http_Client
  imports Tcp_Client Connection Http_Codec Url_Parser
begin

text \<open>
  \<open>HttpHandler\<close> and \<open>HttpClient\<close> (\<open>src/http/HttpClient.cpp\<close>, \<open>.h\<close>), which put a connection, its buffers, the codec and
  the message together: what arrives is given to the codec chain by chain, and a request is written to the output buffer.
  A derived class answers the callbacks of the codec; here it does so by setting \<open>should_close_\<close>, the parameter
  \<open>cb\<close>. The nodejs parser, the parser of URLs and the resolver are parameters, and so is the connection of a new handler.
\<close>

subsection \<open>\<open>HttpHandler\<close>\<close>

text \<open>The names of headers live on the heap; \<open>saved_state\<close> is the static variable of \<open>Http1xCodec::pause\<close>.\<close>

record 'p HttpHandler =
  hconn :: connection
  hheap :: heap
  mess :: HttpMessage
  codec :: Http1xCodec
  hparser :: 'p
  saved_state :: CodecState
  should_close :: bool

definition new_HttpHandler :: "connection \<Rightarrow> heap \<Rightarrow> 'p \<Rightarrow> CodecState \<Rightarrow> 'p HttpHandler" where
  "new_HttpHandler c hp p saved =
     \<lparr>hconn = c, hheap = hp, mess = new_message, codec = setCallback True new_codec, hparser = p,
      saved_state = saved, should_close = False\<rparr>"

text \<open>The callbacks that the codec has passed on since it had made the first \<open>n\<close>, and what they do to \<open>should_close_\<close>.\<close>

definition user_callbacks :: "(parser_event \<Rightarrow> bool \<Rightarrow> bool) \<Rightarrow> Http1xCodec \<Rightarrow> Http1xCodec \<Rightarrow> bool \<Rightarrow> bool" where
  "user_callbacks cb c c' s = fold cb (drop (length (callbacks c)) (callbacks c')) s"

text \<open>
  The loop of \<open>handle_input\<close>: the first chain is copied, the codec parses the copy, and the chain is drained. \<open>Some r\<close> is
  an early return; the assertion on the number of parsed bytes is \<open>None\<close> when it fails.
\<close>

partial_function (option) ingress_loop ::
  "'p http_parser \<Rightarrow> (parser_event \<Rightarrow> bool \<Rightarrow> bool) \<Rightarrow> 'p HttpHandler \<Rightarrow> (int option \<times> 'p HttpHandler) option" where
  "ingress_loop P cb h =
     (let b = input_buffer (hconn h)
      in if total_len b = 0 then Some (None, h)
         else do {
           it \<leftarrow> buffer_begin b;
           c \<leftarrow> deref b (it_chain it);
           firstChain \<leftarrow> copy_chain 0 c;
           d \<leftarrow> read_chain firstChain;
           (bytesRead, p1, hp1, c1) \<leftarrow> onIngress P d (hparser h) (hheap h, codec h);
           let h1 = h\<lparr>hheap := hp1, codec := c1, hparser := p1,
             should_close := user_callbacks cb (codec h) c1 (should_close h)\<rparr>;
           if codec_error c1 then
             (let (_, p2, saved, c2) = pause P 1 p1 (saved_state h) c1
              in Some (Some (- 1), h1\<lparr>codec := c2, hparser := p2, saved_state := saved\<rparr>))
           else if bytesRead \<noteq> chain_size firstChain then None
           else do {
             (_, b1) \<leftarrow> drain b (chain_size firstChain);
             ingress_loop P cb (h1\<lparr>hconn := (hconn h)\<lparr>input_buffer := b1\<rparr>\<rparr>)
           }
         })"

declare ingress_loop.simps [code]

definition http_handle_input ::
  "'p http_parser \<Rightarrow> (parser_event \<Rightarrow> bool \<Rightarrow> bool) \<Rightarrow> 'p HttpHandler \<Rightarrow> int \<Rightarrow> read_answer \<Rightarrow> int \<Rightarrow>
   (int \<times> 'p HttpHandler) option" where
  "http_handle_input P cb h handle ans errno = do {
     (r, c) \<leftarrow> handle_input (hconn h) handle ans errno;
     let h1 = h\<lparr>hconn := c\<rparr>;
     if r < 0 then Some (- 1, h1)
     else if total_len (input_buffer c) = 0 then Some (0, h1)
     else do {
       (ret, h2) \<leftarrow> ingress_loop P cb h1;
       Some (case ret of Some v \<Rightarrow> v | None \<Rightarrow> if should_close h2 then - 1 else 0, h2)
     }
   }"

definition set_request_path :: "Range \<Rightarrow> 'p HttpHandler \<Rightarrow> 'p HttpHandler option" where
  "set_request_path p h = do {
     m \<leftarrow> (if range_size p = 0 then setRequestPath (cstr ''/'') (mess h) else setRequestPath_piece p (mess h));
     Some (h\<lparr>mess := m\<rparr>)
   }"

definition set_method :: "HTTPMethod \<Rightarrow> 'p HttpHandler \<Rightarrow> 'p HttpHandler option" where
  "set_method mt h = do { m \<leftarrow> setRequestMethod mt (mess h); Some (h\<lparr>mess := m\<rparr>) }"

definition add_header :: "HttpHeaderCode \<Rightarrow> Range \<Rightarrow> 'p HttpHandler \<Rightarrow> 'p HttpHandler option" where
  "add_header f v h = do { (hp, m) \<leftarrow> addHeader_code f v (hheap h) (mess h); Some (h\<lparr>hheap := hp, mess := m\<rparr>) }"

definition set_host :: "Range \<Rightarrow> 'p HttpHandler \<Rightarrow> 'p HttpHandler option" where
  "set_host v h = add_header HTTP_HEADER_HOST v h"

definition http_open :: "connection \<Rightarrow> (int \<times> connection) option" where
  "http_open c = Some (0, c)"

definition USERAGENT :: string where
  "USERAGENT = ''Mozilla/5.0 (Windows NT 10.0; Win64; x64; rv:83.0) Gecko/20100101 Firefox/83.0''"

definition ACCEPT :: string where
  "ACCEPT = ''text/html,application/xhtml+xml,application/xml;q=0.9,image/webp,*/*;q=0.8''"

definition ACCEPTENCODING :: string where
  "ACCEPTENCODING = ''deflate''"

definition ACCEPTLANGUAGE :: string where
  "ACCEPTLANGUAGE = ''en-US,zh-CN;q=0.8,zh;q=0.7,zh-TW;q=0.5,zh-HK;q=0.3,en;q=0.2''"

text \<open>The result of \<open>write\<close> is a \<open>uint32_t\<close>, so that only 0 is at most 0.\<close>

definition send_request :: "(nat \<Rightarrow> nat \<Rightarrow> string) \<Rightarrow> 'p HttpHandler \<Rightarrow> (int \<times> 'p HttpHandler) option" where
  "send_request fmt h = do {
     h1 \<leftarrow> add_header HTTP_HEADER_USER_AGENT (range_of_string USERAGENT) (h\<lparr>mess := setHttpVersion 1 1 (mess h)\<rparr>);
     h2 \<leftarrow> add_header HTTP_HEADER_ACCEPT (range_of_string ACCEPT) h1;
     h3 \<leftarrow> add_header HTTP_HEADER_ACCEPT_ENCODING (range_of_string ACCEPTENCODING) h2;
     h4 \<leftarrow> add_header HTTP_HEADER_ACCEPT_LANGUAGE (range_of_string ACCEPTLANGUAGE) h3;
     h5 \<leftarrow> add_header HTTP_HEADER_DNT (range_of_string ''1'') h4;
     (mess_str, m) \<leftarrow> buildRequestMessage fmt (hheap h5) (mess h5);
     d \<leftarrow> mess_str;
     (s, c) \<leftarrow> conn_write (hconn h5) (Some d) True;
     let h6 = h5\<lparr>mess := m, hconn := c\<rparr>;
     if s = 0 then Some (- 1, h6)
     else do { (r, c1) \<leftarrow> enable_reading c; Some (r, h6\<lparr>hconn := c1\<rparr>) }
   }"

subsection \<open>\<open>HttpClient\<close>\<close>

text \<open>
  \<open>retrive_addr\<close>: the host is copied into an array of 64 bytes, which \<open>::getaddrinfo\<close> reads up to a NUL. When it finds
  nothing the address stays the one that \<open>inet_addr()\<close> makes.
\<close>

record 'a resolver =
  getaddrinfo :: "string \<Rightarrow> 'a option"
  default_addr :: 'a
  set_port_number :: "nat \<Rightarrow> 'a \<Rightarrow> 'a"

definition retrive_addr :: "'a resolver \<Rightarrow> URLParser \<Rightarrow> 'a option" where
  "retrive_addr R u = do {
     d \<leftarrow> range_read (host u);
     name \<leftarrow> memcpy (calloc 64) 0 d;
     https \<leftarrow> is_https u;
     if NUL \<notin> set name then None
     else
       let a = (case getaddrinfo R (takeWhile (\<lambda>c. c \<noteq> NUL) name) of Some a \<Rightarrow> a | None \<Rightarrow> default_addr R)
       in Some (set_port_number R (if https then 443 else 80) a)
   }"

record 'i HttpClient =
  http_client :: "'i tcp_client"
  url_parser :: URLParser

text \<open>
  What a call of \<open>get\<close> meets: the parsers, the resolver, the connection, heap and address of the new handler, what the
  kernel answers for an address, the result of \<open>on_connected\<close>, the answers of \<open>::close\<close> and of the write to the
  eventfd, the reactor, and the turns of its loop.
\<close>

record ('a, 'p, 'i) get_env =
  g_parse_url :: parse_url
  g_resolver :: "'a resolver"
  g_fmt :: "nat \<Rightarrow> nat \<Rightarrow> string"
  g_connection :: "bool \<Rightarrow> connection"
  g_heap :: heap
  g_parser :: 'p
  g_saved :: CodecState
  g_addr :: nat
  g_kernel :: "'a \<Rightarrow> connect_answers"
  g_on_connected :: int
  g_close :: int
  g_wakeup :: int
  g_ops :: "'i reactor_ops"
  g_turns :: "bool list"

definition put_service :: "nat \<Rightarrow> connector \<Rightarrow> 'i tcp_client \<Rightarrow> 'i tcp_client" where
  "put_service a k cl =
     cl\<lparr>client_manager := (client_manager cl)\<lparr>services := (services (client_manager cl))(a \<mapsto> k)\<rparr>\<rparr>"

text \<open>The part of \<open>get\<close> that fills in and sends the request.\<close>

definition get_request :: "(nat \<Rightarrow> nat \<Rightarrow> string) \<Rightarrow> Range \<Rightarrow> Range \<Rightarrow> 'p HttpHandler \<Rightarrow> (int \<times> 'p HttpHandler) option" where
  "get_request fmt path_piece host_piece h = do {
     h1 \<leftarrow> set_method GET h;
     h2 \<leftarrow> set_request_path path_piece h1;
     h3 \<leftarrow> set_host host_piece h2;
     send_request fmt h3
   }"

definition HttpClient_get :: "('a, 'p, 'i) get_env \<Rightarrow> bytes \<Rightarrow> 'i HttpClient \<Rightarrow> (int \<times> 'i HttpClient) option" where
  "HttpClient_get E url_text hc = do {
     u \<leftarrow> reset_url (g_parse_url E) (range_of_cstr url_text) (url_parser hc);
     let hc1 = hc\<lparr>url_parser := u\<rparr>;
     if \<not> valid u then Some (- 1, hc1)
     else do {
       https \<leftarrow> is_https u;
       let cl1 = addConnection (g_addr E) (g_connection E https) (http_client hc1);
       a \<leftarrow> retrive_addr (g_resolver E) u;
       k \<leftarrow> services (client_manager cl1) (g_addr E);
       (ok, k1) \<leftarrow> connector_connect http_open (g_kernel E a) 1000000 k;
       if \<not> ok then Some (- 1, hc1\<lparr>http_client := put_service (g_addr E) k1 cl1\<rparr>)
       else do {
         (_, h) \<leftarrow> get_request (g_fmt E) (url_path u) (host u)
           (new_HttpHandler (con_handler k1) (g_heap E) (g_parser E) (g_saved E));
         let cl2 = put_service (g_addr E) (k1\<lparr>con_handler := hconn h\<rparr>) cl1;
         if g_on_connected E \<noteq> 0 then do {
           cl3 \<leftarrow> client_closeConnection (g_close E) (g_addr E) cl2;
           Some (- 1, hc1\<lparr>http_client := cl3\<rparr>)
         }
         else do {
           (ret, cl3) \<leftarrow> client_start (g_wakeup E) (g_ops E) (g_turns E) cl2;
           cl4 \<leftarrow> client_closeConnection (g_close E) (g_addr E) cl3;
           Some (if ret = - 2 then 0 else ret, hc1\<lparr>http_client := cl4\<rparr>)
         }
       }
     }
   }"

subsection \<open>What arrives is parsed\<close>

text \<open>The codec on the pieces of a text, one after the other; the parser has to take every piece whole.\<close>

fun feed :: "'p http_parser \<Rightarrow> (parser_event \<Rightarrow> bool \<Rightarrow> bool) \<Rightarrow> bytes list \<Rightarrow> 'p \<times> heap \<times> Http1xCodec \<times> bool \<Rightarrow>
    ('p \<times> heap \<times> Http1xCodec \<times> bool) option" where
  "feed P cb [] s = Some s"
| "feed P cb (d # ds) (p, hp, c, s) = do {
     (n, p1, hp1, c1) \<leftarrow> onIngress P d p (hp, c);
     if n = length d then feed P cb ds (p1, hp1, c1, user_callbacks cb c c1 s) else None
   }"

lemma notify_error [simp]: "codec_error (notify e c) = codec_error c"
  by (simp add: notify_def)

lemma wrapper_callback_error: "wrapper_callback e (hp, c) = Some (hp', c') \<Longrightarrow> codec_error c' = codec_error c"
  by (cases e)
    (auto simp: wrapper_callback_def onMessageBegin_def onURL_def onStatus_def onHeaderField_def onHeaderValue_def
      onHeadersComplete_def onBody_def onMessageComplete_def split: bind_splits if_splits option.splits)

lemma run_events_error: "run_events es (hp, c) = Some (hp', c') \<Longrightarrow> codec_error c' = codec_error c"
proof (induction es arbitrary: hp c)
  case (Cons e es)
  then obtain hp1 c1 where "wrapper_callback e (hp, c) = Some (hp1, c1)" "run_events es (hp1, c1) = Some (hp', c')"
    by (auto split: bind_splits)
  then show ?case using Cons.IH wrapper_callback_error by metis
qed simp

text \<open>So \<open>hasError\<close> is never true.\<close>

lemma onIngress_error: "onIngress P d p (hp, c) = Some (n, p', hp', c') \<Longrightarrow> codec_error c' = codec_error c"
  by (auto simp: onIngress_def split: if_splits bind_splits prod.splits dest: run_events_error)

lemma drain_first_chain:
  assumes wf: "buffer_wf b" and cs: "chains b = c # cs"
  shows "\<exists>b'. drain b (chain_size c) = Some (int (chain_size c), b') \<and> buffer_wf b' \<and> chains b' = cs"
proof -
  have c: "0 < chain_size c" "chain_ok c" using wf cs by (simp_all add: buffer_wf_def chains_ok_def)
  have n: "chain_size c \<le> total_len b" using wf cs c(2) by (simp add: buffer_wf_def length_content)
  have l: "last_data b \<noteq> None" using wf cs by (simp add: buffer_wf_def back_addr_def)
  have loop: "\<exists>b'. remove_loop (chain_addr c) (next_chain c) (chain_size c) [] b = Some (content c, b') \<and> chains b' = cs"
  proof (cases cs)
    case Nil
    then have "last_data b = Some (chain_addr c)" using wf cs by (simp add: buffer_wf_def back_addr_def)
    then show ?thesis using cs Nil c by (subst remove_loop.simps) (simp add: read_chain_ok Let_def)
  next
    case (Cons d ds)
    have d: "next_chain c = Some (chain_addr d)" using wf cs Cons by (auto simp: buffer_wf_def dest: linked_ConsD)
    have "last_data b = Some (chain_addr (last cs))" using wf cs Cons by (simp add: buffer_wf_def back_addr_def)
    moreover have "chain_addr (last cs) \<noteq> chain_addr c"
    proof -
      have "chain_addr c \<notin> set (map chain_addr cs)" using wf cs by (simp add: buffer_wf_def chains_ok_def)
      moreover have "chain_addr (last cs) \<in> set (map chain_addr cs)" using Cons last_in_set [of cs] by simp
      ultimately show ?thesis by metis
    qed
    ultimately show ?thesis
      using cs Cons c d by (subst remove_loop.simps) (simp add: read_chain_ok Let_def remove_loop.simps [of _ _ 0])
  qed
  then obtain b' where b': "drain b (chain_size c) = Some (int (chain_size c), b')" "chains b' = cs"
    using c(1) n l cs by (auto simp: drain_def remove_def front_addr_def)
  moreover have "buffer_wf b'"
    using drain_correct [OF wf c(1)] n wf b'(1) by (auto simp: buffer_wf_total)
  ultimately show ?thesis by blast
qed

abbreviation parsed :: "buffer \<Rightarrow> 'p HttpHandler \<Rightarrow> 'p \<times> heap \<times> Http1xCodec \<times> bool \<Rightarrow> 'p HttpHandler" where
  "parsed b h r \<equiv> h\<lparr>hconn := (hconn h)\<lparr>input_buffer := b\<rparr>, hparser := fst r, hheap := fst (snd r),
     codec := fst (snd (snd r)), should_close := snd (snd (snd r))\<rparr>"

lemma ingress_loop_law:
  assumes "buffer_wf (input_buffer (hconn h))" and "\<not> codec_error (codec h)"
  shows "\<exists>b. buffer_wf b \<and> contents b = [] \<and> ingress_loop P cb h = map_option (\<lambda>r. (None, parsed b h r))
    (feed P cb (map content (chains (input_buffer (hconn h)))) (hparser h, hheap h, codec h, should_close h))"
  using assms
proof (induction "chains (input_buffer (hconn h))" arbitrary: h)
  case Nil
  then show ?case
    by (intro exI [of _ "input_buffer (hconn h)"], subst ingress_loop.simps) (simp add: buffer_wf_empty contents_def)
next
  case (Cons c cs)
  let ?b = "input_buffer (hconn h)"
  have b: "chains ?b = c # cs" by (simp add: Cons.hyps(2))
  have c: "chain_ok c" "0 < chain_size c" "total_len ?b \<noteq> 0"
    using Cons.prems(1) b buffer_wf_empty [of ?b] by (auto simp: buffer_wf_def chains_ok_def)
  obtain f where f: "copy_chain 0 c = Some f" "chain_ok f" "content f = content c"
    using copy_chain_returns [OF c(1)] by blast
  have size: "chain_size f = chain_size c" using f c(1) by (simp flip: length_content)
  obtain b1 where b1: "drain ?b (chain_size c) = Some (int (chain_size c), b1)" "buffer_wf b1" "chains b1 = cs"
    using drain_first_chain [OF Cons.prems(1) b] by blast
  let ?s = "onIngress P (content c) (hparser h) (hheap h, codec h)"
  have unfold: "ingress_loop P cb h = do {
      (n, p1, hp1, c1) \<leftarrow> ?s;
      if n \<noteq> chain_size c then None
      else ingress_loop P cb (h\<lparr>hheap := hp1, codec := c1, hparser := p1,
        should_close := user_callbacks cb (codec h) c1 (should_close h), hconn := (hconn h)\<lparr>input_buffer := b1\<rparr>\<rparr>)
    }"
    using c f size b1(1) Cons.prems(2)
    by (subst ingress_loop.simps)
      (auto simp: Let_def buffer_begin_def b deref_def read_chain_ok split: bind_splits dest: onIngress_error)
  show ?case
  proof (cases ?s)
    case None
    then show ?thesis using new_buffer_wf by (fastforce simp: unfold b)
  next
    case (Some r)
    obtain n p1 hp1 c1 where r: "r = (n, p1, hp1, c1)" by (cases r)
    let ?h = "h\<lparr>hheap := hp1, codec := c1, hparser := p1,
        should_close := user_callbacks cb (codec h) c1 (should_close h), hconn := (hconn h)\<lparr>input_buffer := b1\<rparr>\<rparr>"
    have "\<not> codec_error c1" using Some r Cons.prems(2) onIngress_error by metis
    then obtain b2 where "buffer_wf b2" "contents b2 = []" "ingress_loop P cb ?h = map_option (\<lambda>r. (None, parsed b2 ?h r))
        (feed P cb (map content cs) (p1, hp1, c1, user_callbacks cb (codec h) c1 (should_close h)))"
      using Cons.hyps(1) [of ?h] b1 by auto
    then show ?thesis
      using Some r c by (intro exI [of _ b2]) (simp add: unfold b length_content)
  qed
qed

lemma append_to_empty:
  assumes wf: "buffer_wf b" and "contents b = []" and d: "d \<noteq> []" "length d < 4294967296"
  shows "\<exists>b'. append b (Some d) = Some (int (length d), b') \<and> buffer_wf b' \<and> map content (chains b') = [d]"
proof -
  have u: "u32 (length d) = length d" using d(2) by (simp add: uint_simps)
  have "total_len b = 0" using wf assms(2) by (simp add: buffer_wf_total)
  then obtain b1 c where e: "expand_if_needed b (length d) = Some (Some (chain_addr c), b1)"
    and ready: "expand_ready b (length d) b1 [] c"
    using expand_empty [OF wf _ d(2)] by blast
  note r = expand_ready_deref [OF ready]
  have "content c = []" using ready assms(2) by (simp add: expand_ready_def)
  moreover have "chain_size c + length d < 4294967296"
    using r(2,3) chain_okD [OF r(2)] by (simp add: chain_simps)
  ultimately obtain c' where c': "append_data c (Some d) = Some (int (length d), c')" "chain_ok c'" "content c' = d"
    "same_links c c'"
    using append_data_returns [OF r(2) d(1)] r(3) by auto
  then have "append b (Some d) = Some (int (length d), b1\<lparr>chains := [c'],
      total_len := u64 (total_len b1 + length d), last_data := Some (chain_addr c)\<rparr>)"
    using d(1) r(3,5) by (simp add: append_def u e r(1) same_links_def)
  then show ?thesis using append_law [OF wf d] assms(2) d(2) c'(3) by auto
qed

lemma handle_input_data:
  assumes s: "stream c = Some (Some s)" "can_read s" "fd_no s \<noteq> INVALID_HANDLE" and d: "d \<noteq> []"
    and b: "buffer_wf (input_buffer c)" "length (contents (input_buffer c)) < 4294967196"
  shows "\<exists>b. handle_input c (fd_no s) (Data d) e = Some (0, c\<lparr>input_buffer := b\<rparr>) \<and> buffer_wf b \<and>
    contents b = contents (input_buffer c) @ take 4096 d \<and>
    (contents (input_buffer c) = [] \<longrightarrow> map content (chains b) = [take 4096 d])"
proof -
  have t: "take 4096 d \<noteq> []" "length (take 4096 d) < 4294967296" using d by simp_all
  obtain b' where b': "append (input_buffer c) (Some (take 4096 d)) = Some (int (length (take 4096 d)), b')" "buffer_wf b'"
    "contents b' = contents (input_buffer c) @ take 4096 d"
  proof -
    have "length (contents (input_buffer c)) + length (take 4096 d) < 18446744073709551616" using b(2) by simp
    from append_law [OF b(1) t this] show thesis using that by blast
  qed
  moreover have "map content (chains b') = [take 4096 d]" if "contents (input_buffer c) = []"
    using append_to_empty [OF b(1) that t] b'(1) by auto
  moreover have "handle_input c (fd_no s) (Data d) e = Some (0, c\<lparr>input_buffer := b'\<rparr>)"
    using s d b b'(1) by (auto simp: handle_input_def stream_read_def read_imp_def stream_handle_def high_water_mark
        buffer_wf_total Let_def min_def)
  ultimately show ?thesis by (intro exI [of _ b']) simp
qed

text \<open>
  What \<open>handle_input\<close> does with the bytes that are read: it is exactly the codec on the pieces that the buffer holds, none
  of them empty, and nothing is left in the buffer.
\<close>

lemma http_handle_input_law:
  assumes s: "stream (hconn h) = Some (Some s)" "can_read s" "fd_no s \<noteq> INVALID_HANDLE" and d: "d \<noteq> []"
    and b: "buffer_wf (input_buffer (hconn h))" "length (contents (input_buffer (hconn h))) < 4294967196"
    and e: "\<not> codec_error (codec h)"
  shows "\<exists>ds b. concat ds = contents (input_buffer (hconn h)) @ take 4096 d \<and> [] \<notin> set ds \<and>
    (contents (input_buffer (hconn h)) = [] \<longrightarrow> ds = [take 4096 d]) \<and> buffer_wf b \<and> contents b = [] \<and>
    http_handle_input P cb h (fd_no s) (Data d) errno =
      map_option (\<lambda>r. (if should_close (parsed b h r) then - 1 else 0, parsed b h r))
        (feed P cb ds (hparser h, hheap h, codec h, should_close h))"
proof -
  obtain b1 where b1: "handle_input (hconn h) (fd_no s) (Data d) errno = Some (0, (hconn h)\<lparr>input_buffer := b1\<rparr>)"
    "buffer_wf b1" "contents b1 = contents (input_buffer (hconn h)) @ take 4096 d"
    "contents (input_buffer (hconn h)) = [] \<Longrightarrow> map content (chains b1) = [take 4096 d]"
    using handle_input_data [OF s d b, of errno] by auto
  let ?h = "h\<lparr>hconn := (hconn h)\<lparr>input_buffer := b1\<rparr>\<rparr>"
  let ?ds = "map content (chains b1)"
  obtain b2 where b2: "buffer_wf b2" "contents b2 = []" "ingress_loop P cb ?h = map_option (\<lambda>r. (None, parsed b2 ?h r))
      (feed P cb ?ds (hparser h, hheap h, codec h, should_close h))"
    using ingress_loop_law [of ?h P cb] b1(2) e by auto
  have "total_len b1 \<noteq> 0" using b1(2,3) d by (simp add: buffer_wf_total)
  then have "http_handle_input P cb h (fd_no s) (Data d) errno =
      map_option (\<lambda>r. (if should_close (parsed b2 h r) then - 1 else 0, parsed b2 h r))
        (feed P cb ?ds (hparser h, hheap h, codec h, should_close h))"
    using b1(1) b2(3)
    by (cases "feed P cb ?ds (hparser h, hheap h, codec h, should_close h)") (simp_all add: http_handle_input_def Let_def)
  moreover have "concat ?ds = contents b1" by (simp add: contents_def bytes_of_def)
  moreover have "[] \<notin> set ?ds"
  proof -
    have "content c \<noteq> []" if "c \<in> set (chains b1)" for c
      using b1(2) that length_content [of c] by (auto simp: buffer_wf_def chains_ok_def)
    then show ?thesis by force
  qed
  ultimately show ?thesis using b1(3,4) b2(1,2) by (intro exI [of _ ?ds] exI [of _ b2]) simp
qed

subsection \<open>A request is sent\<close>

definition header_lines :: "entry list \<Rightarrow> string" where
  "header_lines es = concat (map (\<lambda>(c, n, v). header_line n v) es)"

definition request_text :: "string \<Rightarrow> string \<Rightarrow> string" where
  "request_text p hst =
     ''GET '' @ (if p = [] then ''/'' else p) @ '' HTTP/1.1'' @ CRLF @ header_line ''Host'' hst @
     header_line ''User-Agent'' USERAGENT @ header_line ''Accept'' ACCEPT @ header_line ''Accept-Encoding'' ACCEPTENCODING @
     header_line ''Accept-Language'' ACCEPTLANGUAGE @ header_line ''DNT'' ''1'' @ CRLF"

definition request_headers :: "'p HttpHandler \<Rightarrow> entry list \<Rightarrow> bool" where
  "request_headers h es \<longleftrightarrow> state_ok (hheap h, headers (mess h)) \<and> entries (hheap h) (headers (mess h)) = es \<and>
     length (codes (headers (mess h))) = length es \<and> codes_deleted (headers (mess h)) = 0"

lemma add_header_law:
  assumes "request_headers h es" and "2 \<le> c" "c < 95" "c \<noteq> HTTP_HEADER_COOKIE" and "range_ok v" and "length es < 100"
  shows "\<exists>hs. add_header c v h = Some (h\<lparr>mess := (mess h)\<lparr>headers := hs\<rparr>\<rparr>) \<and>
    request_headers (h\<lparr>mess := (mess h)\<lparr>headers := hs\<rparr>\<rparr>) (es @ [(c, header_name c, range_text v)])"
proof -
  let ?hs = "push_header c (Common c) (range_text v) (headers (mess h))"
  have "length (codes (headers (mess h))) + 1 < 2 ^ 64" using assms(1,6) by (simp add: request_headers_def)
  then have "common_name c = Some (Common c)" "adds (hheap h, headers (mess h)) [(c, header_name c, range_text v)] (Some (hheap h, ?hs))"
    using adds_common [of "hheap h" "headers (mess h)" c "range_text v"] assms(1-3) by (simp_all add: request_headers_def)
  then show ?thesis
    using assms range_read_ok [OF assms(5)]
    by (intro exI [of _ ?hs])
      (auto simp: add_header_def addHeader_code_def add_to_headers_def add_code_piece_def request_headers_def adds_def
        state_entries_def push_header_def)
qed

lemma conn_write_law:
  assumes wf: "buffer_wf (output_buffer c)" and st: "stream c \<noteq> None"
    and d: "d \<noteq> []" "length d < 4294967296" "length (contents (output_buffer c)) < 4294967196"
  shows "\<exists>c'. conn_write c (Some d) True = Some (length d, c') \<and> buffer_wf (output_buffer c') \<and>
    contents (output_buffer c') = contents (output_buffer c) @ d \<and> write_enabled c' \<and> stream c' = stream c"
proof -
  have room: "length (contents (output_buffer c)) + length d < 18446744073709551616" using d by simp
  obtain b where b: "append (output_buffer c) (Some d) = Some (int (length d), b)" "buffer_wf b"
    "contents b = contents (output_buffer c) @ d"
    using append_law [OF wf d(1,2) room] by blast
  have mark: "\<not> total_len (output_buffer c) \<ge> BUFFER_HIGH_WATER_MARK"
    using wf d(3) by (simp add: buffer_wf_total high_water_mark)
  obtain r c3 where "enable_writing (c\<lparr>output_buffer := b\<rparr>) = Some (r, c3)" "output_buffer c3 = b" "write_enabled c3"
    "stream c3 = stream c"
    using enable_writing_total [of "c\<lparr>output_buffer := b\<rparr>"] st by auto
  moreover have "int (length d) mod 4294967296 = int (length d)" using d(2) by simp
  ultimately show ?thesis
    using d(1) mark b by (cases "write_enabled c") (auto simp: conn_write_def Let_def)
qed

lemma enable_reading_total:
  assumes "stream c \<noteq> None"
  shows "\<exists>r c'. enable_reading c = Some (r, c') \<and> output_buffer c' = output_buffer c \<and> read_enabled c' \<and>
    write_enabled c' = write_enabled c \<and> stream c' = stream c"
  using assms by (cases "read_enabled c") (auto simp: enable_reading_def call_reactor_def)

lemma literal_ok:
  "range_ok (range_of_string USERAGENT)" "range_ok (range_of_string ACCEPT)" "range_ok (range_of_string ACCEPTENCODING)"
  "range_ok (range_of_string ACCEPTLANGUAGE)" "range_ok (range_of_string ''1'')"
  by (simp_all add: range_of_string_ok(1) USERAGENT_def ACCEPT_def ACCEPTENCODING_def ACCEPTLANGUAGE_def)

lemma fixed_names:
  "header_name HTTP_HEADER_HOST = ''Host''" "header_name HTTP_HEADER_USER_AGENT = ''User-Agent''"
  "header_name HTTP_HEADER_ACCEPT = ''Accept''" "header_name HTTP_HEADER_ACCEPT_ENCODING = ''Accept-Encoding''"
  "header_name HTTP_HEADER_ACCEPT_LANGUAGE = ''Accept-Language''" "header_name HTTP_HEADER_DNT = ''DNT''"
  by code_simp+

definition fixed_entries :: "entry list" where
  "fixed_entries = [(HTTP_HEADER_USER_AGENT, ''User-Agent'', USERAGENT), (HTTP_HEADER_ACCEPT, ''Accept'', ACCEPT),
     (HTTP_HEADER_ACCEPT_ENCODING, ''Accept-Encoding'', ACCEPTENCODING),
     (HTTP_HEADER_ACCEPT_LANGUAGE, ''Accept-Language'', ACCEPTLANGUAGE), (HTTP_HEADER_DNT, ''DNT'', ''1'')]"

lemma fixed_headers:
  assumes "request_headers h es" and "length es < 50"
  obtains h1 h2 h3 h4 hs where "add_header HTTP_HEADER_USER_AGENT (range_of_string USERAGENT) h = Some h1"
    and "add_header HTTP_HEADER_ACCEPT (range_of_string ACCEPT) h1 = Some h2"
    and "add_header HTTP_HEADER_ACCEPT_ENCODING (range_of_string ACCEPTENCODING) h2 = Some h3"
    and "add_header HTTP_HEADER_ACCEPT_LANGUAGE (range_of_string ACCEPTLANGUAGE) h3 = Some h4"
    and "add_header HTTP_HEADER_DNT (range_of_string ''1'') h4 = Some (h\<lparr>mess := (mess h)\<lparr>headers := hs\<rparr>\<rparr>)"
    and "request_headers (h\<lparr>mess := (mess h)\<lparr>headers := hs\<rparr>\<rparr>) (es @ fixed_entries)"
proof -
  have step: "\<exists>hs'. add_header c v (h\<lparr>mess := (mess h)\<lparr>headers := hs\<rparr>\<rparr>) = Some (h\<lparr>mess := (mess h)\<lparr>headers := hs'\<rparr>\<rparr>) \<and>
      request_headers (h\<lparr>mess := (mess h)\<lparr>headers := hs'\<rparr>\<rparr>) (fs @ [(c, header_name c, range_text v)])"
    if "request_headers (h\<lparr>mess := (mess h)\<lparr>headers := hs\<rparr>\<rparr>) fs" "2 \<le> c" "c < 95" "c \<noteq> HTTP_HEADER_COOKIE"
      "range_ok v" "length fs < 100" for hs fs c v
    using add_header_law [OF that] by simp
  have h0: "request_headers (h\<lparr>mess := (mess h)\<lparr>headers := headers (mess h)\<rparr>\<rparr>) es" using assms(1) by simp
  obtain s1 where s1: "add_header HTTP_HEADER_USER_AGENT (range_of_string USERAGENT) h = Some (h\<lparr>mess := (mess h)\<lparr>headers := s1\<rparr>\<rparr>)"
    "request_headers (h\<lparr>mess := (mess h)\<lparr>headers := s1\<rparr>\<rparr>) (es @ [(HTTP_HEADER_USER_AGENT, ''User-Agent'', USERAGENT)])"
    using step [OF h0 _ _ _ literal_ok(1), of HTTP_HEADER_USER_AGENT] assms(2)
    by (auto simp: fixed_names range_of_string_ok(2))
  note facts = fixed_names range_of_string_ok(2)
  obtain s2 where s2: "add_header HTTP_HEADER_ACCEPT (range_of_string ACCEPT) (h\<lparr>mess := (mess h)\<lparr>headers := s1\<rparr>\<rparr>) =
      Some (h\<lparr>mess := (mess h)\<lparr>headers := s2\<rparr>\<rparr>)"
    "request_headers (h\<lparr>mess := (mess h)\<lparr>headers := s2\<rparr>\<rparr>) (es @ take 2 fixed_entries)"
    using step [OF s1(2) _ _ _ literal_ok(2), of HTTP_HEADER_ACCEPT] assms(2) by (auto simp: facts fixed_entries_def)
  obtain s3 where s3: "add_header HTTP_HEADER_ACCEPT_ENCODING (range_of_string ACCEPTENCODING) (h\<lparr>mess := (mess h)\<lparr>headers := s2\<rparr>\<rparr>) =
      Some (h\<lparr>mess := (mess h)\<lparr>headers := s3\<rparr>\<rparr>)"
    "request_headers (h\<lparr>mess := (mess h)\<lparr>headers := s3\<rparr>\<rparr>) (es @ take 3 fixed_entries)"
    using step [OF s2(2) _ _ _ literal_ok(3), of HTTP_HEADER_ACCEPT_ENCODING] assms(2) by (auto simp: facts fixed_entries_def)
  obtain s4 where s4: "add_header HTTP_HEADER_ACCEPT_LANGUAGE (range_of_string ACCEPTLANGUAGE) (h\<lparr>mess := (mess h)\<lparr>headers := s3\<rparr>\<rparr>) =
      Some (h\<lparr>mess := (mess h)\<lparr>headers := s4\<rparr>\<rparr>)"
    "request_headers (h\<lparr>mess := (mess h)\<lparr>headers := s4\<rparr>\<rparr>) (es @ take 4 fixed_entries)"
    using step [OF s3(2) _ _ _ literal_ok(4), of HTTP_HEADER_ACCEPT_LANGUAGE] assms(2) by (auto simp: facts fixed_entries_def)
  obtain s5 where s5: "add_header HTTP_HEADER_DNT (range_of_string ''1'') (h\<lparr>mess := (mess h)\<lparr>headers := s4\<rparr>\<rparr>) =
      Some (h\<lparr>mess := (mess h)\<lparr>headers := s5\<rparr>\<rparr>)"
    "request_headers (h\<lparr>mess := (mess h)\<lparr>headers := s5\<rparr>\<rparr>) (es @ fixed_entries)"
    using step [OF s4(2) _ _ _ literal_ok(5), of HTTP_HEADER_DNT] assms(2) by (auto simp: facts fixed_entries_def)
  from that [OF s1(1) s2(1) s3(1) s4(1) s5] show thesis .
qed

lemma send_request_law:
  assumes h: "request_headers h es" "length es < 50" "kind (mess h) = Request \<lparr>path = p, http_method = GET\<rparr>"
    and c: "buffer_wf (output_buffer (hconn h))" "stream (hconn h) \<noteq> None" "length (contents (output_buffer (hconn h))) < 4294967196"
    and len: "length p + length (header_lines es) < 2147483648"
  shows "\<exists>r h'. send_request fmt h = Some (r, h') \<and> buffer_wf (output_buffer (hconn h')) \<and>
    contents (output_buffer (hconn h')) = contents (output_buffer (hconn h)) @
      ''GET '' @ p @ '' HTTP/1.1'' @ CRLF @ header_lines (es @ fixed_entries) @ CRLF \<and>
    read_enabled (hconn h') \<and> write_enabled (hconn h') \<and> stream (hconn h') = stream (hconn h)"
proof -
  let ?h = "h\<lparr>mess := setHttpVersion 1 1 (mess h)\<rparr>"
  have "request_headers ?h es" using h(1) by (simp add: request_headers_def setHttpVersion_def)
  from fixed_headers [OF this h(2)] obtain h1 h2 h3 h4 hs where
    adds: "add_header HTTP_HEADER_USER_AGENT (range_of_string USERAGENT) ?h = Some h1"
    "add_header HTTP_HEADER_ACCEPT (range_of_string ACCEPT) h1 = Some h2"
    "add_header HTTP_HEADER_ACCEPT_ENCODING (range_of_string ACCEPTENCODING) h2 = Some h3"
    "add_header HTTP_HEADER_ACCEPT_LANGUAGE (range_of_string ACCEPTLANGUAGE) h3 = Some h4"
    "add_header HTTP_HEADER_DNT (range_of_string ''1'') h4 = Some (?h\<lparr>mess := (mess ?h)\<lparr>headers := hs\<rparr>\<rparr>)"
    and hs: "request_headers (?h\<lparr>mess := (mess ?h)\<lparr>headers := hs\<rparr>\<rparr>) (es @ fixed_entries)" .
  let ?m = "(setHttpVersion 1 1 (mess h))\<lparr>headers := hs\<rparr>"
  let ?d = "''GET '' @ p @ '' HTTP/1.1'' @ CRLF @ header_lines (es @ fixed_entries) @ CRLF"
  have one_char: "char_of (49 :: nat) = CHR ''1''" by code_simp
  have one: "to_string (Suc 0) = ''1''" using to_string_digit [of 1] one_char by simp
  have get: "method_name GET = ''GET''" by code_simp
  have "headers_wf (hheap h) hs" "codes hs \<noteq> []" "codes_deleted hs = 0" "entries (hheap h) hs = es @ fixed_entries"
    using hs by (auto simp: request_headers_def state_ok_def fixed_entries_def)
  then have msg: "buildRequestMessage fmt (hheap h) ?m = Some (Some ?d, ?m)"
    using buildRequestMessage_law [of ?m p GET "hheap h" fmt] h(3)
    by (simp add: setHttpVersion_def one get header_lines_def)
  have d: "?d \<noteq> []" "length ?d < 4294967296"
    using len by (simp_all add: header_lines_def CRLF_def fixed_entries_def header_line_def USERAGENT_def ACCEPT_def
        ACCEPTENCODING_def ACCEPTLANGUAGE_def)
  obtain c1 where c1: "conn_write (hconn h) (Some ?d) True = Some (length ?d, c1)" "buffer_wf (output_buffer c1)"
    "contents (output_buffer c1) = contents (output_buffer (hconn h)) @ ?d" "write_enabled c1" "stream c1 = stream (hconn h)"
    using conn_write_law [OF c(1,2) d c(3)] by blast
  obtain r c2 where c2: "enable_reading c1 = Some (r, c2)" "output_buffer c2 = output_buffer c1" "read_enabled c2"
    "write_enabled c2 = write_enabled c1" "stream c2 = stream c1"
    using enable_reading_total [of c1] c1(5) c(2) by auto
  have "send_request fmt h = Some (r, h\<lparr>mess := ?m, hconn := c2\<rparr>)"
    using adds msg c1(1) c2(1) d(1) by (simp add: send_request_def Let_def)
  then show ?thesis using c1 c2 by auto
qed

lemma get_request_law:
  assumes hp: "heap_ok hp" and r: "range_ok pp" "range_ok hh"
    and c: "buffer_wf (output_buffer c)" "stream c \<noteq> None" "length (contents (output_buffer c)) < 4294967196"
    and len: "length (range_text pp) + length (range_text hh) < 2147483000"
  shows "\<exists>r h'. get_request fmt pp hh (new_HttpHandler c hp p saved) = Some (r, h') \<and>
    buffer_wf (output_buffer (hconn h')) \<and>
    contents (output_buffer (hconn h')) = contents (output_buffer c) @ request_text (range_text pp) (range_text hh) \<and>
    read_enabled (hconn h') \<and> write_enabled (hconn h') \<and> stream (hconn h') = stream c"
proof -
  let ?h = "new_HttpHandler c hp p saved"
  let ?p = "if range_text pp = [] then ''/'' else range_text pp"
  let ?m = "new_message\<lparr>kind := Request \<lparr>path = ?p, http_method = GET\<rparr>\<rparr>"
  have slash: "take (strlen (cstr ''/'')) (cstr ''/'') = ''/''" by (simp add: strlen_cstr) (simp add: cstr_def)
  have size: "range_size pp = 0 \<longleftrightarrow> range_text pp = []" using range_size_ok [OF r(1)] by simp
  have set: "do { h1 \<leftarrow> set_method GET ?h; set_request_path pp h1 } = Some (?h\<lparr>mess := ?m\<rparr>)"
    by (auto simp: set_method_def set_request_path_def setRequestMethod_def setRequestPath_def setRequestPath_piece_def
        is_response_def request_def new_message_def new_HttpHandler_def slash size range_read_ok [OF r(1)] Let_def)
  have "request_headers (?h\<lparr>mess := ?m\<rparr>) []"
    using hp by (simp add: request_headers_def state_ok_def new_message_def headers_wf_def new_headers_def entries_def
        new_HttpHandler_def entries_of_def)
  from add_header_law [OF this _ _ _ r(2), of HTTP_HEADER_HOST] obtain hs where
    host: "set_host hh (?h\<lparr>mess := ?m\<rparr>) = Some (?h\<lparr>mess := ?m\<lparr>headers := hs\<rparr>\<rparr>)"
    "request_headers (?h\<lparr>mess := ?m\<lparr>headers := hs\<rparr>\<rparr>) [(HTTP_HEADER_HOST, ''Host'', range_text hh)]"
    by (auto simp: set_host_def fixed_names)
  have eq: "get_request fmt pp hh ?h = send_request fmt (?h\<lparr>mess := ?m\<lparr>headers := hs\<rparr>\<rparr>)"
    using set host(1) by (auto simp: get_request_def split: bind_splits)
  have whole: "''GET '' @ ?p @ '' HTTP/1.1'' @ CRLF @ header_lines ([(HTTP_HEADER_HOST, ''Host'', range_text hh)] @ fixed_entries) @ CRLF =
      request_text (range_text pp) (range_text hh)"
    by (simp add: request_text_def header_lines_def fixed_entries_def)
  have "length ?p + length (header_lines [(HTTP_HEADER_HOST, ''Host'', range_text hh)]) < 2147483648"
    using len by (simp add: header_lines_def header_line_def)
  moreover have "kind (mess (?h\<lparr>mess := ?m\<lparr>headers := hs\<rparr>\<rparr>)) = Request \<lparr>path = ?p, http_method = GET\<rparr>" by simp
  moreover have conn: "hconn (?h\<lparr>mess := ?m\<lparr>headers := hs\<rparr>\<rparr>) = c" by (simp add: new_HttpHandler_def)
  ultimately show ?thesis
    using send_request_law [OF host(2), of ?p fmt, unfolded conn whole] c unfolding eq by simp
qed

subsection \<open>Properties\<close>

text \<open>
  C38. A request from the parts of a URL to the wire: on a connected handler \<open>get\<close> fills in and sends its request, after
  which the output buffer holds behind what it held exactly the request line with the path, or \<open>/\<close> for an empty
  one, the header \<open>Host\<close>, the five fixed headers and an empty line, the handler is registered for reading and
  writing, and when the kernel has the room for a request of up to 4096 bytes one \<open>handle_output\<close> sends it and leaves nothing.
\<close>

theorem http_request_sent:
  assumes "heap_ok hp" and "range_ok pp" and "range_ok hh" and "stream c = Some (Some s)" and "can_write s"
    and "fd_no s \<noteq> INVALID_HANDLE" and "buffer_wf (output_buffer c)" and "contents (output_buffer c) = []"
    and "length (range_text pp) + length (range_text hh) < 2147483000"
  shows "\<exists>r h. get_request fmt pp hh (new_HttpHandler c hp p saved) = Some (r, h) \<and>
    contents (output_buffer (hconn h)) = request_text (range_text pp) (range_text hh) \<and>
    read_enabled (hconn h) \<and> write_enabled (hconn h) \<and>
    (length (request_text (range_text pp) (range_text hh)) \<le> 4096 \<longrightarrow> fst (ans 3) \<ge> 4096 \<longrightarrow>
      (\<exists>c'. handle_output (hconn h) (fd_no s) ans = Some (0, request_text (range_text pp) (range_text hh), c') \<and>
        contents (output_buffer c') = [] \<and> \<not> write_enabled c'))"
proof -
  let ?t = "request_text (range_text pp) (range_text hh)"
  obtain r h where h: "get_request fmt pp hh (new_HttpHandler c hp p saved) = Some (r, h)"
    "buffer_wf (output_buffer (hconn h))" "contents (output_buffer (hconn h)) = ?t"
    "read_enabled (hconn h)" "write_enabled (hconn h)" "stream (hconn h) = stream c"
    using get_request_law [OF assms(1-3,7) _ _ assms(9)] assms(4,8) by fastforce
  have "?t \<noteq> []" by (simp add: request_text_def)
  then show ?thesis
    using h handle_output_all [OF h(2), of s "fd_no s" ans] assms(4-6) by (intro exI [of _ r] exI [of _ h]) auto
qed

theorem http_request_sent_witness:
  "\<exists>r h. get_request (\<lambda>_ _. []) (range_of_string ''/a'') (range_of_string ''b'')
      (new_HttpHandler (new_connection (Some (set_fd 9 (new_sock True))) (new_buffer 1 2) (new_buffer 3 4) (\<lambda>_. 0))
        empty_heap () IDLE) = Some (r, h) \<and>
    contents (output_buffer (hconn h)) = request_text ''/a'' ''b'' \<and>
    (\<exists>c'. handle_output (hconn h) 9 (\<lambda>_. (5000, 0)) = Some (0, request_text ''/a'' ''b'', c'))"
proof -
  let ?c = "new_connection (Some (set_fd 9 (new_sock True))) (new_buffer 1 2) (new_buffer 3 4) (\<lambda>_. 0)"
  have "heap_ok empty_heap" by (simp add: heap_ok_def empty_heap_def)
  moreover have "stream ?c = Some (Some (set_fd 9 (new_sock True)))" "can_write (set_fd 9 (new_sock True))"
    "fd_no (set_fd 9 (new_sock True)) = 9"
    by (simp_all add: new_connection_def set_fd_def new_sock_def)
  moreover have "buffer_wf (output_buffer ?c)" "contents (output_buffer ?c) = []"
    by (simp_all add: new_connection_def new_buffer_wf)
  moreover have "length (request_text ''/a'' ''b'') \<le> 4096"
    by (simp add: request_text_def header_line_def CRLF_def USERAGENT_def ACCEPT_def ACCEPTENCODING_def ACCEPTLANGUAGE_def)
  ultimately show ?thesis
    using http_request_sent [of empty_heap "range_of_string ''/a''" "range_of_string ''b''" ?c "set_fd 9 (new_sock True)"
        "\<lambda>_ _. []" "()" IDLE "\<lambda>_. (5000, 0)"] range_of_string_ok(1) [of "''/a''"] range_of_string_ok(1) [of "''b''"]
    by (auto simp: range_of_string_ok(2) INVALID_HANDLE_def)
qed

text \<open>
  The parser on the pieces of a text: whether it takes every piece whole and without an error, the callbacks that it makes,
  and its state after. The callbacks for the reason and for chunks end in the wrapper.
\<close>

fun takes_whole :: "'p http_parser \<Rightarrow> bytes list \<Rightarrow> 'p \<Rightarrow> bool" where
  "takes_whole P [] p \<longleftrightarrow> True"
| "takes_whole P (d # ds) p \<longleftrightarrow> http_errno P p = 0 \<and>
     (case execute P p d of (_, n, p1) \<Rightarrow> n = length d \<and> http_errno P p1 = 0 \<and> takes_whole P ds p1)"

fun parser_run :: "'p http_parser \<Rightarrow> bytes list \<Rightarrow> 'p \<Rightarrow> parser_event list \<times> 'p" where
  "parser_run P [] p = ([], p)"
| "parser_run P (d # ds) p =
     (case execute P p d of (es, _, p1) \<Rightarrow> case parser_run P ds p1 of (fs, p2) \<Rightarrow> (es @ fs, p2))"

fun passed_on :: "parser_event \<Rightarrow> bool" where
  "passed_on (Reason _) \<longleftrightarrow> False"
| "passed_on (Chunk_header _) \<longleftrightarrow> False"
| "passed_on Chunk_complete \<longleftrightarrow> False"
| "passed_on _ \<longleftrightarrow> True"

lemma wrapper_callback_passes:
  assumes "wrapper_callback e (hp, c) = Some (hp', c')" and "has_callback c"
  shows "has_callback c' \<and> callbacks c' = callbacks c @ filter passed_on [e]"
  using assms
  by (cases e)
    (auto simp: wrapper_callback_def onMessageBegin_def onURL_def onStatus_def onHeaderField_def onHeaderValue_def
      onHeadersComplete_def onBody_def onMessageComplete_def notify_def split: bind_splits if_splits option.splits)

lemma run_events_passes:
  assumes "run_events es (hp, c) = Some (hp', c')" and "has_callback c"
  shows "has_callback c' \<and> callbacks c' = callbacks c @ filter passed_on es"
  using assms
proof (induction es arbitrary: hp c)
  case (Cons e es)
  then obtain hp1 c1 where one: "wrapper_callback e (hp, c) = Some (hp1, c1)" "run_events es (hp1, c1) = Some (hp', c')"
    by (auto split: bind_splits)
  then show ?case using Cons.IH [OF one(2)] wrapper_callback_passes [OF one(1) Cons.prems(2)] by simp
qed simp

text \<open>Feeding the codec is running the callbacks of the parser, when the parser takes everything.\<close>

lemma feed_run:
  assumes "has_callback c" and "[] \<notin> set ds"
  shows "feed P cb ds (p, hp, c, s) =
    (if takes_whole P ds p
     then map_option (\<lambda>(hp', c'). (snd (parser_run P ds p), hp', c', fold cb (filter passed_on (fst (parser_run P ds p))) s))
       (run_events (fst (parser_run P ds p)) (hp, c))
     else None)"
  using assms
proof (induction ds arbitrary: p hp c s)
  case (Cons d ds)
  obtain es n p1 where x: "execute P p d = (es, n, p1)" by (metis prod_cases3)
  show ?case
  proof (cases "http_errno P p = 0 \<and> n = length d \<and> http_errno P p1 = 0")
    case False
    then show ?thesis using x Cons.prems(2) by (auto simp: onIngress_def split: bind_splits)
  next
    case ok: True
    show ?thesis
    proof (cases "run_events es (hp, c)")
      case None
      then show ?thesis using x ok by (auto simp: onIngress_def run_events_append split: prod.splits)
    next
      case (Some r)
      obtain hp1 c1 where r: "r = (hp1, c1)" by (cases r)
      have c1: "has_callback c1" "callbacks c1 = callbacks c @ filter passed_on es"
        using run_events_passes Some r Cons.prems(1) by auto
      show ?thesis
        using x ok Some r Cons.prems(2) Cons.IH [OF c1(1)] c1(2)
        by (auto simp: onIngress_def run_events_append user_callbacks_def split: prod.splits)
    qed
  qed
qed simp

text \<open>
  C37. For every parser, whatever callbacks it makes: \<open>handle_input\<close> gives the bytes that were waiting and the up to 4096
  bytes of this read to the parser, in order, each once, in non-empty pieces (one piece when nothing was waiting). When
  the parser takes every piece whole and the codec accepts its callbacks, the codec is left as the callbacks leave it, the
  user's object gets them in order without those for the reason and for chunks, the input buffer is empty, and the
  result is -1 exactly when \<open>should_close_\<close> is set after them. Otherwise an assertion of \<open>handle_input\<close> or of the codec
  fails. The nodejs parser, which the repository includes from another project, is the parameter \<open>P\<close>; nothing is
  assumed of it.
\<close>

theorem http_input_parsed:
  assumes "stream (hconn h) = Some (Some s)" and "can_read s" and "fd_no s \<noteq> INVALID_HANDLE" and "d \<noteq> []"
    and "buffer_wf (input_buffer (hconn h))" and "length (contents (input_buffer (hconn h))) < 4294967196"
    and "\<not> codec_error (codec h)" and "has_callback (codec h)"
  shows "\<exists>ds es p'. concat ds = contents (input_buffer (hconn h)) @ take 4096 d \<and> [] \<notin> set ds \<and>
    (contents (input_buffer (hconn h)) = [] \<longrightarrow> ds = [take 4096 d]) \<and> parser_run P ds (hparser h) = (es, p') \<and>
    (case http_handle_input P cb h (fd_no s) (Data d) errno of
       None \<Rightarrow> \<not> takes_whole P ds (hparser h) \<or> run_events es (hheap h, codec h) = None
     | Some (r, h') \<Rightarrow> takes_whole P ds (hparser h) \<and> hparser h' = p' \<and>
         run_events es (hheap h, codec h) = Some (hheap h', codec h') \<and>
         callbacks (codec h') = callbacks (codec h) @ filter passed_on es \<and>
         should_close h' = fold cb (filter passed_on es) (should_close h) \<and>
         contents (input_buffer (hconn h')) = [] \<and> r = (if should_close h' then - 1 else 0))"
proof -
  obtain ds b where ds: "concat ds = contents (input_buffer (hconn h)) @ take 4096 d" "[] \<notin> set ds"
    "contents (input_buffer (hconn h)) = [] \<longrightarrow> ds = [take 4096 d]" and b: "contents b = []"
    and run: "http_handle_input P cb h (fd_no s) (Data d) errno =
      map_option (\<lambda>r. (if should_close (parsed b h r) then - 1 else 0, parsed b h r))
        (feed P cb ds (hparser h, hheap h, codec h, should_close h))"
    using http_handle_input_law [OF assms(1-7)] by blast
  obtain es p' where es: "parser_run P ds (hparser h) = (es, p')" by (cases "parser_run P ds (hparser h)")
  show ?thesis
    using ds es run b feed_run [OF assms(8) ds(2), of P cb "hparser h" "hheap h" "should_close h"] run_events_passes [OF _ assms(8)]
    by (intro exI [of _ ds] exI [of _ es] exI [of _ p'])
      (cases "run_events es (hheap h, codec h)"; auto split: if_splits)
qed

text \<open>A parser for a body that comes in chunks: every piece is a chunk, and the first one begins the message.\<close>

definition chunk_parser :: "bool http_parser" where
  "chunk_parser = \<lparr>http_errno = \<lambda>_. 0, execute = \<lambda>begun d. ((if begun then [] else [Message_begin]) @
     [Chunk_header (length d), Body d, Chunk_complete], length d, True), parser_pause = \<lambda>_ p. p\<rparr>"

theorem http_input_parsed_witness:
  "\<exists>h'. http_handle_input chunk_parser (\<lambda>e s. s \<or> e = Body ''abc'') (new_HttpHandler
      (new_connection (Some (set_fd 9 (new_sock True))) (new_buffer 1 2) (new_buffer 3 4) (\<lambda>_. 0)) empty_heap False IDLE)
      9 (Data ''abc'') 0 = Some (- 1, h') \<and> callbacks (codec h') = [Message_begin, Body ''abc''] \<and> hparser h' \<and>
    contents (input_buffer (hconn h')) = []"
proof -
  let ?c = "new_connection (Some (set_fd 9 (new_sock True))) (new_buffer 1 2) (new_buffer 3 4) (\<lambda>_. 0)"
  let ?h = "new_HttpHandler ?c empty_heap False IDLE"
  let ?cb = "\<lambda>e s. s \<or> e = Body ''abc''"
  let ?es = "[Message_begin, Chunk_header 3, Body ''abc'', Chunk_complete]"
  have s: "stream (hconn ?h) = Some (Some (set_fd 9 (new_sock True)))" "can_read (set_fd 9 (new_sock True))"
    "fd_no (set_fd 9 (new_sock True)) = 9" "buffer_wf (input_buffer (hconn ?h))" "contents (input_buffer (hconn ?h)) = []"
    "\<not> codec_error (codec ?h)" "has_callback (codec ?h)" "hparser ?h = False" "callbacks (codec ?h) = []" "\<not> should_close ?h"
    by (simp_all add: new_HttpHandler_def new_connection_def set_fd_def new_sock_def new_buffer_wf setCallback_def new_codec_def)
  have p: "parser_run chunk_parser [''abc''] False = (?es, True)" "takes_whole chunk_parser [''abc''] False"
    by (simp_all add: chunk_parser_def)
  have m: "run_events ?es (hheap ?h, codec ?h) \<noteq> None"
    by (simp add: wrapper_callback_def onMessageBegin_def onBody_def new_HttpHandler_def setCallback_def new_codec_def)
  have f: "fd_no (set_fd 9 (new_sock True)) \<noteq> INVALID_HANDLE" "length (contents (input_buffer (hconn ?h))) < 4294967196"
    by (simp_all only: s list.size) (simp_all add: INVALID_HANDLE_def)
  from http_input_parsed [OF s(1,2) f(1) _ s(4) f(2) s(6,7), of "''abc''" chunk_parser ?cb 0]
  have "\<exists>ds es p'. ds = [''abc''] \<and> parser_run chunk_parser ds False = (es, p') \<and>
    (case http_handle_input chunk_parser ?cb ?h 9 (Data ''abc'') 0 of
       None \<Rightarrow> \<not> takes_whole chunk_parser ds False \<or> run_events es (hheap ?h, codec ?h) = None
     | Some (r, h') \<Rightarrow> hparser h' = p' \<and> callbacks (codec h') = filter passed_on es \<and>
         should_close h' = fold ?cb (filter passed_on es) False \<and>
         contents (input_buffer (hconn h')) = [] \<and> r = (if should_close h' then - 1 else 0))"
    unfolding s(3,5,8,9) using s(10) by (fastforce split: option.splits)
  then show ?thesis using p m by (auto split: option.splits)
qed

subsection \<open>Errors\<close>

text \<open>
  A response that the parser refuses is not an error of \<open>handle_input\<close>: \<open>hasError\<close> is never true, and the assertion on the
  number of parsed bytes fails.
\<close>

lemma feed_error:
  assumes "d \<noteq> []" and "http_errno P (snd (snd (execute P p d))) \<noteq> 0"
  shows "feed P cb [d] (p, hp, c, s) = None"
proof -
  obtain es n p1 where "execute P p d = (es, n, p1)" by (metis prod_cases3)
  then show ?thesis using assms by (cases "run_events es (hp, c)") (auto simp: onIngress_def)
qed

lemma parse_error_aborts:
  assumes "stream (hconn h) = Some (Some s)" and "can_read s" and "fd_no s \<noteq> INVALID_HANDLE" and "d \<noteq> []"
    and "buffer_wf (input_buffer (hconn h))" and "contents (input_buffer (hconn h)) = []" and "\<not> codec_error (codec h)"
    and "http_errno P (snd (snd (execute P (hparser h) (take 4096 d)))) \<noteq> 0"
  shows "http_handle_input P cb h (fd_no s) (Data d) errno = None"
proof -
  have "feed P cb [take 4096 d] (hparser h, hheap h, codec h, should_close h) = None"
    using feed_error [OF _ assms(8)] assms(4) by simp
  then show ?thesis
    using http_handle_input_law [OF assms(1-5) _ assms(7), of P cb errno] assms(6) by auto
qed

text \<open>A host of 64 bytes or more does not fit into the array of \<open>retrive_addr\<close>; a shorter one is resolved.\<close>

lemma retrive_addr_cases:
  assumes "range_ok (host u)" and "is_https u = Some https" and "NUL \<notin> set (range_text (host u))"
  shows "retrive_addr R u =
    (if length (range_text (host u)) < 64
     then Some (set_port_number R (if https then 443 else 80)
       (case getaddrinfo R (range_text (host u)) of Some a \<Rightarrow> a | None \<Rightarrow> default_addr R))
     else None)"
proof -
  let ?t = "range_text (host u)"
  have copy: "memcpy (calloc 64) 0 ?t = (if length ?t \<le> 64 then Some (?t @ calloc (64 - length ?t)) else None)"
    by (simp add: memcpy_def calloc_def)
  have "takeWhile (\<lambda>c. c \<noteq> NUL) (?t @ calloc (64 - length ?t)) = ?t" if "length ?t < 64"
    using that assms(3) by (subst takeWhile_append2) (auto simp: calloc_def takeWhile_eq_Nil_iff)
  moreover have "NUL \<in> set (calloc (64 - length ?t)) \<longleftrightarrow> length ?t < 64" by (auto simp: calloc_def)
  ultimately show ?thesis
    using assms by (auto simp: retrive_addr_def range_read_ok copy)
qed

text \<open>When connecting fails \<open>get\<close> returns without closing the connection that it has made: it stays in the manager.\<close>

lemma get_connect_failure:
  assumes "reset_url (g_parse_url E) (range_of_cstr url_text) (url_parser hc) = Some u" and "valid u"
    and "is_https u = Some https" and "retrive_addr (g_resolver E) u = Some a"
    and "connector_connect http_open (g_kernel E a) 1000000 (new_connector (g_connection E https)) = Some (False, k)"
  shows "\<exists>hc'. HttpClient_get E url_text hc = Some (- 1, hc') \<and>
    services (client_manager (http_client hc')) (g_addr E) = Some k \<and>
    connections (client_manager (http_client hc')) = g_addr E # connections (client_manager (http_client hc))"
  using assms by (simp add: HttpClient_get_def Let_def addConnection_def makeConnection_def put_service_def)

end
