(* ===== verification/X_String.thy ===== *)
theory X_String
  imports Http_Message
begin

text \<open>
  \<open>util::string\<close> (\<open>src/util/XString.h\<close>): a string with its own block of memory. The block is a list of \<open>m_capacity\<close> bytes,
  the null pointer \<open>None\<close>, and every \<open>memcpy\<close>, \<open>memset\<close> and \<open>strcmp\<close> is checked against it. Operations that allocate say
  how many blocks they lose: the destructor frees the block of a string that is not empty only. The
  constructor from \<open>unsigned char*\<close>, which leaves the pointer without a value, is not modelled.
\<close>

subsection \<open>State and constructors\<close>

record xstring =
  m_length :: nat
  m_capacity :: nat
  m_ptr :: "bytes option"

definition half_more :: "nat \<Rightarrow> nat" where
  "half_more n = u64 (n + n div 2)"

definition new_xstring :: xstring where
  "new_xstring = \<lparr>m_length = 0, m_capacity = 96, m_ptr = Some (calloc 96)\<rparr>"

definition xstring_of_size :: "nat \<Rightarrow> xstring" where
  "xstring_of_size n = \<lparr>m_length = 0, m_capacity = half_more n, m_ptr = Some (calloc (half_more n))\<rparr>"

definition fresh_string :: "nat \<Rightarrow> bytes \<Rightarrow> xstring option" where
  "fresh_string cap d = do {
     blk \<leftarrow> memcpy (calloc cap) 0 d;
     Some \<lparr>m_length = length d, m_capacity = cap, m_ptr = Some blk\<rparr>
   }"

definition xstring_of_cstr :: "bytes \<Rightarrow> xstring option" where
  "xstring_of_cstr p =
     (if NUL \<notin> set p then None
      else let n = strlen p; cap = half_more n in fresh_string (if cap = 0 then 96 else cap) (take n p))"

definition xstring_of_ptr :: "bytes \<Rightarrow> nat \<Rightarrow> xstring option" where
  "xstring_of_ptr p n = do { d \<leftarrow> memread p 0 n; fresh_string (if n = 0 then 96 else half_more n) d }"

text \<open>From a \<open>std::string\<close>; the one from an \<open>sso_string\<close> is the same.\<close>

definition xstring_of_std :: "bytes \<Rightarrow> xstring option" where
  "xstring_of_std d = fresh_string (half_more (length d)) d"

text \<open>Reading the first bytes and writing at a position through \<open>m_ptr\<close>; nothing can be read or written at the null pointer.\<close>

definition read_ptr :: "xstring \<Rightarrow> nat \<Rightarrow> bytes option" where
  "read_ptr s n = (case m_ptr s of None \<Rightarrow> if n = 0 then Some [] else None | Some b \<Rightarrow> memread b 0 n)"

definition write_ptr :: "xstring \<Rightarrow> nat \<Rightarrow> bytes \<Rightarrow> xstring option" where
  "write_ptr s pos d =
     (case m_ptr s of
        None \<Rightarrow> if pos = 0 \<and> d = [] then Some s else None
      | Some b \<Rightarrow> do { b1 \<leftarrow> memcpy b pos d; Some (s\<lparr>m_ptr := Some b1\<rparr>) })"

definition xstring_copy :: "xstring \<Rightarrow> xstring option" where
  "xstring_copy s = do { d \<leftarrow> read_ptr s (m_length s); fresh_string (m_capacity s) d }"

text \<open>The new string and the one that was moved from.\<close>

definition xstring_move :: "xstring \<Rightarrow> xstring \<times> xstring" where
  "xstring_move s = (s, \<lparr>m_length = 0, m_capacity = 0, m_ptr = None\<rparr>)"

definition lost_block :: "xstring \<Rightarrow> nat" where
  "lost_block s = (if m_ptr s = None then 0 else 1)"

text \<open>The destructor, as the number of blocks that it loses.\<close>

definition xstring_destroy :: "xstring \<Rightarrow> nat" where
  "xstring_destroy s = (if m_length s = 0 then lost_block s else 0)"

subsection \<open>Operations\<close>

definition reAllocate :: "nat \<Rightarrow> xstring \<Rightarrow> (nat \<times> xstring) option" where
  "reAllocate n s =
     (if n = 0 then Some (lost_block s, new_xstring)
      else if m_length s = 0 then
        Some (0, s\<lparr>m_capacity := half_more n, m_ptr := Some (calloc (half_more n))\<rparr>)
      else
        let (tmp, this) = xstring_move s
        in do {
          d \<leftarrow> read_ptr tmp (m_length tmp);
          blk \<leftarrow> memcpy (calloc (half_more n)) 0 d;
          Some (xstring_destroy tmp, this\<lparr>m_capacity := half_more n, m_ptr := Some blk, m_length := m_length tmp\<rparr>)
        })"

text \<open>Assignment from another object; from itself it does nothing.\<close>

definition xstring_assign :: "xstring \<Rightarrow> xstring \<Rightarrow> (nat \<times> xstring) option" where
  "xstring_assign t s = do {
     (l, s1) \<leftarrow> (if m_capacity s < m_length t then reAllocate (m_length t) s else Some (0, s));
     s2 \<leftarrow> write_ptr s1 0 (calloc (m_capacity s1));
     d \<leftarrow> read_ptr t (m_length t);
     s3 \<leftarrow> write_ptr s2 0 d;
     Some (l, s3\<lparr>m_length := m_length t\<rparr>)
   }"

definition xstring_append :: "xstring \<Rightarrow> xstring \<Rightarrow> (nat \<times> xstring) option" where
  "xstring_append t s =
     (let n = u64 (m_length s + m_length t)
      in if n > m_capacity s then do {
           (l, s1) \<leftarrow> reAllocate n s;
           d \<leftarrow> read_ptr t (m_length t);
           s2 \<leftarrow> write_ptr s1 (m_length s) d;
           Some (l, s2\<lparr>m_length := u64 (m_length s2 + m_length t)\<rparr>)
         }
         else do {
           d \<leftarrow> read_ptr t (m_length t);
           s1 \<leftarrow> write_ptr s (m_length s) d;
           Some (0, s1\<lparr>m_length := n\<rparr>)
         })"

text \<open>\<open>s.append(s)\<close>: the argument is the string itself, also after the reallocation.\<close>

definition xstring_append_self :: "xstring \<Rightarrow> (nat \<times> xstring) option" where
  "xstring_append_self s =
     (let n = u64 (m_length s + m_length s)
      in if n > m_capacity s then do {
           (l, s1) \<leftarrow> reAllocate n s;
           d \<leftarrow> read_ptr s1 (m_length s1);
           s2 \<leftarrow> write_ptr s1 (m_length s) d;
           Some (l, s2\<lparr>m_length := u64 (m_length s2 + m_length s1)\<rparr>)
         }
         else do {
           d \<leftarrow> read_ptr s (m_length s);
           s1 \<leftarrow> write_ptr s (m_length s) d;
           Some (0, s1\<lparr>m_length := n\<rparr>)
         })"

text \<open>The overloads that make a temporary string.\<close>

definition append_tmp :: "xstring option \<Rightarrow> xstring \<Rightarrow> (nat \<times> xstring) option" where
  "append_tmp t s = do { tmp \<leftarrow> t; (l, s1) \<leftarrow> xstring_append tmp s; Some (l + xstring_destroy tmp, s1) }"

definition xstring_append_cstr :: "bytes \<Rightarrow> xstring \<Rightarrow> (nat \<times> xstring) option" where
  "xstring_append_cstr p s = append_tmp (xstring_of_cstr p) s"

definition xstring_append_ptr :: "bytes \<Rightarrow> nat \<Rightarrow> xstring \<Rightarrow> (nat \<times> xstring) option" where
  "xstring_append_ptr p n s = append_tmp (xstring_of_ptr p n) s"

definition xstring_append_std :: "bytes \<Rightarrow> xstring \<Rightarrow> (nat \<times> xstring) option" where
  "xstring_append_std d s = append_tmp (xstring_of_std d) s"

definition xstring_clear :: "xstring \<Rightarrow> xstring option" where
  "xstring_clear s = do { s1 \<leftarrow> write_ptr s 0 (calloc (m_length s)); Some (s1\<lparr>m_length := 0\<rparr>) }"

definition xstring_at :: "xstring \<Rightarrow> int \<Rightarrow> char option" where
  "xstring_at s i = do { b \<leftarrow> m_ptr s; at b i }"

definition as_std_string :: "xstring \<Rightarrow> bytes option" where
  "as_std_string s = read_ptr s (m_length s)"

text \<open>The comparisons. \<open>end()\<close> is the position of the last byte.\<close>

definition xstring_end :: "xstring \<Rightarrow> int" where
  "xstring_end s = int (m_length s) - 1"

definition xstring_equal :: "xstring \<Rightarrow> xstring \<Rightarrow> bool option" where
  "xstring_equal s t =
     (if m_length s \<noteq> m_length t then Some False
      else do { a \<leftarrow> m_ptr s; b \<leftarrow> m_ptr t; r \<leftarrow> strcmp a b; Some (r = 0) })"

definition xstring_equal_cstr :: "xstring \<Rightarrow> bytes \<Rightarrow> bool option" where
  "xstring_equal_cstr s p = do { a \<leftarrow> m_ptr s; r \<leftarrow> strcmp a p; Some (r = 0) }"

definition xstring_not_equal :: "xstring \<Rightarrow> xstring \<Rightarrow> bool option" where
  "xstring_not_equal s t = map_option Not (xstring_equal s t)"

text \<open>\<open>memcmp\<close> of two texts of the same length, as the sign of the first difference.\<close>

fun memcmp :: "bytes \<Rightarrow> bytes \<Rightarrow> int" where
  "memcmp (a # as) (b # bs) = (if a = b then memcmp as bs else sgn (int (of_char a) - int (of_char b)))"
| "memcmp _ _ = 0"

definition compare_with :: "(int \<Rightarrow> bool) \<Rightarrow> (nat \<Rightarrow> nat \<Rightarrow> bool) \<Rightarrow> xstring \<Rightarrow> xstring \<Rightarrow> bool option" where
  "compare_with aux cmp s t = do {
     let n = (if m_length s < m_length t then m_length s else m_length t);
     a \<leftarrow> read_ptr s n;
     b \<leftarrow> read_ptr t n;
     let r = memcmp a b;
     Some (aux r \<or> r = 0 \<and> cmp (m_length s) (m_length t))
   }"

definition xstring_less :: "xstring \<Rightarrow> xstring \<Rightarrow> bool option" where
  "xstring_less = compare_with (\<lambda>r. r < 0) (<)"

definition xstring_less_eq :: "xstring \<Rightarrow> xstring \<Rightarrow> bool option" where
  "xstring_less_eq = compare_with (\<lambda>r. r < 0) (\<le>)"

definition xstring_greater_eq :: "xstring \<Rightarrow> xstring \<Rightarrow> bool option" where
  "xstring_greater_eq = compare_with (\<lambda>r. r > 0) (\<ge>)"

definition xstring_greater :: "xstring \<Rightarrow> xstring \<Rightarrow> bool option" where
  "xstring_greater = compare_with (\<lambda>r. r > 0) (>)"

text \<open>\<open>::atoi\<close>: blanks, a sign, digits; a result outside of \<open>int\<close> is undefined.\<close>

definition isspace :: "char \<Rightarrow> bool" where
  "isspace c \<longleftrightarrow> (of_char c :: nat) = 32 \<or> 9 \<le> (of_char c :: nat) \<and> (of_char c :: nat) \<le> 13"

definition isdigit :: "char \<Rightarrow> bool" where
  "isdigit c \<longleftrightarrow> 48 \<le> (of_char c :: nat) \<and> (of_char c :: nat) \<le> 57"

definition decimal_value :: "bytes \<Rightarrow> nat" where
  "decimal_value ds = foldl (\<lambda>v c. 10 * v + (of_char c - 48)) 0 ds"

definition atoi :: "bytes \<Rightarrow> int option" where
  "atoi p =
     (let s = dropWhile isspace (takeWhile (\<lambda>c. c \<noteq> NUL) p);
          neg = (s \<noteq> [] \<and> hd s = CHR ''-'');
          ds = takeWhile isdigit (if s \<noteq> [] \<and> (hd s = CHR ''-'' \<or> hd s = CHR ''+'') then tl s else s);
          v = (if neg then - int (decimal_value ds) else int (decimal_value ds))
      in if - 2147483648 \<le> v \<and> v \<le> 2147483647 then Some v else None)"

text \<open>\<open>operator int\<close>: with a quote in front the first and the last byte are left out.\<close>

definition xstring_to_int :: "xstring \<Rightarrow> int option" where
  "xstring_to_int s = do {
     b \<leftarrow> m_ptr s;
     c \<leftarrow> at b 0;
     buf \<leftarrow> (if c = CHR 0x22 then do {
         d \<leftarrow> memread b 1 (u64_sub (m_length s) 2);
         memcpy (calloc (u64_sub (m_length s) 1)) 0 d
       }
       else do {
         d \<leftarrow> memread b 0 (m_length s);
         memcpy (calloc (u64 (m_length s + 1))) 0 d
       });
     atoi buf
   }"

subsection \<open>What a string stands for\<close>

text \<open>The string \<open>s\<close> holds the text \<open>t\<close>: its block begins with it and is zero behind it.\<close>

definition string_holds :: "xstring \<Rightarrow> bytes \<Rightarrow> bool" where
  "string_holds s t \<longleftrightarrow> m_length s = length t \<and>
     (case m_ptr s of
        None \<Rightarrow> t = [] \<and> m_capacity s = 0
      | Some b \<Rightarrow> b = t @ calloc (m_capacity s - length t) \<and> length t \<le> m_capacity s \<and> m_capacity s < 2 ^ 63)"

definition xs_text :: "xstring \<Rightarrow> bytes" where
  "xs_text s = (case m_ptr s of None \<Rightarrow> [] | Some b \<Rightarrow> take (m_length s) b)"

lemma holds_text: "string_holds s t \<Longrightarrow> xs_text s = t"
  by (auto simp: string_holds_def xs_text_def split: option.splits)

lemma holds_length: "string_holds s t \<Longrightarrow> m_length s = length t \<and> length t \<le> m_capacity s"
  by (auto simp: string_holds_def split: option.splits)

lemma half_more_bounds: "n < 2 ^ 62 \<Longrightarrow> n \<le> half_more n \<and> half_more n < 2 ^ 63"
  by (simp add: half_more_def uint_simps)

lemma fresh_string_holds:
  assumes "length d \<le> cap" and "cap < 2 ^ 63"
  shows "\<exists>s. fresh_string cap d = Some s \<and> string_holds s d \<and> m_ptr s \<noteq> None \<and> m_capacity s = cap"
  using assms by (auto simp: fresh_string_def memcpy_def string_holds_def calloc_def)

lemma read_ptr_holds: "string_holds s t \<Longrightarrow> n \<le> length t \<Longrightarrow> read_ptr s n = Some (take n t)"
  by (auto simp: string_holds_def read_ptr_def memread_def split: option.splits)

lemma write_ptr_end:
  assumes "string_holds s a" and "length a + length d \<le> m_capacity s"
  shows "\<exists>s1. write_ptr s (length a) d = Some s1 \<and> m_length s1 = length a \<and>
    string_holds (s1\<lparr>m_length := length a + length d\<rparr>) (a @ d)"
proof (cases "m_ptr s")
  case None
  then show ?thesis using assms by (simp add: string_holds_def write_ptr_def)
next
  case (Some b)
  have "drop (length a + length d) b = calloc (m_capacity s - (length a + length d))"
    using assms Some by (simp add: string_holds_def calloc_def)
  moreover have "take (length a) b = a" "length a + length d \<le> length b"
    using assms Some by (simp_all add: string_holds_def)
  ultimately show ?thesis using assms Some by (auto simp: write_ptr_def memcpy_def string_holds_def)
qed

lemma reAllocate_holds:
  assumes "string_holds s t" and "length t \<le> n" and "0 < n" and "n < 2 ^ 62"
  shows "\<exists>s1. reAllocate n s = Some (0, s1) \<and> string_holds s1 t \<and> n \<le> m_capacity s1"
proof -
  have n: "n \<le> half_more n" "half_more n < 2 ^ 63" using half_more_bounds [OF assms(4)] by simp_all
  show ?thesis
  proof (cases "t = []")
    case True
    then show ?thesis using assms n by (auto simp: reAllocate_def string_holds_def)
  next
    case False
    have "read_ptr s (m_length s) = Some t" using read_ptr_holds [OF assms(1), of "length t"] assms(1) by (simp add: string_holds_def)
    moreover have "memcpy (calloc (half_more n)) 0 t = Some (t @ calloc (half_more n - length t))"
      using assms(2) n(1) by (simp add: memcpy_def calloc_def)
    ultimately show ?thesis
      using False assms n by (auto simp: reAllocate_def xstring_move_def xstring_destroy_def string_holds_def)
  qed
qed

lemma append_holds:
  assumes s: "string_holds s a" and t: "string_holds t b" and len: "length a + length b < 2 ^ 62"
  shows "\<exists>s'. xstring_append t s = Some (0, s') \<and> string_holds s' (a @ b)"
proof -
  have n: "u64 (m_length s + m_length t) = length a + length b" and la: "m_length s = length a" and lb: "m_length t = length b"
    using s t len by (simp_all add: string_holds_def uint_simps)
  have d: "read_ptr t (length b) = Some b" using read_ptr_holds [OF t, of "length b"] by simp
  show ?thesis
  proof (cases "length a + length b > m_capacity s")
    case True
    obtain s1 where s1: "reAllocate (length a + length b) s = Some (0, s1)" "string_holds s1 a" "length a + length b \<le> m_capacity s1"
    proof -
      have "0 < length a + length b" using True by linarith
      then show thesis using reAllocate_holds [OF s, of "length a + length b"] len that by auto
    qed
    obtain s2 where "write_ptr s1 (length a) b = Some s2" "m_length s2 = length a"
      "string_holds (s2\<lparr>m_length := length a + length b\<rparr>) (a @ b)"
      using write_ptr_end [OF s1(2,3)] by blast
    then show ?thesis using True s1(1) d n la lb len by (simp add: xstring_append_def uint_simps)
  next
    case False
    then show ?thesis using write_ptr_end [OF s, of b] d n la lb by (auto simp: xstring_append_def)
  qed
qed

lemma assign_holds:
  assumes s: "string_holds s a" and t: "string_holds t b" and len: "length b < 2 ^ 62"
  shows "\<exists>s'. xstring_assign t s = Some (0, s') \<and> string_holds s' b"
proof -
  have lb: "m_length t = length b" using t by (simp add: string_holds_def)
  have d: "read_ptr t (length b) = Some b" using read_ptr_holds [OF t, of "length b"] by simp
  have "\<exists>s1. (if m_capacity s < length b then reAllocate (length b) s else Some (0, s)) = Some (0, s1) \<and>
      string_holds s1 a \<and> length b \<le> m_capacity s1"
  proof (cases "m_capacity s < length b")
    case True
    then have "0 < length b" "length a \<le> length b" using holds_length [OF s] by linarith+
    then show ?thesis using reAllocate_holds [OF s, of "length b"] True len by auto
  qed (use s in simp)
  then obtain s1 where s1: "(if m_capacity s < length b then reAllocate (length b) s else Some (0, s)) = Some (0, s1)"
    "string_holds s1 a" "length b \<le> m_capacity s1" by blast
  show ?thesis
  proof (cases "m_ptr s1")
    case None
    then show ?thesis using s1 d lb by (auto simp: xstring_assign_def write_ptr_def string_holds_def calloc_def)
  next
    case (Some blk)
    then have blk: "length blk = m_capacity s1" "m_capacity s1 < 2 ^ 63" using s1(2) by (auto simp: string_holds_def)
    have w: "write_ptr s1 0 (calloc (m_capacity s1)) = Some (s1\<lparr>m_ptr := Some (calloc (m_capacity s1))\<rparr>)"
      using Some blk by (simp add: write_ptr_def memcpy_def)
    have w2: "write_ptr (s1\<lparr>m_ptr := Some (calloc (m_capacity s1))\<rparr>) 0 b =
        Some (s1\<lparr>m_ptr := Some (b @ calloc (m_capacity s1 - length b))\<rparr>)"
      using s1(3) by (simp add: write_ptr_def memcpy_def calloc_def)
    have "xstring_assign t s = Some (0, s1\<lparr>m_ptr := Some (b @ calloc (m_capacity s1 - length b)), m_length := length b\<rparr>)"
      unfolding xstring_assign_def lb s1(1) by (simp add: w w2 d)
    then show ?thesis using s1(3) blk(2) by (simp add: string_holds_def)
  qed
qed

lemma clear_holds:
  assumes "string_holds s a"
  shows "\<exists>s'. xstring_clear s = Some s' \<and> string_holds s' []"
  using assms
  by (cases "m_ptr s") (auto simp: xstring_clear_def write_ptr_def memcpy_def string_holds_def calloc_def simp flip: replicate_add)

lemma append_self_holds:
  assumes s: "string_holds s a" and len: "length a < 2 ^ 61"
  shows "\<exists>s'. xstring_append_self s = Some (0, s') \<and> string_holds s' (a @ a)"
proof -
  have n: "u64 (m_length s + m_length s) = length a + length a" and la: "m_length s = length a"
    using s len by (simp_all add: string_holds_def uint_simps)
  show ?thesis
  proof (cases "length a + length a > m_capacity s")
    case True
    then have "0 < length a + length a" by linarith
    then obtain s1 where s1: "reAllocate (length a + length a) s = Some (0, s1)" "string_holds s1 a" "length a + length a \<le> m_capacity s1"
      using reAllocate_holds [OF s, of "length a + length a"] len by auto
    obtain s2 where "write_ptr s1 (length a) a = Some s2" "m_length s2 = length a"
      "string_holds (s2\<lparr>m_length := length a + length a\<rparr>) (a @ a)"
      using write_ptr_end [OF s1(2,3)] by blast
    moreover have "read_ptr s1 (m_length s1) = Some a" "m_length s1 = length a"
      using read_ptr_holds [OF s1(2), of "length a"] s1(2) by (simp_all add: string_holds_def)
    ultimately show ?thesis using True s1(1) n la len by (simp add: xstring_append_self_def uint_simps)
  next
    case False
    then show ?thesis
      using write_ptr_end [OF s, of a] read_ptr_holds [OF s, of "length a"] n la by (auto simp: xstring_append_self_def)
  qed
qed

lemma constructors_hold:
  shows "string_holds new_xstring []" and "n < 2 ^ 62 \<Longrightarrow> string_holds (xstring_of_size n) []"
    and "NUL \<notin> set d \<Longrightarrow> length d < 2 ^ 62 \<Longrightarrow> \<exists>s. xstring_of_cstr (cstr d) = Some s \<and> string_holds s d \<and> m_ptr s \<noteq> None"
    and "n \<le> length p \<Longrightarrow> n < 2 ^ 62 \<Longrightarrow> \<exists>s. xstring_of_ptr p n = Some s \<and> string_holds s (take n p) \<and> m_ptr s \<noteq> None"
    and "length d < 2 ^ 62 \<Longrightarrow> \<exists>s. xstring_of_std d = Some s \<and> string_holds s d \<and> m_ptr s \<noteq> None"
proof -
  show "string_holds new_xstring []" by (simp add: string_holds_def new_xstring_def)
  show "n < 2 ^ 62 \<Longrightarrow> string_holds (xstring_of_size n) []"
    using half_more_bounds [of n] by (simp add: string_holds_def xstring_of_size_def)
  show "\<exists>s. xstring_of_cstr (cstr d) = Some s \<and> string_holds s d \<and> m_ptr s \<noteq> None" if "NUL \<notin> set d" "length d < 2 ^ 62"
  proof -
    have "take (length d) (cstr d) = d" "NUL \<in> set (cstr d)" by (simp_all add: cstr_def)
    then show ?thesis
      using fresh_string_holds [of d "if half_more (length d) = 0 then 96 else half_more (length d)"]
        half_more_bounds [OF that(2)] that
      by (auto simp: xstring_of_cstr_def strlen_cstr Let_def)
  qed
  show "\<exists>s. xstring_of_ptr p n = Some s \<and> string_holds s (take n p) \<and> m_ptr s \<noteq> None" if "n \<le> length p" "n < 2 ^ 62"
    using fresh_string_holds [of "take n p" "if n = 0 then 96 else half_more n"] half_more_bounds [OF that(2)] that
    by (auto simp: xstring_of_ptr_def memread_def)
  show "\<exists>s. xstring_of_std d = Some s \<and> string_holds s d \<and> m_ptr s \<noteq> None" if "length d < 2 ^ 62"
    using fresh_string_holds [of d "half_more (length d)"] half_more_bounds [OF that]
    by (auto simp: xstring_of_std_def)
qed

lemma copy_holds: "string_holds s a \<Longrightarrow> \<exists>s'. xstring_copy s = Some s' \<and> string_holds s' a"
proof -
  assume s: "string_holds s a"
  then have "length a \<le> m_capacity s" "m_capacity s < 2 ^ 63" by (auto simp: string_holds_def split: option.splits)
  then show ?thesis
    using fresh_string_holds [of a "m_capacity s"] read_ptr_holds [OF s, of "length a"] s
    by (auto simp: xstring_copy_def string_holds_def)
qed

text \<open>A temporary that is empty is lost.\<close>

lemma append_tmp_holds:
  assumes "string_holds s a" and "t = Some tmp" and "string_holds tmp d" and "m_ptr tmp \<noteq> None" and "length a + length d < 2 ^ 62"
  shows "\<exists>s'. append_tmp t s = Some (if d = [] then 1 else 0, s') \<and> string_holds s' (a @ d)"
  using append_holds [OF assms(1,3,5)] assms(2-4)
  by (auto simp: append_tmp_def xstring_destroy_def lost_block_def string_holds_def)

subsection \<open>Strings behave like texts\<close>

datatype xs_op =
    Append_text bytes
  | Append_cstr bytes
  | Append_block bytes nat
  | Append_std bytes
  | Assign_text bytes
  | Clear

text \<open>The argument of \<open>append\<close> and of the assignment is a string that was made from a \<open>std::string\<close>.\<close>

fun xs_step :: "xs_op \<Rightarrow> xstring \<Rightarrow> (xstring \<times> nat) option" where
  "xs_step (Append_text d) s = do { t \<leftarrow> xstring_of_std d; (l, s1) \<leftarrow> xstring_append t s; Some (s1, l) }"
| "xs_step (Append_cstr d) s = do { (l, s1) \<leftarrow> xstring_append_cstr (cstr d) s; Some (s1, l) }"
| "xs_step (Append_block p n) s = do { (l, s1) \<leftarrow> xstring_append_ptr p n s; Some (s1, l) }"
| "xs_step (Append_std d) s = do { (l, s1) \<leftarrow> xstring_append_std d s; Some (s1, l) }"
| "xs_step (Assign_text d) s = do { t \<leftarrow> xstring_of_std d; (l, s1) \<leftarrow> xstring_assign t s; Some (s1, l) }"
| "xs_step Clear s = do { s1 \<leftarrow> xstring_clear s; Some (s1, 0) }"

fun xs_spec :: "xs_op \<Rightarrow> bytes \<Rightarrow> bytes \<times> nat" where
  "xs_spec (Append_text d) a = (a @ d, 0)"
| "xs_spec (Append_cstr d) a = (a @ d, if d = [] then 1 else 0)"
| "xs_spec (Append_block p n) a = (a @ take n p, if n = 0 then 1 else 0)"
| "xs_spec (Append_std d) a = (a @ d, if d = [] then 1 else 0)"
| "xs_spec (Assign_text d) a = (d, 0)"
| "xs_spec Clear a = ([], 0)"

fun xs_op_ok :: "xs_op \<Rightarrow> bool" where
  "xs_op_ok (Append_text d) \<longleftrightarrow> length d \<le> 2 ^ 32"
| "xs_op_ok (Append_cstr d) \<longleftrightarrow> NUL \<notin> set d \<and> length d \<le> 2 ^ 32"
| "xs_op_ok (Append_block p n) \<longleftrightarrow> n \<le> length p \<and> n \<le> 2 ^ 32"
| "xs_op_ok (Append_std d) \<longleftrightarrow> length d \<le> 2 ^ 32"
| "xs_op_ok (Assign_text d) \<longleftrightarrow> length d \<le> 2 ^ 32"
| "xs_op_ok Clear \<longleftrightarrow> True"

definition xs_inv :: "nat \<Rightarrow> xstring \<Rightarrow> bool" where
  "xs_inv k s \<longleftrightarrow> string_holds s (xs_text s) \<and> length (xs_text s) + k * 2 ^ 32 < 2 ^ 61"

lemma xs_inv_step:
  assumes "xs_inv (Suc k) s" and "string_holds s' (xs_text s @ d) \<or> string_holds s' d" and "length d \<le> 2 ^ 32"
  shows "xs_inv k s'"
  using assms holds_text [of s' "xs_text s @ d"] holds_text [of s' d] by (auto simp: xs_inv_def)

lemma xs_step_simulates:
  assumes inv: "xs_inv (Suc k) s" and ok: "xs_op_ok a"
  shows "\<exists>s'. xs_step a s = Some (s', snd (xs_spec a (xs_text s))) \<and> xs_inv k s' \<and> xs_text s' = fst (xs_spec a (xs_text s))"
proof -
  have room: "length (xs_text s) + length d < 2 ^ 62" if "length d \<le> 2 ^ 32" for d :: bytes
    using inv that by (auto simp: xs_inv_def)
  have s: "string_holds s (xs_text s)" using inv by (simp add: xs_inv_def)
  have finish: "\<exists>s'. x = Some (s', l) \<and> xs_inv k s' \<and> xs_text s' = v"
    if "\<exists>s'. x = Some (s', l) \<and> string_holds s' v" "v = xs_text s @ d \<or> v = d" "length d \<le> 2 ^ 32" for x l v d
    using that xs_inv_step [OF inv] holds_text by metis
  show ?thesis
  proof (cases a)
    case (Append_text d)
    then have d: "length d \<le> 2 ^ 32" "length d < 2 ^ 62" using ok by simp_all
    obtain t where t: "xstring_of_std d = Some t" "string_holds t d" using constructors_hold(5) [OF d(2)] by blast
    have "\<exists>s'. xs_step a s = Some (s', 0) \<and> string_holds s' (xs_text s @ d)"
      using append_holds [OF s t(2) room [OF d(1)]] t(1) Append_text by auto
    from finish [OF this _ d(1)] show ?thesis using Append_text by simp
  next
    case (Append_cstr d)
    then have d: "length d \<le> 2 ^ 32" "length d < 2 ^ 62" "NUL \<notin> set d" using ok by simp_all
    obtain t where t: "xstring_of_cstr (cstr d) = Some t" "string_holds t d" "m_ptr t \<noteq> None"
      using constructors_hold(3) [OF d(3,2)] by blast
    have "\<exists>s'. xs_step a s = Some (s', if d = [] then 1 else 0) \<and> string_holds s' (xs_text s @ d)"
      using append_tmp_holds [OF s t(1-3) room [OF d(1)]] Append_cstr by (auto simp: xstring_append_cstr_def)
    from finish [OF this _ d(1)] show ?thesis using Append_cstr by simp
  next
    case (Append_block p n)
    let ?d = "take n p"
    have n: "n \<le> length p" "n < 2 ^ 62" "length ?d \<le> 2 ^ 32" using ok Append_block by simp_all
    obtain t where t: "xstring_of_ptr p n = Some t" "string_holds t ?d" "m_ptr t \<noteq> None"
      using constructors_hold(4) [OF n(1,2)] by blast
    have "\<exists>s'. xs_step a s = Some (s', if ?d = [] then 1 else 0) \<and> string_holds s' (xs_text s @ ?d)"
      using append_tmp_holds [OF s t(1-3) room [OF n(3)]] Append_block by (auto simp: xstring_append_ptr_def)
    from finish [OF this _ n(3)] show ?thesis using Append_block n(1) by (cases "n = 0") auto
  next
    case (Append_std d)
    then have d: "length d \<le> 2 ^ 32" "length d < 2 ^ 62" using ok by simp_all
    obtain t where t: "xstring_of_std d = Some t" "string_holds t d" "m_ptr t \<noteq> None" using constructors_hold(5) [OF d(2)] by blast
    have "\<exists>s'. xs_step a s = Some (s', if d = [] then 1 else 0) \<and> string_holds s' (xs_text s @ d)"
      using append_tmp_holds [OF s t(1-3) room [OF d(1)]] Append_std by (auto simp: xstring_append_std_def)
    from finish [OF this _ d(1)] show ?thesis using Append_std by simp
  next
    case (Assign_text d)
    then have d: "length d \<le> 2 ^ 32" "length d < 2 ^ 62" using ok by simp_all
    obtain t where t: "xstring_of_std d = Some t" "string_holds t d" using constructors_hold(5) [OF d(2)] by blast
    have "\<exists>s'. xs_step a s = Some (s', 0) \<and> string_holds s' d"
      using assign_holds [OF s t(2) d(2)] t(1) Assign_text by auto
    from finish [OF this _ d(1)] show ?thesis using Assign_text by simp
  next
    case Clear
    have "\<exists>s'. xs_step a s = Some (s', 0) \<and> string_holds s' []" using clear_holds [OF s] Clear by auto
    from finish [OF this, of "[]"] show ?thesis using Clear by simp
  qed
qed

interpretation xs: op_refinement xs_step xs_spec xs_inv xs_text xs_op_ok
  by unfold_locales (rule xs_step_simulates)

subsection \<open>Comparisons\<close>

abbreviation byte_values :: "bytes \<Rightarrow> nat list" where
  "byte_values t \<equiv> map of_char t"

lemma memcmp_lexordp:
  "memcmp a b < 0 \<or> memcmp a b = 0 \<and> length a < length b \<longleftrightarrow> ord_class.lexordp (byte_values a) (byte_values b)"
proof (induction a arbitrary: b)
  case Nil
  then show ?case by (cases b) simp_all
next
  case (Cons x xs)
  show ?case
  proof (cases b)
    case (Cons y ys)
    have "(of_char x :: nat) < of_char y \<or> (of_char y :: nat) < of_char x" if "x \<noteq> y"
      using that of_char_eq_iff [of x y, where 'a = nat] by linarith
    then show ?thesis using Cons.IH [of ys] Cons by (cases "x = y") (auto simp: sgn_if)
  qed simp
qed

lemma memcmp_swap: "memcmp b a = - memcmp a b"
  by (induction a b rule: memcmp.induct) (auto simp: sgn_if)

lemma memcmp_take: "n = min (length a) (length b) \<Longrightarrow> memcmp (take n a) (take n b) = memcmp a b"
  by (induction a b arbitrary: n rule: memcmp.induct) auto

lemma compare_with_holds:
  assumes "string_holds s a" and "string_holds t b"
  shows "compare_with aux cmp s t = Some (aux (memcmp a b) \<or> memcmp a b = 0 \<and> cmp (length a) (length b))"
proof -
  let ?n = "if m_length s < m_length t then m_length s else m_length t"
  have l: "m_length s = length a" "m_length t = length b" using assms by (simp_all add: string_holds_def)
  then have "?n = min (length a) (length b)" by (simp add: min_def)
  then have "read_ptr s ?n = Some (take ?n a)" "read_ptr t ?n = Some (take ?n b)" "memcmp (take ?n a) (take ?n b) = memcmp a b"
    using read_ptr_holds [OF assms(1), of ?n] read_ptr_holds [OF assms(2), of ?n] memcmp_take [of ?n a b] by simp_all
  then show ?thesis unfolding compare_with_def Let_def l by simp
qed

lemma comparisons_hold:
  assumes "string_holds s a" and "string_holds t b"
  shows "xstring_less s t = Some (ord_class.lexordp (byte_values a) (byte_values b))"
    and "xstring_greater s t = Some (ord_class.lexordp (byte_values b) (byte_values a))"
    and "xstring_less_eq s t = Some (\<not> ord_class.lexordp (byte_values b) (byte_values a))"
    and "xstring_greater_eq s t = Some (\<not> ord_class.lexordp (byte_values a) (byte_values b))"
proof -
  note c = compare_with_holds [OF assms]
  have ba: "memcmp b a = - memcmp a b" by (rule memcmp_swap)
  show "xstring_less s t = Some (ord_class.lexordp (byte_values a) (byte_values b))"
    unfolding xstring_less_def c memcmp_lexordp by simp
  show "xstring_greater s t = Some (ord_class.lexordp (byte_values b) (byte_values a))"
    unfolding xstring_greater_def c memcmp_lexordp [symmetric] ba by auto
  show "xstring_less_eq s t = Some (\<not> ord_class.lexordp (byte_values b) (byte_values a))"
    unfolding xstring_less_eq_def c memcmp_lexordp [symmetric] ba by auto
  show "xstring_greater_eq s t = Some (\<not> ord_class.lexordp (byte_values a) (byte_values b))"
    unfolding xstring_greater_eq_def c memcmp_lexordp [symmetric] by auto
qed

text \<open>
  \<open>operator==\<close> reads on to a NUL: it is right for texts without a NUL in blocks that are not full, and reads behind the
  blocks of two equal strings that fill theirs, as every string made of one character does.
\<close>

lemma strcmp_padded:
  assumes "NUL \<notin> set a" and "NUL \<notin> set b" and "x = a @ NUL # u" and "y = b @ NUL # v"
  shows "\<exists>r. strcmp x y = Some r \<and> (r = 0 \<longleftrightarrow> a = b)"
  using assms
proof (induction a arbitrary: b x y)
  case Nil
  then show ?case by (cases b) (auto simp: sgn_char_diff dest: of_char_pos of_char_pos')
next
  case (Cons c a)
  then show ?case by (cases b) (auto simp: sgn_char_diff dest: of_char_pos of_char_pos')
qed

lemma equal_holds:
  assumes "string_holds s a" and "string_holds t b" and "NUL \<notin> set a" and "NUL \<notin> set b"
    and "length a < m_capacity s" and "length b < m_capacity t"
  shows "xstring_equal s t = Some (a = b)"
proof -
  have zero: "calloc n = NUL # calloc (n - 1)" if "0 < n" for n using that by (cases n) (simp_all add: calloc_def)
  obtain x y where x: "m_ptr s = Some x" "x = a @ NUL # calloc (m_capacity s - length a - 1)"
    and y: "m_ptr t = Some y" "y = b @ NUL # calloc (m_capacity t - length b - 1)"
    using assms zero [of "m_capacity s - length a"] zero [of "m_capacity t - length b"]
    by (auto simp: string_holds_def split: option.splits)
  obtain r where "strcmp x y = Some r" "r = 0 \<longleftrightarrow> a = b" using strcmp_padded [OF assms(3,4) x(2) y(2)] by blast
  then show ?thesis using x(1) y(1) assms(1,2) by (auto simp: xstring_equal_def string_holds_def)
qed

lemma strcmp_full: "NUL \<notin> set a \<Longrightarrow> strcmp a a = None"
  by (induction a) auto

lemma equal_full_undefined:
  assumes "string_holds s a" and "string_holds t a" and "NUL \<notin> set a" and "a \<noteq> []"
    and "m_capacity s = length a" and "m_capacity t = length a"
  shows "xstring_equal s t = None"
  using assms strcmp_full [OF assms(3)] by (auto simp: xstring_equal_def string_holds_def calloc_def split: option.splits)

lemma one_char_full: "c \<noteq> NUL \<Longrightarrow> \<exists>s. xstring_of_cstr (cstr [c]) = Some s \<and> string_holds s [c] \<and> m_capacity s = 1"
  using fresh_string_holds [of "[c]" 1] strlen_cstr [of "[c]"]
  by (auto simp: xstring_of_cstr_def half_more_def uint_simps cstr_def)

subsection \<open>Numbers\<close>

lemma decimal_value_snoc [simp]: "decimal_value [] = 0" "decimal_value (ds @ [c]) = 10 * decimal_value ds + (of_char c - 48)"
  by (simp_all add: decimal_value_def)

lemma digit_char: "n < 10 \<Longrightarrow> (of_char (char_of (48 + n) :: char) :: nat) = 48 + n"
  by simp

lemma to_string_decimal: "decimal_value (to_string n) = n \<and> list_all isdigit (to_string n)"
proof (induction n rule: to_string.induct)
  case (1 n)
  show ?case
  proof (cases "n < 10")
    case True
    have "decimal_value [] = 0" by simp
    then show ?thesis
      using True decimal_value_snoc(2) [of "[]" "char_of (48 + n)"] digit_char [OF True]
      by (simp add: to_string.simps [of n] isdigit_def)
  next
    case False
    have d: "(of_char (char_of (48 + n mod 10) :: char) :: nat) = 48 + n mod 10" by (rule digit_char) simp
    then show ?thesis using 1 [OF False] False by (simp add: to_string.simps [of n] isdigit_def)
  qed
qed

lemmas to_string_value = to_string_decimal [THEN conjunct1]

lemma digit_other:
  assumes "isdigit c"
  shows "c \<noteq> NUL" and "\<not> isspace c" and "c \<noteq> CHR ''-''" and "c \<noteq> CHR ''+''" and "c \<noteq> CHR 0x22"
  using assms by (auto simp: isdigit_def isspace_def)

lemma atoi_digits:
  assumes "list_all isdigit ds" and "decimal_value ds \<le> 2147483647"
  shows "atoi (ds @ NUL # u) = Some (int (decimal_value ds))"
proof -
  have tw: "takeWhile (\<lambda>c. c \<noteq> NUL) (ds @ NUL # u) = ds"
    using assms(1) by (subst takeWhile_append2) (auto simp: list_all_iff dest: digit_other)
  have dw: "dropWhile isspace ds = ds" using assms(1) by (cases ds) (auto dest: digit_other)
  have td: "takeWhile isdigit ds = ds" using assms(1) by (simp add: takeWhile_eq_all_conv list_all_iff)
  have "(ds \<noteq> [] \<and> hd ds = CHR ''-'') = False" "(ds \<noteq> [] \<and> (hd ds = CHR ''-'' \<or> hd ds = CHR ''+'')) = False"
    using assms(1) by (cases ds; auto dest: digit_other)+
  then show ?thesis using assms(2) unfolding atoi_def Let_def tw dw by (simp only: if_False td) simp
qed

lemma memcpy_terminated: "memcpy (calloc (Suc (length t))) 0 t = Some (t @ [NUL])"
proof -
  have "drop (length t) (calloc (Suc (length t))) = [NUL]" unfolding calloc_def drop_replicate by simp
  then show ?thesis by (simp add: memcpy_def)
qed

lemma to_int_holds:
  assumes "n \<le> 2147483647"
  shows "string_holds s (to_string n) \<Longrightarrow> xstring_to_int s = Some (int n)"
    and "string_holds s (CHR 0x22 # to_string n @ [CHR 0x22]) \<Longrightarrow> xstring_to_int s = Some (int n)"
proof -
  let ?t = "to_string n"
  have dig: "list_all isdigit ?t" and ne: "?t \<noteq> []" using to_string_decimal to_string_nonempty by blast+
  have num: "atoi (?t @ [NUL]) = Some (int n)"
    using atoi_digits [OF dig] assms by (simp add: to_string_value)
  show "xstring_to_int s = Some (int n)" if s: "string_holds s ?t"
  proof -
    obtain x where x: "m_ptr s = Some x" "x = ?t @ calloc (m_capacity s - length ?t)" "length ?t < 2 ^ 63"
      using s ne by (auto simp: string_holds_def split: option.splits)
    obtain c cs where c: "?t = c # cs" using ne by (cases ?t) simp_all
    have "at x 0 = Some c" "c \<noteq> CHR 0x22" using x(2) dig digit_other(5) [of c] by (simp_all add: at_def c)
    moreover have "memread x 0 (length ?t) = Some ?t" using x(2) by (simp add: memread_def)
    moreover have "memcpy (calloc (u64 (length ?t + 1))) 0 ?t = Some (?t @ [NUL])"
      using x(3) memcpy_terminated [of ?t] by (simp add: uint_simps)
    ultimately show ?thesis using s x(1) num by (simp add: xstring_to_int_def string_holds_def)
  qed
  show "xstring_to_int s = Some (int n)" if s: "string_holds s (CHR 0x22 # ?t @ [CHR 0x22])"
  proof -
    let ?q = "CHR 0x22 # ?t @ [CHR 0x22]"
    obtain x where x: "m_ptr s = Some x" "x = ?q @ calloc (m_capacity s - length ?q)" "length ?q < 2 ^ 63" "m_length s = length ?q"
      using s by (auto simp: string_holds_def split: option.splits)
    have l: "u64_sub (m_length s) 2 = length ?t" "u64_sub (m_length s) 1 = length ?t + 1"
      using x(3,4) by (simp_all add: uint_simps)
    have "at x 0 = Some (CHR 0x22)" using x(2) by (simp add: at_def)
    moreover have "memread x 1 (length ?t) = Some ?t" using x(2) by (simp add: memread_def)
    moreover have "memcpy (calloc (length ?t + 1)) 0 ?t = Some (?t @ [NUL])"
      using memcpy_terminated [of ?t] by simp
    ultimately show ?thesis using x(1) num l by (simp add: xstring_to_int_def)
  qed
qed

text \<open>A single quote makes \<open>operator int\<close> copy \<open>2 ^ 64 - 1\<close> bytes.\<close>

lemma to_int_quote_undefined:
  assumes "string_holds s [CHR 0x22]"
  shows "xstring_to_int s = None"
  using assms by (auto simp: xstring_to_int_def string_holds_def at_def memread_def u64_sub_def split: option.splits)

subsection \<open>What the class promises\<close>

text \<open>
  C33. A string behaves like a text. Any sequence of appends, assignments and \<open>clear\<close> on a new string, with arguments
  of up to \<open>2 ^ 32\<close> bytes, runs within its blocks and ends with a string that holds the text which the same operations
  make of the empty one; the only blocks lost are those of the empty temporaries of the appends. \<open>as_std_string\<close> and
  a copy give that text, and the four order relations are those of the texts by unsigned bytes.
\<close>

theorem xstring_refines_text:
  assumes "list_all xs_op_ok as" and "list_all xs_op_ok bs" and "length as < 2 ^ 28" and "length bs < 2 ^ 28"
    and "run_spec xs_spec as [] = (a, la)" and "run_spec xs_spec bs [] = (b, lb)"
  shows "\<exists>s t c. run_ops xs_step as new_xstring = Some (s, la) \<and> run_ops xs_step bs new_xstring = Some (t, lb) \<and>
    as_std_string s = Some a \<and> xstring_copy s = Some c \<and> as_std_string c = Some a \<and>
    xstring_less s t = Some (ord_class.lexordp (byte_values a) (byte_values b)) \<and>
    xstring_less_eq s t = Some (\<not> ord_class.lexordp (byte_values b) (byte_values a)) \<and>
    xstring_greater s t = Some (ord_class.lexordp (byte_values b) (byte_values a)) \<and>
    xstring_greater_eq s t = Some (\<not> ord_class.lexordp (byte_values a) (byte_values b))"
proof -
  have run: "\<exists>s. run_ops xs_step as new_xstring = Some (s, la) \<and> string_holds s a"
    if "list_all xs_op_ok as" "length as < 2 ^ 28" "run_spec xs_spec as [] = (a, la)" for as a la
  proof -
    have new: "xs_text new_xstring = []" "xs_inv (length as + 0) new_xstring"
      using that(2) constructors_hold(1) holds_text [OF constructors_hold(1)] by (simp_all add: xs_inv_def)
    then show ?thesis
      using xs.run_refines [OF new(2) that(1)] that(3) by (auto simp: xs_inv_def)
  qed
  obtain s t where st: "run_ops xs_step as new_xstring = Some (s, la)" "string_holds s a"
    "run_ops xs_step bs new_xstring = Some (t, lb)" "string_holds t b"
    using run [OF assms(1,3,5)] run [OF assms(2,4,6)] by blast
  obtain c where c: "xstring_copy s = Some c" "string_holds c a" using copy_holds [OF st(2)] by blast
  have std: "as_std_string x = Some v" if "string_holds x v" for x v
    using read_ptr_holds [OF that, of "length v"] that by (simp add: as_std_string_def string_holds_def)
  show ?thesis using st c std comparisons_hold [OF st(2,4)] by blast
qed

theorem xstring_refines_text_witness:
  "\<exists>s t. run_ops xs_step [Append_cstr ''ab'', Append_std []] new_xstring = Some (s, [0, 1]) \<and>
     run_ops xs_step [Append_text ''b''] new_xstring = Some (t, [0]) \<and> as_std_string s = Some ''ab'' \<and>
     xstring_less s t = Some True"
  using xstring_refines_text [of "[Append_cstr ''ab'', Append_std []]" "[Append_text ''b'']" "''ab''" "[0, 1]" "''b''" "[0]"]
  by fastforce

end
