(* ===== verification/Downloader.thy ===== *)
theory Downloader
  imports Http_Client X_String
begin

text \<open>
  The downloader (\<open>src/downloader/\<close>): \<open>Handler\<close>, one connection that asks for a range of a file and writes what it receives
  (\<open>Handler.cpp\<close>, with \<open>FileWriter\<close> of \<open>src/util/FileWriter.h\<close>), and \<open>Download\<close> (\<open>download.cpp\<close>), which asks for a first
  range to learn the size and then for the rest in parts. What a server sends is a parameter: a response for every
  connection, or none when it cannot be made. Opening and writing a file succeed.
\<close>

subsection \<open>\<open>FileWriter\<close>\<close>

text \<open>The file that is open, with what was written to it.\<close>

record FileWriter =
  fw_fileName :: string
  fw_stream :: "(string \<times> bytes) option"
  fw_valid :: bool
  isUsingDefautBuf :: bool
  isUsingConstomizedBuf :: bool
  fw_bytesWritten :: nat

definition new_FileWriter :: "string \<Rightarrow> FileWriter" where
  "new_FileWriter name = \<lparr>fw_fileName = name, fw_stream = None, fw_valid = True, isUsingDefautBuf = False,
     isUsingConstomizedBuf = False, fw_bytesWritten = 0\<rparr>"

definition resetFileName :: "string \<Rightarrow> FileWriter \<Rightarrow> int \<times> FileWriter" where
  "resetFileName name f = (if fw_bytesWritten f > 0 then (- 1, f) else (0, f\<lparr>fw_fileName := name\<rparr>))"

definition setDefaultBuffer :: "FileWriter \<Rightarrow> FileWriter" where
  "setDefaultBuffer f =
     (if \<not> fw_valid f then f else f\<lparr>fw_stream := Some (fw_fileName f, []), isUsingDefautBuf := True\<rparr>)"

definition setBufAndOpen :: "FileWriter \<Rightarrow> FileWriter" where
  "setBufAndOpen f =
     (let f1 = f\<lparr>fw_bytesWritten := 0\<rparr>
      in if \<not> fw_valid f1 \<or> isUsingConstomizedBuf f1 \<or> isUsingDefautBuf f1 then f1
         else f1\<lparr>fw_stream := Some (fw_fileName f1, []), isUsingConstomizedBuf := True\<rparr>)"

definition fw_write :: "bytes \<Rightarrow> FileWriter \<Rightarrow> FileWriter" where
  "fw_write d f =
     (let f1 = (if \<not> isUsingConstomizedBuf f \<and> \<not> isUsingDefautBuf f then setDefaultBuffer f else f)
      in if \<not> fw_valid f1 then f1
         else f1\<lparr>fw_stream := map_option (\<lambda>(n, t). (n, t @ d)) (fw_stream f1),
                fw_bytesWritten := u64 (fw_bytesWritten f1 + length d)\<rparr>)"

subsection \<open>\<open>Handler\<close>\<close>

datatype HandlerStatus =
    H_IDLE | REQUEST_SENT | RECEIVED302 | NEW_LOCATION_GOT | RECV302_WITHOUT_NEW_LOCATION | RECEIVED200
  | CHUNK_ENCODING | NOT_RESPONDING_TO_RANGE | RANGE_NOT_MATCH | RANGE_MATCH | PARTIALLY_DATA_GOT
  | NO_CONTENT_DISPOSITION

text \<open>\<open>updates\<close> are the calls of \<open>downloadUpdateCallback\<close>, by the number of bytes.\<close>

record Handler =
  fileSize :: nat
  rangeBegin :: nat
  rangeEnd :: nat
  bytesDownloaded :: nat
  isShouldClose :: bool
  usingRangeDownload :: bool
  h_url :: string
  h_status :: HandlerStatus
  fileName :: string
  fileWriter :: "FileWriter option"
  updates :: "nat list"

text \<open>The constructor; \<open>url_valid\<close> is what the parser says of the URL.\<close>

definition new_Handler :: "string \<Rightarrow> bool \<Rightarrow> nat \<Rightarrow> nat \<Rightarrow> Handler" where
  "new_Handler u url_valid b e = \<lparr>fileSize = 0, rangeBegin = b, rangeEnd = e, bytesDownloaded = 0,
     isShouldClose = False, usingRangeDownload = False, h_url = (if url_valid then u else []), h_status = H_IDLE,
     fileName = [], fileWriter = None, updates = []\<rparr>"

definition setDownloadRange :: "nat \<Rightarrow> nat \<Rightarrow> Handler \<Rightarrow> Handler" where
  "setDownloadRange b e h = h\<lparr>usingRangeDownload := True, rangeBegin := b, rangeEnd := e\<rparr>"

definition bytesRemainToDownload :: "Handler \<Rightarrow> nat" where
  "bytesRemainToDownload h =
     (if \<not> usingRangeDownload h then 0
      else u64 (u64_sub (u64_sub (rangeEnd h) (rangeBegin h)) (bytesDownloaded h) + 1))"

definition initFileWriter :: "Handler \<Rightarrow> Handler" where
  "initFileWriter h = h\<lparr>fileWriter := Some (new_FileWriter (fileName h))\<rparr>"

definition onStatus_dl :: "nat \<Rightarrow> Handler \<Rightarrow> int \<times> Handler" where
  "onStatus_dl st h =
     (if st = 302 then (0, h\<lparr>h_status := RECEIVED302\<rparr>)
      else if st = 200 \<or> st = 206 then (0, h\<lparr>h_status := RECEIVED200\<rparr>)
      else (- 1, h))"

definition onBody_dl :: "bytes \<Rightarrow> Handler \<Rightarrow> int \<times> Handler" where
  "onBody_dl d h =
     (if h_status h = RANGE_NOT_MATCH then (- 1, h\<lparr>isShouldClose := True\<rparr>)
      else
        let h1 = h\<lparr>bytesDownloaded := u64 (bytesDownloaded h + length d)\<rparr>
        in case fileWriter h1 of
             None \<Rightarrow> (0, h1)
           | Some f \<Rightarrow>
               let (name, f1) = (if h_status h1 = RANGE_MATCH
                     then let n = fileName h1 @ to_string (fileSize h1) in (n, snd (resetFileName n f))
                     else (fileName h1, f))
               in (0, h1\<lparr>fileName := name, fileWriter := Some (fw_write d f1), updates := updates h1 @ [length d]\<rparr>))"

text \<open>\<open>std::stoull\<close>: blanks, a sign, at least one digit; it throws otherwise and for a number that does not fit.\<close>

definition stoull :: "bytes \<Rightarrow> nat option" where
  "stoull p =
     (let s = dropWhile isspace p;
          neg = (s \<noteq> [] \<and> hd s = CHR ''-'');
          ds = takeWhile isdigit (if s \<noteq> [] \<and> (hd s = CHR ''-'' \<or> hd s = CHR ''+'') then tl s else s);
          v = decimal_value ds
      in if ds = [] \<or> v \<ge> 2 ^ 64 then None else Some (if neg then u64_sub 0 v else v))"

text \<open>\<open>std::find\<close> from a position, and the text between two positions, which has to be in order.\<close>

definition std_find :: "char \<Rightarrow> nat \<Rightarrow> bytes \<Rightarrow> nat" where
  "std_find c i s = i + length (takeWhile (\<lambda>x. x \<noteq> c) (drop i s))"

definition between :: "nat \<Rightarrow> nat \<Rightarrow> bytes \<Rightarrow> bytes option" where
  "between i j s = (if i \<le> j \<and> j \<le> length s then Some (take (j - i) (drop i s)) else None)"

text \<open>An iterator behind the end is undefined.\<close>

definition parseContentRangeHeader :: "string \<Rightarrow> Handler \<Rightarrow> ((nat \<times> nat) \<times> Handler) option" where
  "parseContentRangeHeader v h = do {
     let it = std_find CHR ''s'' 0 v + 1;
     t1 \<leftarrow> (if it \<le> length v then between it (std_find CHR ''-'' it v) v else None);
     start \<leftarrow> stoull t1;
     let it2 = std_find CHR ''-'' it v + 1;
     let slash = std_find CHR ''/'' 0 v;
     t2 \<leftarrow> between it2 slash v;
     e \<leftarrow> stoull t2;
     sz \<leftarrow> stoull (if slash = length v then [] else drop (slash + 1) v);
     Some ((start, e), h\<lparr>fileSize := sz\<rparr>)
   }"

definition DEFAULT_FILE_NAME :: string where
  "DEFAULT_FILE_NAME = ''unp.unp''"

text \<open>The end of a \<open>std::string\<close> can be read, as a NUL.\<close>

definition is_quote :: "char \<Rightarrow> bool" where
  "is_quote c \<longleftrightarrow> c = CHR 0x22 \<or> c = CHR 0x27"

definition retriveFileNameFromContentDisposition :: "string \<Rightarrow> Handler \<Rightarrow> Handler option" where
  "retriveFileNameFromContentDisposition cd h =
     (let it = std_find CHR ''='' 0 cd
      in if it = length cd then Some (h\<lparr>fileName := DEFAULT_FILE_NAME\<rparr>)
         else do {
           let b = (if is_quote ((cd @ [NUL]) ! (it + 1)) then it + 2 else it + 1);
           let e = (if is_quote (last cd) then length cd - 1 else length cd);
           name \<leftarrow> between b e cd;
           Some (h\<lparr>fileName := name @ ''_'' @ to_string (rangeBegin h) @ ''_'' @ to_string (rangeEnd h) @ ''_''\<rparr>)
         })"

definition onHeadersComplete_dl :: "HttpMessage \<Rightarrow> Handler \<Rightarrow> (int \<times> Handler) option" where
  "onHeadersComplete_dl m h =
     (if h_status h = RECEIVED302 then do {
        loc \<leftarrow> getHeaderValue HTTP_HEADER_LOCATION m;
        Some (case loc of
            None \<Rightarrow> (- 1, h\<lparr>isShouldClose := True, h_status := RECV302_WITHOUT_NEW_LOCATION\<rparr>)
          | Some u \<Rightarrow> (- 1, h\<lparr>h_url := u, h_status := NEW_LOCATION_GOT, isShouldClose := True\<rparr>))
      }
      else if h_status h = RECEIVED200 then do {
        cd \<leftarrow> getHeaderValue HTTP_HEADER_CONTENT_DISPOSITION m;
        let h1 = (if cd = None then h\<lparr>h_status := NO_CONTENT_DISPOSITION\<rparr> else h);
        h2 \<leftarrow> retriveFileNameFromContentDisposition (case cd of None \<Rightarrow> [] | Some v \<Rightarrow> v) h1;
        let h3 = initFileWriter h2;
        if \<not> usingRangeDownload h3 then Some (0, h3)
        else do {
          te \<leftarrow> getHeaderValue HTTP_HEADER_TRANSFER_ENCODING m;
          if te = Some ''chunked'' then Some (0, h3\<lparr>h_status := CHUNK_ENCODING\<rparr>)
          else do {
            cr \<leftarrow> getHeaderValue HTTP_HEADER_CONTENT_RANGE m;
            case cr of
              None \<Rightarrow> Some (0, h3\<lparr>h_status := NOT_RESPONDING_TO_RANGE\<rparr>)
            | Some v \<Rightarrow> do {
                ((b, e), h4) \<leftarrow> parseContentRangeHeader v h3;
                if b \<noteq> rangeBegin h4 then Some (- 1, h4\<lparr>h_status := RANGE_NOT_MATCH\<rparr>)
                else Some (0, h4\<lparr>rangeEnd := e, h_status := RANGE_MATCH\<rparr>)
              }
          }
        }
      }
      else Some (0, h))"

definition onMessageComplete_dl :: "Handler \<Rightarrow> int \<times> Handler" where
  "onMessageComplete_dl h = (0, h\<lparr>isShouldClose := True\<rparr>)"

text \<open>
  \<open>open\<close> on the connection, heap and request of the handler, which are the fields that \<open>HttpHandler\<close> has too. The path is
  given as a C string, so that it goes on to the end of the URL.
\<close>

primrec add_all :: "(HttpHeaderCode \<times> Range) list \<Rightarrow> 'p HttpHandler \<Rightarrow> 'p HttpHandler option" where
  "add_all [] c = Some c"
| "add_all (f # fs) c = do { c1 \<leftarrow> add_header (fst f) (snd f) c; add_all fs c1 }"

definition open_headers :: "Range \<Rightarrow> (HttpHeaderCode \<times> Range) list" where
  "open_headers host_piece =
     [(HTTP_HEADER_HOST, host_piece), (HTTP_HEADER_USER_AGENT, range_of_string USERAGENT),
      (HTTP_HEADER_ACCEPT, range_of_string ACCEPT), (HTTP_HEADER_ACCEPT_LANGUAGE, range_of_string ACCEPTLANGUAGE),
      (HTTP_HEADER_ACCEPT_ENCODING, range_of_string ''gzip, deflate''),
      (HTTP_HEADER_CONNECTION, range_of_string ''keep-alive''),
      (HTTP_HEADER_CACHE_CONTROL, range_of_string ''no-cache''), (HTTP_HEADER_PRAGMA, range_of_string ''no-cache'')]"

definition range_value :: "nat \<Rightarrow> nat \<Rightarrow> string" where
  "range_value b e = ''bytes='' @ to_string b @ ''-'' @ to_string e"

definition handler_open ::
  "(nat \<Rightarrow> nat \<Rightarrow> string) \<Rightarrow> Range \<Rightarrow> Range \<Rightarrow> 'p HttpHandler \<Rightarrow> Handler \<Rightarrow> (int \<times> 'p HttpHandler \<times> Handler) option" where
  "handler_open fmt path_piece host_piece c h = do {
     let h1 = setDownloadRange (rangeBegin h) (rangeEnd h) h;
     p \<leftarrow> range_mem path_piece;
     m1 \<leftarrow> (if NUL \<in> set p then setRequestPath p (setHttpVersion 1 1 (mess c)) else None);
     m2 \<leftarrow> setRequestMethod GET m1;
     c1 \<leftarrow> add_all (open_headers host_piece) (c\<lparr>mess := m2\<rparr>);
     c2 \<leftarrow> (if usingRangeDownload h1
       then add_header HTTP_HEADER_RANGE (range_of_string (range_value (rangeBegin h1) (rangeEnd h1))) c1 else Some c1);
     (s, m) \<leftarrow> buildRequestMessage fmt (hheap c2) (mess c2);
     d \<leftarrow> s;
     (n, k) \<leftarrow> conn_write (hconn c2) (Some d) True;
     let c3 = c2\<lparr>mess := m, hconn := k\<rparr>;
     if n = 0 then Some (- 1, c3, h1)
     else do { (r, k1) \<leftarrow> enable_reading k; Some (r, c3\<lparr>hconn := k1\<rparr>, h1\<lparr>h_status := REQUEST_SENT\<rparr>) }
   }"

subsection \<open>\<open>Download\<close>\<close>

text \<open>What a server answers on a connection; the codec makes the callbacks in this order.\<close>

record dl_response =
  r_status :: nat
  r_message :: HttpMessage
  r_bodies :: "bytes list"
  r_complete :: bool

definition receive :: "dl_response \<Rightarrow> Handler \<Rightarrow> Handler option" where
  "receive r h = do {
     (_, h1) \<leftarrow> onHeadersComplete_dl (r_message r) (snd (onStatus_dl (r_status r) h));
     let h2 = fold (\<lambda>d h. snd (onBody_dl d h)) (r_bodies r) h1;
     Some (if r_complete r then snd (onMessageComplete_dl h2) else h2)
   }"

datatype dl_callback = Task_updated nat | Task_completed | Task_failed

text \<open>
  The server for the \<open>k\<close>-th connection and its range; \<open>None\<close> is a connect that fails. \<open>parts\<close> are the handlers of the
  connections that were made, in order, as they are when \<open>start\<close> has returned.
\<close>

type_synonym server = "nat \<Rightarrow> nat \<Rightarrow> nat \<Rightarrow> dl_response option"

record Download =
  d_url :: string
  currentBegin :: nat
  currentEnd :: nat
  connectNum :: nat
  d_size :: nat
  bytesRemained :: nat
  retryTimes :: int
  failedRanges :: "(nat \<times> nat) list"
  has_state_callback :: bool
  parts :: "Handler list"
  connects :: nat
  notified :: "dl_callback list"

definition new_Download :: "string \<Rightarrow> bool \<Rightarrow> bool \<Rightarrow> Download" where
  "new_Download u url_valid cb = \<lparr>d_url = (if url_valid then u else []), currentBegin = 0, currentEnd = 1000,
     connectNum = 4, d_size = 0, bytesRemained = 0, retryTimes = 3, failedRanges = [], has_state_callback = cb,
     parts = [], connects = 0, notified = []\<rparr>"

text \<open>The percentage that is passed on, a \<open>float\<close>, is left out.\<close>

definition downloadUpdateCallback :: "nat \<Rightarrow> Download \<Rightarrow> Download option" where
  "downloadUpdateCallback n d =
     (if has_state_callback d
      then Some (d\<lparr>bytesRemained := u64_sub (bytesRemained d) n, notified := notified d @ [Task_updated n]\<rparr>) else None)"

primrec run_updates :: "nat list \<Rightarrow> Download \<Rightarrow> Download option" where
  "run_updates [] d = Some d"
| "run_updates (n # ns) d = do { d1 \<leftarrow> downloadUpdateCallback n d; run_updates ns d1 }"

text \<open>
  \<open>connect\<close>. The handler gets its response here; in the source the event loop delivers it when \<open>clientPtr_->start()\<close> runs,
  after the connections of a batch have been made. The handlers share nothing but the update callback, whose calls are
  made afterwards by \<open>run_updates\<close>, and they are looked at only when the loop has ended, so that the result is the same.
\<close>

definition dl_connect :: "server \<Rightarrow> nat \<Rightarrow> nat \<Rightarrow> Download \<Rightarrow> (Handler option \<times> Download) option" where
  "dl_connect srv b e d =
     (let d1 = d\<lparr>connects := connects d + 1\<rparr>
      in case srv (connects d) b e of
           None \<Rightarrow> Some (None, d1)
         | Some r \<Rightarrow> do {
             h \<leftarrow> receive r ((setDownloadRange b e (new_Handler (d_url d) True b e))\<lparr>h_status := REQUEST_SENT\<rparr>);
             Some (Some h, d1\<lparr>parts := parts d1 @ [h]\<rparr>)
           })"

fun remain_loop :: "server \<Rightarrow> nat \<Rightarrow> nat \<Rightarrow> nat \<Rightarrow> Handler list \<Rightarrow> Download \<Rightarrow> (nat \<times> nat \<times> Handler list \<times> Download) option" where
  "remain_loop srv 0 start remain hs d = Some (start, remain, hs, d)"
| "remain_loop srv (Suc i) start remain hs d = do {
     (c, d1) \<leftarrow> dl_connect srv start (u64_sub (u64 (start + remain div connectNum d)) 1) d;
     case c of
       None \<Rightarrow> remain_loop srv i start remain hs
         (d1\<lparr>failedRanges := failedRanges d1 @ [(start, u64_sub (u64 (start + remain)) 1)]\<rparr>)
     | Some h \<Rightarrow> remain_loop srv i (u64 (start + remain div connectNum d)) (u64_sub remain (remain div connectNum d)) (hs @ [h]) d1
   }"

definition downloadRemain :: "server \<Rightarrow> nat \<Rightarrow> nat \<Rightarrow> Download \<Rightarrow> (int \<times> Download) option" where
  "downloadRemain srv remain start d =
     (if remain = 0 then Some (0, d)
      else if remain < connectNum d then do {
        (c, d1) \<leftarrow> dl_connect srv start (u64_sub (u64 (start + remain)) 1) d;
        h \<leftarrow> c;
        d2 \<leftarrow> run_updates (updates h) d1;
        Some (0, d2)
      }
      else do {
        (start1, remain1, hs, d1) \<leftarrow> remain_loop srv (connectNum d) start remain [] d;
        (hs1, d2) \<leftarrow> (if remain1 > 0 then do {
            (c, d') \<leftarrow> dl_connect srv start1 (u64_sub (u64 (start1 + remain1)) 1) d1;
            Some (case c of
                None \<Rightarrow> (hs, d'\<lparr>failedRanges := failedRanges d' @ [(start1, u64_sub (u64 (start1 + remain1)) 1)]\<rparr>)
              | Some h \<Rightarrow> (hs @ [h], d'))
          }
          else Some (hs, d1));
        d3 \<leftarrow> run_updates (concat (map updates hs1)) d2;
        Some (0, d3)
      })"

text \<open>A server can redirect for ever. Closing the connection at the end is left out.\<close>

partial_function (option) downloadEX :: "server \<Rightarrow> Download \<Rightarrow> (int \<times> Download) option" where
  "downloadEX srv d =
     (if d_url d = [] then Some (- 1, d)
      else do {
        (c, d1) \<leftarrow> dl_connect srv (currentBegin d) (currentEnd d) d;
        case c of
          None \<Rightarrow> Some (- 1, d1)
        | Some h \<Rightarrow> do {
            d2 \<leftarrow> run_updates (updates h) d1;
            let d3 = d2\<lparr>d_size := fileSize h, bytesRemained := fileSize h\<rparr>;
            if h_status h = NEW_LOCATION_GOT then downloadEX srv (d3\<lparr>d_url := h_url h\<rparr>)
            else if h_status h = RANGE_MATCH \<and> fileSize h = u64 (u64_sub (rangeEnd h) (rangeBegin h) + 1) then Some (0, d3)
            else if h_status h = RANGE_MATCH \<and> bytesDownloaded h = u64 (u64_sub (rangeEnd h) (rangeBegin h) + 1) then do {
              (r, d4) \<leftarrow> downloadRemain srv (u64_sub (fileSize h) (bytesDownloaded h)) (u64 (rangeEnd h + 1)) d3;
              Some (if r < 0 then - 1 else 0, d4)
            }
            else if h_status h = RANGE_MATCH \<and> retryTimes d3 \<ge> 0 then do {
              (r, d4) \<leftarrow> downloadEX srv (d3\<lparr>retryTimes := retryTimes d3 - 1\<rparr>);
              Some (r, d4\<lparr>retryTimes := retryTimes d4 + 1\<rparr>)
            }
            else Some (if h_status h = NOT_RESPONDING_TO_RANGE then 1 else - 1, d3)
          }
      })"

declare downloadEX.simps [code]

definition download :: "server \<Rightarrow> Download \<Rightarrow> (int \<times> Download) option" where
  "download srv d = do {
     (succeed, d1) \<leftarrow> downloadEX srv d;
     if succeed \<ge> 0 \<and> has_state_callback d1 \<and> bytesRemained d1 = 1001
     then Some (0, d1\<lparr>notified := notified d1 @ [Task_completed]\<rparr>)
     else if has_state_callback d1 then Some (- 1, d1\<lparr>notified := notified d1 @ [Task_failed]\<rparr>)
     else Some (0, d1)
   }"

subsection \<open>Parsing the headers\<close>

lemma stoull_to_string:
  assumes "n < 2 ^ 64" and "list_all isspace w"
  shows "stoull (w @ to_string n) = Some n"
proof -
  let ?t = "to_string n"
  have dig: "list_all isdigit ?t" and ne: "?t \<noteq> []" using to_string_decimal to_string_nonempty by blast+
  then obtain c cs where c: "?t = c # cs" "isdigit c" by (cases ?t) simp_all
  have dw: "dropWhile isspace (w @ ?t) = ?t"
    using assms(2) digit_other(2) [OF c(2)] by (subst dropWhile_append2) (simp_all add: c(1) list_all_iff)
  have td: "takeWhile isdigit ?t = ?t" using dig by (simp add: takeWhile_eq_all_conv list_all_iff)
  have "(?t \<noteq> [] \<and> hd ?t = CHR ''-'') = False" "(?t \<noteq> [] \<and> (hd ?t = CHR ''-'' \<or> hd ?t = CHR ''+'')) = False"
    using digit_other(3,4) [OF c(2)] by (simp_all add: c(1))
  then show ?thesis
    using assms(1) ne unfolding stoull_def Let_def dw by (simp only: if_False td to_string_value) simp
qed

lemma std_find_here: "c \<notin> set (drop i pre) \<Longrightarrow> i \<le> length pre \<Longrightarrow> std_find c i (pre @ c # post) = length pre"
  unfolding std_find_def by (simp, subst takeWhile_append2) auto

lemma digits_not: "\<not> isdigit c \<Longrightarrow> c \<notin> set (to_string n)"
  using to_string_decimal [of n] by (auto simp: list_all_iff)

definition content_range :: "nat \<Rightarrow> nat \<Rightarrow> nat \<Rightarrow> string" where
  "content_range b e n = ''bytes '' @ to_string b @ ''-'' @ to_string e @ ''/'' @ to_string n"

lemma between_middle: "i = length pre \<Longrightarrow> j = i + length t \<Longrightarrow> between i j (pre @ t @ post) = Some t"
  by (simp add: between_def)

lemma parse_content_range:
  assumes "b < 2 ^ 64" and "e < 2 ^ 64" and "n < 2 ^ 64"
  shows "parseContentRangeHeader (content_range b e n) h = Some ((b, e), h\<lparr>fileSize := n\<rparr>)"
proof -
  let ?v = "content_range b e n"
  let ?b = "to_string b" and ?e = "to_string e" and ?n = "to_string n"
  have no: "CHR ''-'' \<notin> set ?b" "CHR ''/'' \<notin> set ?b" "CHR ''/'' \<notin> set ?e"
    by (rule digits_not, simp add: isdigit_def)+
  have s: "std_find CHR ''s'' 0 ?v = 4"
    using std_find_here [of "CHR ''s''" 0 "''byte''" "CHR '' '' # ?b @ ''-'' @ ?e @ ''/'' @ ?n"] by (simp add: content_range_def)
  have dash: "std_find CHR ''-'' 5 ?v = 6 + length ?b"
    using std_find_here [of "CHR ''-''" 5 "''bytes '' @ ?b" "?e @ ''/'' @ ?n"] no by (simp add: content_range_def)
  have slash: "std_find CHR ''/'' 0 ?v = 7 + length ?b + length ?e"
    using std_find_here [of "CHR ''/''" 0 "''bytes '' @ ?b @ ''-'' @ ?e" ?n] no by (simp add: content_range_def)
  have t1: "between 5 (6 + length ?b) ?v = Some (CHR '' '' # ?b)"
    using between_middle [of 5 "''bytes''" "6 + length ?b" "CHR '' '' # ?b" "''-'' @ ?e @ ''/'' @ ?n"]
    by (simp add: content_range_def)
  have t2: "between (7 + length ?b) (7 + length ?b + length ?e) ?v = Some ?e"
    using between_middle [of "7 + length ?b" "''bytes '' @ ?b @ ''-''" "7 + length ?b + length ?e" ?e "''/'' @ ?n"]
    by (simp add: content_range_def)
  have "?v = (''bytes '' @ ?b @ ''-'' @ ?e @ ''/'') @ ?n" "8 + length ?b + length ?e = length (''bytes '' @ ?b @ ''-'' @ ?e @ ''/'')"
    by (simp_all add: content_range_def)
  then have tn: "drop (8 + length ?b + length ?e) ?v = ?n" by (simp only: append_eq_conv_conj [THEN iffD1, THEN conjunct2] drop_append) simp
  have t3: "7 + length ?b + length ?e \<noteq> length ?v" "5 \<le> length ?v"
    by (simp_all add: content_range_def)
  have "stoull (CHR '' '' # ?b) = Some b" "stoull ?e = Some e" "stoull ?n = Some n"
    using stoull_to_string [OF assms(1), of "'' ''"] stoull_to_string [OF assms(2), of "[]"]
      stoull_to_string [OF assms(3), of "[]"] by (simp_all add: isspace_def)
  then show ?thesis
    using t3 unfolding parseContentRangeHeader_def Let_def s by (simp add: dash slash t1 t2 tn [simplified add.assoc])
qed

definition disposition :: "string \<Rightarrow> string" where
  "disposition nm = ''attachment; filename='' @ CHR 0x22 # nm @ [CHR 0x22]"

lemma file_name_of_disposition:
  "retriveFileNameFromContentDisposition (disposition nm) h =
     Some (h\<lparr>fileName := nm @ ''_'' @ to_string (rangeBegin h) @ ''_'' @ to_string (rangeEnd h) @ ''_''\<rparr>)"
proof -
  let ?v = "disposition nm"
  have eq: "std_find CHR ''='' 0 ?v = 20"
    using std_find_here [of "CHR ''=''" 0 "''attachment; filename''" "CHR 0x22 # nm @ [CHR 0x22]"] by (simp add: disposition_def)
  have "is_quote ((?v @ [NUL]) ! 21)" "is_quote (last ?v)" "20 \<noteq> length ?v" "length ?v - 1 = 22 + length nm"
    by (simp_all add: disposition_def is_quote_def)
  moreover have "between 22 (22 + length nm) ?v = Some nm"
    using between_middle [of 22 "''attachment; filename='' @ [CHR 0x22]" "22 + length nm" nm "[CHR 0x22]"]
    by (simp add: disposition_def)
  ultimately show ?thesis unfolding retriveFileNameFromContentDisposition_def Let_def eq by simp
qed

subsection \<open>The request of a part\<close>

lemma add_all_law:
  assumes "request_headers c es" and "length es + length fs < 50"
    and "list_all (\<lambda>(f, v). 2 \<le> f \<and> f < 95 \<and> f \<noteq> HTTP_HEADER_COOKIE \<and> range_ok v) fs"
  shows "\<exists>hs. add_all fs c = Some (c\<lparr>mess := (mess c)\<lparr>headers := hs\<rparr>\<rparr>) \<and>
    request_headers (c\<lparr>mess := (mess c)\<lparr>headers := hs\<rparr>\<rparr>) (es @ map (\<lambda>(f, v). (f, header_name f, range_text v)) fs)"
  using assms
proof (induction fs arbitrary: c es)
  case Nil
  then show ?case by (intro exI [of _ "headers (mess c)"]) simp
next
  case (Cons x fs)
  obtain f v where x: "x = (f, v)" by (cases x)
  obtain hs where hs: "add_header f v c = Some (c\<lparr>mess := (mess c)\<lparr>headers := hs\<rparr>\<rparr>)"
    "request_headers (c\<lparr>mess := (mess c)\<lparr>headers := hs\<rparr>\<rparr>) (es @ [(f, header_name f, range_text v)])"
    using add_header_law [OF Cons.prems(1), of f v] Cons.prems(2,3) x by auto
  then show ?case using Cons.IH [OF hs(2)] Cons.prems(2,3) x by simp
qed

lemma to_string_length: "n < 10 ^ Suc k \<Longrightarrow> length (to_string n) \<le> Suc k"
proof (induction k arbitrary: n)
  case (Suc k)
  show ?case
  proof (cases "n < 10")
    case False
    have "n div 10 < 10 ^ Suc k" using Suc.prems by (simp add: less_mult_imp_div_less)
    then show ?thesis using Suc.IH [of "n div 10"] False by (simp add: to_string.simps [of n])
  qed (simp add: to_string.simps [of n])
qed (simp add: to_string_digit)

definition open_text :: "string \<Rightarrow> string \<Rightarrow> nat \<Rightarrow> nat \<Rightarrow> string" where
  "open_text p hst b e =
     ''GET '' @ p @ '' HTTP/1.1'' @ CRLF @ header_line ''Host'' hst @ header_line ''User-Agent'' USERAGENT @
     header_line ''Accept'' ACCEPT @ header_line ''Accept-Language'' ACCEPTLANGUAGE @
     header_line ''Accept-Encoding'' ''gzip, deflate'' @ header_line ''Connection'' ''keep-alive'' @
     header_line ''Cache-Control'' ''no-cache'' @ header_line ''Pragma'' ''no-cache'' @
     header_line ''Range'' (range_value b e) @ CRLF"

lemma open_names:
  "header_name HTTP_HEADER_CONNECTION = ''Connection''" "header_name HTTP_HEADER_CACHE_CONTROL = ''Cache-Control''"
  "header_name HTTP_HEADER_PRAGMA = ''Pragma''" "header_name HTTP_HEADER_RANGE = ''Range''"
  by code_simp+

text \<open>\<open>open\<close> asks for the range of the handler: the path with what follows it in the URL, and the headers with \<open>Range\<close>.\<close>

lemma handler_open_law:
  assumes hp: "Http_Headers.heap_ok hp" and p: "range_mem pp = Some (p @ NUL # w)" "NUL \<notin> set p" and hh: "range_ok hh"
    and c: "buffer_wf (output_buffer k)" "stream k \<noteq> None" "length (contents (output_buffer k)) < 4294967196"
    and len: "length p + length (range_text hh) < 2147483000" and be: "rangeBegin h < 2 ^ 64" "rangeEnd h < 2 ^ 64"
  shows "\<exists>r c' h'. handler_open fmt pp hh (new_HttpHandler k hp x saved) h = Some (r, c', h') \<and>
    contents (output_buffer (hconn c')) =
      contents (output_buffer k) @ open_text p (range_text hh) (rangeBegin h) (rangeEnd h) \<and>
    read_enabled (hconn c') \<and> write_enabled (hconn c') \<and> h_status h' = REQUEST_SENT \<and> usingRangeDownload h'"
proof -
  let ?c = "new_HttpHandler k hp x saved"
  let ?m = "(setHttpVersion 1 1 new_message)\<lparr>kind := Request \<lparr>path = p, http_method = GET\<rparr>\<rparr>"
  let ?rv = "range_value (rangeBegin h) (rangeEnd h)"
  let ?fs = "open_headers hh @ [(HTTP_HEADER_RANGE, range_of_string ?rv)]"
  have strlen: "strlen (p @ NUL # w) = length p"
  proof -
    have "takeWhile (\<lambda>c. c \<noteq> NUL) (p @ NUL # w) = p" using p(2) by (subst takeWhile_append2) auto
    then show ?thesis by (simp add: strlen_def)
  qed
  have set: "do { m1 \<leftarrow> setRequestPath (p @ NUL # w) (setHttpVersion 1 1 (mess ?c)); setRequestMethod GET m1 } = Some ?m"
    by (simp add: setRequestPath_def setRequestMethod_def is_response_def request_def setHttpVersion_def new_message_def
        new_HttpHandler_def strlen Let_def)
  have num: "length (to_string (rangeBegin h)) \<le> 20" "length (to_string (rangeEnd h)) \<le> 20"
    using be to_string_length [of _ 19] by simp_all
  then have rv: "range_ok (range_of_string ?rv)" by (intro range_of_string_ok(1)) (simp add: range_value_def)
  have "request_headers (?c\<lparr>mess := ?m\<rparr>) []"
    using hp by (simp add: request_headers_def state_ok_def new_message_def headers_wf_def new_headers_def entries_def
        new_HttpHandler_def entries_of_def setHttpVersion_def)
  moreover have "list_all (\<lambda>(f, v). 2 \<le> f \<and> f < 95 \<and> f \<noteq> HTTP_HEADER_COOKIE \<and> range_ok v) ?fs"
    using hh rv literal_ok range_of_string_ok(1) by (simp add: open_headers_def)
  ultimately obtain hs where hs: "add_all ?fs (?c\<lparr>mess := ?m\<rparr>) = Some (?c\<lparr>mess := ?m\<lparr>headers := hs\<rparr>\<rparr>)"
    "request_headers (?c\<lparr>mess := ?m\<lparr>headers := hs\<rparr>\<rparr>) (map (\<lambda>(f, v). (f, header_name f, range_text v)) ?fs)"
    using add_all_law [of "?c\<lparr>mess := ?m\<rparr>" "[]" ?fs] by (auto simp: open_headers_def)
  let ?m1 = "?m\<lparr>headers := hs\<rparr>"
  let ?d = "open_text p (range_text hh) (rangeBegin h) (rangeEnd h)"
  have one_char: "char_of (49 :: nat) = CHR ''1''" by code_simp
  have one: "to_string (Suc 0) = ''1''" using to_string_digit [of 1] one_char by simp
  have get: "method_name GET = ''GET''" by code_simp
  have "headers_wf hp hs" "codes hs \<noteq> []" "codes_deleted hs = 0"
    "entries hp hs = map (\<lambda>(f, v). (f, header_name f, range_text v)) ?fs"
    using hs(2) by (auto simp: request_headers_def state_ok_def open_headers_def new_HttpHandler_def)
  then have msg: "buildRequestMessage fmt hp ?m1 = Some (Some ?d, ?m1)"
    using buildRequestMessage_law [of ?m1 p GET hp fmt]
    by (simp add: setHttpVersion_def one get open_headers_def fixed_names open_names range_of_string_ok(2) open_text_def)
  have d: "?d \<noteq> []" "length ?d < 4294967296"
    using len num by (simp_all add: open_text_def range_value_def CRLF_def header_line_def USERAGENT_def ACCEPT_def
        ACCEPTLANGUAGE_def)
  obtain k1 where k1: "conn_write k (Some ?d) True = Some (length ?d, k1)" "contents (output_buffer k1) = contents (output_buffer k) @ ?d"
    "write_enabled k1" "stream k1 = stream k"
    using conn_write_law [OF c(1,2) d c(3)] by blast
  obtain r k2 where k2: "enable_reading k1 = Some (r, k2)" "output_buffer k2 = output_buffer k1" "read_enabled k2"
    "write_enabled k2 = write_enabled k1"
    using enable_reading_total [of k1] k1(4) c(2) by auto
  have adds: "do { c1 \<leftarrow> add_all (open_headers hh) (?c\<lparr>mess := ?m\<rparr>); add_header HTTP_HEADER_RANGE (range_of_string ?rv) c1 } =
      Some (?c\<lparr>mess := ?m1\<rparr>)"
    using hs(1) by (simp add: open_headers_def Option.bind_assoc)
  have "handler_open fmt pp hh ?c h = Some (r, ?c\<lparr>mess := ?m1, hconn := k2\<rparr>,
      (setDownloadRange (rangeBegin h) (rangeEnd h) h)\<lparr>h_status := REQUEST_SENT\<rparr>)"
    using p(1) set adds msg k1(1) k2(1) d(1)
    by (auto simp: handler_open_def setDownloadRange_def new_HttpHandler_def split: bind_splits)
  then show ?thesis using k1 k2 by (simp add: setDownloadRange_def new_HttpHandler_def)
qed

subsection \<open>A part of the file\<close>

definition file_slice :: "nat \<Rightarrow> nat \<Rightarrow> bytes \<Rightarrow> bytes" where
  "file_slice b e file = take (e + 1 - b) (drop b file)"

definition written :: "Handler \<Rightarrow> bytes" where
  "written h = (case fileWriter h of Some f \<Rightarrow> (case fw_stream f of Some (n, t) \<Rightarrow> t | None \<Rightarrow> []) | None \<Rightarrow> [])"

text \<open>A handler that has downloaded \<open>t\<close> of its range to the file \<open>nm\<close>.\<close>

definition has_written :: "string \<Rightarrow> bytes \<Rightarrow> Handler \<Rightarrow> bool" where
  "has_written nm t h \<longleftrightarrow> h_status h = RANGE_MATCH \<and>
     (\<exists>f. fileWriter h = Some f \<and> fw_valid f \<and> isUsingDefautBuf f \<and> fw_stream f = Some (nm, t)) \<and>
     bytesDownloaded h = length t \<and> sum_list (updates h) = length t"

lemma body_opens:
  assumes "h_status h = RANGE_MATCH" and "fileWriter h = Some (new_FileWriter n0)" and "bytesDownloaded h = 0"
    and "updates h = []" and "length d < 2 ^ 63"
  shows "\<exists>h'. onBody_dl d h = (0, h') \<and> has_written (fileName h @ to_string (fileSize h)) d h' \<and>
    rangeBegin h' = rangeBegin h \<and> rangeEnd h' = rangeEnd h \<and> fileSize h' = fileSize h"
  using assms
  by (simp add: onBody_dl_def resetFileName_def new_FileWriter_def fw_write_def setDefaultBuffer_def has_written_def
      uint_simps Let_def)

lemma body_appends:
  assumes "has_written nm t h" and "length t + length d < 2 ^ 63"
  shows "\<exists>h'. onBody_dl d h = (0, h') \<and> has_written nm (t @ d) h' \<and>
    rangeBegin h' = rangeBegin h \<and> rangeEnd h' = rangeEnd h \<and> fileSize h' = fileSize h"
  using assms
  by (auto simp: onBody_dl_def resetFileName_def fw_write_def has_written_def uint_simps Let_def)

lemma bodies_append:
  assumes "has_written nm t h" and "length t + length (concat ds) < 2 ^ 63"
  shows "\<exists>h'. fold (\<lambda>d h. snd (onBody_dl d h)) ds h = h' \<and> has_written nm (t @ concat ds) h' \<and>
    rangeBegin h' = rangeBegin h \<and> rangeEnd h' = rangeEnd h \<and> fileSize h' = fileSize h"
  using assms
proof (induction ds arbitrary: t h)
  case (Cons d ds)
  obtain h1 where h1: "onBody_dl d h = (0, h1)" "has_written nm (t @ d) h1" "rangeBegin h1 = rangeBegin h"
    "rangeEnd h1 = rangeEnd h" "fileSize h1 = fileSize h"
    using body_appends [OF Cons.prems(1), of d] Cons.prems(2) by auto
  then show ?case using Cons.IH [OF h1(2)] Cons.prems(2) by simp
qed simp

text \<open>The answer of a server that has the file and knows ranges.\<close>

definition range_response :: "string \<Rightarrow> bytes \<Rightarrow> nat \<Rightarrow> nat \<Rightarrow> dl_response \<Rightarrow> bool" where
  "range_response nm file b e r \<longleftrightarrow> r_status r = 206 \<and>
     getHeaderValue HTTP_HEADER_CONTENT_DISPOSITION (r_message r) = Some (Some (disposition nm)) \<and>
     getHeaderValue HTTP_HEADER_TRANSFER_ENCODING (r_message r) = Some None \<and>
     getHeaderValue HTTP_HEADER_CONTENT_RANGE (r_message r) =
       Some (Some (content_range b (min e (length file - 1)) (length file))) \<and>
     concat (r_bodies r) = file_slice b (min e (length file - 1)) file"

definition is_part :: "bytes \<Rightarrow> nat \<Rightarrow> nat \<Rightarrow> Handler \<Rightarrow> bool" where
  "is_part file b e h \<longleftrightarrow> h_status h = RANGE_MATCH \<and> rangeBegin h = b \<and> rangeEnd h = e \<and> fileSize h = length file \<and>
     bytesDownloaded h = e + 1 - b \<and> sum_list (updates h) = e + 1 - b \<and> written h = file_slice b e file"

lemma part_received:
  assumes r: "range_response nm file b e r" and b: "b \<le> e" "b < length file" and len: "length file < 2 ^ 63" "e < 2 ^ 64"
  shows "\<exists>h. receive r ((setDownloadRange b e (new_Handler u True b e))\<lparr>h_status := REQUEST_SENT\<rparr>) = Some h \<and>
    is_part file b (min e (length file - 1)) h"
proof -
  let ?e = "min e (length file - 1)"
  let ?h0 = "(setDownloadRange b e (new_Handler u True b e))\<lparr>h_status := REQUEST_SENT\<rparr>"
  let ?name = "nm @ ''_'' @ to_string b @ ''_'' @ to_string e @ ''_''"
  define h1 where "h1 = ?h0\<lparr>h_status := RANGE_MATCH, fileName := ?name, fileWriter := Some (new_FileWriter ?name),
    fileSize := length file, rangeEnd := ?e\<rparr>"
  have "snd (onStatus_dl (r_status r) ?h0) = ?h0\<lparr>h_status := RECEIVED200\<rparr>" using r by (simp add: range_response_def onStatus_dl_def)
  moreover have "parseContentRangeHeader (content_range b ?e (length file)) h = Some ((b, ?e), h\<lparr>fileSize := length file\<rparr>)" for h
    using b len by (intro parse_content_range) auto
  ultimately have "\<exists>v. onHeadersComplete_dl (r_message r) (snd (onStatus_dl (r_status r) ?h0)) = Some (v, h1)"
    using r by (simp add: onHeadersComplete_dl_def range_response_def file_name_of_disposition initFileWriter_def
        setDownloadRange_def new_Handler_def h1_def)
  then obtain v where hc: "onHeadersComplete_dl (r_message r) (snd (onStatus_dl (r_status r) ?h0)) = Some (v, h1)" ..
  have slice: "length (file_slice b ?e file) = ?e + 1 - b" "file_slice b ?e file \<noteq> []" using b by (auto simp: file_slice_def)
  obtain d ds where ds: "r_bodies r = d # ds" using r slice(2) by (cases "r_bodies r") (simp_all add: range_response_def)
  have cat: "d @ concat ds = file_slice b ?e file" using r ds by (simp add: range_response_def)
  have l: "length d + length (concat ds) < 2 ^ 63"
  proof -
    have "length (d @ concat ds) = ?e + 1 - b" unfolding cat by (rule slice(1))
    then show ?thesis using len(1) b(2) by auto
  qed
  obtain h2 where h2: "onBody_dl d h1 = (0, h2)" "has_written (fileName h1 @ to_string (fileSize h1)) d h2" "rangeBegin h2 = b"
    "rangeEnd h2 = ?e" "fileSize h2 = length file"
    using body_opens [of h1 ?name d] l by (auto simp: h1_def setDownloadRange_def new_Handler_def)
  obtain h3 where h3: "fold (\<lambda>d h. snd (onBody_dl d h)) ds h2 = h3" "has_written (fileName h1 @ to_string (fileSize h1)) (file_slice b ?e file) h3"
    "rangeBegin h3 = b" "rangeEnd h3 = ?e" "fileSize h3 = length file"
    using bodies_append [OF h2(2) l] h2(3-5) cat by auto
  have part: "is_part file b ?e (h3\<lparr>isShouldClose := x\<rparr>)" for x
    using h3(2-5) slice(1) by (auto simp: is_part_def has_written_def written_def)
  have "receive r ?h0 = Some (if r_complete r then snd (onMessageComplete_dl h3) else h3)"
    using hc ds h2(1) h3(1) by (simp add: receive_def)
  then show ?thesis using part [of True] part [of "isShouldClose h3"] by (cases "r_complete r") (simp_all add: onMessageComplete_dl_def)
qed

subsection \<open>The whole file\<close>

definition serves :: "server \<Rightarrow> string \<Rightarrow> bytes \<Rightarrow> bool" where
  "serves srv nm file \<longleftrightarrow> (\<forall>k b e. b \<le> e \<longrightarrow> b < length file \<longrightarrow> (\<exists>r. srv k b e = Some r \<and> range_response nm file b e r))"

text \<open>Handlers whose parts follow one another from \<open>s\<close> up to \<open>e\<close>.\<close>

fun cover :: "bytes \<Rightarrow> nat \<Rightarrow> Handler list \<Rightarrow> nat \<Rightarrow> bool" where
  "cover file s [] e \<longleftrightarrow> s = e"
| "cover file s (h # hs) e \<longleftrightarrow> is_part file s (rangeEnd h) h \<and> s \<le> rangeEnd h \<and> rangeEnd h < length file \<and>
     cover file (rangeEnd h + 1) hs e"

lemma cover_append: "cover file s hs m \<Longrightarrow> cover file m hs' e \<Longrightarrow> cover file s (hs @ hs') e"
  by (induction hs arbitrary: s) auto

lemma cover_one: "is_part file s e h \<Longrightarrow> s \<le> e \<Longrightarrow> e < length file \<Longrightarrow> cover file s [h] (e + 1)"
  by (simp add: is_part_def)

lemma cover_facts:
  "cover file s hs e \<Longrightarrow> s \<le> e \<and> concat (map written hs) = take (e - s) (drop s file) \<and>
     sum_list (concat (map updates hs)) = e - s"
proof (induction hs arbitrary: s)
  case (Cons h hs)
  let ?m = "rangeEnd h + 1"
  have h: "is_part file s (rangeEnd h) h" "s \<le> rangeEnd h" and tl: "cover file ?m hs e" using Cons.prems by simp_all
  note ih = Cons.IH [OF tl]
  have "take (e - s) (drop s file) = take (?m - s) (drop s file) @ take (e - ?m) (drop ?m file)"
  proof -
    have "e - s = (?m - s) + (e - ?m)" "drop (?m - s) (drop s file) = drop ?m file" using ih h(2) by simp_all
    then show ?thesis by (metis take_add)
  qed
  then show ?case using h ih by (simp add: is_part_def file_slice_def)
qed simp

lemma connect_good:
  assumes "serves srv nm file" and "b \<le> e" and "b < length file" and "length file < 2 ^ 63" and "e < 2 ^ 64"
  shows "\<exists>h. dl_connect srv b e d = Some (Some h, d\<lparr>connects := connects d + 1, parts := parts d @ [h]\<rparr>) \<and>
    is_part file b (min e (length file - 1)) h"
proof -
  obtain r where r: "srv (connects d) b e = Some r" "range_response nm file b e r" using assms(1-3) unfolding serves_def by blast
  then show ?thesis using part_received [OF r(2) assms(2-5), of "d_url d"] by (auto simp: dl_connect_def)
qed

lemma remain_loop_good:
  assumes "serves srv nm file" and "length file < 2 ^ 63" and "connectNum d = 4"
    and "i \<le> 4" and "3 + i \<le> remain" and "start + remain = length file" and "0 < start"
  shows "\<exists>start' remain' hs'. remain_loop srv i start remain hs d =
      Some (start', remain', hs @ hs', d\<lparr>connects := connects d + i, parts := parts d @ hs'\<rparr>) \<and>
    start' + remain' = length file \<and> 3 \<le> remain' \<and> 0 < start' \<and> cover file start hs' start' \<and> length hs' = i"
  using assms(3-7)
proof (induction i arbitrary: start remain hs d)
  case 0
  then show ?case by (intro exI [of _ start] exI [of _ remain] exI [of _ "[]"]) simp
next
  case (Suc i)
  let ?q = "remain div 4"
  let ?e = "start + ?q - 1"
  have q: "1 \<le> ?q" "?q \<le> remain" "4 * ?q \<le> remain" "remain < 4 * ?q + 4" using Suc.prems(2,3) by linarith+
  have e: "u64_sub (u64 (start + ?q)) 1 = ?e" "u64 (start + ?q) = start + ?q" "u64_sub remain ?q = remain - ?q"
    using q(2) Suc.prems(4,5) assms(2) by (simp_all add: uint_simps)
  have "start \<le> ?e" "start < length file" "?e < 2 ^ 64" "min ?e (length file - 1) = ?e"
    using q Suc.prems(2,4) assms(2) by auto
  with connect_good [OF assms(1) _ _ assms(2), of start ?e d] obtain h where
    h: "dl_connect srv start ?e d = Some (Some h, d\<lparr>connects := connects d + 1, parts := parts d @ [h]\<rparr>)" "is_part file start ?e h"
    by auto
  let ?d = "d\<lparr>connects := connects d + 1, parts := parts d @ [h]\<rparr>"
  have "3 + i \<le> remain - ?q" using q Suc.prems(2,3) by linarith
  then obtain start' remain' hs' where ih: "remain_loop srv i (start + ?q) (remain - ?q) (hs @ [h]) ?d =
      Some (start', remain', (hs @ [h]) @ hs', ?d\<lparr>connects := connects ?d + i, parts := parts ?d @ hs'\<rparr>)"
    "start' + remain' = length file" "3 \<le> remain'" "0 < start'" "cover file (start + ?q) hs' start'" "length hs' = i"
    using Suc.IH [of ?d "remain - ?q" "start + ?q" "hs @ [h]"] Suc.prems q by auto
  have "cover file start [h] (?e + 1)" using h(2) q Suc.prems(2,4) by (intro cover_one) auto
  moreover have "cover file (?e + 1) hs' start'" using ih(5) q by simp
  ultimately have "cover file start (h # hs') start'" using cover_append by fastforce
  moreover have "remain_loop srv (Suc i) start remain hs d =
      Some (start', remain', hs @ h # hs', d\<lparr>connects := connects d + Suc i, parts := parts d @ h # hs'\<rparr>)"
    unfolding remain_loop.simps Suc.prems(1) e(1) h(1) using ih(1) by (simp add: e(2,3) Suc.prems(1))
  moreover have "length (h # hs') = Suc i" using ih(6) by simp
  ultimately show ?case using ih(2-4) by blast
qed

lemma run_updates_good:
  assumes "has_state_callback d"
  shows "\<exists>br. run_updates us d = Some (d\<lparr>bytesRemained := br, notified := notified d @ map Task_updated us\<rparr>) \<and>
    (sum_list us \<le> bytesRemained d \<longrightarrow> bytesRemained d < 2 ^ 64 \<longrightarrow> br = bytesRemained d - sum_list us)"
  using assms
proof (induction us arbitrary: d)
  case (Cons n us)
  let ?d = "d\<lparr>bytesRemained := u64_sub (bytesRemained d) n, notified := notified d @ [Task_updated n]\<rparr>"
  have "has_state_callback ?d" using Cons.prems by simp
  from Cons.IH [OF this] obtain br where "run_updates us ?d = Some (?d\<lparr>bytesRemained := br, notified := notified ?d @ map Task_updated us\<rparr>)"
    "sum_list us \<le> bytesRemained ?d \<longrightarrow> bytesRemained ?d < 2 ^ 64 \<longrightarrow> br = bytesRemained ?d - sum_list us" by blast
  then show ?case using Cons.prems by (intro exI [of _ br]) (auto simp: downloadUpdateCallback_def uint_simps)
next
  case Nil
  then show ?case by (intro exI [of _ "bytesRemained d"]) simp
qed

lemma downloadRemain_good:
  assumes srv: "serves srv nm file" and len: "length file < 2 ^ 63" and d: "connectNum d = 4" "has_state_callback d"
    "remain \<le> bytesRemained d" "bytesRemained d < 2 ^ 64"
    and r: "remain < 4 \<or> 7 \<le> remain" "start + remain = length file" "0 < start"
  shows "\<exists>hs us k. downloadRemain srv remain start d = Some (0, d\<lparr>connects := k, parts := parts d @ hs,
      bytesRemained := bytesRemained d - remain, notified := notified d @ us\<rparr>) \<and> cover file start hs (length file) \<and>
    length hs \<le> 5 \<and> k = connects d + length hs"
proof -
  have last: "\<exists>h. dl_connect srv s (u64_sub (u64 (s + m)) 1) d' = Some (Some h, d'\<lparr>connects := connects d' + 1, parts := parts d' @ [h]\<rparr>) \<and>
      cover file s [h] (length file)" if "s + m = length file" "0 < m" "0 < s" for s m d'
  proof -
    have e: "u64_sub (u64 (s + m)) 1 = length file - 1" using that len by (simp add: uint_simps)
    have "s \<le> length file - 1" "s < length file" "length file - 1 < 2 ^ 64" using that len by auto
    with connect_good [OF srv _ _ len, of s "length file - 1" d'] obtain h where
      h: "dl_connect srv s (length file - 1) d' = Some (Some h, d'\<lparr>connects := connects d' + 1, parts := parts d' @ [h]\<rparr>)"
        "is_part file s (length file - 1) h" by auto
    have "cover file s [h] (length file - 1 + 1)" using h(2) that by (intro cover_one) auto
    moreover have "length file - 1 + 1 = length file" using that by simp
    ultimately show ?thesis using h(1) unfolding e by metis
  qed
  have done_updates: "run_updates us (d\<lparr>connects := k, parts := ps\<rparr>) =
      Some (d\<lparr>connects := k, parts := ps, bytesRemained := bytesRemained d - remain, notified := notified d @ map Task_updated us\<rparr>)"
    if "sum_list us = remain" for us k ps
    using run_updates_good [of "d\<lparr>connects := k, parts := ps\<rparr>" us] d that by auto
  have total: "sum_list (concat (map updates hs)) = remain" if "cover file start hs (length file)" for hs
    using cover_facts [OF that] r(2) by simp
  consider "remain = 0" | "0 < remain" "remain < 4" | "7 \<le> remain" using r(1) by linarith
  then show ?thesis
  proof cases
    case 1
    then have "downloadRemain srv remain start d = Some (0, d\<lparr>connects := connects d, parts := parts d @ [],
        bytesRemained := bytesRemained d - remain, notified := notified d @ []\<rparr>)" by (simp add: downloadRemain_def)
    moreover have "cover file start [] (length file)" using 1 r(2) by simp
    ultimately show ?thesis by (intro exI [of _ "[]"] exI [of _ "connects d"]) simp
  next
    case 2
    obtain h where h: "dl_connect srv start (u64_sub (u64 (start + remain)) 1) d =
        Some (Some h, d\<lparr>connects := connects d + 1, parts := parts d @ [h]\<rparr>)" "cover file start [h] (length file)"
      using last [OF r(2) 2(1) r(3)] by blast
    have "downloadRemain srv remain start d = Some (0, d\<lparr>connects := connects d + 1, parts := parts d @ [h],
        bytesRemained := bytesRemained d - remain, notified := notified d @ map Task_updated (updates h)\<rparr>)"
      using 2 d(1) h(1) done_updates [of "updates h" "parts d @ [h]" "connects d + 1"] total [OF h(2)]
      by (simp add: downloadRemain_def)
    then show ?thesis using h(2) by (intro exI [of _ "[h]"] exI [of _ "map Task_updated (updates h)"] exI [of _ "connects d + 1"]) simp
  next
    case 3
    have big: "remain \<noteq> 0" "\<not> remain < connectNum d" using 3 d(1) by auto
    obtain s m hs where loop: "remain_loop srv 4 start remain [] d =
        Some (s, m, [] @ hs, d\<lparr>connects := connects d + 4, parts := parts d @ hs\<rparr>)"
      "s + m = length file" "3 \<le> m" "0 < s" "cover file start hs s" "length hs = 4"
      using remain_loop_good [OF srv len d(1), of 4 remain start "[]"] 3 r(2,3) by auto
    let ?d1 = "d\<lparr>connects := connects d + 4, parts := parts d @ hs\<rparr>"
    obtain h where h: "dl_connect srv s (u64_sub (u64 (s + m)) 1) ?d1 =
        Some (Some h, ?d1\<lparr>connects := connects ?d1 + 1, parts := parts ?d1 @ [h]\<rparr>)" "cover file s [h] (length file)"
      using last [OF loop(2) _ loop(4)] loop(3) by (metis not_numeral_le_zero not_gr_zero)
    have c: "cover file start (hs @ [h]) (length file)" using cover_append [OF loop(5) h(2)] .
    let ?d2 = "d\<lparr>connects := connects d + 5, parts := parts d @ hs @ [h]\<rparr>"
    have h2: "dl_connect srv s (u64_sub (u64 (s + m)) 1) ?d1 = Some (Some h, ?d2)" using h(1) by simp
    have l4: "remain_loop srv (connectNum d) start remain [] d = Some (s, m, hs, ?d1)" using loop(1) d(1) by simp
    have m: "(remain = 0) = False" "(remain < connectNum d) = False" "(0 < m) = True" using big loop(3) by simp_all
    have "downloadRemain srv remain start d = Some (0, d\<lparr>connects := connects d + 5, parts := parts d @ hs @ [h],
        bytesRemained := bytesRemained d - remain,
        notified := notified d @ map Task_updated (concat (map updates (hs @ [h])))\<rparr>)"
      unfolding downloadRemain_def m if_True if_False l4 using done_updates [OF total [OF c], of "parts d @ hs @ [h]" "connects d + 5"]
      using loop(3) by (simp add: h2 del: One_nat_def)
    then show ?thesis
      using c loop(6) by (intro exI [of _ "hs @ [h]"] exI [of _ "map Task_updated (concat (map updates (hs @ [h])))"]
          exI [of _ "connects d + 5"]) simp
  qed
qed

lemma first_part:
  assumes "serves srv nm file" and "0 < length file" and "length file < 2 ^ 63" and "u \<noteq> []"
  obtains h d2 br where "dl_connect srv 0 1000 (new_Download u True True) =
      Some (Some h, (new_Download u True True)\<lparr>connects := 1, parts := [h]\<rparr>)"
    and "is_part file 0 (min 1000 (length file - 1)) h"
    and "run_updates (updates h) ((new_Download u True True)\<lparr>connects := 1, parts := [h]\<rparr>) = Some d2"
    and "d2 = (new_Download u True True)\<lparr>connects := 1, parts := [h], bytesRemained := br, notified := map Task_updated (updates h)\<rparr>"
proof -
  let ?d = "new_Download u True True"
  obtain h where h: "dl_connect srv 0 1000 ?d = Some (Some h, ?d\<lparr>connects := 1, parts := [h]\<rparr>)"
    "is_part file 0 (min 1000 (length file - 1)) h"
    using connect_good [OF assms(1) _ _ assms(3), of 0 1000 ?d] assms(2) by (auto simp: new_Download_def)
  moreover obtain br where "run_updates (updates h) (?d\<lparr>connects := 1, parts := [h]\<rparr>) =
      Some (?d\<lparr>connects := 1, parts := [h], bytesRemained := br, notified := map Task_updated (updates h)\<rparr>)"
    using run_updates_good [of "?d\<lparr>connects := 1, parts := [h]\<rparr>" "updates h"] by (auto simp: new_Download_def)
  ultimately show thesis using that by blast
qed

text \<open>
  A file of up to 1001 bytes comes whole with the first range, but of these only one of exactly 1001 bytes is reported as
  completed.
\<close>

lemma small_file_reported_failed:
  assumes "serves srv nm file" and "0 < length file" and "length file \<le> 1000" and "u \<noteq> []"
  shows "\<exists>d. download srv (new_Download u True True) = Some (- 1, d) \<and> concat (map written (parts d)) = file \<and>
    last (notified d) = Task_failed"
proof -
  let ?d = "new_Download u True True"
  have "length file < 2 ^ 63" using assms(3) by simp
  from first_part [OF assms(1,2) this assms(4)] obtain h d2 br where
    h: "dl_connect srv 0 1000 ?d = Some (Some h, ?d\<lparr>connects := 1, parts := [h]\<rparr>)" "is_part file 0 (min 1000 (length file - 1)) h"
    and d2: "run_updates (updates h) (?d\<lparr>connects := 1, parts := [h]\<rparr>) = Some d2"
      "d2 = ?d\<lparr>connects := 1, parts := [h], bytesRemained := br, notified := map Task_updated (updates h)\<rparr>" .
  have part: "h_status h = RANGE_MATCH" "rangeBegin h = 0" "rangeEnd h = length file - 1" "fileSize h = length file"
    "written h = file"
    using h(2) assms(2,3) by (simp_all add: is_part_def file_slice_def min_def)
  have "u64 (u64_sub (rangeEnd h) (rangeBegin h) + 1) = length file" using part assms(2,3) by (simp add: uint_simps)
  then have "downloadEX srv ?d = Some (0, d2\<lparr>d_size := length file, bytesRemained := length file\<rparr>)"
    using h(1) d2(1) part assms(4) by (subst downloadEX.simps) (simp add: new_Download_def)
  then show ?thesis using d2(2) part(5) assms(3) by (simp add: download_def new_Download_def)
qed

text \<open>
  C7. The downloader gets the whole file. The server answers every range of the file with that part of it and with a
  \<open>Content-Disposition\<close> and a \<open>Content-Range\<close>, the file has more than 1001 and less than 2 to the 63 bytes, but not 1005
  to 1007, for which empty ranges are asked for, and the download has a callback for its state. Then \<open>download\<close> returns
  0, the parts that its connections have written, one after the other, are the file, there are at most six connections,
  no range has failed, and the last thing that it reports is that the task is completed.
\<close>

theorem download_whole_file:
  assumes "serves srv nm file" and "1001 < length file" and "length file < 2 ^ 63"
    and "length file \<le> 1004 \<or> 1008 \<le> length file" and "u \<noteq> []"
  shows "\<exists>d. download srv (new_Download u True True) = Some (0, d) \<and> concat (map written (parts d)) = file \<and>
    length (parts d) = connects d \<and> connects d \<le> 6 \<and> failedRanges d = [] \<and> last (notified d) = Task_completed"
proof -
  let ?d = "new_Download u True True"
  have pos: "0 < length file" using assms(2) by linarith
  from first_part [OF assms(1) pos assms(3,5)] obtain h d2 br where
    h: "dl_connect srv 0 1000 ?d = Some (Some h, ?d\<lparr>connects := 1, parts := [h]\<rparr>)" "is_part file 0 (min 1000 (length file - 1)) h"
    and d2: "run_updates (updates h) (?d\<lparr>connects := 1, parts := [h]\<rparr>) = Some d2"
      "d2 = ?d\<lparr>connects := 1, parts := [h], bytesRemained := br, notified := map Task_updated (updates h)\<rparr>" .
  let ?d3 = "d2\<lparr>d_size := length file, bytesRemained := length file\<rparr>"
  have m: "min 1000 (length file - 1) = 1000" using assms(2) by simp
  have part: "h_status h = RANGE_MATCH" "rangeBegin h = 0" "rangeEnd h = 1000" "fileSize h = length file"
    "bytesDownloaded h = 1001"
    using h(2) unfolding m by (simp_all add: is_part_def)
  have c1: "cover file 0 [h] 1001" using h(2) assms(2) cover_one [where s = 0 and e = 1000 and h = h] unfolding m by simp
  have rest: "1001 + (length file - 1001) = length file" "length file - 1001 < 4 \<or> 7 \<le> length file - 1001" using assms(2,4) by auto
  obtain hs us k where rem: "downloadRemain srv (length file - 1001) 1001 ?d3 = Some (0, ?d3\<lparr>connects := k, parts := parts ?d3 @ hs,
      bytesRemained := bytesRemained ?d3 - (length file - 1001), notified := notified ?d3 @ us\<rparr>)" "cover file 1001 hs (length file)" "length hs \<le> 5" "k = 1 + length hs"
    using downloadRemain_good [OF assms(1,3) _ _ _ _ rest(2,1), of ?d3] assms(3) d2(2) by (auto simp: new_Download_def)
  have "u64_sub (length file) 1001 = length file - 1001" using assms(2,3) by (simp add: uint_simps)
  then have "downloadEX srv ?d = Some (0, ?d3\<lparr>connects := k, parts := parts ?d3 @ hs,
      bytesRemained := bytesRemained ?d3 - (length file - 1001), notified := notified ?d3 @ us\<rparr>)"
    using h(1) d2(1) part rem(1) assms(2,5)
    by (subst downloadEX.simps) (simp add: new_Download_def uint_simps)
  moreover have "concat (map written (h # hs)) = file"
    using cover_facts [OF cover_append [OF c1 rem(2)]] by simp
  ultimately show ?thesis
    using d2(2) assms(2) rem(3,4) by (simp add: download_def new_Download_def)
qed

definition sample_server :: "string \<Rightarrow> bytes \<Rightarrow> server" where
  "sample_server nm file k b e =
     (let e1 = min e (length file - 1)
      in Some \<lparr>r_status = 206, r_message = new_message\<lparr>headers := new_headers\<lparr>
            codes := [HTTP_HEADER_CONTENT_DISPOSITION, HTTP_HEADER_CONTENT_RANGE],
            headerValues := [disposition nm, content_range b e1 (length file)]\<rparr>\<rparr>,
          r_bodies = [file_slice b e1 file], r_complete = True\<rparr>)"

lemma sample_serves: "serves (sample_server nm file) nm file"
  by (simp add: serves_def sample_server_def range_response_def getHeaderValue_def header_at_def at_def Let_def)

theorem download_whole_file_witness:
  "\<exists>d. download (sample_server ''f'' (replicate 1002 CHR ''x'')) (new_Download ''http://h/f'' True True) = Some (0, d) \<and>
     concat (map written (parts d)) = replicate 1002 CHR ''x'' \<and> last (notified d) = Task_completed"
  using download_whole_file [OF sample_serves, of "replicate 1002 CHR ''x''" "''http://h/f''" "''f''"] by fastforce

end
