(* ===== verification/Spec2Isabelle.thy ===== *)
theory Spec2Isabelle
  imports Unp_Prelude Kmp Buffer_Copy Connection Epoll_Reactor Poll_Reactor Select_Reactor Http_Headers
    Thread_Pool Acceptor Wheel_Timer Http_Codec Url_Parser Tcp_Client File_Reactor Date_Util
    Downloader
begin

text \<open>
  \<^bold>\<open>The program.\<close> A C++ networking library in the style of \<^emph>\<open>Unix Network Programming\<close>: a reactor that waits for events
  on descriptors with \<open>epoll\<close>, \<open>poll\<close> or \<open>select\<close> and calls event handlers; connections with an input and an output
  buffer; a chained byte buffer; a decoder for length-prefixed messages; and an HTTP layer. All paths below are those
  of the repository, with \<open>src/\<close> for its directory of sources.

  \<^bold>\<open>How the parts interact.\<close> A connection (\<open>src/reactor/sock_connection_handler.cpp\<close>) registers itself with the reactor
  for reading or writing. The reactor implementation keeps the binding in its demultiplexing table, tells the kernel,
  waits, and calls \<open>handle_input\<close> or \<open>handle_output\<close> of the handler that the table gives for a ready handle. The
  connection reads from its stream into its input buffer and sends from its output buffer; a decoder takes messages
  from the input buffer. Timeout handlers are kept in the same tables, ordered by time.

  \<^bold>\<open>The theories, in the order of the components.\<close>

  \<^item> \<open>Unp_Prelude\<close>: machine integers with their wrap-around, memory blocks with checked reads and writes, list facts.
    \<open>None\<close> is undefined behaviour, a failed \<open>assert\<close> or an uncaught exception; error codes are ordinary values.
  \<^item> \<open>Kmp\<close>: \<open>build_search_table\<close> and both \<open>kmp_search\<close> of \<open>src/util/substring_search/KMP.cpp\<close>. Termination and soundness
    for every pattern; completeness for the patterns whose failure table is exact (the table is built without falling
    back along the borders, so it is not exact in general).
  \<^item> \<open>Byte_Queue\<close>: the interface of a byte queue as a locale (append, remove and drain against an abstract list of
    bytes) and what follows from its laws for any sequence of operations.
  \<^item> \<open>Buffer_Chain\<close>, \<open>Buffer\<close>, \<open>Buffer_Iter\<close>, \<open>Buffer_Copy\<close>: \<open>buffer_chain\<close>, \<open>buffer_iter\<close> and \<open>buffer\<close> of
    \<open>src/reactor/buffer.h\<close> and \<open>buffer.cpp\<close>. A buffer is a list of chains, each a block of memory with an offset and a
    misalignment. Every operation is modelled on the blocks; the lemmas give its effect on the bytes that the buffer
    holds. \<open>Buffer\<close> interprets the locale of \<open>Byte_Queue\<close>.
  \<^item> \<open>Decoder\<close>: \<open>Decoder\<close> of \<open>src/proto/decoder.h\<close>, with the protobuf parser as a parameter. Whole frames, frames in two
    pieces, and the three ways in which it goes wrong: a length of which fewer than eight bytes are there, an empty
    payload, and a payload that does not parse.
  \<^item> \<open>Socket\<close>, \<open>Connection\<close>: descriptors and streams (\<open>src/net/fd.cpp\<close>, \<open>inet_sock.cpp\<close>, \<open>sock_stream.cpp\<close>) and
    \<open>connection_handler\<close>, \<open>sock_connection_handler\<close> of \<open>src/reactor/\<close>. The answers of \<open>::read\<close> and \<open>::send\<close> are arguments.
    Sending, receiving, and that registrations with the reactor stay balanced in every reachable state.
  \<^item> \<open>Handler_Table\<close>: the interface of a demultiplexing table as two locales; \<open>Event_Repo\<close> (\<open>PollEventRepo\<close>),
    \<open>Poll_Table\<close> (\<open>poll_demultiplex_table\<close>) and \<open>Select_Table\<close> (\<open>select_demultiplex_table\<close>) interpret them on the
    tables of the three reactors. What \<open>Event_Repo\<close> shows of every sequence of calls includes \<open>unbind(int)\<close>, which
    forgets the other handles; that the handle set is exact is shown for sequences in which it does not.
  \<^item> \<open>Epoller\<close>, \<open>Epoll_Reactor\<close>: \<open>src/reactor/epoller.cpp\<close> and \<open>epoll_reactor_impl.cpp\<close>; the kernel's interest list is part
    of the state and its answers are parameters. Calls that fail half way, and turns with a handle that is ready both
    ways, are treated by lemmas of their own; timer handlers may register again.
  \<^item> \<open>Poll_Reactor\<close>: \<open>src/reactor/poll_reactor_impl.cpp\<close>. \<open>Handle_Set\<close>: \<open>src/net/handle_set.h\<close>. \<open>Select_Reactor\<close>:
    \<open>src/reactor/select_reactor_impl.cpp\<close>. For each reactor: registration keeps the table and what the kernel is told in
    agreement, and one turn calls the handlers of the reported handles, when the handlers leave the reactor alone;
    further lemmas show what goes wrong when they do not.
  \<^item> \<open>String_Piece\<close>: C strings and \<open>Range<const char*>\<close> of \<open>src/util/string_piece/string_piece.h\<close>.
  \<^item> \<open>Http_Header_Code\<close>: the gperf table of common header names (\<open>src/http/gperf/\<close>) and \<open>src/http/HttpCommomHeaders.cpp\<close>;
    the perfect hash answers like a search through the list of names.
  \<^item> \<open>Http_Headers\<close>: \<open>HttpHeaders\<close> of \<open>src/http/HttpHeaders.cpp\<close> on an explicit heap of name blocks.
  \<^item> \<open>Http_Message\<close>: methods and messages of \<open>src/http/\<close>, with the cookie parser and the writing of a request; \<open>Http_Codec\<close>:
    \<open>Http1xCodec\<close> and \<open>HttpParserWrapper\<close>, which make a message of the callbacks of the parser; \<open>Url_Parser\<close>: \<open>URLParser\<close>.
  \<^item> \<open>Handle_Wait\<close>: the functions of \<open>src/net/unp.cpp\<close> that wait for one handle. \<open>Acceptor\<close>: \<open>src/net/sock_acceptor.cpp\<close>,
    \<open>src/reactor/acceptor.cpp\<close> and \<open>acceptor.h\<close>; connections are stored under their descriptors and given to the
    reactors in turn. The invariant is over sequences of all operations, and says which of them the count and the index
    of the next reactor do not survive.
  \<^item> \<open>Reactor_Facade\<close>: the class \<open>Reactor\<close> and \<open>EventFD\<close> (\<open>src/reactor/reactor.h\<close>, \<open>EventFD.cpp\<close>). The virtual functions of
    an implementation are a record; the locale \<open>reactor_implementation\<close> states what the facade relies on, is interpreted
    on the epoll, the poll and the file reactor, and carries the lemmas on registering, the constructor and waking up.
  \<^item> \<open>Tcp_Client\<close>: \<open>sock_connector\<close>, \<open>connector\<close>, \<open>ConnectionManager\<close> and \<open>tcp_client\<close>. When a connect succeeds, for
    all answers of the kernel, the invariant of the manager under all its operations, and that the loop of a client ends after \<open>suspend\<close> or without connections; the loop works
    off a list of turns, one element for each, so that the theorems say in which turn it ends.
  \<^item> \<open>File_Reactor\<close>: \<open>FileReactorImpl\<close>, which calls every handler of its table in every turn; a handler may fail and
    unregister itself, as the one for files does at the end of its file.
  \<^item> \<open>Http_Client\<close>: \<open>HttpHandler\<close> and \<open>HttpClient\<close> of \<open>src/http/HttpClient.cpp\<close> and \<open>.h\<close>, which put connection, buffers, codec,
    message and client together. For every parser, \<open>handle_input\<close> is exactly the codec on the pieces of the input buffer;
    a request goes from the parts of a URL to the wire.
  \<^item> \<open>X_String\<close>: \<open>util::string\<close> of \<open>src/util/XString.h\<close> on explicit blocks of memory. It interprets the locale of \<open>Op_Refinement\<close>
    (a refinement shown for each operation and carried to sequences), as \<open>Http_Headers\<close> does.
  \<^item> \<open>Downloader\<close>: \<open>Handler\<close> and \<open>Download\<close> of \<open>src/downloader/\<close> and \<open>FileWriter\<close>: the headers are parsed back, a part is written
    as it is received, and the parts of a whole download make up the file. A response is handled when its connect is made,
    where the program handles it in the event loop; the handlers of the connections are independent.
  \<^item> \<open>Date_Util\<close>: \<open>src/util/unp_date.cpp\<close>: day numbers against the Gregorian calendar, with the arithmetic of \<open>int\<close>.
  \<^item> \<open>Thread_Pool\<close>: \<open>src/thread/thread_pool.cpp\<close>, with one program counter per thread and any interleaving.
  \<^item> \<open>Wheel_Timer\<close>: \<open>HHWheelTimer\<close> and \<open>TimeoutHandler\<close> of \<open>src/reactor/\<close>: the expiry loop is exact on a wheel that is
    prepared for the next tick, scheduling keeps the wheel prepared, and runs in which the code leaves that invariant. Times and ticks are
    unbounded integers; \<open>times_fit\<close> gives the range in which the arithmetic of the program, in \<open>int64_t\<close>, is the same.

  \<^bold>\<open>Loops and bounds.\<close> Loops that always end are \<open>fun\<close> or \<open>function\<close> with a measure. Loops of which that has to be shown, or
  that may not end, are \<open>partial_function (option)\<close>, with lemmas that say when they return and when not. The
  only fuel is the depth of the mutual calls of \<open>handle_timeout\<close> and \<open>timeoutExpired\<close>; the runs that are shown give
  the depth that they need. Lengths are assumed below the width of the integer that holds them where a statement says so.

  \<^bold>\<open>Parameters.\<close> System calls (\<open>epoll_ctl\<close>, \<open>epoll_wait\<close>, \<open>poll\<close>, \<open>select\<close>, \<open>read\<close>, \<open>send\<close>, \<open>close\<close>), the clock, the user's event
  handlers and the protobuf parser are arguments of the definitions that use them. So is the nodejs http\_parser, third-party
  code that the repository includes as a copy: the theorems hold for every parser, and nothing is assumed of it.

  \<^bold>\<open>Not modelled.\<close> The vendored libraries easylogging++, json11 and the nodejs http\_parser; log output;
  TLS streams, addresses and their resolution; the blocking mode of descriptors; file streams; the \<open>tcp_server\<close>
  and the echo and file handlers, which call the parts above and boost; the file utilities and the printing of
  dates; the packages of the synchronisation protocol, which are generated classes; configuration, database, and
  the example programs and the download server. The percentage that a download reports is a \<open>float\<close> and left out.
\<close>

end
